(* ===== verification/Prelude.thy ===== *)
theory Prelude
  imports Main "HOL-Library.Word"
begin

text \<open>
  Types, arithmetic and byte-level helpers shared by every component.

  A byte is an 8-bit word.  A \<^verbatim>\<open>size_t\<close> is a natural number below \<open>2 ^ 64\<close> (the
  iOS targets are LP64); every place where the C code adds two sizes uses \<open>size_add\<close>, which
  writes the wrap-around out.  Memory, where a component works through raw pointers, is a function from
  addresses to bytes, so that an out-of-bounds write is visible in the model as a changed byte.
\<close>

unbundle bit_operations_syntax

section \<open>Machine types\<close>

type_synonym byte = "8 word"
type_synonym u16 = "16 word"
type_synonym u32 = "32 word"
type_synonym u64 = "64 word"
type_synonym mem = "nat \<Rightarrow> byte"

named_theorems codec_simps \<open>equations that evaluate encoders and decoders on words\<close>

definition size_max :: nat where
  "size_max = 2 ^ 64"

definition size_add :: "nat \<Rightarrow> nat \<Rightarrow> nat" where
  "size_add a b = (a + b) mod size_max"

lemma size_add_small [simp]: "a + b < size_max \<Longrightarrow> size_add a b = a + b"
  by (simp add: size_add_def)

lemma size_add_less: "size_add a b < size_max"
  by (simp add: size_add_def size_max_def)

lemma size_add_no_wrap:
  assumes "a < size_max" "b < size_max" "\<not> size_add a b < a"
  shows "size_add a b = a + b \<and> a + b < size_max"
proof (cases "a + b < size_max")
  case True
  then show ?thesis by simp
next
  case False
  then have "size_add a b = a + b - size_max"
    using assms(1,2) by (simp add: size_add_def mod_if)
  then show ?thesis using assms False by linarith
qed

section \<open>Byte-addressed memory\<close>

definition read_bytes :: "mem \<Rightarrow> nat \<Rightarrow> nat \<Rightarrow> byte list" where
  "read_bytes m a n = map (\<lambda>i. m (a + i)) [0..<n]"

definition write_bytes :: "mem \<Rightarrow> nat \<Rightarrow> byte list \<Rightarrow> mem" where
  "write_bytes m a bs = (\<lambda>x. if a \<le> x \<and> x < a + length bs then bs ! (x - a) else m x)"

lemma length_read_bytes [simp]: "length (read_bytes m a n) = n"
  by (simp add: read_bytes_def)

lemma nth_read_bytes [simp]: "i < n \<Longrightarrow> read_bytes m a n ! i = m (a + i)"
  by (simp add: read_bytes_def)

lemma read_bytes_0 [simp]: "read_bytes m a 0 = []"
  by (simp add: read_bytes_def)

lemma read_bytes_Suc: "read_bytes m a (Suc n) = m a # read_bytes m (Suc a) n"
  by (rule nth_equalityI) (auto simp: nth_Cons split: nat.splits)

lemma read_bytes_add: "read_bytes m a (n + k) = read_bytes m a n @ read_bytes m (a + n) k"
  by (rule nth_equalityI) (auto simp: nth_append)

lemma read_bytes_cong:
  "(\<And>x. a \<le> x \<Longrightarrow> x < a + n \<Longrightarrow> m x = m' x) \<Longrightarrow> read_bytes m a n = read_bytes m' a n"
  by (rule nth_equalityI) auto

lemma write_bytes_Nil [simp]: "write_bytes m a [] = m"
  by (rule ext) (auto simp: write_bytes_def)

lemma write_bytes_outside [simp]: "x < a \<or> a + length bs \<le> x \<Longrightarrow> write_bytes m a bs x = m x"
  by (auto simp: write_bytes_def)

lemma write_bytes_inside: "i < length bs \<Longrightarrow> write_bytes m a bs (a + i) = bs ! i"
  by (simp add: write_bytes_def)

lemma read_write_same [simp]: "read_bytes (write_bytes m a bs) a (length bs) = bs"
  by (rule nth_equalityI) (auto simp: write_bytes_inside)

lemma write_bytes_append:
  "write_bytes (write_bytes m a bs) (a + length bs) cs = write_bytes m a (bs @ cs)"
proof (rule ext)
  fix x
  consider "x < a" | "a \<le> x" "x < a + length bs" | "a + length bs \<le> x" by linarith
  then show "write_bytes (write_bytes m a bs) (a + length bs) cs x = write_bytes m a (bs @ cs) x"
    by cases (auto simp: write_bytes_def nth_append)
qed

section \<open>Words\<close>

lemma word_eq_iff_unat: "(a :: 'a::len word) = b \<longleftrightarrow> unat a = unat b"
  by (simp add: word_unat_eq_iff)

lemma unat_bound: "unat (w :: 'a::len word) < 2 ^ LENGTH('a)"
  by (rule unsigned_less)

lemma unat_drop_bit: "unat (drop_bit n (w :: 'a::len word)) = unat w div 2 ^ n"
  by (subst unat_drop_bit_eq) (simp add: drop_bit_eq_div)

lemma unat_and_mask: "unat (w AND mask n) = unat (w :: 'a::len word) mod 2 ^ n"
  unfolding take_bit_eq_mask [symmetric] unsigned_take_bit_eq by (simp add: take_bit_eq_mod)

lemma nat_shift_or: "(y :: nat) < 2 ^ k \<Longrightarrow> push_bit k x OR y = x * 2 ^ k + y"
proof -
  assume y: "y < 2 ^ k"
  have "\<not> bit (push_bit k x) n \<or> \<not> bit y n" for n
  proof (cases "n < k")
    case False
    then have "y < 2 ^ n" using y by (meson less_le_trans not_less one_le_numeral power_increasing)
    then show ?thesis by (simp add: bit_iff_odd)
  qed (simp add: bit_push_bit_iff)
  then have "push_bit k x + y = push_bit k x OR y" by (rule disjunctive_add)
  then show ?thesis by (simp add: push_bit_eq_mult)
qed

lemma unat_shift_or:
  fixes v w :: "'a::len word"
  assumes "unat w < 2 ^ k" "unat v * 2 ^ k < 2 ^ LENGTH('a)"
  shows "unat (push_bit k v OR w) = unat v * 2 ^ k + unat w"
proof -
  have "unat (push_bit k v) = push_bit k (unat v)"
    unfolding unsigned_push_bit_eq using assms(2) by (intro take_bit_nat_eq_self) (simp add: push_bit_eq_mult)
  then show ?thesis
    using nat_shift_or [OF assms(1), of "unat v"] by (simp add: unsigned_or_eq)
qed

lemma drop_bit_eq_0_iff: "drop_bit k (v :: 'a::len word) = 0 \<longleftrightarrow> unat v < 2 ^ k"
  by (simp add: word_eq_iff_unat unat_drop_bit div_eq_0_iff)

lemma byte_and_0x80: "(b :: byte) AND 0x80 = 0 \<longleftrightarrow> unat b < 128"
proof -
  have "b AND 0x80 = 0 \<longleftrightarrow> \<not> bit b 7"
    using and_exp_eq_0_iff_not_bit [of b 7] by simp
  also have "\<dots> \<longleftrightarrow> \<not> bit (unat b) 7"
    by (simp add: bit_unsigned_iff)
  also have "\<dots> \<longleftrightarrow> unat b < 128"
  proof (cases "unat b < 128")
    case False
    have "unat b div 128 = 1"
      using False unat_bound [of b] by (intro div_nat_eqI) auto
    with False show ?thesis by (simp add: bit_iff_odd)
  qed (simp add: bit_iff_odd)
  finally show ?thesis .
qed

lemma unat_and_0x7f: "unat ((b :: byte) AND 0x7f) = unat b mod 128"
  using unat_and_mask [of b 7] by (simp add: mask_eq_exp_minus_1)

lemma unat_of_nat_small: "n < 2 ^ LENGTH('a) \<Longrightarrow> unat (word_of_nat n :: 'a::len word) = n"
  by (simp add: unat_of_nat)

lemma unat_eq_imp: "unat w = n \<Longrightarrow> w = word_of_nat n"
  by auto

lemma unat_ucast_up:
  "LENGTH('a::len) \<le> LENGTH('b::len) \<Longrightarrow> unat (ucast (w :: 'a word) :: 'b word) = unat w"
  using unat_bound [of w] 
  by (metis less_le_trans one_le_numeral power_increasing take_bit_nat_eq_self unsigned_ucast_eq)

lemma unat_ucast_down: "unat (ucast (w :: 'a::len word) :: 'b::len word) = unat w mod 2 ^ LENGTH('b)"
  by (simp add: unsigned_ucast_eq take_bit_eq_mod)

lemma digit_eq_iff:
  fixes b c k c' k' :: nat
  assumes "k < b" "k' < b"
  shows "b * c + k = b * c' + k' \<longleftrightarrow> c = c' \<and> k = k'"
proof
  assume eq: "b * c + k = b * c' + k'"
  have "(b * c + k) div b = c" "(b * c' + k') div b = c'" "(b * c + k) mod b = k" "(b * c' + k') mod b = k'"
    using assms by simp_all
  with eq show "c = c' \<and> k = k'" by simp
qed simp

end
