(* ===== verification/Codec.thy ===== *)
theory Codec
  imports Prelude
begin

text \<open>
  The interface between an encoder and the decoder that reads its output back.  A
  \<open>byte_input\<close> is anything a decoder consumes: \<open>view\<close> is what is left to read and \<open>skip\<close> consumes a
  number of bytes.  A \<open>codec\<close> on it is a pair of functions where the decoder, started on the
  encoding of a valid value followed by anything, returns that value and consumes its encoding
  exactly.  What follows from that alone is proved here once and instantiated for nanopb's varints,
  zigzag varints, fixed-width integers and tags and for BoringSSL's big-endian integers.
\<close>

text \<open>Running a decoder a given number of times, as the loops over packed arrays do.\<close>

fun dec_n :: "('s \<Rightarrow> 'a option \<times> 's) \<Rightarrow> nat \<Rightarrow> 's \<Rightarrow> 'a list option \<times> 's" where
  "dec_n dec 0 s = (Some [], s)"
| "dec_n dec (Suc n) s =
     (case dec s of
        (None, s') \<Rightarrow> (None, s')
      | (Some v, s') \<Rightarrow>
          (case dec_n dec n s' of
             (None, s'') \<Rightarrow> (None, s'')
           | (Some vs, s'') \<Rightarrow> (Some (v # vs), s'')))"

locale byte_input =
  fixes ok :: "'s \<Rightarrow> bool"
    and view :: "'s \<Rightarrow> byte list"
    and skip :: "'s \<Rightarrow> nat \<Rightarrow> 's"
  assumes ok_skip: "ok s \<Longrightarrow> ok (skip s n)"
    and view_skip: "ok s \<Longrightarrow> view (skip s n) = drop n (view s)"
    and skip_skip: "skip (skip s a) b = skip s (a + b)"
    and skip_0: "skip s 0 = s"
    and view_onto: "\<exists>s. ok s \<and> view s = bs"

locale codec = byte_input +
  fixes valid :: "'a \<Rightarrow> bool"
    and enc :: "'a \<Rightarrow> byte list"
    and dec :: "'s \<Rightarrow> 'a option \<times> 's"
  assumes dec_enc:
    "ok s \<Longrightarrow> valid v \<Longrightarrow> view s = enc v @ r \<Longrightarrow> dec s = (Some v, skip s (length (enc v)))"
begin

text \<open>The encoding is a prefix code: it can be followed by anything.\<close>

lemma enc_prefix_free:
  assumes "valid v" "valid w" "enc v @ r = enc w @ r'"
  shows "v = w \<and> r = r'"
proof -
  obtain s where s: "ok s" "view s = enc v @ r"
    using view_onto by blast
  have "dec s = (Some v, skip s (length (enc v)))"
    by (rule dec_enc [OF s(1) assms(1) s(2)])
  moreover have "dec s = (Some w, skip s (length (enc w)))"
    using s assms by (intro dec_enc [where r = r']) auto
  ultimately have "v = w" by simp
  with assms(3) show ?thesis by simp
qed

lemma enc_inj: "valid v \<Longrightarrow> valid w \<Longrightarrow> enc v = enc w \<Longrightarrow> v = w"
  using enc_prefix_free [of v w "[]" "[]"] by simp

text \<open>A concatenation of encodings is read back value by value.\<close>

lemma dec_n_enc:
  "ok s \<Longrightarrow> \<forall>v \<in> set vs. valid v \<Longrightarrow> view s = concat (map enc vs) @ r \<Longrightarrow>
   dec_n dec (length vs) s = (Some vs, skip s (length (concat (map enc vs))))"
proof (induction vs arbitrary: s)
  case Nil
  then show ?case by (simp add: skip_0)
next
  case (Cons v vs)
  let ?s = "skip s (length (enc v))"
  have "dec s = (Some v, ?s)"
    using Cons.prems by (intro dec_enc [where r = "concat (map enc vs) @ r"]) auto
  moreover have "dec_n dec (length vs) ?s = (Some vs, skip ?s (length (concat (map enc vs))))"
    using Cons.prems by (intro Cons.IH) (auto simp: ok_skip view_skip)
  ultimately show ?case
    by (simp add: skip_skip)
qed

end

end
