(* ===== verification/Pb_Stream.thy ===== *)
theory Pb_Stream
  imports Codec
begin

text \<open>
  The byte streams of nanopb: \<^verbatim>\<open>pb_ostream_t\<close> (\<^verbatim>\<open>pb_encode.c\<close>) and
  \<^verbatim>\<open>pb_istream_t\<close> (\<^verbatim>\<open>pb_decode.c\<close>).

  A stream's \<^verbatim>\<open>callback\<close> and \<^verbatim>\<open>state\<close> members are one value of the model: an output
  stream is a sizing stream (callback \<^verbatim>\<open>NULL\<close>), a memory buffer (callback \<^verbatim>\<open>buf_write\<close>, whose
  state is a pointer into memory) or a user callback with its state; an input stream is a memory
  buffer (callback \<^verbatim>\<open>buf_read\<close>) or a user callback.  User callbacks are arguments of the model;
  as \<^verbatim>\<open>pb_encode.h\<close> and \<^verbatim>\<open>pb_decode.h\<close> ask of them, they work on their own state only.
  A call that returns \<^verbatim>\<open>false\<close> is \<open>None\<close> (or \<open>False\<close>) paired with the stream it leaves.
\<close>

section \<open>Output streams\<close>

datatype 'u pb_sink =
    is_Sizing: Sizing
  | is_Buf_write: Buf_write mem nat
  | is_User_write: User_write "'u \<Rightarrow> byte list \<Rightarrow> bool \<times> 'u" 'u

record 'u pb_ostream =
  sink :: "'u pb_sink"
  max_size :: nat
  bytes_written :: nat
  os_errmsg :: "string option"

definition pb_set_oerror :: "'u pb_ostream \<Rightarrow> string \<Rightarrow> 'u pb_ostream" where
  "pb_set_oerror s msg =
     s\<lparr>os_errmsg := (case os_errmsg s of None \<Rightarrow> Some msg | Some e \<Rightarrow> Some e)\<rparr>"

definition PB_OSTREAM_SIZING :: "'u pb_ostream" where
  "PB_OSTREAM_SIZING = \<lparr>sink = Sizing, max_size = 0, bytes_written = 0, os_errmsg = None\<rparr>"

text \<open>The stream's write callback applied to \<open>buf\<close>: \<^verbatim>\<open>buf_write\<close> copies the bytes to the
  pointer held in \<^verbatim>\<open>state\<close> and advances it.\<close>

fun buf_write :: "'u pb_sink \<Rightarrow> byte list \<Rightarrow> bool \<times> 'u pb_sink" where
  "buf_write Sizing buf = (True, Sizing)"
| "buf_write (Buf_write m dest) buf = (True, Buf_write (write_bytes m dest buf) (dest + length buf))"
| "buf_write (User_write f u) buf = (case f u buf of (ok, u') \<Rightarrow> (ok, User_write f u'))"

definition pb_ostream_from_buffer :: "mem \<Rightarrow> nat \<Rightarrow> nat \<Rightarrow> 'u pb_ostream" where
  "pb_ostream_from_buffer m buf bufsize =
     \<lparr>sink = Buf_write m buf, max_size = bufsize, bytes_written = 0, os_errmsg = None\<rparr>"

text \<open>\<open>buf\<close> holds the bytes from the pointer argument on; the code passes a null pointer (here
  the empty list) only together with a sizing stream, which never looks at it.\<close>

definition pb_write :: "'u pb_ostream \<Rightarrow> byte list \<Rightarrow> nat \<Rightarrow> bool \<times> 'u pb_ostream" where
  "pb_write s buf count =
     (if count > 0 \<and> \<not> is_Sizing (sink s) then
        if size_add (bytes_written s) count < bytes_written s \<or>
           size_add (bytes_written s) count > max_size s
        then (False, pb_set_oerror s ''stream full'')
        else
          (case buf_write (sink s) (take count buf) of
             (ok, k) \<Rightarrow>
               if \<not> ok then (False, pb_set_oerror (s\<lparr>sink := k\<rparr>) ''io error'')
               else (True, s\<lparr>sink := k, bytes_written := size_add (bytes_written s) count\<rparr>))
      else (True, s\<lparr>bytes_written := size_add (bytes_written s) count\<rparr>))"

section \<open>Input streams\<close>

datatype 'u pb_source =
    is_Buf_read: Buf_read mem nat
  | is_User_read: User_read "'u \<Rightarrow> nat \<Rightarrow> (nat \<Rightarrow> byte) option \<times> 'u" 'u

record 'u pb_istream =
  src :: "'u pb_source"
  bytes_left :: nat
  is_errmsg :: "string option"

definition pb_set_ierror :: "'u pb_istream \<Rightarrow> string \<Rightarrow> 'u pb_istream" where
  "pb_set_ierror s msg =
     s\<lparr>is_errmsg := (case is_errmsg s of None \<Rightarrow> Some msg | Some e \<Rightarrow> Some e)\<rparr>"

text \<open>The stream's read callback asked for \<open>count\<close> bytes: \<^verbatim>\<open>buf_read\<close> copies them from
  the pointer held in \<^verbatim>\<open>state\<close> and advances it.\<close>

fun buf_read :: "'u pb_source \<Rightarrow> nat \<Rightarrow> byte list option \<times> 'u pb_source" where
  "buf_read (Buf_read m p) count = (Some (read_bytes m p count), Buf_read m (p + count))"
| "buf_read (User_read f u) count =
     (case f u count of
        (None, u') \<Rightarrow> (None, User_read f u')
      | (Some g, u') \<Rightarrow> (Some (map g [0..<count]), User_read f u'))"

definition pb_istream_from_buffer :: "mem \<Rightarrow> nat \<Rightarrow> nat \<Rightarrow> 'u pb_istream" where
  "pb_istream_from_buffer m buf bufsize =
     \<lparr>src = Buf_read m buf, bytes_left = bufsize, is_errmsg = None\<rparr>"

text \<open>\<open>pb_read\<close> with a destination buffer: the bytes read are the result.\<close>

definition pb_read :: "'u pb_istream \<Rightarrow> nat \<Rightarrow> byte list option \<times> 'u pb_istream" where
  "pb_read s count =
     (if count = 0 then (Some [], s)
      else if bytes_left s < count then (None, pb_set_ierror s ''end-of-stream'')
      else
        (case buf_read (src s) count of
           (None, k) \<Rightarrow> (None, pb_set_ierror (s\<lparr>src := k\<rparr>) ''io error'')
         | (Some bs, k) \<Rightarrow> (Some bs, s\<lparr>src := k, bytes_left := bytes_left s - count\<rparr>)))"

text \<open>\<open>pb_read\<close> with a null destination: \<^verbatim>\<open>buf_read\<close> skips in one step, a user callback is
  drained in chunks of sixteen bytes.\<close>

fun pb_read_chunks :: "'u pb_istream \<Rightarrow> nat \<Rightarrow> bool \<times> 'u pb_istream" where
  "pb_read_chunks s count =
     (if count > 16 then
        (case pb_read s 16 of
           (None, s') \<Rightarrow> (False, s')
         | (Some _, s') \<Rightarrow> pb_read_chunks s' (count - 16))
      else (case pb_read s count of (r, s') \<Rightarrow> (r \<noteq> None, s')))"

declare pb_read_chunks.simps [simp del]

definition pb_read_null :: "'u pb_istream \<Rightarrow> nat \<Rightarrow> bool \<times> 'u pb_istream" where
  "pb_read_null s count =
     (if count = 0 then (True, s)
      else if is_User_read (src s) then pb_read_chunks s count
      else (case pb_read s count of (r, s') \<Rightarrow> (r \<noteq> None, s')))"

definition pb_readbyte :: "'u pb_istream \<Rightarrow> byte option \<times> 'u pb_istream" where
  "pb_readbyte s =
     (if bytes_left s = 0 then (None, pb_set_ierror s ''end-of-stream'')
      else
        (case buf_read (src s) 1 of
           (None, k) \<Rightarrow> (None, pb_set_ierror (s\<lparr>src := k\<rparr>) ''io error'')
         | (Some bs, k) \<Rightarrow> (Some (hd bs), s\<lparr>src := k, bytes_left := bytes_left s - 1\<rparr>)))"

section \<open>Bounds of output streams\<close>

text \<open>A stream is well formed when its counters are below \<open>2 ^ 64\<close> and, unless it only counts,
  it has not written more than it may.\<close>

definition ostream_ok :: "'u pb_ostream \<Rightarrow> bool" where
  "ostream_ok s \<longleftrightarrow> max_size s < size_max \<and> bytes_written s < size_max \<and>
     (\<not> is_Sizing (sink s) \<longrightarrow> bytes_written s \<le> max_size s)"

lemma is_Sizing_buf_write [simp]: "is_Sizing (snd (buf_write k bs)) = is_Sizing k"
  by (cases k) (auto split: prod.splits)

lemma pb_set_oerror_sel [simp]:
  "sink (pb_set_oerror s e) = sink s" "max_size (pb_set_oerror s e) = max_size s"
  "bytes_written (pb_set_oerror s e) = bytes_written s"
  by (simp_all add: pb_set_oerror_def)

lemma pb_write_ostream_ok:
  assumes "ostream_ok s" and "pb_write s buf n = (r, s')"
  shows "ostream_ok s' \<and> max_size s' = max_size s \<and> is_Sizing (sink s') = is_Sizing (sink s)"
proof -
  have "is_Sizing k = is_Sizing (sink s)" if "buf_write (sink s) bs = (ok, k)" for bs ok k
    using that is_Sizing_buf_write [of "sink s" bs] by simp
  with assms show ?thesis
    by (auto simp: pb_write_def ostream_ok_def size_add_less split: if_splits prod.splits)
qed

section \<open>What an input stream still holds\<close>

text \<open>For a memory stream, \<open>ibuf\<close> is the list of bytes between its pointer and its end, and
  \<open>iskip\<close> moves the pointer.\<close>

definition ibuf :: "'u pb_istream \<Rightarrow> byte list" where
  "ibuf s = (case src s of Buf_read m p \<Rightarrow> read_bytes m p (bytes_left s) | User_read _ _ \<Rightarrow> [])"

definition istream_ok :: "'u pb_istream \<Rightarrow> bool" where
  "istream_ok s \<longleftrightarrow> is_Buf_read (src s)"

definition iskip :: "'u pb_istream \<Rightarrow> nat \<Rightarrow> 'u pb_istream" where
  "iskip s n = s\<lparr>src := (case src s of Buf_read m p \<Rightarrow> Buf_read m (p + n) | User_read f u \<Rightarrow> User_read f u),
     bytes_left := bytes_left s - n\<rparr>"

lemma istream_ok_iskip [simp]: "istream_ok (iskip s n) = istream_ok s"
  by (simp add: istream_ok_def iskip_def split: pb_source.splits)

lemma is_errmsg_iskip [simp]: "is_errmsg (iskip s n) = is_errmsg s"
  by (simp add: iskip_def)

lemma bytes_left_iskip [simp]: "bytes_left (iskip s n) = bytes_left s - n"
  by (simp add: iskip_def)

lemma iskip_0 [simp]: "iskip s 0 = s"
  by (cases s) (simp add: iskip_def split: pb_source.splits)

lemma iskip_iskip [simp]: "iskip (iskip s a) b = iskip s (a + b)"
  by (cases s) (auto simp: iskip_def split: pb_source.splits)

lemma length_ibuf: "istream_ok s \<Longrightarrow> length (ibuf s) = bytes_left s"
  by (cases "src s") (auto simp: istream_ok_def ibuf_def)

lemma ibuf_iskip [simp]:
  assumes "istream_ok s"
  shows "ibuf (iskip s n) = drop n (ibuf s)"
  using assms
  by (auto simp: istream_ok_def ibuf_def iskip_def add.assoc split: pb_source.splits
        intro!: nth_equalityI)

lemma ibuf_from_buffer [simp]: "ibuf (pb_istream_from_buffer m p n) = read_bytes m p n"
  by (simp add: ibuf_def pb_istream_from_buffer_def)

lemma istream_ok_from_buffer [simp]: "istream_ok (pb_istream_from_buffer m p n)"
  by (simp add: istream_ok_def pb_istream_from_buffer_def)

lemma ex_istream: "\<exists>s. istream_ok (s :: 'u pb_istream) \<and> ibuf s = bs"
proof -
  have "read_bytes (\<lambda>i. bs ! i) 0 (length bs) = bs"
    by (rule nth_equalityI) auto
  then show ?thesis
    by (intro exI [of _ "pb_istream_from_buffer (\<lambda>i. bs ! i) 0 (length bs)"]) simp
qed

lemma pb_read_append:
  assumes "istream_ok s" and "ibuf s = bs @ r"
  shows "pb_read s (length bs) = (Some bs, iskip s (length bs))"
proof -
  obtain m p where src: "src s = Buf_read m p"
    using assms(1) by (cases "src s") (auto simp: istream_ok_def)
  have len: "bytes_left s = length bs + length r"
    using assms length_ibuf [of s] by simp
  have "take (length bs) (ibuf s) = bs"
    using assms(2) by simp
  then have "read_bytes m p (length bs) = bs"
    by (simp add: ibuf_def src len read_bytes_add)
  then show ?thesis
    by (simp add: pb_read_def src len iskip_def)
qed

lemma pb_read_short:
  "length (ibuf s) < n \<Longrightarrow> istream_ok s \<Longrightarrow> pb_read s n = (None, pb_set_ierror s ''end-of-stream'')"
  by (simp add: pb_read_def length_ibuf)

lemma pb_readbyte_eq_pb_read:
  "pb_readbyte s = (case pb_read s 1 of (r, s') \<Rightarrow> (map_option hd r, s'))"
  by (auto simp: pb_readbyte_def pb_read_def split: prod.splits option.splits)

lemma pb_readbyte_Cons:
  "istream_ok s \<Longrightarrow> ibuf s = b # r \<Longrightarrow> pb_readbyte s = (Some b, iskip s 1)"
  using pb_read_append [of s "[b]" r] by (simp add: pb_readbyte_eq_pb_read)

lemma pb_readbyte_Nil:
  "istream_ok s \<Longrightarrow> ibuf s = [] \<Longrightarrow> pb_readbyte s = (None, pb_set_ierror s ''end-of-stream'')"
  using length_ibuf [of s] by (simp add: pb_readbyte_def)

lemma pb_readbyte_bytes_left:
  "pb_readbyte s = (Some b, s') \<Longrightarrow> bytes_left s' < bytes_left s"
  by (auto simp: pb_readbyte_def split: if_splits prod.splits option.splits)

lemma pb_read_bytes_left:
  "pb_read s n = (Some bs, s') \<Longrightarrow> bytes_left s' + n = bytes_left s"
  by (auto simp: pb_read_def split: if_splits prod.splits option.splits)

interpretation istream: byte_input istream_ok ibuf iskip
  by unfold_locales (auto simp: ex_istream)

section \<open>A memory stream never writes outside its buffer\<close>

text \<open>\<open>pb_write\<close> called for a list of chunks, whatever the outcome of each call.\<close>

fun pb_writes :: "'u pb_ostream \<Rightarrow> byte list list \<Rightarrow> bool list \<times> 'u pb_ostream" where
  "pb_writes s [] = ([], s)"
| "pb_writes s (c # cs) =
     (case pb_write s c (length c) of
        (ok, s') \<Rightarrow> (case pb_writes s' cs of (oks, s'') \<Rightarrow> (ok # oks, s'')))"

text \<open>The chunks whose write succeeded.\<close>

fun accepted :: "bool list \<Rightarrow> 'a list list \<Rightarrow> 'a list" where
  "accepted (ok # oks) (c # cs) = (if ok then c else []) @ accepted oks cs"
| "accepted _ _ = []"

definition written_to :: "mem \<Rightarrow> nat \<Rightarrow> nat \<Rightarrow> byte list \<Rightarrow> 'u pb_ostream \<Rightarrow> bool" where
  "written_to m buf n out s \<longleftrightarrow> sink s = Buf_write (write_bytes m buf out) (buf + length out) \<and>
     max_size s = n \<and> bytes_written s = length out \<and> length out \<le> n"

lemma written_to_from_buffer: "written_to m buf n [] (pb_ostream_from_buffer m buf n)"
  by (simp add: written_to_def pb_ostream_from_buffer_def)

lemma written_to_pb_write:
  assumes "written_to m buf n out s" "n < size_max" "length c < size_max"
    and "pb_write s c (length c) = (ok, s')"
  shows "written_to m buf n (if ok then out @ c else out) s' \<and> (ok \<longleftrightarrow> length out + length c \<le> n)"
proof (cases "length out + length c \<le> n")
  case True
  then have "size_add (length out) (length c) = length out + length c"
    using assms(2) by simp
  with True assms show ?thesis
    by (auto simp: pb_write_def written_to_def write_bytes_append add.assoc split: if_splits)
next
  case False
  have s: "sink s = Buf_write (write_bytes m buf out) (buf + length out)" "max_size s = n"
    "bytes_written s = length out" "length out \<le> n"
    using assms(1) by (simp_all add: written_to_def)
  have full: "size_add (length out) (length c) < length out \<or> n < size_add (length out) (length c)"
    using size_add_no_wrap [of "length out" "length c"] assms(2,3) s(4) False by linarith
  have "0 < length c" using False s(4) by linarith
  with full s have "pb_write s c (length c) = (False, pb_set_oerror s ''stream full'')"
    by (simp add: pb_write_def)
  with assms(1,4) False show ?thesis
    by (auto simp: written_to_def)
qed

lemma written_to_pb_writes:
  "written_to m buf n out s \<Longrightarrow> n < size_max \<Longrightarrow> \<forall>c \<in> set cs. length c < size_max \<Longrightarrow>
   pb_writes s cs = (oks, s') \<Longrightarrow> written_to m buf n (out @ accepted oks cs) s'"
proof (induction cs arbitrary: s out oks)
  case (Cons c cs)
  obtain ok t where w: "pb_write s c (length c) = (ok, t)" by (cases "pb_write s c (length c)")
  have t: "written_to m buf n (if ok then out @ c else out) t"
    using written_to_pb_write [OF Cons.prems(1,2) _ w] Cons.prems(3) by auto
  obtain oks' where "pb_writes t cs = (oks', s')" "oks = ok # oks'"
    using Cons.prems(4) w by (auto split: prod.splits)
  with Cons.IH [OF t Cons.prems(2)] Cons.prems(3) show ?case by auto
qed simp

text \<open>(C19) Whatever sequence of chunks is written to a memory stream, and however many of the writes
  are refused for lack of space, the memory afterwards is the original with the accepted chunks, in
  order, at the start of the buffer; the count is their total length and never exceeds the buffer,
  and no byte outside the buffer is changed.\<close>

theorem pb_ostream_bounds:
  assumes "n < size_max" "\<forall>c \<in> set cs. length c < size_max"
    and "pb_writes (pb_ostream_from_buffer m buf n) cs = (oks, s')"
  shows "\<exists>m'. sink s' = Buf_write m' (buf + length (accepted oks cs)) \<and>
    m' = write_bytes m buf (accepted oks cs) \<and> bytes_written s' = length (accepted oks cs) \<and>
    bytes_written s' \<le> n \<and> (\<forall>x. x < buf \<or> buf + n \<le> x \<longrightarrow> m' x = m x)"
  using written_to_pb_writes [OF written_to_from_buffer assms(1,2,3)]
  by (auto simp: written_to_def)

theorem pb_ostream_bounds_witness:
  "\<exists>m'. sink (snd (pb_writes (pb_ostream_from_buffer (\<lambda>_. 0) 8 3 :: unit pb_ostream) [[1, 2], [3, 4], [5]])) =
      Buf_write m' 11 \<and> m' 8 = 1 \<and> m' 9 = 2 \<and> m' 10 = 5 \<and> m' 11 = 0"
proof -
  have run: "pb_writes (pb_ostream_from_buffer (\<lambda>_. 0) 8 3 :: unit pb_ostream) [[1, 2], [3, 4], [5]] =
     ([True, False, True], snd (pb_writes (pb_ostream_from_buffer (\<lambda>_. 0) 8 3) [[1, 2], [3, 4], [5]]))"
    by (simp add: pb_ostream_from_buffer_def pb_write_def size_add_def size_max_def pb_set_oerror_def)
  have h: "(3 :: nat) < size_max" "\<forall>c \<in> set [[1, 2], [3, 4], [5 :: byte]]. length c < size_max"
    by (simp_all add: size_max_def)
  show ?thesis
    using pb_ostream_bounds [OF h run] by (auto simp: write_bytes_def)
qed

end
