(* ===== verification/Pb_Wire.thy ===== *)
theory Pb_Wire
  imports Pb_Stream
begin

text \<open>
  The protobuf wire format: varints, zigzag varints, fixed-width integers, tags, skipping and
  length-delimited substreams (\<^verbatim>\<open>pb_encode.c\<close> 569--760 and \<^verbatim>\<open>pb_decode.c\<close> 187--400,
  1280--1331), as configured by the Xcode project (\<^verbatim>\<open>PB_FIELD_32BIT\<close>,
  \<^verbatim>\<open>PB_ENABLE_MALLOC\<close>, 64-bit integers on).  \<^verbatim>\<open>uint_fast8_t\<close> is eight bits wide on the
  targets, so a bit position is a number modulo 256.
\<close>

section \<open>Encoding\<close>

datatype pb_wire_type = PB_WT_VARINT | PB_WT_64BIT | PB_WT_STRING | PB_WT_32BIT | PB_WT_other u32

fun pb_wt_code :: "pb_wire_type \<Rightarrow> u32" where
  "pb_wt_code PB_WT_VARINT = 0"
| "pb_wt_code PB_WT_64BIT = 1"
| "pb_wt_code PB_WT_STRING = 2"
| "pb_wt_code PB_WT_32BIT = 5"
| "pb_wt_code (PB_WT_other n) = n"

definition pb_wt_of :: "u32 \<Rightarrow> pb_wire_type" where
  "pb_wt_of n = (if n = 0 then PB_WT_VARINT else if n = 1 then PB_WT_64BIT
     else if n = 2 then PB_WT_STRING else if n = 5 then PB_WT_32BIT else PB_WT_other n)"

text \<open>The loop of \<open>pb_encode_varint\<close> that fills \<^verbatim>\<open>buffer\<close>.\<close>

function varint_buffer :: "u64 \<Rightarrow> byte list" where
  "varint_buffer value =
     (if value = 0 then [] else ucast ((value AND 0x7F) OR 0x80) # varint_buffer (drop_bit 7 value))"
  by pat_completeness auto
termination
proof (relation "measure unat")
  fix v :: u64
  assume "v \<noteq> 0"
  then show "(drop_bit 7 v, v) \<in> measure unat"
    by (simp only: in_measure unat_drop_bit) (simp add: unat_gt_0 div_less_dividend)
qed simp

declare varint_buffer.simps [simp del]

definition pb_encode_varint :: "'u pb_ostream \<Rightarrow> u64 \<Rightarrow> bool \<times> 'u pb_ostream" where
  "pb_encode_varint s value =
     (if value \<le> 0x7F then pb_write s [ucast value] 1
      else
        (let buffer = varint_buffer value; i = length buffer;
             buffer' = buffer[i - 1 := (buffer ! (i - 1)) AND 0x7F]
         in pb_write s buffer' i))"

definition pb_encode_svarint :: "'u pb_ostream \<Rightarrow> u64 \<Rightarrow> bool \<times> 'u pb_ostream" where
  "pb_encode_svarint s value =
     (let zigzagged = (if value <s 0 then NOT (push_bit 1 value) else push_bit 1 value)
      in pb_encode_varint s zigzagged)"

definition pb_encode_fixed32 :: "'u pb_ostream \<Rightarrow> u32 \<Rightarrow> bool \<times> 'u pb_ostream" where
  "pb_encode_fixed32 s val =
     pb_write s
       [ucast (val AND 0xFF), ucast (drop_bit 8 val AND 0xFF), ucast (drop_bit 16 val AND 0xFF),
        ucast (drop_bit 24 val AND 0xFF)] 4"

definition pb_encode_fixed64 :: "'u pb_ostream \<Rightarrow> u64 \<Rightarrow> bool \<times> 'u pb_ostream" where
  "pb_encode_fixed64 s val =
     pb_write s
       [ucast (val AND 0xFF), ucast (drop_bit 8 val AND 0xFF), ucast (drop_bit 16 val AND 0xFF),
        ucast (drop_bit 24 val AND 0xFF), ucast (drop_bit 32 val AND 0xFF),
        ucast (drop_bit 40 val AND 0xFF), ucast (drop_bit 48 val AND 0xFF),
        ucast (drop_bit 56 val AND 0xFF)] 8"

definition pb_encode_tag :: "'u pb_ostream \<Rightarrow> pb_wire_type \<Rightarrow> u32 \<Rightarrow> bool \<times> 'u pb_ostream" where
  "pb_encode_tag s wiretype field_number =
     (let tag = push_bit 3 (ucast field_number :: u64) OR ucast (pb_wt_code wiretype)
      in pb_encode_varint s tag)"

definition pb_encode_string :: "'u pb_ostream \<Rightarrow> byte list \<Rightarrow> nat \<Rightarrow> bool \<times> 'u pb_ostream" where
  "pb_encode_string s buffer len =
     (case pb_encode_varint s (of_nat len) of
        (False, s') \<Rightarrow> (False, s')
      | (True, s') \<Rightarrow> pb_write s' buffer len)"

section \<open>Decoding\<close>

text \<open>The \<^verbatim>\<open>do\<close> loop of the multibyte case of \<open>pb_decode_varint32_eof\<close>; the result carries the
  last byte and the final bit position, which the check after the loop reads.\<close>

function varint32_loop ::
  "'u pb_istream \<Rightarrow> nat \<Rightarrow> u32 \<Rightarrow> (u32 \<times> byte \<times> nat) option \<times> 'u pb_istream" where
  "varint32_loop s bitpos result =
     (case pb_readbyte s of
        (None, s') \<Rightarrow> (None, s')
      | (Some byte, s') \<Rightarrow>
          (let sign_extension = (if bitpos < 63 then 0xFF else 0x01);
               bitpos' = (bitpos + 7) mod 256
           in if bitpos \<ge> 32 \<and> byte AND 0x7F \<noteq> 0 \<and>
                 (drop_bit 31 result = 0 \<or> byte \<noteq> sign_extension)
              then (None, pb_set_ierror s' ''varint overflow'')
              else
                (let result' = (if bitpos \<ge> 32 then result
                                else result OR push_bit bitpos (ucast (byte AND 0x7F)))
                 in if byte AND 0x80 \<noteq> 0 then varint32_loop s' bitpos' result'
                    else (Some (result', byte, bitpos'), s'))))"
  by pat_completeness auto
termination
  by (relation "measure (\<lambda>(s, _). bytes_left s)") (auto dest!: pb_readbyte_bytes_left [OF sym])

declare varint32_loop.simps [simp del]

text \<open>The value read, whether \<^verbatim>\<open>eof\<close> was set, and the stream.\<close>

definition pb_decode_varint32_eof :: "'u pb_istream \<Rightarrow> u32 option \<times> bool \<times> 'u pb_istream" where
  "pb_decode_varint32_eof s =
     (case pb_readbyte s of
        (None, s') \<Rightarrow> (None, bytes_left s' = 0, s')
      | (Some byte, s') \<Rightarrow>
          if byte AND 0x80 = 0 then (Some (ucast byte), False, s')
          else
            (case varint32_loop s' 7 (ucast (byte AND 0x7F)) of
               (None, s'') \<Rightarrow> (None, False, s'')
             | (Some (result, byte', bitpos), s'') \<Rightarrow>
                 if bitpos = 35 \<and> byte' AND 0x70 \<noteq> 0
                 then (None, False, pb_set_ierror s'' ''varint overflow'')
                 else (Some result, False, s'')))"

definition pb_decode_varint32 :: "'u pb_istream \<Rightarrow> u32 option \<times> 'u pb_istream" where
  "pb_decode_varint32 s = (case pb_decode_varint32_eof s of (r, _, s') \<Rightarrow> (r, s'))"

function varint_loop :: "'u pb_istream \<Rightarrow> nat \<Rightarrow> u64 \<Rightarrow> u64 option \<times> 'u pb_istream" where
  "varint_loop s bitpos result =
     (if bitpos \<ge> 64 then (None, pb_set_ierror s ''varint overflow'')
      else
        (case pb_readbyte s of
           (None, s') \<Rightarrow> (None, s')
         | (Some byte, s') \<Rightarrow>
             (let result' = result OR push_bit bitpos (ucast (byte AND 0x7F));
                  bitpos' = (bitpos + 7) mod 256
              in if byte AND 0x80 \<noteq> 0 then varint_loop s' bitpos' result'
                 else (Some result', s'))))"
  by pat_completeness auto
termination
  by (relation "measure (\<lambda>(s, _). bytes_left s)") (auto dest!: pb_readbyte_bytes_left [OF sym])

declare varint_loop.simps [simp del]

definition pb_decode_varint :: "'u pb_istream \<Rightarrow> u64 option \<times> 'u pb_istream" where
  "pb_decode_varint s = varint_loop s 0 0"

function pb_skip_varint :: "'u pb_istream \<Rightarrow> bool \<times> 'u pb_istream" where
  "pb_skip_varint s =
     (case pb_read s 1 of
        (None, s') \<Rightarrow> (False, s')
      | (Some bs, s') \<Rightarrow> if hd bs AND 0x80 \<noteq> 0 then pb_skip_varint s' else (True, s'))"
  by pat_completeness auto
termination
  by (relation "measure bytes_left") (auto dest!: pb_read_bytes_left [OF sym])

declare pb_skip_varint.simps [simp del]

definition pb_skip_string :: "'u pb_istream \<Rightarrow> bool \<times> 'u pb_istream" where
  "pb_skip_string s =
     (case pb_decode_varint32 s of
        (None, s') \<Rightarrow> (False, s')
      | (Some len, s') \<Rightarrow> pb_read_null s' (unat len))"

text \<open>\<open>Inl eof\<close> when the function returns \<^verbatim>\<open>false\<close> with \<^verbatim>\<open>*eof\<close> as given,
  \<open>Inr (wire_type, tag)\<close> otherwise.\<close>

definition pb_decode_tag ::
  "'u pb_istream \<Rightarrow> (bool + pb_wire_type \<times> u32) \<times> 'u pb_istream" where
  "pb_decode_tag s =
     (case pb_decode_varint32_eof s of
        (None, eof, s') \<Rightarrow> (Inl eof, s')
      | (Some temp, _, s') \<Rightarrow>
          if temp = 0 then (Inl True, s')
          else (Inr (pb_wt_of (temp AND 7), drop_bit 3 temp), s'))"

definition pb_skip_field :: "'u pb_istream \<Rightarrow> pb_wire_type \<Rightarrow> bool \<times> 'u pb_istream" where
  "pb_skip_field s wire_type =
     (case wire_type of
        PB_WT_VARINT \<Rightarrow> pb_skip_varint s
      | PB_WT_64BIT \<Rightarrow> pb_read_null s 8
      | PB_WT_STRING \<Rightarrow> pb_skip_string s
      | PB_WT_32BIT \<Rightarrow> pb_read_null s 4
      | PB_WT_other _ \<Rightarrow> (False, pb_set_ierror s ''invalid wire_type''))"

text \<open>The varint case of \<open>read_raw_value\<close>: at most \<open>limit\<close> bytes; \<open>len\<close> of them are
  read already.\<close>

function raw_varint :: "'u pb_istream \<Rightarrow> nat \<Rightarrow> nat \<Rightarrow> byte list option \<times> 'u pb_istream" where
  "raw_varint s limit len =
     (if len + 1 > limit then (None, s)
      else
        (case pb_read s 1 of
           (None, s') \<Rightarrow> (None, s')
         | (Some bs, s') \<Rightarrow>
             if hd bs AND 0x80 \<noteq> 0 then
               (case raw_varint s' limit (len + 1) of
                  (None, s'') \<Rightarrow> (None, s'')
                | (Some cs, s'') \<Rightarrow> (Some (hd bs # cs), s''))
             else (Some [hd bs], s')))"
  by pat_completeness auto
termination
  by (relation "measure (\<lambda>(s, _). bytes_left s)") (auto dest!: pb_read_bytes_left [OF sym])

declare raw_varint.simps [simp del]

definition read_raw_value ::
  "'u pb_istream \<Rightarrow> pb_wire_type \<Rightarrow> nat \<Rightarrow> byte list option \<times> 'u pb_istream" where
  "read_raw_value s wire_type limit =
     (case wire_type of
        PB_WT_VARINT \<Rightarrow> raw_varint s limit 0
      | PB_WT_64BIT \<Rightarrow> pb_read s 8
      | PB_WT_32BIT \<Rightarrow> pb_read s 4
      | _ \<Rightarrow> (None, pb_set_ierror s ''invalid wire_type''))"

text \<open>The substream, and the parent stream with the substream's bytes taken off its count.\<close>

definition pb_make_string_substream ::
  "'u pb_istream \<Rightarrow> 'u pb_istream option \<times> 'u pb_istream" where
  "pb_make_string_substream s =
     (case pb_decode_varint32 s of
        (None, s') \<Rightarrow> (None, s')
      | (Some len, s') \<Rightarrow>
          if bytes_left s' < unat len then (None, pb_set_ierror s' ''parent stream too short'')
          else (Some (s'\<lparr>bytes_left := unat len\<rparr>), s'\<lparr>bytes_left := bytes_left s' - unat len\<rparr>))"

definition pb_close_string_substream ::
  "'u pb_istream \<Rightarrow> 'u pb_istream \<Rightarrow> bool \<times> 'u pb_istream" where
  "pb_close_string_substream s sub =
     (if bytes_left sub \<noteq> 0 then
        (case pb_read_null sub (bytes_left sub) of
           (False, _) \<Rightarrow> (False, s)
         | (True, sub') \<Rightarrow> (True, s\<lparr>src := src sub', is_errmsg := is_errmsg sub'\<rparr>))
      else (True, s\<lparr>src := src sub, is_errmsg := is_errmsg sub\<rparr>))"

definition pb_decode_svarint :: "'u pb_istream \<Rightarrow> u64 option \<times> 'u pb_istream" where
  "pb_decode_svarint s =
     (case pb_decode_varint s of
        (None, s') \<Rightarrow> (None, s')
      | (Some value, s') \<Rightarrow>
          if value AND 1 \<noteq> 0 then (Some (NOT (drop_bit 1 value)), s')
          else (Some (drop_bit 1 value), s'))"

definition pb_decode_fixed32 :: "'u pb_istream \<Rightarrow> u32 option \<times> 'u pb_istream" where
  "pb_decode_fixed32 s =
     (case pb_read s 4 of
        (None, s') \<Rightarrow> (None, s')
      | (Some bytes, s') \<Rightarrow>
          (Some (ucast (bytes ! 0) OR push_bit 8 (ucast (bytes ! 1)) OR
                 push_bit 16 (ucast (bytes ! 2)) OR push_bit 24 (ucast (bytes ! 3))), s'))"

definition pb_decode_fixed64 :: "'u pb_istream \<Rightarrow> u64 option \<times> 'u pb_istream" where
  "pb_decode_fixed64 s =
     (case pb_read s 8 of
        (None, s') \<Rightarrow> (None, s')
      | (Some bytes, s') \<Rightarrow>
          (Some (ucast (bytes ! 0) OR push_bit 8 (ucast (bytes ! 1)) OR
                 push_bit 16 (ucast (bytes ! 2)) OR push_bit 24 (ucast (bytes ! 3)) OR
                 push_bit 32 (ucast (bytes ! 4)) OR push_bit 40 (ucast (bytes ! 5)) OR
                 push_bit 48 (ucast (bytes ! 6)) OR push_bit 56 (ucast (bytes ! 7))), s'))"

definition pb_decode_bool :: "'u pb_istream \<Rightarrow> bool option \<times> 'u pb_istream" where
  "pb_decode_bool s =
     (case pb_decode_varint32 s of
        (None, s') \<Rightarrow> (None, s')
      | (Some value, s') \<Rightarrow> (Some (value \<noteq> 0), s'))"

section \<open>Bit-level facts\<close>

lemma bit_0x80: "bit (0x80 :: int) n \<longleftrightarrow> n = 7"
  using bit_exp_iff [where 'a = int, of 7 n] by auto

lemma bit_0x7F: "bit (0x7F :: int) n \<longleftrightarrow> n < 7"
  using bit_mask_iff [where 'a = int, of 7 n] by (simp add: mask_eq_exp_minus_1)

lemmas bit7_simps = bit_simps bit_0x80 bit_0x7F

lemma split_low7: "(v AND 0x7F) OR push_bit 7 (drop_bit 7 v) = (v :: u64)"
proof (rule bit_word_eqI)
  fix n
  assume "n < LENGTH(64)"
  then show "bit ((v AND 0x7F) OR push_bit 7 (drop_bit 7 v)) n = bit v n"
    by (cases "n < 7") (auto simp: bit7_simps)
qed

lemma group_payload:
  "(ucast (ucast (((v :: u64) AND 0x7F) OR 0x80) AND 0x7F :: byte) :: u64) = v AND 0x7F"
  by (rule bit_word_eqI) (auto simp: bit7_simps)

lemma and_0x80_eq_0: "(b :: byte) AND 0x80 = 0 \<longleftrightarrow> \<not> bit b 7"
  by (auto simp: bit_eq_iff [where 'a = byte] bit7_simps dest: spec [of _ 7])

lemma group_more: "(ucast (((v :: u64) AND 0x7F) OR 0x80) :: byte) AND 0x80 \<noteq> 0"
  by (simp add: and_0x80_eq_0 bit7_simps)

lemma group_stop: "((b :: byte) AND 0x7F) AND 0x80 = 0"
  by (simp add: and_0x80_eq_0 bit7_simps)

lemma small_and_0x7F: "v \<le> (0x7F :: u64) \<Longrightarrow> v AND 0x7F = v"
proof -
  assume "v \<le> 0x7F"
  then have "unat v < 2 ^ 7" by (simp add: word_le_nat_alt)
  then have "take_bit 7 v = v"
    by (simp add: word_eq_iff_unat unsigned_take_bit_eq take_bit_nat_eq_self_iff)
  then show ?thesis by (simp add: take_bit_eq_mask mask_eq_exp_minus_1)
qed

lemma small_high_bit: "v \<le> (0x7F :: u64) \<Longrightarrow> \<not> bit (ucast v :: byte) 7"
  by (drule small_and_0x7F, drule arg_cong [where f = "\<lambda>w. bit w 7"]) (simp add: bit7_simps)

section \<open>Varints\<close>

text \<open>The bytes \<open>pb_encode_varint\<close> hands to \<open>pb_write\<close>.\<close>

definition clear_last :: "byte list \<Rightarrow> byte list" where
  "clear_last bs = bs[length bs - 1 := (bs ! (length bs - 1)) AND 0x7F]"

definition varint_bytes :: "u64 \<Rightarrow> byte list" where
  "varint_bytes v = (if v \<le> 0x7F then [ucast v] else clear_last (varint_buffer v))"

lemma pb_encode_varint_eq: "pb_encode_varint s v = pb_write s (varint_bytes v) (length (varint_bytes v))"
  by (simp add: pb_encode_varint_def varint_bytes_def clear_last_def Let_def)

lemma clear_last_Cons: "bs \<noteq> [] \<Longrightarrow> clear_last (b # bs) = b # clear_last bs"
  by (cases bs rule: rev_cases) (auto simp: clear_last_def nth_append)

lemma clear_last_single: "clear_last [b] = [b AND 0x7F]"
  by (simp add: clear_last_def)

lemma varint_buffer_nonempty: "v \<noteq> 0 \<Longrightarrow> varint_buffer v \<noteq> []"
  by (subst varint_buffer.simps) simp

lemma clear_last_varint_buffer:
  "v \<noteq> 0 \<Longrightarrow> clear_last (varint_buffer v) =
     (if drop_bit 7 v = 0 then [ucast ((v AND 0x7F) OR 0x80) AND 0x7F]
      else ucast ((v AND 0x7F) OR 0x80) # clear_last (varint_buffer (drop_bit 7 v)))"
  by (subst varint_buffer.simps, cases "drop_bit 7 v = 0")
     (simp_all add: clear_last_Cons clear_last_single varint_buffer_nonempty varint_buffer.simps [of 0])

lemma length_clear_last [simp]: "length (clear_last bs) = length bs"
  by (simp add: clear_last_def)

lemma clear_last_Nil_iff [simp]: "clear_last bs = [] \<longleftrightarrow> bs = []"
  by (metis length_clear_last length_0_conv)

lemma unat_drop7_bound: "unat (v :: u64) < 2 ^ (64 - n) \<Longrightarrow> n + 7 \<le> 64 \<Longrightarrow> unat (drop_bit 7 v) < 2 ^ (64 - (n + 7))"
  using power_add [of "2 :: nat" "57 - n" 7]
  by (simp only: unat_drop_bit) (rule less_mult_imp_div_less, simp add: Suc_diff_le)

text \<open>At most \<open>k\<close> groups for a value of at most \<open>7 * k\<close> bits; the C buffer has ten bytes.\<close>

lemma length_varint_buffer: "unat v < 2 ^ (7 * k) \<Longrightarrow> length (varint_buffer v) \<le> k"
proof (induction v arbitrary: k rule: varint_buffer.induct)
  case (1 v)
  show ?case
  proof (cases "v = 0")
    case False
    with "1.prems" obtain j where k: "k = Suc j" by (cases k) (auto simp: unat_gt_0 [symmetric])
    have "unat (drop_bit 7 v) < 2 ^ (7 * j)"
      using "1.prems" by (simp only: unat_drop_bit k) (rule less_mult_imp_div_less, simp add: power_add)
    with "1.IH" [OF False, of j] False k show ?thesis
      by (simp add: varint_buffer.simps [of v])
  qed (simp add: varint_buffer.simps)
qed

lemma varint_loop_clear_last:
  assumes "istream_ok s" "v \<noteq> 0" "unat v < 2 ^ (64 - n)"
    and "ibuf s = clear_last (varint_buffer v) @ r"
  shows "varint_loop s n acc =
    (Some (acc OR push_bit n v), iskip s (length (clear_last (varint_buffer v))))"
  using assms
proof (induction v arbitrary: s n acc rule: varint_buffer.induct)
  case (1 v)
  let ?b = "ucast ((v AND 0x7F) OR 0x80) :: byte"
  have n: "n < 64"
    using "1.prems"(2,3) by (cases "n < 64") (auto simp: unat_gt_0 [symmetric])
  have join: "acc OR push_bit n (v AND 0x7F) OR push_bit (n + 7) (drop_bit 7 v) = acc OR push_bit n v"
    by (subst (3) split_low7 [symmetric]) (simp add: push_bit_or add.commute flip: push_bit_push_bit)
  show ?case
  proof (cases "drop_bit 7 v = 0")
    case True
    then have buf: "clear_last (varint_buffer v) = [?b AND 0x7F]"
      using "1.prems"(2) by (simp add: clear_last_varint_buffer)
    with "1.prems" have "pb_readbyte s = (Some (?b AND 0x7F), iskip s 1)"
      by (intro pb_readbyte_Cons) simp_all
    with n join True buf show ?thesis
      by (simp add: varint_loop.simps [of s] group_stop group_payload)
  next
    case False
    then have buf: "clear_last (varint_buffer v) = ?b # clear_last (varint_buffer (drop_bit 7 v))"
      using "1.prems"(2) by (simp add: clear_last_varint_buffer)
    have n7: "n + 7 \<le> 64"
    proof (rule ccontr)
      assume "\<not> ?thesis"
      then have "(2 :: nat) ^ (64 - n) \<le> 2 ^ 7"
        by (intro power_increasing) auto
      with "1.prems"(3) have "unat v < 2 ^ 7" by linarith
      then have "unat (drop_bit 7 v) = 0" by (simp only: unat_drop_bit) simp
      with False show False by (simp add: unat_eq_0)
    qed
    have rb: "pb_readbyte s = (Some ?b, iskip s 1)"
      using "1.prems" buf by (intro pb_readbyte_Cons) simp_all
    have "varint_loop (iskip s 1) (n + 7) (acc OR push_bit n (v AND 0x7F)) =
      (Some ((acc OR push_bit n (v AND 0x7F)) OR push_bit (n + 7) (drop_bit 7 v)),
       iskip (iskip s 1) (length (clear_last (varint_buffer (drop_bit 7 v)))))"
      using "1.prems" buf n7 False by (intro "1.IH" unat_drop7_bound) simp_all
    with rb n n7 join buf show ?thesis
      by (simp add: varint_loop.simps [of s] group_more group_payload or.assoc)
  qed
qed

lemma pb_decode_varint_bytes:
  assumes "istream_ok s" "ibuf s = varint_bytes v @ r"
  shows "pb_decode_varint s = (Some v, iskip s (length (varint_bytes v)))"
proof (cases "v \<le> 0x7F")
  case True
  with assms have "pb_readbyte s = (Some (ucast v), iskip s 1)"
    by (intro pb_readbyte_Cons) (simp_all add: varint_bytes_def)
  moreover have "(ucast (ucast v AND 0x7F :: byte) :: u64) = v AND 0x7F"
    by (rule bit_word_eqI) (auto simp: bit7_simps)
  ultimately show ?thesis
    using True by (simp add: pb_decode_varint_def varint_loop.simps [of s] varint_bytes_def
        and_0x80_eq_0 small_high_bit small_and_0x7F)
next
  case False
  then have "v \<noteq> 0" by auto
  with False assms varint_loop_clear_last [of s v 0 r 0] show ?thesis
    using unsigned_less [of v] by (simp add: pb_decode_varint_def varint_bytes_def)
qed

interpretation varint_codec: codec istream_ok ibuf iskip "\<lambda>_. True" varint_bytes pb_decode_varint
  by unfold_locales (auto intro: pb_decode_varint_bytes)


section \<open>Thirty-two-bit varints\<close>

lemma split_low7_u32:
  "push_bit n (ucast (v AND 0x7F) :: u32) OR push_bit (n + 7) (ucast (drop_bit 7 v)) = push_bit n (ucast (v :: u64))"
proof -
  have "(ucast (v AND 0x7F) :: u32) OR push_bit 7 (ucast (drop_bit 7 v)) = ucast v"
  proof (rule bit_word_eqI)
    fix i
    assume "i < LENGTH(32)"
    then show "bit ((ucast (v AND 0x7F) :: u32) OR push_bit 7 (ucast (drop_bit 7 v))) i = bit (ucast v :: u32) i"
      by (cases "i < 7") (auto simp: bit7_simps)
  qed
  then show ?thesis
    by (metis push_bit_or push_bit_push_bit)
qed

lemma group_payload_u32:
  "(ucast (ucast (((v :: u64) AND 0x7F) OR 0x80) AND 0x7F :: byte) :: u32) = ucast (v AND 0x7F)"
  by (rule bit_word_eqI) (auto simp: bit7_simps)

lemma group_top3: "unat v < 16 \<Longrightarrow> (ucast (((v :: u64) AND 0x7F) OR 0x80) AND 0x70 :: byte) = 0"
proof -
  assume "unat v < 16"
  then have "take_bit 4 v = v"
    by (simp add: word_eq_iff_unat unsigned_take_bit_eq take_bit_nat_eq_self_iff)
  then have "\<not> bit v i" if "4 \<le> i" for i
    using that by (metis bit_take_bit_iff not_less)
  moreover have "bit (0x70 :: int) i \<longleftrightarrow> i \<in> {4, 5, 6}" for i
  proof -
    have "bit (push_bit 4 (mask 3) :: int) i \<longleftrightarrow> i \<in> {4, 5, 6}"
      unfolding bit_push_bit_iff bit_mask_iff by auto
    then show ?thesis by (simp add: mask_eq_exp_minus_1)
  qed
  ultimately show ?thesis
    by (auto simp: bit_eq_iff [where 'a = byte] bit7_simps)
qed

lemma varint32_loop_clear_last:
  assumes "istream_ok s" "v \<noteq> 0" "unat v < 2 ^ (32 - n)" "n \<le> 28" "7 dvd n"
    and "ibuf s = clear_last (varint_buffer v) @ r"
  shows "\<exists>b p. varint32_loop s n acc =
    (Some (acc OR push_bit n (ucast v), b, p), iskip s (length (clear_last (varint_buffer v)))) \<and>
    (p = 35 \<longrightarrow> b AND 0x70 = 0)"
  using assms
proof (induction v arbitrary: s n acc rule: varint_buffer.induct)
  case (1 v)
  let ?b = "ucast ((v AND 0x7F) OR 0x80) :: byte"
  have join: "acc OR push_bit n (ucast (v AND 0x7F)) OR push_bit (n + 7) (ucast (drop_bit 7 v)) =
    acc OR push_bit n (ucast v)"
    using split_low7_u32 [of n v] by (metis or.assoc)
  show ?case
  proof (cases "drop_bit 7 v = 0")
    case True
    then have buf: "clear_last (varint_buffer v) = [?b AND 0x7F]"
      using "1.prems"(2) by (simp add: clear_last_varint_buffer)
    with "1.prems" have "pb_readbyte s = (Some (?b AND 0x7F), iskip s 1)"
      by (intro pb_readbyte_Cons) simp_all
    moreover have "n = 28 \<longrightarrow> (?b AND 0x7F) AND 0x70 = 0"
      using "1.prems"(3) group_top3 [of v] by (auto simp: and.assoc)
    ultimately show ?thesis
      using "1.prems"(4) join True buf
      by (simp add: varint32_loop.simps [of s] group_stop group_payload_u32)
  next
    case False
    then have buf: "clear_last (varint_buffer v) = ?b # clear_last (varint_buffer (drop_bit 7 v))"
      using "1.prems"(2) by (simp add: clear_last_varint_buffer)
    have n7: "n + 7 \<le> 28"
    proof (rule ccontr)
      assume "\<not> ?thesis"
      with "1.prems"(4,5) have "n = 28" by presburger
      with "1.prems"(3) have "unat (drop_bit 7 v) = 0" by (simp only: unat_drop_bit) simp
      with False show False by (simp add: unat_eq_0)
    qed
    have rb: "pb_readbyte s = (Some ?b, iskip s 1)"
      using "1.prems" buf by (intro pb_readbyte_Cons) simp_all
    have bound: "unat (drop_bit 7 v) < 2 ^ (32 - (n + 7))"
      using "1.prems"(3) n7 power_add [of "2 :: nat" "25 - n" 7]
      by (simp only: unat_drop_bit) (rule less_mult_imp_div_less, simp add: Suc_diff_le)
    obtain b p where "varint32_loop (iskip s 1) (n + 7) (acc OR push_bit n (ucast (v AND 0x7F))) =
      (Some ((acc OR push_bit n (ucast (v AND 0x7F))) OR push_bit (n + 7) (ucast (drop_bit 7 v)), b, p),
       iskip (iskip s 1) (length (clear_last (varint_buffer (drop_bit 7 v)))))"
      and "p = 35 \<longrightarrow> b AND 0x70 = 0"
      using "1.IH" [OF "1.prems"(2), of "iskip s 1" "n + 7" "acc OR push_bit n (ucast (v AND 0x7F))"]
        "1.prems" bound buf n7 False by auto
    with rb "1.prems"(4) n7 join buf show ?thesis
      by (simp add: varint32_loop.simps [of s] group_more group_payload_u32 or.assoc)
  qed
qed

lemma unat_u64_of_u32: "unat (ucast (v :: u32) :: u64) = unat v"
proof -
  have "unat v < 2 ^ LENGTH(32)" by (rule unsigned_less)
  then show ?thesis by (simp add: unsigned_ucast_eq take_bit_nat_eq_self)
qed

lemma u64_of_u32_le: "(ucast v :: u64) \<le> 0x7F \<longleftrightarrow> v \<le> (0x7F :: u32)"
  by (simp add: word_le_nat_alt unat_u64_of_u32)

lemma ucast_u32_u64_u32: "(ucast (ucast (v :: u32) :: u64) :: u32) = v"
  by (rule bit_word_eqI) (auto simp: bit_simps)

lemma varint_buffer_Cons:
  "v \<noteq> 0 \<Longrightarrow> varint_buffer v = ucast ((v AND 0x7F) OR 0x80) # varint_buffer (drop_bit 7 v)"
  by (subst varint_buffer.simps) simp

lemma drop7_nonzero: "\<not> v \<le> 0x7F \<Longrightarrow> drop_bit 7 v \<noteq> (0 :: u64)"
proof
  assume "\<not> v \<le> 0x7F" and "drop_bit 7 v = 0"
  then have "unat v div 2 ^ 7 = 0" by (metis unat_0 unat_drop_bit)
  with \<open>\<not> v \<le> 0x7F\<close> show False by (simp add: word_le_nat_alt)
qed

lemma pb_decode_varint32_eof_bytes:
  assumes s: "istream_ok s" "ibuf s = varint_bytes (ucast (v :: u32)) @ r"
  shows "pb_decode_varint32_eof s = (Some v, False, iskip s (length (varint_bytes (ucast v))))"
proof (cases "(ucast v :: u64) \<le> 0x7F")
  case True
  with s have "pb_readbyte s = (Some (ucast (ucast v :: u64)), iskip s 1)"
    by (intro pb_readbyte_Cons) (simp_all add: varint_bytes_def)
  moreover have "(ucast (ucast (ucast v :: u64) :: byte) :: u32) = v"
  proof (rule bit_word_eqI)
    fix i
    have "bit (ucast v AND 0x7F :: u64) i = bit (ucast v :: u64) i"
      using small_and_0x7F [OF True] by simp
    then show "bit (ucast (ucast (ucast v :: u64) :: byte) :: u32) i = bit v i"
      by (auto simp: bit7_simps dest: bit_imp_le_length)
  qed
  ultimately show ?thesis
    using True by (simp add: pb_decode_varint32_eof_def varint_bytes_def and_0x80_eq_0 small_high_bit)
next
  case False
  let ?v = "ucast v :: u64" and ?w = "drop_bit 7 (ucast v) :: u64"
  let ?b = "ucast ((?v AND 0x7F) OR 0x80) :: byte"
  have nz: "?v \<noteq> 0" and w: "?w \<noteq> 0"
    using False drop7_nonzero by auto
  have buf: "varint_bytes ?v = ?b # clear_last (varint_buffer ?w)"
    using False nz w by (simp add: varint_bytes_def clear_last_varint_buffer)
  have rb: "pb_readbyte s = (Some ?b, iskip s 1)"
    using s buf by (intro pb_readbyte_Cons) simp_all
  have "unat ?w < 2 ^ (32 - 7)"
    using unsigned_less [of v]
    by (simp only: unat_drop_bit unat_u64_of_u32) (rule less_mult_imp_div_less, simp)
  then obtain b p where
    "varint32_loop (iskip s 1) 7 (ucast (?v AND 0x7F)) =
      (Some (ucast (?v AND 0x7F) OR push_bit 7 (ucast ?w), b, p),
       iskip (iskip s 1) (length (clear_last (varint_buffer ?w))))"
    and "p = 35 \<longrightarrow> b AND 0x70 = 0"
    using varint32_loop_clear_last [of "iskip s 1" ?w 7 r "ucast (?v AND 0x7F)"] s buf w by auto
  moreover have "(ucast (?v AND 0x7F) OR push_bit 7 (ucast ?w) :: u32) = v"
    using split_low7_u32 [of 0 ?v] by (simp add: ucast_u32_u64_u32)
  ultimately show ?thesis
    using rb buf by (simp add: pb_decode_varint32_eof_def group_more group_payload_u32)
qed

lemma pb_decode_varint32_bytes:
  "istream_ok s \<Longrightarrow> ibuf s = varint_bytes (ucast (v :: u32)) @ r \<Longrightarrow>
   pb_decode_varint32 s = (Some v, iskip s (length (varint_bytes (ucast v))))"
  by (simp add: pb_decode_varint32_def pb_decode_varint32_eof_bytes)

interpretation varint32_codec:
  codec istream_ok ibuf iskip "\<lambda>_. True" "\<lambda>v. varint_bytes (ucast (v :: u32))" pb_decode_varint32
  by unfold_locales (auto intro: pb_decode_varint32_bytes)

section \<open>Zigzag varints, fixed-width integers and tags\<close>

definition zigzag :: "u64 \<Rightarrow> u64" where
  "zigzag v = (if v <s 0 then NOT (push_bit 1 v) else push_bit 1 v)"

lemma pb_encode_svarint_eq: "pb_encode_svarint s v = pb_encode_varint s (zigzag v)"
  by (simp add: pb_encode_svarint_def zigzag_def)

lemma sless_0_bit: "v <s (0 :: u64) \<longleftrightarrow> bit v 63"
  using bit_last_iff [of v] by (simp add: word_sless_alt)

lemma and_1_bit: "(v :: u64) AND 1 \<noteq> 0 \<longleftrightarrow> bit v 0"
  by (auto simp: and_one_eq bit_0 even_iff_mod_2_eq_zero)

lemma unzigzag: "(if zigzag v AND 1 \<noteq> 0 then NOT (drop_bit 1 (zigzag v)) else drop_bit 1 (zigzag v)) = v"
proof -
  have odd: "zigzag v AND 1 \<noteq> 0 \<longleftrightarrow> bit v 63"
    unfolding zigzag_def sless_0_bit and_1_bit by (simp add: bit_0)
  define p where "p = push_bit 1 v"
  have p: "bit p i \<longleftrightarrow> 0 < i \<and> i < 64 \<and> bit v (i - 1)" for i
    unfolding p_def by (subst bit_push_bit_iff) (auto dest: bit_imp_le_length)
  have z: "zigzag v = (if bit v 63 then NOT p else p)"
    by (simp add: zigzag_def sless_0_bit p_def)
  show ?thesis
    unfolding odd
  proof (rule bit_word_eqI)
    fix i
    assume "i < LENGTH(64)"
    then show "bit (if bit v 63 then NOT (drop_bit 1 (zigzag v)) else drop_bit 1 (zigzag v)) i = bit v i"
      by (cases "i = 63") (auto simp: z p bit_simps)
  qed
qed

lemma pb_decode_svarint_bytes:
  assumes "istream_ok s" "ibuf s = varint_bytes (zigzag v) @ r"
  shows "pb_decode_svarint s = (Some v, iskip s (length (varint_bytes (zigzag v))))"
  using pb_decode_varint_bytes [OF assms] unzigzag [of v]
  by (auto simp: pb_decode_svarint_def split: if_splits)

interpretation svarint_codec:
  codec istream_ok ibuf iskip "\<lambda>_. True" "\<lambda>v. varint_bytes (zigzag v)" pb_decode_svarint
  by unfold_locales (auto intro: pb_decode_svarint_bytes)

definition fixed32_bytes :: "u32 \<Rightarrow> byte list" where
  "fixed32_bytes val = [ucast (val AND 0xFF), ucast (drop_bit 8 val AND 0xFF),
     ucast (drop_bit 16 val AND 0xFF), ucast (drop_bit 24 val AND 0xFF)]"

definition fixed64_bytes :: "u64 \<Rightarrow> byte list" where
  "fixed64_bytes val = [ucast (val AND 0xFF), ucast (drop_bit 8 val AND 0xFF),
     ucast (drop_bit 16 val AND 0xFF), ucast (drop_bit 24 val AND 0xFF),
     ucast (drop_bit 32 val AND 0xFF), ucast (drop_bit 40 val AND 0xFF),
     ucast (drop_bit 48 val AND 0xFF), ucast (drop_bit 56 val AND 0xFF)]"

lemma length_fixed_bytes [simp]: "length (fixed32_bytes w) = 4" "length (fixed64_bytes v) = 8"
  by (simp_all add: fixed32_bytes_def fixed64_bytes_def)

lemma bit_0xFF: "bit (0xFF :: int) n \<longleftrightarrow> n < 8"
  using bit_mask_iff [where 'a = int, of 8 n] by (simp add: mask_eq_exp_minus_1)

lemma byte_lane:
  "bit (push_bit k (ucast (ucast (drop_bit k (w :: 'a::len word) AND 0xFF) :: byte) :: 'a word)) i \<longleftrightarrow>
   k \<le> i \<and> i < k + 8 \<and> bit w i"
  by (auto simp: bit_simps bit_0xFF dest: bit_imp_le_length)

lemmas byte_lane_0 = byte_lane [of 0, simplified]

lemma fixed32_join:
  "(ucast (ucast (v AND 0xFF) :: byte) OR push_bit 8 (ucast (ucast (drop_bit 8 v AND 0xFF) :: byte)) OR
    push_bit 16 (ucast (ucast (drop_bit 16 v AND 0xFF) :: byte)) OR
    push_bit 24 (ucast (ucast (drop_bit 24 v AND 0xFF) :: byte))) = (v :: u32)" (is "?l = v")
proof (rule bit_word_eqI)
  fix i
  assume "i < LENGTH(32)"
  then have "i < 32" by simp
  then consider "i < 8" | "8 \<le> i" "i < 16" | "16 \<le> i" "i < 24" | "24 \<le> i" "i < 32" by linarith
  then show "bit ?l i = bit v i"
    by cases (simp_all add: bit_or_iff byte_lane byte_lane_0)
qed

lemma fixed64_join:
  "(ucast (ucast (v AND 0xFF) :: byte) OR push_bit 8 (ucast (ucast (drop_bit 8 v AND 0xFF) :: byte)) OR
    push_bit 16 (ucast (ucast (drop_bit 16 v AND 0xFF) :: byte)) OR
    push_bit 24 (ucast (ucast (drop_bit 24 v AND 0xFF) :: byte)) OR
    push_bit 32 (ucast (ucast (drop_bit 32 v AND 0xFF) :: byte)) OR
    push_bit 40 (ucast (ucast (drop_bit 40 v AND 0xFF) :: byte)) OR
    push_bit 48 (ucast (ucast (drop_bit 48 v AND 0xFF) :: byte)) OR
    push_bit 56 (ucast (ucast (drop_bit 56 v AND 0xFF) :: byte))) = (v :: u64)" (is "?l = v")
proof (rule bit_word_eqI)
  fix i
  assume "i < LENGTH(64)"
  then have "i < 64" by simp
  then consider "i < 8" | "8 \<le> i" "i < 16" | "16 \<le> i" "i < 24" | "24 \<le> i" "i < 32"
    | "32 \<le> i" "i < 40" | "40 \<le> i" "i < 48" | "48 \<le> i" "i < 56" | "56 \<le> i" "i < 64"
    by linarith
  then show "bit ?l i = bit v i"
    by cases (simp_all add: bit_or_iff byte_lane byte_lane_0)
qed

lemma pb_decode_fixed32_bytes:
  "istream_ok s \<Longrightarrow> ibuf s = fixed32_bytes v @ r \<Longrightarrow> pb_decode_fixed32 s = (Some v, iskip s 4)"
  using pb_read_append [of s "fixed32_bytes v" r] fixed32_join [of v]
  by (simp add: pb_decode_fixed32_def) (simp add: fixed32_bytes_def)

lemma pb_decode_fixed64_bytes:
  "istream_ok s \<Longrightarrow> ibuf s = fixed64_bytes v @ r \<Longrightarrow> pb_decode_fixed64 s = (Some v, iskip s 8)"
  using pb_read_append [of s "fixed64_bytes v" r] fixed64_join [of v]
  by (simp add: pb_decode_fixed64_def) (simp add: fixed64_bytes_def)

interpretation fixed32_codec: codec istream_ok ibuf iskip "\<lambda>_. True" fixed32_bytes pb_decode_fixed32
  by unfold_locales (auto intro: pb_decode_fixed32_bytes)

interpretation fixed64_codec: codec istream_ok ibuf iskip "\<lambda>_. True" fixed64_bytes pb_decode_fixed64
  by unfold_locales (auto intro: pb_decode_fixed64_bytes)

text \<open>A tag of a field number below \<open>2 ^ 29\<close> fits in 32 bits.\<close>

definition tag_value :: "pb_wire_type \<Rightarrow> u32 \<Rightarrow> u32" where
  "tag_value wt n = push_bit 3 n OR pb_wt_code wt"

definition tag_ok :: "pb_wire_type \<times> u32 \<Rightarrow> bool" where
  "tag_ok = (\<lambda>(wt, n). wt \<in> {PB_WT_VARINT, PB_WT_64BIT, PB_WT_STRING, PB_WT_32BIT} \<and>
     n < 2 ^ 29 \<and> n \<noteq> 0)"

lemma bit_small_u32: "n < (2 ^ 29 :: u32) \<Longrightarrow> bit n i \<Longrightarrow> i < 29"
proof (rule ccontr)
  assume n: "n < 2 ^ 29" and b: "bit n i" and i: "\<not> i < 29"
  from n have "unat n < 2 ^ 29" by (simp add: word_less_nat_alt)
  then have "take_bit 29 n = n"
    by (simp add: word_eq_iff_unat unsigned_take_bit_eq take_bit_nat_eq_self)
  with b i show False by (metis bit_take_bit_iff)
qed

lemma bit_wt_code: "wt \<in> {PB_WT_VARINT, PB_WT_64BIT, PB_WT_STRING, PB_WT_32BIT} \<Longrightarrow>
   bit (pb_wt_code wt) i \<Longrightarrow> i < 3"
proof (rule ccontr)
  assume wt: "wt \<in> {PB_WT_VARINT, PB_WT_64BIT, PB_WT_STRING, PB_WT_32BIT}"
    and b: "bit (pb_wt_code wt) i" and i: "\<not> i < 3"
  from wt have "take_bit 3 (pb_wt_code wt) = pb_wt_code wt" by auto
  with b i show False by (metis bit_take_bit_iff)
qed

lemma tag_value_u64:
  assumes "n < 2 ^ 29" "wt \<in> {PB_WT_VARINT, PB_WT_64BIT, PB_WT_STRING, PB_WT_32BIT}"
  shows "push_bit 3 (ucast n :: u64) OR ucast (pb_wt_code wt) = ucast (tag_value wt n)"
  unfolding tag_value_def
  by (rule bit_word_eqI) (auto simp: bit_simps dest: bit_small_u32 [OF assms(1)] bit_wt_code [OF assms(2)])

lemma tag_value_split:
  assumes "tag_ok (wt, n)"
  shows "drop_bit 3 (tag_value wt n) = n" "pb_wt_of (tag_value wt n AND 7) = wt" "tag_value wt n \<noteq> 0"
proof -
  have n: "n < 2 ^ 29" "n \<noteq> 0" and wt: "wt \<in> {PB_WT_VARINT, PB_WT_64BIT, PB_WT_STRING, PB_WT_32BIT}"
    using assms by (auto simp: tag_ok_def)
  show d: "drop_bit 3 (tag_value wt n) = n"
    unfolding tag_value_def
    by (rule bit_word_eqI)
       (auto simp: bit_simps dest: bit_small_u32 [OF n(1)] bit_wt_code [OF wt])
  then show "tag_value wt n \<noteq> 0"
    using n(2) by auto
  have "tag_value wt n AND mask 3 = pb_wt_code wt"
    unfolding tag_value_def
    by (rule bit_word_eqI) (auto simp: bit_simps dest: bit_wt_code [OF wt])
  then have "tag_value wt n AND 7 = pb_wt_code wt"
    by (simp add: mask_eq_exp_minus_1)
  with wt show "pb_wt_of (tag_value wt n AND 7) = wt"
    by (auto simp: pb_wt_of_def)
qed

definition tag_bytes :: "pb_wire_type \<times> u32 \<Rightarrow> byte list" where
  "tag_bytes = (\<lambda>(wt, n). varint_bytes (ucast (tag_value wt n)))"

lemma pb_encode_tag_eq:
  "tag_ok (wt, num) \<Longrightarrow>
   pb_encode_tag s wt num = pb_write s (tag_bytes (wt, num)) (length (tag_bytes (wt, num)))"
  using tag_value_u64 [of num wt]
  by (simp add: pb_encode_tag_def Let_def tag_ok_def pb_encode_varint_eq tag_bytes_def)

lemma pb_decode_tag_bytes:
  assumes "istream_ok s" "tag_ok t" "ibuf s = tag_bytes t @ r"
  shows "pb_decode_tag s = (Inr t, iskip s (length (tag_bytes t)))"
proof (cases t)
  case (Pair wt n)
  with assms pb_decode_varint32_eof_bytes [of s "tag_value wt n" r] tag_value_split [of wt n]
  show ?thesis by (simp add: pb_decode_tag_def tag_bytes_def)
qed

interpretation tag_codec:
  codec istream_ok ibuf iskip tag_ok tag_bytes
    "\<lambda>s. case pb_decode_tag s of (Inr t, s') \<Rightarrow> (Some t, s') | (Inl _, s') \<Rightarrow> (None, s')"
  by unfold_locales (simp add: pb_decode_tag_bytes)

section \<open>Skipping and substreams\<close>

lemma pb_read_null_append:
  "istream_ok s \<Longrightarrow> ibuf s = bs @ r \<Longrightarrow> pb_read_null s (length bs) = (True, iskip s (length bs))"
  using pb_read_append [of s bs r]
  by (cases "src s") (auto simp: pb_read_null_def istream_ok_def)

text \<open>The values a field of each wire type carries, and their bytes.\<close>

datatype wire_value = WVarint u64 | WFixed64 u64 | WBytes "byte list" | WFixed32 u32

fun wire_bytes :: "wire_value \<Rightarrow> byte list" where
  "wire_bytes (WVarint v) = varint_bytes v"
| "wire_bytes (WFixed64 v) = fixed64_bytes v"
| "wire_bytes (WBytes bs) = varint_bytes (of_nat (length bs)) @ bs"
| "wire_bytes (WFixed32 v) = fixed32_bytes v"

fun wire_type_of :: "wire_value \<Rightarrow> pb_wire_type" where
  "wire_type_of (WVarint v) = PB_WT_VARINT"
| "wire_type_of (WFixed64 v) = PB_WT_64BIT"
| "wire_type_of (WBytes bs) = PB_WT_STRING"
| "wire_type_of (WFixed32 v) = PB_WT_32BIT"

fun wire_value_ok :: "wire_value \<Rightarrow> bool" where
  "wire_value_ok (WBytes bs) = (length bs < 2 ^ 32)"
| "wire_value_ok _ = True"

text \<open>Every byte of a varint but its last has its high bit set.\<close>

lemma varint_bytes_high:
  "\<exists>bs b. varint_bytes v = bs @ [b] \<and> (\<forall>c \<in> set bs. c AND 0x80 \<noteq> 0) \<and> b AND 0x80 = 0"
proof (cases "v \<le> 0x7F")
  case True
  then show ?thesis by (auto simp: varint_bytes_def and_0x80_eq_0 small_high_bit)
next
  case False
  have "\<exists>bs b. clear_last (varint_buffer v) = bs @ [b] \<and> (\<forall>c \<in> set bs. c AND 0x80 \<noteq> 0) \<and> b AND 0x80 = 0"
    if "v \<noteq> 0" for v
    using that
  proof (induction v rule: varint_buffer.induct)
    case (1 v)
    show ?case
    proof (cases "drop_bit 7 v = 0")
      case True
      with "1.prems" show ?thesis by (simp add: clear_last_varint_buffer group_stop)
    next
      case F: False
      with "1.IH" [OF "1.prems" F] obtain bs b where
        "clear_last (varint_buffer (drop_bit 7 v)) = bs @ [b]"
        "\<forall>c \<in> set bs. c AND 0x80 \<noteq> 0" "b AND 0x80 = 0" by blast
      with "1.prems" F show ?thesis
        by (intro exI [of _ "ucast ((v AND 0x7F) OR 0x80) # bs"] exI [of _ b])
           (simp add: clear_last_varint_buffer group_more)
    qed
  qed
  moreover have "v \<noteq> 0" using False by auto
  ultimately show ?thesis using False by (simp add: varint_bytes_def)
qed

lemma pb_skip_varint_high:
  "istream_ok s \<Longrightarrow> ibuf s = bs @ b # r \<Longrightarrow> \<forall>c \<in> set bs. c AND 0x80 \<noteq> 0 \<Longrightarrow> b AND 0x80 = 0 \<Longrightarrow>
   pb_skip_varint s = (True, iskip s (Suc (length bs)))"
proof (induction bs arbitrary: s)
  case Nil
  then show ?case
    using pb_read_append [of s "[b]" r] by (simp add: pb_skip_varint.simps [of s])
next
  case (Cons c bs)
  have "pb_read s 1 = (Some [c], iskip s 1)"
    using Cons.prems pb_read_append [of s "[c]" "bs @ b # r"] by simp
  moreover have "pb_skip_varint (iskip s 1) = (True, iskip (iskip s 1) (Suc (length bs)))"
    using Cons.prems by (intro Cons.IH) auto
  ultimately show ?case
    using Cons.prems by (simp add: pb_skip_varint.simps [of s])
qed

lemma pb_skip_varint_bytes:
  assumes "istream_ok s" "ibuf s = varint_bytes v @ r"
  shows "pb_skip_varint s = (True, iskip s (length (varint_bytes v)))"
proof -
  obtain bs b where "varint_bytes v = bs @ [b]" "\<forall>c \<in> set bs. c AND 0x80 \<noteq> 0" "b AND 0x80 = 0"
    using varint_bytes_high [of v] by blast
  with assms pb_skip_varint_high [of s bs b r] show ?thesis by simp
qed

lemma of_nat_u64_u32: "n < 2 ^ 32 \<Longrightarrow> (of_nat n :: u64) = ucast (of_nat n :: u32)"
  by (simp add: word_eq_iff_unat unat_u64_of_u32 unat_of_nat)

lemma unat_of_nat_u32: "n < 2 ^ 32 \<Longrightarrow> unat (of_nat n :: u32) = n"
  by (simp add: unat_of_nat)

lemma pb_skip_field_wire:
  assumes s: "istream_ok s" "ibuf s = wire_bytes w @ r" and w: "wire_value_ok w"
  shows "pb_skip_field s (wire_type_of w) = (True, iskip s (length (wire_bytes w)))"
proof (cases w)
  case (WBytes bs)
  let ?n = "of_nat (length bs) :: u32"
  have n: "(of_nat (length bs) :: u64) = ucast ?n" "unat ?n = length bs"
    using w WBytes by (simp_all add: of_nat_u64_u32 unat_of_nat_u32)
  have "pb_decode_varint32 s = (Some ?n, iskip s (length (varint_bytes (ucast ?n))))"
    using s WBytes n by (intro pb_decode_varint32_bytes) simp_all
  moreover have "pb_read_null (iskip s (length (varint_bytes (ucast ?n)))) (length bs) =
      (True, iskip (iskip s (length (varint_bytes (ucast ?n)))) (length bs))"
    using s WBytes n by (intro pb_read_null_append [where r = r]) simp_all
  ultimately show ?thesis
    using WBytes n by (simp add: pb_skip_field_def pb_skip_string_def)
next
  case (WFixed64 v)
  then show ?thesis
    using s pb_read_null_append [of s "fixed64_bytes v" r] by (simp add: pb_skip_field_def)
next
  case (WFixed32 v)
  then show ?thesis
    using s pb_read_null_append [of s "fixed32_bytes v" r] by (simp add: pb_skip_field_def)
qed (use s in \<open>simp add: pb_skip_field_def pb_skip_varint_bytes\<close>)

lemma ibuf_take: "istream_ok s \<Longrightarrow> n \<le> bytes_left s \<Longrightarrow> ibuf (s\<lparr>bytes_left := n\<rparr>) = take n (ibuf s)"
  by (cases "src s") (auto simp: istream_ok_def ibuf_def intro!: nth_equalityI)

lemma make_substream_bytes:
  assumes s: "istream_ok s" "ibuf s = wire_bytes (WBytes bs) @ r" and len: "length bs < 2 ^ 32"
  defines "h \<equiv> length (varint_bytes (of_nat (length bs)))"
  shows "pb_make_string_substream s =
    (Some ((iskip s h)\<lparr>bytes_left := length bs\<rparr>), (iskip s h)\<lparr>bytes_left := length r\<rparr>)"
proof -
  let ?n = "of_nat (length bs) :: u32"
  have n: "(of_nat (length bs) :: u64) = ucast ?n" "unat ?n = length bs"
    using len by (simp_all add: of_nat_u64_u32 unat_of_nat_u32)
  have "pb_decode_varint32 s = (Some ?n, iskip s h)"
    unfolding h_def n(1) using s n by (intro pb_decode_varint32_bytes) simp_all
  moreover have "bytes_left s = h + length bs + length r"
    using length_ibuf [OF s(1)] s(2) by (simp add: h_def)
  ultimately show ?thesis
    using n by (simp add: pb_make_string_substream_def)
qed

section \<open>Reads stay inside the buffer\<close>

text \<open>\<open>within s s'\<close>: \<open>s'\<close> reads the same memory as \<open>s\<close>, from a pointer that has only moved
  forward, and ends at the same address.  As every read advances the pointer over exactly
  the bytes it looks at, no byte outside the buffer has been read.\<close>

definition within :: "'u pb_istream \<Rightarrow> 'u pb_istream \<Rightarrow> bool" where
  "within s s' \<longleftrightarrow> (\<exists>m p p'. src s = Buf_read m p \<and> src s' = Buf_read m p' \<and>
     p \<le> p' \<and> p' + bytes_left s' = p + bytes_left s)"

lemma within_refl: "istream_ok s \<Longrightarrow> within s s"
  by (cases "src s") (auto simp: within_def istream_ok_def)

lemma within_trans: "within s s' \<Longrightarrow> within s' s'' \<Longrightarrow> within s s''"
  by (fastforce simp: within_def)

lemma within_ok: "within s s' \<Longrightarrow> istream_ok s \<and> istream_ok s'"
  by (auto simp: within_def istream_ok_def)

lemma within_error [simp]: "within s (pb_set_ierror s' e) = within s s'"
  by (simp add: within_def pb_set_ierror_def)

lemma pb_read_within: "istream_ok s \<Longrightarrow> pb_read s n = (x, s') \<Longrightarrow> within s s'"
  by (cases "src s")
     (auto simp: pb_read_def within_def istream_ok_def pb_set_ierror_def split: if_splits)

lemma pb_readbyte_within: "istream_ok s \<Longrightarrow> pb_readbyte s = (x, s') \<Longrightarrow> within s s'"
  by (auto simp: pb_readbyte_eq_pb_read split: prod.splits dest: pb_read_within)

lemma pb_read_null_within: "istream_ok s \<Longrightarrow> pb_read_null s n = (x, s') \<Longrightarrow> within s s'"
  by (cases "src s")
     (auto simp: pb_read_null_def istream_ok_def within_refl split: if_splits prod.splits
           intro: pb_read_within within_refl)

lemma varint_loop_within: "istream_ok s \<Longrightarrow> varint_loop s n acc = (x, s') \<Longrightarrow> within s s'"
proof (induction s n acc rule: varint_loop.induct)
  case (1 s n acc)
  show ?case
  proof (cases "pb_readbyte s")
    case (Pair b t)
    then have t: "within s t" using "1.prems"(1) by (auto intro: pb_readbyte_within)
    then have "istream_ok t" by (simp add: within_ok)
    with t Pair "1.prems" "1.IH" [OF _ Pair [symmetric]] show ?thesis
      by (auto simp: varint_loop.simps [of s] Let_def within_refl split: if_splits option.splits
            intro: within_trans)
  qed
qed

lemma varint32_loop_within: "istream_ok s \<Longrightarrow> varint32_loop s n acc = (x, s') \<Longrightarrow> within s s'"
proof (induction s n acc rule: varint32_loop.induct)
  case (1 s n acc)
  show ?case
  proof (cases "pb_readbyte s")
    case (Pair b t)
    then have t: "within s t" using "1.prems"(1) by (auto intro: pb_readbyte_within)
    then have "istream_ok t" by (simp add: within_ok)
    with t Pair "1.prems" "1.IH" [OF Pair [symmetric]] show ?thesis
      by (auto simp: varint32_loop.simps [of s] Let_def within_refl split: if_splits option.splits
            intro: within_trans)
  qed
qed

lemma pb_skip_varint_within: "istream_ok s \<Longrightarrow> pb_skip_varint s = (x, s') \<Longrightarrow> within s s'"
proof (induction s rule: pb_skip_varint.induct)
  case (1 s)
  show ?case
  proof (cases "pb_read s 1")
    case (Pair b t)
    then have t: "within s t" using "1.prems"(1) by (auto intro: pb_read_within)
    then have "istream_ok t" by (simp add: within_ok)
    with t Pair "1.prems" "1.IH" [OF Pair [symmetric]] show ?thesis
      by (auto simp: pb_skip_varint.simps [of s] split: if_splits option.splits intro: within_trans)
  qed
qed

lemma pb_decode_varint32_eof_within:
  assumes "istream_ok s" "pb_decode_varint32_eof s = (x, e, s')"
  shows "within s s'"
proof (cases "pb_readbyte s")
  case (Pair b t)
  then have t: "within s t" using assms(1) by (auto intro: pb_readbyte_within)
  then have "within t t'" if "varint32_loop t 7 a = (y, t')" for a y t'
    using that within_ok by (blast intro: varint32_loop_within)
  with t Pair assms show ?thesis
    by (auto simp: pb_decode_varint32_eof_def split: if_splits option.splits prod.splits
          intro: within_trans)
qed

lemma pb_decode_varint32_within: "istream_ok s \<Longrightarrow> pb_decode_varint32 s = (x, s') \<Longrightarrow> within s s'"
  by (auto simp: pb_decode_varint32_def split: prod.splits intro: pb_decode_varint32_eof_within)

lemma pb_skip_string_within:
  assumes "istream_ok s" "pb_skip_string s = (x, s')"
  shows "within s s'"
proof (cases "pb_decode_varint32 s")
  case (Pair b t)
  then have t: "within s t" using assms(1) by (auto intro: pb_decode_varint32_within)
  then have "within t t'" if "pb_read_null t k = (y, t')" for k y t'
    using that within_ok by (blast intro: pb_read_null_within)
  with t Pair assms show ?thesis
    by (auto simp: pb_skip_string_def split: option.splits intro: within_trans)
qed

lemma pb_skip_field_within: "istream_ok s \<Longrightarrow> pb_skip_field s w = (x, s') \<Longrightarrow> within s s'"
  by (cases w)
     (auto simp: pb_skip_field_def within_refl dest: pb_skip_varint_within pb_read_null_within
        pb_skip_string_within)

section \<open>Writing a value and reading it back\<close>

lemma pb_write_from_buffer:
  assumes "length bs \<le> n" "n < size_max"
  shows "pb_write (pb_ostream_from_buffer m buf n) bs (length bs) =
    (True, \<lparr>sink = Buf_write (write_bytes m buf bs) (buf + length bs), max_size = n,
       bytes_written = length bs, os_errmsg = None\<rparr>)"
  using assms by (simp add: pb_write_def pb_ostream_from_buffer_def)

lemma length_varint_bytes: "0 < length (varint_bytes v) \<and> length (varint_bytes v) \<le> 10"
proof -
  have "unat v < 2 ^ (7 * 10)"
    using unat_bound [of v] by simp
  then have "length (varint_buffer v) \<le> 10" by (rule length_varint_buffer)
  moreover have "\<not> v \<le> 0x7F \<Longrightarrow> varint_buffer v \<noteq> []"
    by (rule varint_buffer_nonempty) auto
  ultimately show ?thesis by (auto simp: varint_bytes_def)
qed

lemma ibuf_written [simp]:
  "ibuf (pb_istream_from_buffer (write_bytes m buf bs) buf (length bs)) = bs"
  by simp

text \<open>(C1) Whatever the 64-bit value, \<open>pb_encode_varint\<close> into a buffer of at least ten bytes
  succeeds, writes between one and ten bytes, leaves every byte of memory outside those alone, and
  \<open>pb_decode_varint\<close> over exactly the bytes written returns the value and consumes them all.\<close>

theorem pb_varint_roundtrip:
  assumes "10 \<le> n" "n < size_max"
  shows "\<exists>m' k. pb_encode_varint (pb_ostream_from_buffer m buf n) v =
      (True, \<lparr>sink = Buf_write m' (buf + k), max_size = n, bytes_written = k, os_errmsg = None\<rparr>) \<and>
    0 < k \<and> k \<le> 10 \<and> (\<forall>x. x < buf \<or> buf + k \<le> x \<longrightarrow> m' x = m x) \<and>
    (\<exists>s'. pb_decode_varint (pb_istream_from_buffer m' buf k) = (Some v, s') \<and> bytes_left s' = 0)"
proof (intro exI conjI)
  let ?k = "length (varint_bytes v)"
  show "pb_encode_varint (pb_ostream_from_buffer m buf n) v =
      (True, \<lparr>sink = Buf_write (write_bytes m buf (varint_bytes v)) (buf + ?k), max_size = n,
         bytes_written = ?k, os_errmsg = None\<rparr>)"
    using assms length_varint_bytes [of v] by (simp add: pb_encode_varint_eq pb_write_from_buffer)
  show "pb_decode_varint (pb_istream_from_buffer (write_bytes m buf (varint_bytes v)) buf ?k) =
      (Some v, iskip (pb_istream_from_buffer (write_bytes m buf (varint_bytes v)) buf ?k) ?k)"
    by (rule pb_decode_varint_bytes [where r = "[]"]) simp_all
qed (use length_varint_bytes [of v] in \<open>simp_all add: pb_istream_from_buffer_def\<close>)

theorem pb_varint_roundtrip_witness:
  "(10 :: nat) \<le> 16 \<and> (16 :: nat) < size_max \<and>
   (\<exists>m' k. pb_encode_varint (pb_ostream_from_buffer (\<lambda>_. 0) 100 16 :: unit pb_ostream) 300 =
      (True, \<lparr>sink = Buf_write m' (100 + k), max_size = 16, bytes_written = k, os_errmsg = None\<rparr>) \<and>
    0 < k \<and> k \<le> 10 \<and> (\<forall>x. x < 100 \<or> 100 + k \<le> x \<longrightarrow> m' x = 0) \<and>
    (\<exists>s'. pb_decode_varint (pb_istream_from_buffer m' 100 k :: unit pb_istream) = (Some 300, s') \<and>
       bytes_left s' = 0))"
proof -
  have h: "(10 :: nat) \<le> 16" "(16 :: nat) < size_max" by (simp_all add: size_max_def)
  show ?thesis using h pb_varint_roundtrip [OF h, of "\<lambda>_. 0" 100 300] by blast
qed

text \<open>The zigzag encoding of every signed 64-bit value decodes to that value.\<close>

theorem pb_svarint_roundtrip:
  assumes "10 \<le> n" "n < size_max"
  shows "\<exists>m' k. pb_encode_svarint (pb_ostream_from_buffer m buf n) v =
      (True, \<lparr>sink = Buf_write m' (buf + k), max_size = n, bytes_written = k, os_errmsg = None\<rparr>) \<and>
    (\<exists>s'. pb_decode_svarint (pb_istream_from_buffer m' buf k) = (Some v, s') \<and> bytes_left s' = 0)"
proof (intro exI conjI)
  let ?z = "varint_bytes (zigzag v)"
  show "pb_encode_svarint (pb_ostream_from_buffer m buf n) v =
      (True, \<lparr>sink = Buf_write (write_bytes m buf ?z) (buf + length ?z), max_size = n,
         bytes_written = length ?z, os_errmsg = None\<rparr>)"
    using assms length_varint_bytes [of "zigzag v"]
    by (simp add: pb_encode_svarint_eq pb_encode_varint_eq pb_write_from_buffer)
  show "pb_decode_svarint (pb_istream_from_buffer (write_bytes m buf ?z) buf (length ?z)) =
      (Some v, iskip (pb_istream_from_buffer (write_bytes m buf ?z) buf (length ?z)) (length ?z))"
    by (rule pb_decode_svarint_bytes [where r = "[]"]) simp_all
qed (simp add: pb_istream_from_buffer_def)

theorem pb_svarint_roundtrip_witness:
  "(10 :: nat) \<le> 10 \<and> (10 :: nat) < size_max \<and>
   (\<exists>m' k. pb_encode_svarint (pb_ostream_from_buffer (\<lambda>_. 0) 0 10 :: unit pb_ostream) (-5) =
      (True, \<lparr>sink = Buf_write m' (0 + k), max_size = 10, bytes_written = k, os_errmsg = None\<rparr>) \<and>
    (\<exists>s'. pb_decode_svarint (pb_istream_from_buffer m' 0 k :: unit pb_istream) = (Some (-5), s') \<and>
       bytes_left s' = 0))"
proof -
  have h: "(10 :: nat) \<le> 10" "(10 :: nat) < size_max" by (simp_all add: size_max_def)
  show ?thesis using h pb_svarint_roundtrip [OF h, of "\<lambda>_. 0" 0 "-5"] by blast
qed

text \<open>Packed data: a stream that starts with the varints, the zigzag varints, or the 32- or
  64-bit little-endian integers of a list of values is decoded value by value, whatever follows,
  and exactly those bytes are consumed.\<close>

theorem pb_packed_roundtrip:
  assumes "istream_ok s"
  shows "(ibuf s = concat (map varint_bytes vs) @ r \<longrightarrow>
      dec_n pb_decode_varint (length vs) s = (Some vs, iskip s (length (concat (map varint_bytes vs))))) \<and>
    (ibuf s = concat (map (\<lambda>v. varint_bytes (zigzag v)) vs) @ r \<longrightarrow>
      dec_n pb_decode_svarint (length vs) s =
        (Some vs, iskip s (length (concat (map (\<lambda>v. varint_bytes (zigzag v)) vs))))) \<and>
    (ibuf s = concat (map fixed32_bytes ws) @ r \<longrightarrow>
      dec_n pb_decode_fixed32 (length ws) s = (Some ws, iskip s (length (concat (map fixed32_bytes ws))))) \<and>
    (ibuf s = concat (map fixed64_bytes vs) @ r \<longrightarrow>
      dec_n pb_decode_fixed64 (length vs) s = (Some vs, iskip s (length (concat (map fixed64_bytes vs)))))"
  using assms varint_codec.dec_n_enc svarint_codec.dec_n_enc fixed32_codec.dec_n_enc
    fixed64_codec.dec_n_enc by auto

theorem pb_packed_roundtrip_witness:
  "dec_n pb_decode_varint 2 (pb_istream_from_buffer (write_bytes (\<lambda>_. 0) 0
       (concat (map varint_bytes [1, 300]) @ [7])) 0 4 :: unit pb_istream) =
     (Some [1, 300], iskip (pb_istream_from_buffer (write_bytes (\<lambda>_. 0) 0
       (concat (map varint_bytes [1, 300]) @ [7])) 0 4) 3)"
proof -
  have len: "length (varint_bytes 1) = 1" "length (varint_bytes 300) = 2"
    by (simp_all add: varint_bytes_def varint_buffer.simps)
  let ?bs = "concat (map varint_bytes [1, 300]) @ [7]"
  have "ibuf (pb_istream_from_buffer (write_bytes (\<lambda>_. 0) 0 ?bs) 0 4 :: unit pb_istream) = ?bs"
    using ibuf_written [of "\<lambda>_. 0" 0 ?bs] by (simp add: len)
  with pb_packed_roundtrip [OF istream_ok_from_buffer]
  have "dec_n pb_decode_varint (length [1, 300 :: u64])
      (pb_istream_from_buffer (write_bytes (\<lambda>_. 0) 0 ?bs) 0 4 :: unit pb_istream) =
    (Some [1, 300], iskip (pb_istream_from_buffer (write_bytes (\<lambda>_. 0) 0 ?bs) 0 4)
       (length (concat (map varint_bytes [1, 300]))))" by blast
  then show ?thesis by (simp add: len numeral_2_eq_2 numeral_3_eq_3)
qed

text \<open>A tag written by \<open>pb_encode_tag\<close> for a non-zero field number below \<open>2 ^ 29\<close> and one of
  the four wire types is read back by \<open>pb_decode_tag\<close> as that wire type and field number.\<close>

theorem pb_tag_roundtrip:
  assumes "10 \<le> n" "n < size_max" "tag_ok (wt, num)"
  shows "\<exists>m' k. pb_encode_tag (pb_ostream_from_buffer m buf n) wt num =
      (True, \<lparr>sink = Buf_write m' (buf + k), max_size = n, bytes_written = k, os_errmsg = None\<rparr>) \<and>
    (\<exists>s'. pb_decode_tag (pb_istream_from_buffer m' buf k) = (Inr (wt, num), s') \<and> bytes_left s' = 0)"
proof (intro exI conjI)
  let ?t = "tag_bytes (wt, num)"
  have len: "length ?t \<le> 10"
    using length_varint_bytes by (simp add: tag_bytes_def)
  show "pb_encode_tag (pb_ostream_from_buffer m buf n) wt num =
      (True, \<lparr>sink = Buf_write (write_bytes m buf ?t) (buf + length ?t), max_size = n,
         bytes_written = length ?t, os_errmsg = None\<rparr>)"
    using assms len by (simp add: pb_encode_tag_eq pb_write_from_buffer)
  show "pb_decode_tag (pb_istream_from_buffer (write_bytes m buf ?t) buf (length ?t)) =
      (Inr (wt, num), iskip (pb_istream_from_buffer (write_bytes m buf ?t) buf (length ?t)) (length ?t))"
    by (rule pb_decode_tag_bytes [where r = "[]"]) (simp_all add: assms)
qed (simp add: pb_istream_from_buffer_def)

theorem pb_tag_roundtrip_witness:
  "tag_ok (PB_WT_STRING, 19) \<and>
   (\<exists>m' k. pb_encode_tag (pb_ostream_from_buffer (\<lambda>_. 0) 0 10 :: unit pb_ostream) PB_WT_STRING 19 =
      (True, \<lparr>sink = Buf_write m' (0 + k), max_size = 10, bytes_written = k, os_errmsg = None\<rparr>) \<and>
    (\<exists>s'. pb_decode_tag (pb_istream_from_buffer m' 0 k :: unit pb_istream) = (Inr (PB_WT_STRING, 19), s') \<and>
       bytes_left s' = 0))"
proof -
  have h: "(10 :: nat) \<le> 10" "(10 :: nat) < size_max" "tag_ok (PB_WT_STRING, 19)"
    by (simp_all add: size_max_def tag_ok_def)
  show ?thesis using h(3) pb_tag_roundtrip [OF h, of "\<lambda>_. 0" 0] by blast
qed

text \<open>(C20) \<open>pb_skip_field\<close>, given the wire type of the value at the front of the stream, skips
  exactly the bytes of that value (whatever its wire type and whatever follows it) and reports
  success.\<close>

theorem pb_skip_field_exact:
  assumes "istream_ok s" "wire_value_ok w" "ibuf s = wire_bytes w @ r"
  shows "\<exists>s'. pb_skip_field s (wire_type_of w) = (True, s') \<and> ibuf s' = r \<and> is_errmsg s' = is_errmsg s"
  using assms pb_skip_field_wire [of s w r] by simp

theorem pb_skip_field_exact_witness:
  "\<exists>s'. pb_skip_field (pb_istream_from_buffer (write_bytes (\<lambda>_. 0) 0
       (wire_bytes (WBytes [1, 2]) @ [8])) 0 4 :: unit pb_istream) PB_WT_STRING = (True, s') \<and>
     ibuf s' = [8] \<and> is_errmsg s' = None"
proof -
  let ?bs = "wire_bytes (WBytes [1, 2]) @ [8]"
  have len: "length (varint_bytes 2) = 1" by (simp add: varint_bytes_def)
  then have "ibuf (pb_istream_from_buffer (write_bytes (\<lambda>_. 0) 0 ?bs) 0 4 :: unit pb_istream) = ?bs"
    using ibuf_written [of "\<lambda>_. 0" 0 ?bs] by (simp add: eval_nat_numeral)
  moreover have "wire_value_ok (WBytes [1, 2])" by simp
  ultimately show ?thesis
    using pb_skip_field_exact [OF istream_ok_from_buffer, of "WBytes [1, 2]" _ 0 4 "[8]"]
    by (auto simp: pb_istream_from_buffer_def)
qed

text \<open>(C21) A length-delimited field opened with \<open>pb_make_string_substream\<close> gives a substream that
  holds exactly the payload; however much of it the reader consumes, \<open>pb_close_string_substream\<close>
  leaves the parent stream exactly after the field.\<close>

theorem pb_substream_isolation:
  assumes "istream_ok s" "ibuf s = wire_bytes (WBytes bs) @ r" "length bs < 2 ^ 32" "k \<le> length bs"
  shows "\<exists>sub parent. pb_make_string_substream s = (Some sub, parent) \<and> ibuf sub = bs \<and>
    pb_close_string_substream parent (iskip sub k) =
      (True, iskip s (length (wire_bytes (WBytes bs))))"
proof -
  let ?h = "length (varint_bytes (of_nat (length bs)))"
  let ?sub = "(iskip s ?h)\<lparr>bytes_left := length bs\<rparr>"
  let ?parent = "(iskip s ?h)\<lparr>bytes_left := length r\<rparr>"
  obtain m p where src: "src s = Buf_read m p"
    using assms(1) by (cases "src s") (auto simp: istream_ok_def)
  have left: "bytes_left s = ?h + length bs + length r"
    using length_ibuf [OF assms(1)] assms(2) by simp
  have ok: "istream_ok ?sub"
    using src by (simp add: istream_ok_def iskip_def)
  have sub: "ibuf ?sub = bs"
    using assms(1,2) left ibuf_take [of "iskip s ?h" "length bs"] by simp
  have "pb_read_null (iskip ?sub k) (length bs - k) = (True, iskip (iskip ?sub k) (length bs - k))"
    using pb_read_null_append [of "iskip ?sub k" "drop k bs" "[]"] ok sub by simp
  then have "pb_close_string_substream ?parent (iskip ?sub k) = (True, iskip s (?h + length bs))"
    using src left assms(4)
    by (cases s) (auto simp: pb_close_string_substream_def iskip_def)
  then show ?thesis
    using make_substream_bytes [OF assms(1-3)] sub by simp
qed

theorem pb_substream_isolation_witness:
  "\<exists>sub parent. pb_make_string_substream (pb_istream_from_buffer (write_bytes (\<lambda>_. 0) 0
       (wire_bytes (WBytes [1, 2]) @ [8])) 0 4 :: unit pb_istream) = (Some sub, parent) \<and>
     ibuf sub = [1, 2] \<and>
     pb_close_string_substream parent (iskip sub 1) =
       (True, iskip (pb_istream_from_buffer (write_bytes (\<lambda>_. 0) 0
          (wire_bytes (WBytes [1, 2]) @ [8])) 0 4) (length (wire_bytes (WBytes [1, 2]))))"
proof (rule pb_substream_isolation)
  let ?bs = "wire_bytes (WBytes [1, 2]) @ [8]"
  have len: "length (varint_bytes 2) = 1" by (simp add: varint_bytes_def)
  then show "ibuf (pb_istream_from_buffer (write_bytes (\<lambda>_. 0) 0 ?bs) 0 4 :: unit pb_istream) = ?bs"
    using ibuf_written [of "\<lambda>_. 0" 0 ?bs] by (simp add: eval_nat_numeral)
qed simp_all

text \<open>Memory safety of the wire-level readers on a memory stream: reading a varint, a tag or
  skipping a field of any wire type, whatever the bytes, only ever moves the read pointer forward
  inside the buffer: the address the stream ends at never changes.\<close>

theorem pb_readers_within:
  assumes "istream_ok s"
  shows "within s (snd (pb_decode_varint s)) \<and> within s (snd (pb_decode_varint32 s)) \<and>
    within s (snd (pb_decode_tag s)) \<and> within s (snd (pb_skip_field s w))"
proof (intro conjI)
  show "within s (snd (pb_decode_varint s))"
    using assms varint_loop_within [of s 0 0] by (simp add: pb_decode_varint_def prod_eq_iff)
  show "within s (snd (pb_decode_varint32 s))"
    using assms pb_decode_varint32_within [of s] by (simp add: prod_eq_iff)
  show "within s (snd (pb_skip_field s w))"
    using assms pb_skip_field_within [of s w] by (simp add: prod_eq_iff)
  show "within s (snd (pb_decode_tag s))"
    using assms by (auto simp: pb_decode_tag_def split: prod.splits option.splits
        intro: pb_decode_varint32_eof_within)
qed

theorem pb_readers_within_witness:
  "within (pb_istream_from_buffer (\<lambda>_. 0x80) 5 3 :: unit pb_istream)
     (snd (pb_decode_varint (pb_istream_from_buffer (\<lambda>_. 0x80) 5 3)))"
  using pb_readers_within [OF istream_ok_from_buffer] by blast

lemma varint_loop_overlong:
  "istream_ok s \<Longrightarrow> ibuf s = bs @ r \<Longrightarrow> \<forall>b \<in> set bs. b AND 0x80 \<noteq> 0 \<Longrightarrow>
   n + 7 * length bs \<ge> 64 \<Longrightarrow> n + 7 * length bs < 71 \<Longrightarrow>
   varint_loop s n acc = (None, pb_set_ierror (iskip s (length bs)) ''varint overflow'')"
proof (induction bs arbitrary: s n acc)
  case Nil
  then show ?case by (simp add: varint_loop.simps)
next
  case (Cons b bs)
  have "pb_readbyte s = (Some b, iskip s 1)"
    using Cons.prems by (intro pb_readbyte_Cons) simp_all
  moreover have "varint_loop (iskip s 1) (n + 7) a =
      (None, pb_set_ierror (iskip (iskip s 1) (length bs)) ''varint overflow'')" for a
    using Cons.prems by (intro Cons.IH) auto
  ultimately show ?case
    using Cons.prems by (simp add: varint_loop.simps [of s])
qed

text \<open>A 64-bit varint whose first ten bytes all have their continuation bit set is rejected as
  an overflow, without reading an eleventh byte.\<close>

theorem pb_decode_varint_overflow:
  assumes "istream_ok s" "ibuf s = bs @ r" "length bs = 10" "\<forall>b \<in> set bs. b AND 0x80 \<noteq> 0"
  shows "pb_decode_varint s = (None, pb_set_ierror (iskip s 10) ''varint overflow'')"
  using varint_loop_overlong [OF assms(1,2,4), of 0 0] assms(3) by (simp add: pb_decode_varint_def)

theorem pb_decode_varint_overflow_witness:
  "pb_decode_varint (pb_istream_from_buffer (\<lambda>_. 0xFF) 0 11 :: unit pb_istream) =
     (None, pb_set_ierror (iskip (pb_istream_from_buffer (\<lambda>_. 0xFF) 0 11) 10) ''varint overflow'')"
proof (rule pb_decode_varint_overflow)
  show "ibuf (pb_istream_from_buffer (\<lambda>_. 0xFF) 0 11 :: unit pb_istream) =
      replicate 10 0xFF @ [0xFF]"
    by (simp add: read_bytes_def eval_nat_numeral)
qed simp_all


end
