(* ===== verification/Pb_Fields.thy ===== *)
theory Pb_Fields
  imports Pb_Wire
begin

text \<open>
  Field descriptors (\<^verbatim>\<open>pb.h\<close>) and the iterator over the fields of a message (\<^verbatim>\<open>pb_common.c\<close>).

  A message lives in byte-addressed memory, little-endian and with eight-byte pointers; address \<open>0\<close> is the null pointer.
  The array of descriptors that the generator emits for a message type is the list of its entries without the
  terminating \<^verbatim>\<open>PB_LAST_FIELD\<close>, which \<open>field_at\<close> supplies.
\<close>

section \<open>Types and descriptors\<close>

definition PB_LTYPE_BOOL :: byte where "PB_LTYPE_BOOL = 0x00"
definition PB_LTYPE_VARINT :: byte where "PB_LTYPE_VARINT = 0x01"
definition PB_LTYPE_UVARINT :: byte where "PB_LTYPE_UVARINT = 0x02"
definition PB_LTYPE_SVARINT :: byte where "PB_LTYPE_SVARINT = 0x03"
definition PB_LTYPE_FIXED32 :: byte where "PB_LTYPE_FIXED32 = 0x04"
definition PB_LTYPE_FIXED64 :: byte where "PB_LTYPE_FIXED64 = 0x05"
definition PB_LTYPE_LAST_PACKABLE :: byte where "PB_LTYPE_LAST_PACKABLE = 0x05"
definition PB_LTYPE_BYTES :: byte where "PB_LTYPE_BYTES = 0x06"
definition PB_LTYPE_STRING :: byte where "PB_LTYPE_STRING = 0x07"
definition PB_LTYPE_SUBMESSAGE :: byte where "PB_LTYPE_SUBMESSAGE = 0x08"
definition PB_LTYPE_EXTENSION :: byte where "PB_LTYPE_EXTENSION = 0x09"
definition PB_LTYPE_FIXED_LENGTH_BYTES :: byte where "PB_LTYPE_FIXED_LENGTH_BYTES = 0x0A"

definition PB_HTYPE_REQUIRED :: byte where "PB_HTYPE_REQUIRED = 0x00"
definition PB_HTYPE_OPTIONAL :: byte where "PB_HTYPE_OPTIONAL = 0x10"
definition PB_HTYPE_REPEATED :: byte where "PB_HTYPE_REPEATED = 0x20"
definition PB_HTYPE_ONEOF :: byte where "PB_HTYPE_ONEOF = 0x30"

definition PB_ATYPE_STATIC :: byte where "PB_ATYPE_STATIC = 0x00"
definition PB_ATYPE_POINTER :: byte where "PB_ATYPE_POINTER = 0x80"
definition PB_ATYPE_CALLBACK :: byte where "PB_ATYPE_CALLBACK = 0x40"

definition PB_ATYPE :: "byte \<Rightarrow> byte" where "PB_ATYPE x = x AND 0xC0"
definition PB_HTYPE :: "byte \<Rightarrow> byte" where "PB_HTYPE x = x AND 0x30"
definition PB_LTYPE :: "byte \<Rightarrow> byte" where "PB_LTYPE x = x AND 0x0F"

lemmas ltype_defs = PB_LTYPE_BOOL_def PB_LTYPE_VARINT_def PB_LTYPE_UVARINT_def PB_LTYPE_SVARINT_def PB_LTYPE_FIXED32_def
  PB_LTYPE_FIXED64_def PB_LTYPE_LAST_PACKABLE_def PB_LTYPE_BYTES_def PB_LTYPE_STRING_def PB_LTYPE_SUBMESSAGE_def
  PB_LTYPE_EXTENSION_def PB_LTYPE_FIXED_LENGTH_BYTES_def

lemmas htype_defs = PB_HTYPE_REQUIRED_def PB_HTYPE_OPTIONAL_def PB_HTYPE_REPEATED_def PB_HTYPE_ONEOF_def

lemmas atype_defs = PB_ATYPE_STATIC_def PB_ATYPE_POINTER_def PB_ATYPE_CALLBACK_def

lemmas pb_type_defs = ltype_defs htype_defs atype_defs PB_ATYPE_def PB_HTYPE_def PB_LTYPE_def

definition PB_SIZE_MAX :: u32 where
  "PB_SIZE_MAX = - 1"

text \<open>\<open>fld_ptr\<close> is the address of a submessage's descriptors or of the default value.\<close>

record pb_field =
  fld_tag :: u32
  fld_type :: byte
  data_offset :: u32
  size_offset :: u32
  data_size :: u32
  array_size :: u32
  fld_ptr :: nat

definition PB_LAST_FIELD :: pb_field where
  "PB_LAST_FIELD = \<lparr>fld_tag = 0, fld_type = 0, data_offset = 0, size_offset = 0, data_size = 0, array_size = 0, fld_ptr = 0\<rparr>"

definition field_at :: "pb_field list \<Rightarrow> nat \<Rightarrow> pb_field" where
  "field_at fs i = (if i < length fs then fs ! i else PB_LAST_FIELD)"

text \<open>Pointer arithmetic; the second argument may be negative.\<close>

definition ptr_add :: "nat \<Rightarrow> int \<Rightarrow> nat" where
  "ptr_add p i = nat ((int p + i) mod int size_max)"

text \<open>A number in memory, least significant byte first.\<close>

fun le_nat :: "byte list \<Rightarrow> nat" where
  "le_nat [] = 0"
| "le_nat (b # bs) = unat b + 256 * le_nat bs"

definition load :: "mem \<Rightarrow> nat \<Rightarrow> nat \<Rightarrow> nat" where
  "load h p n = le_nat (read_bytes h p n)"

section \<open>The iterator\<close>

record pb_field_iter =
  start :: "pb_field list"
  pos :: nat
  required_field_index :: nat
  dest_struct :: nat
  pData :: nat
  pSize :: nat

abbreviation iter_field :: "pb_field_iter \<Rightarrow> pb_field" where
  "iter_field iter \<equiv> field_at (start iter) (pos iter)"

definition pb_field_iter_begin :: "pb_field list \<Rightarrow> nat \<Rightarrow> bool \<times> pb_field_iter" where
  "pb_field_iter_begin fs dest =
     (let first = field_at fs 0;
          d = (if dest = 0 then 0 else ptr_add dest (uint (data_offset first)));
          sz = (if dest = 0 then 0 else ptr_add d (sint (size_offset first)))
      in (fld_tag first \<noteq> 0,
          \<lparr>start = fs, pos = 0, required_field_index = 0, dest_struct = dest, pData = d, pSize = sz\<rparr>))"

definition pb_field_iter_next :: "pb_field_iter \<Rightarrow> bool \<times> pb_field_iter" where
  "pb_field_iter_next iter =
     (let prev_field = iter_field iter; next_field = field_at (start iter) (pos iter + 1)
      in if fld_tag prev_field = 0 then (False, iter)
         else if fld_tag next_field = 0 then (False, snd (pb_field_iter_begin (start iter) (dest_struct iter)))
         else if PB_HTYPE (fld_type prev_field) = PB_HTYPE_ONEOF \<and> PB_HTYPE (fld_type next_field) = PB_HTYPE_ONEOF \<and>
                 data_offset next_field = PB_SIZE_MAX
         then (True, iter\<lparr>pos := pos iter + 1\<rparr>)
         else
           (let prev_size =
                  (if PB_ATYPE (fld_type prev_field) = PB_ATYPE_STATIC \<and> PB_HTYPE (fld_type prev_field) = PB_HTYPE_REPEATED
                   then (unat (data_size prev_field) * unat (array_size prev_field)) mod size_max
                   else if PB_ATYPE (fld_type prev_field) = PB_ATYPE_POINTER then 8
                   else unat (data_size prev_field));
                index = (if PB_HTYPE (fld_type prev_field) = PB_HTYPE_REQUIRED
                         then (required_field_index iter + 1) mod 2 ^ 32 else required_field_index iter);
                d = ptr_add (pData iter) (int prev_size + uint (data_offset next_field))
            in (True, iter\<lparr>pos := pos iter + 1, required_field_index := index, pData := d,
                           pSize := ptr_add d (sint (size_offset next_field))\<rparr>)))"

text \<open>The idiom \<^verbatim>\<open>if (!f(...)) return false;\<close>, where \<^verbatim>\<open>f\<close> might not return.\<close>

definition or_return :: "(bool \<times> 's) option \<Rightarrow> ('s \<Rightarrow> (bool \<times> 's) option) \<Rightarrow> (bool \<times> 's) option" where
  "or_return x f = (case x of None \<Rightarrow> None | Some (False, s) \<Rightarrow> Some (False, s) | Some (True, s) \<Rightarrow> f s)"

text \<open>
  The idiom \<^verbatim>\<open>do { ... } while (pb_field_iter_next(&iter))\<close>, whose body can return \<^verbatim>\<open>false\<close> (\<open>Some (False, s)\<close>) or not
  return at all (\<open>None\<close>).
\<close>

lemma iter_next_pos: "pb_field_iter_next iter = (True, iter') \<Longrightarrow>
  start iter' = start iter \<and> pos iter' = pos iter + 1 \<and> pos iter' < length (start iter)"
  by (auto simp: pb_field_iter_next_def Let_def field_at_def PB_LAST_FIELD_def split: if_splits)

function fields_loop :: "(pb_field_iter \<Rightarrow> 's \<Rightarrow> (bool \<times> 's) option) \<Rightarrow> pb_field_iter \<Rightarrow> 's \<Rightarrow> (bool \<times> 's) option" where
  "fields_loop body iter s =
     (case body iter s of
        None \<Rightarrow> None
      | Some (False, s') \<Rightarrow> Some (False, s')
      | Some (True, s') \<Rightarrow>
          (case pb_field_iter_next iter of
             (False, _) \<Rightarrow> Some (True, s')
           | (True, iter') \<Rightarrow> fields_loop body iter' s'))"
  by pat_completeness auto
termination
  by (relation "measure (\<lambda>(body, iter, s). length (start iter) - pos iter)") (auto dest!: iter_next_pos [OF sym])

declare fields_loop.simps [simp del]

text \<open>The search for a field; it would not end from a position that the iterator cannot come back to (\<open>None\<close>).\<close>

partial_function (option) find_loop :: "nat \<Rightarrow> (pb_field \<Rightarrow> bool) \<Rightarrow> pb_field_iter \<Rightarrow> (bool \<times> pb_field_iter) option" where
  "find_loop first hit iter =
     (if hit (iter_field iter) then Some (True, iter)
      else if pos (snd (pb_field_iter_next iter)) \<noteq> first
      then find_loop first hit (snd (pb_field_iter_next iter))
      else Some (False, snd (pb_field_iter_next iter)))"

declare find_loop.simps [code]

definition is_hit :: "u32 \<Rightarrow> pb_field \<Rightarrow> bool" where
  "is_hit tag f \<longleftrightarrow> fld_tag f = tag \<and> PB_LTYPE (fld_type f) \<noteq> PB_LTYPE_EXTENSION"

definition pb_field_iter_find :: "pb_field_iter \<Rightarrow> u32 \<Rightarrow> (bool \<times> pb_field_iter) option" where
  "pb_field_iter_find iter tag = find_loop (pos iter) (is_hit tag) iter"

section \<open>The layout of a message\<close>

text \<open>The fields of a message of type \<open>fs\<close> at address \<open>a\<close> with the address of each: what the iterator goes through.\<close>

definition next_addr :: "pb_field \<Rightarrow> pb_field \<Rightarrow> nat \<Rightarrow> nat" where
  "next_addr f g p =
     (if PB_HTYPE (fld_type f) = PB_HTYPE_ONEOF \<and> PB_HTYPE (fld_type g) = PB_HTYPE_ONEOF \<and> data_offset g = PB_SIZE_MAX then p
      else
        ptr_add p
          (int (if PB_ATYPE (fld_type f) = PB_ATYPE_STATIC \<and> PB_HTYPE (fld_type f) = PB_HTYPE_REPEATED
                then unat (data_size f) * unat (array_size f) mod size_max
                else if PB_ATYPE (fld_type f) = PB_ATYPE_POINTER then 8 else unat (data_size f)) +
           uint (data_offset g)))"

fun layout_from :: "pb_field \<Rightarrow> nat \<Rightarrow> pb_field list \<Rightarrow> (pb_field \<times> nat) list" where
  "layout_from f p [] = [(f, p)]"
| "layout_from f p (g # gs) = (f, p) # (if fld_tag g = 0 then [] else layout_from g (next_addr f g p) gs)"

fun layout :: "pb_field list \<Rightarrow> nat \<Rightarrow> (pb_field \<times> nat) list" where
  "layout [] a = []"
| "layout (f # fs) a =
     (if fld_tag f = 0 then [] else layout_from f (if a = 0 then 0 else ptr_add a (uint (data_offset f))) fs)"

definition remaining :: "pb_field_iter \<Rightarrow> (pb_field \<times> nat) list" where
  "remaining iter = layout_from (iter_field iter) (pData iter) (drop (pos iter + 1) (start iter))"

lemma last_field_tag [simp]: "fld_tag PB_LAST_FIELD = 0"
  by (simp add: PB_LAST_FIELD_def)

lemma layout_begin:
  assumes "pb_field_iter_begin fs a = (r, iter)"
  shows "if r then layout fs a = remaining iter \<and> fld_tag (iter_field iter) \<noteq> 0 \<and> pos iter = 0 \<and>
           start iter = fs \<and> dest_struct iter = a
         else layout fs a = []"
  using assms by (cases fs) (auto simp: pb_field_iter_begin_def Let_def field_at_def remaining_def)

lemma remaining_next:
  assumes "pb_field_iter_next iter = (r, iter')" "fld_tag (iter_field iter) \<noteq> 0"
  shows "if r then remaining iter = (iter_field iter, pData iter) # remaining iter' \<and> fld_tag (iter_field iter') \<noteq> 0 \<and>
           dest_struct iter' = dest_struct iter
         else remaining iter = [(iter_field iter, pData iter)] \<and>
           iter' = snd (pb_field_iter_begin (start iter) (dest_struct iter))"
proof (cases "Suc (pos iter) < length (start iter)")
  case True
  then have d: "drop (Suc (pos iter)) (start iter) = start iter ! Suc (pos iter) # drop (Suc (Suc (pos iter))) (start iter)"
    by (rule Cons_nth_drop_Suc [symmetric])
  have g: "field_at (start iter) (Suc (pos iter)) = start iter ! Suc (pos iter)" using True by (simp add: field_at_def)
  show ?thesis
    using assms by (auto simp: pb_field_iter_next_def Let_def remaining_def d g next_addr_def split: if_splits)
next
  case False
  then show ?thesis using assms by (simp add: pb_field_iter_next_def Let_def remaining_def field_at_def)
qed

lemma layout_from_fields: "(g, q) \<in> set (layout_from f p fs) \<Longrightarrow> g = f \<or> g \<in> set fs"
  by (induction f p fs rule: layout_from.induct) (auto split: if_splits)

lemma layout_fields: "(f, p) \<in> set (layout fs a) \<Longrightarrow> f \<in> set fs"
  by (cases fs) (auto dest: layout_from_fields split: if_splits)

lemma htype_cases: "PB_HTYPE x \<in> {PB_HTYPE_REQUIRED, PB_HTYPE_OPTIONAL, PB_HTYPE_REPEATED, PB_HTYPE_ONEOF}"
proof -
  have "list_all (\<lambda>n. PB_HTYPE (word_of_nat n) \<in> {PB_HTYPE_REQUIRED, PB_HTYPE_OPTIONAL, PB_HTYPE_REPEATED, PB_HTYPE_ONEOF}) [0..<256]"
    by code_simp
  moreover have "unat x \<in> set [0..<256]" using unsigned_less [of x, where 'a = nat] by simp
  ultimately have "PB_HTYPE (word_of_nat (unat x)) \<in> {PB_HTYPE_REQUIRED, PB_HTYPE_OPTIONAL, PB_HTYPE_REPEATED, PB_HTYPE_ONEOF}"
    unfolding list_all_iff by (rule bspec)
  then show ?thesis by simp
qed

lemma ltype_small:
  assumes "t \<le> PB_LTYPE_FIXED_LENGTH_BYTES"
  shows "t \<in> {0, 1, 2, 3, 4, 5, 6, 7, 8, 9, 10}"
proof -
  have "unat t \<le> 10" using assms by (simp add: word_le_nat_alt PB_LTYPE_FIXED_LENGTH_BYTES_def)
  then have "unat t \<in> {0, 1, 2, 3, 4, 5, 6, 7, 8, 9, 10}" by simp presburger
  then have "(word_of_nat (unat t) :: byte) \<in> word_of_nat ` {0, 1, 2, 3, 4, 5, 6, 7, 8, 9, 10}" by (rule imageI)
  then show ?thesis by simp
qed

lemma htype_distinct:
  "PB_HTYPE_REQUIRED \<noteq> PB_HTYPE_OPTIONAL" "PB_HTYPE_REQUIRED \<noteq> PB_HTYPE_REPEATED" "PB_HTYPE_REQUIRED \<noteq> PB_HTYPE_ONEOF"
  "PB_HTYPE_OPTIONAL \<noteq> PB_HTYPE_REPEATED" "PB_HTYPE_OPTIONAL \<noteq> PB_HTYPE_ONEOF" "PB_HTYPE_REPEATED \<noteq> PB_HTYPE_ONEOF"
  by (simp_all add: htype_defs)

text \<open>A loop over the fields whose body looks at a field and its address is a recursion over the layout.\<close>

fun run_fields :: "(pb_field \<Rightarrow> nat \<Rightarrow> 's \<Rightarrow> (bool \<times> 's) option) \<Rightarrow> (pb_field \<times> nat) list \<Rightarrow> 's \<Rightarrow> (bool \<times> 's) option" where
  "run_fields g [] s = Some (True, s)"
| "run_fields g ((f, p) # l) s = or_return (g f p s) (run_fields g l)"

lemma fields_loop_remaining:
  "fld_tag (iter_field iter) \<noteq> 0 \<Longrightarrow>
   fields_loop (\<lambda>iter. g (iter_field iter) (pData iter)) iter s = run_fields g (remaining iter) s"
proof (induction "\<lambda>iter. g (iter_field iter) (pData iter)" iter s rule: fields_loop.induct)
  case (1 iter s)
  obtain r iter' where n: "pb_field_iter_next iter = (r, iter')" by force
  note rem = remaining_next [OF n 1(2)]
  show ?case
  proof (cases r)
    case True
    with rem 1(1) n show ?thesis
      by (subst fields_loop.simps) (auto simp: or_return_def split: option.split bool.split)
  next
    case False
    with rem n show ?thesis
      by (subst fields_loop.simps) (auto simp: or_return_def split: option.split bool.split)
  qed
qed

lemma fields_loop_layout:
  "(case pb_field_iter_begin fs a of
      (False, _) \<Rightarrow> Some (True, s)
    | (True, iter) \<Rightarrow> fields_loop (\<lambda>iter. g (iter_field iter) (pData iter)) iter s) = run_fields g (layout fs a) s"
proof -
  obtain r iter where b: "pb_field_iter_begin fs a = (r, iter)" by force
  from layout_begin [OF this] fields_loop_remaining [of iter g s] show ?thesis by (cases r) (auto simp: b)
qed

text \<open>The \<open>i\<close>-th position of the iterator, and the search from there.\<close>

fun iter_nth :: "pb_field list \<Rightarrow> nat \<Rightarrow> nat \<Rightarrow> pb_field_iter" where
  "iter_nth fs a 0 = snd (pb_field_iter_begin fs a)"
| "iter_nth fs a (Suc i) = snd (pb_field_iter_next (iter_nth fs a i))"

lemma iter_nth_remaining:
  "i < length (layout fs a) \<Longrightarrow>
   remaining (iter_nth fs a i) = drop i (layout fs a) \<and> fld_tag (iter_field (iter_nth fs a i)) \<noteq> 0 \<and>
   pos (iter_nth fs a i) = i \<and> start (iter_nth fs a i) = fs \<and> dest_struct (iter_nth fs a i) = a"
proof (induction i)
  case 0
  then show ?case
    using layout_begin [of fs a "fst (pb_field_iter_begin fs a)" "snd (pb_field_iter_begin fs a)"]
    by (auto split: if_splits)
next
  case (Suc i)
  obtain r iter where n: "pb_field_iter_next (iter_nth fs a i) = (r, iter)" by force
  from Suc have IH: "remaining (iter_nth fs a i) = drop i (layout fs a)" "fld_tag (iter_field (iter_nth fs a i)) \<noteq> 0"
    "pos (iter_nth fs a i) = i" "start (iter_nth fs a i) = fs" "dest_struct (iter_nth fs a i) = a" by auto
  have "drop i (layout fs a) = layout fs a ! i # drop (Suc i) (layout fs a)" "drop (Suc i) (layout fs a) \<noteq> []"
    using Suc.prems by (simp_all add: Cons_nth_drop_Suc)
  then show ?case
    using remaining_next [OF n IH(2)] IH n iter_next_pos [of "iter_nth fs a i" iter] by (cases r) auto
qed

lemma remaining_Cons: "remaining iter = (iter_field iter, pData iter) # tl (remaining iter)"
  by (cases "drop (pos iter + 1) (start iter)") (simp_all add: remaining_def)

lemma iter_nth_field:
  assumes "i < length (layout fs a)"
  shows "(iter_field (iter_nth fs a i), pData (iter_nth fs a i)) = layout fs a ! i"
proof -
  have "(iter_field (iter_nth fs a i), pData (iter_nth fs a i)) = hd (drop i (layout fs a))"
    using iter_nth_remaining [OF assms] remaining_Cons [of "iter_nth fs a i"] by (metis list.sel(1))
  with assms show ?thesis by (simp add: hd_drop_conv_nth)
qed

lemma iter_nth_wrap:
  assumes "Suc i = length (layout fs a)"
  shows "snd (pb_field_iter_next (iter_nth fs a i)) = iter_nth fs a 0"
proof -
  obtain r iter where n: "pb_field_iter_next (iter_nth fs a i) = (r, iter)" by force
  have "i < length (layout fs a)" using assms by simp
  note i = iter_nth_remaining [OF this]
  have one: "length (remaining (iter_nth fs a i)) = 1" using conjunct1 [OF i] assms by (metis length_drop add_diff_cancel_left' plus_1_eq_Suc add.commute)
  have some: "length (remaining iter) > 0" by (subst remaining_Cons) simp
  have "\<not> r"
  proof
    assume r
    with remaining_next [OF n] i have "length (remaining (iter_nth fs a i)) = Suc (length (remaining iter))" by (metis length_Cons)
    with one some show False by simp
  qed
  with remaining_next [OF n] i have "iter = snd (pb_field_iter_begin fs a)" by auto
  with n show ?thesis by simp
qed

lemma iter_nth_cycle:
  assumes "i < length (layout fs a)"
  shows "snd (pb_field_iter_next (iter_nth fs a i)) = iter_nth fs a (Suc i mod length (layout fs a))"
proof (cases "Suc i = length (layout fs a)")
  case True
  from iter_nth_wrap [OF this] True [symmetric] show ?thesis by (metis mod_self)
next
  case False
  with assms show ?thesis by simp
qed

lemma find_loop_from:
  assumes "i < L" "k < L" "\<forall>m < k. \<not> hit (fst (layout fs a ! ((i + m) mod L)))"
    and L: "L = length (layout fs a)"
  shows "\<exists>ok j. find_loop i hit (iter_nth fs a ((i + k) mod L)) = Some (ok, iter_nth fs a j) \<and> j < L \<and>
     (if ok then hit (fst (layout fs a ! j)) else j = i \<and> (\<forall>m < L. \<not> hit (fst (layout fs a ! ((i + m) mod L)))))"
  using assms(2,3)
proof (induction "L - k" arbitrary: k)
  case 0
  then show ?case by simp
next
  case (Suc d)
  let ?j = "(i + k) mod L"
  have j: "?j < L" using assms(1) by simp
  then have f: "iter_field (iter_nth fs a ?j) = fst (layout fs a ! ?j)" using iter_nth_field [of ?j fs a] L by (metis fst_conv)
  have n: "snd (pb_field_iter_next (iter_nth fs a ?j)) = iter_nth fs a ((i + Suc k) mod L)"
    using iter_nth_cycle [of ?j fs a] j L by (simp add: mod_Suc_eq)
  have p: "pos (iter_nth fs a ((i + Suc k) mod L)) = (i + Suc k) mod L"
    using iter_nth_remaining [of "(i + Suc k) mod L" fs a] assms(1) L by (metis mod_less_divisor not_less_zero gr0I)
  show ?case
  proof (cases "hit (fst (layout fs a ! ?j))")
    case True
    then show ?thesis using j f by (subst find_loop.simps) auto
  next
    case False
    then have no: "\<forall>m < Suc k. \<not> hit (fst (layout fs a ! ((i + m) mod L)))" using Suc.prems(2) by (auto simp: less_Suc_eq)
    have step: "find_loop i hit (iter_nth fs a ?j) =
      (if (i + Suc k) mod L \<noteq> i then find_loop i hit (iter_nth fs a ((i + Suc k) mod L))
       else Some (False, iter_nth fs a ((i + Suc k) mod L)))"
      using False by (subst find_loop.simps) (simp only: n p f if_False simp_thms)
    show ?thesis
    proof (cases "Suc k = L")
      case True
      then have m: "(i + Suc k) mod L = i" using assms(1) by simp
      have "find_loop i hit (iter_nth fs a ?j) = Some (False, iter_nth fs a i)" unfolding step m by simp
      with no assms(1) True show ?thesis by (intro exI [of _ False] exI [of _ i]) simp
    next
      case False
      with Suc.prems(1) have "Suc k < L" by simp
      with assms(1) have "(i + Suc k) mod L \<noteq> i"
        by (cases "i + Suc k < L") (simp_all add: le_mod_geq)
      with step \<open>Suc k < L\<close> Suc.hyps(1) [of "Suc k"] Suc.hyps(2) no show ?thesis by simp
    qed
  qed
qed

section \<open>Correctness\<close>

text \<open>(C23) From any position of the iterator the search for a tag ends; it stops at a field with the tag, at the address of that field in
  the message, and reports failure exactly when there is none.\<close>

theorem pb_field_iter_find_exact:
  assumes "i < length (layout fs a)"
  shows "\<exists>ok iter. pb_field_iter_find (iter_nth fs a i) tag = Some (ok, iter) \<and>
     (iter_field iter, pData iter) \<in> set (layout fs a) \<and>
     (ok \<longleftrightarrow> (\<exists>(f, p) \<in> set (layout fs a). is_hit tag f)) \<and> (ok \<longrightarrow> is_hit tag (iter_field iter))"
proof -
  let ?L = "length (layout fs a)"
  have hit: "\<exists>m < ?L. is_hit tag (fst (layout fs a ! ((i + m) mod ?L)))" if "(f, p) \<in> set (layout fs a)" "is_hit tag f" for f p
  proof -
    from that obtain q where q: "q < ?L" "layout fs a ! q = (f, p)" by (auto simp: in_set_conv_nth)
    define m where "m = (if i \<le> q then q - i else q + ?L - i)"
    have "m < ?L" "(i + m) mod ?L = q" using q(1) assms by (auto simp: m_def mod_if)
    with q that show ?thesis by (metis fst_conv)
  qed
  have "pos (iter_nth fs a i) = i" using iter_nth_remaining [OF assms] by simp
  moreover have "0 < ?L" using assms by linarith
  ultimately obtain ok j where j: "pb_field_iter_find (iter_nth fs a i) tag = Some (ok, iter_nth fs a j)" "j < ?L"
    "if ok then is_hit tag (fst (layout fs a ! j)) else \<forall>m < ?L. \<not> is_hit tag (fst (layout fs a ! ((i + m) mod ?L)))"
    using find_loop_from [OF assms _ _ refl, of 0 "is_hit tag"] assms unfolding pb_field_iter_find_def
    by (simp only: add_0_right mod_less not_less_zero simp_thms) (metis (full_types))
  have f: "(iter_field (iter_nth fs a j), pData (iter_nth fs a j)) = layout fs a ! j" by (rule iter_nth_field [OF j(2)])
  then have "(iter_field (iter_nth fs a j), pData (iter_nth fs a j)) \<in> set (layout fs a)" using j(2) by simp
  moreover have "iter_field (iter_nth fs a j) = fst (layout fs a ! j)" using f by (metis fst_conv)
  ultimately show ?thesis using j hit by (cases ok) fastforce+
qed

definition example_pair :: "pb_field list" where
  "example_pair =
    [\<lparr>fld_tag = 1, fld_type = 0x02, data_offset = 0, size_offset = 0, data_size = 4, array_size = 0, fld_ptr = 0\<rparr>,
     \<lparr>fld_tag = 5, fld_type = 0x02, data_offset = 4, size_offset = 0, data_size = 4, array_size = 0, fld_ptr = 0\<rparr>]"

theorem pb_field_iter_find_exact_witness:
  "\<exists>iter. pb_field_iter_find (iter_nth example_pair 200 1) 1 = Some (True, iter) \<and> fld_tag (iter_field iter) = 1 \<and>
     (iter_field iter, pData iter) \<in> set (layout example_pair 200)"
proof -
  have l: "layout example_pair 200 = [(example_pair ! 0, 200), (example_pair ! 1, 208)]"
    by (simp add: example_pair_def next_addr_def ptr_add_def pb_type_defs size_max_def PB_SIZE_MAX_def)
  have "is_hit 1 (example_pair ! 0)" by (simp add: is_hit_def example_pair_def pb_type_defs)
  with pb_field_iter_find_exact [of 1 example_pair 200 1] show ?thesis by (auto simp: l is_hit_def)
qed

end
