(* ===== verification/Pb_Decode.thy ===== *)
theory Pb_Decode
  imports Pb_Fields
begin

text \<open>
  The decoder of messages (\<^verbatim>\<open>pb_decode.c\<close>), into a message in the heap, which the input buffer does not overlap.

  The heap is byte-addressed memory with the blocks that \<^verbatim>\<open>realloc\<close> has handed out.  Where a block is placed, and whether
  there is one, is a matter of the environment, as are the descriptors of submessages and the functions that the code
  calls through pointers.  The number \<open>n\<close> bounds both the levels of nesting and the passes through a loop; \<open>None\<close> is a run that
  does not end within it, or one that C does not define (a call through a missing table entry, \<^verbatim>\<open>free\<close> or \<^verbatim>\<open>realloc\<close> of an
  address that is not a block, descriptors behind a null pointer).
\<close>

section \<open>The heap\<close>

record heap =
  bytes_of :: mem
  blocks :: "nat \<rightharpoonup> nat"

fun le_bytes :: "nat \<Rightarrow> nat \<Rightarrow> byte list" where
  "le_bytes 0 v = []"
| "le_bytes (Suc n) v = word_of_nat v # le_bytes n (v div 256)"

definition get :: "heap \<Rightarrow> nat \<Rightarrow> nat \<Rightarrow> nat" where
  "get hp p n = load (bytes_of hp) p n"

definition put_bytes :: "heap \<Rightarrow> nat \<Rightarrow> byte list \<Rightarrow> heap" where
  "put_bytes hp p bs = hp\<lparr>bytes_of := write_bytes (bytes_of hp) p bs\<rparr>"

definition put :: "heap \<Rightarrow> nat \<Rightarrow> nat \<Rightarrow> nat \<Rightarrow> heap" where
  "put hp p n v = put_bytes hp p (le_bytes n v)"

type_synonym 'u dstate = "'u pb_istream \<times> heap"
type_synonym 'u din = "(bool \<times> 'u dstate) option"

record 'u dec_env =
  descriptors_at :: "nat \<Rightarrow> pb_field list"
  decode_fn :: "nat \<Rightarrow> pb_field \<Rightarrow> nat \<Rightarrow> 'u dstate \<Rightarrow> bool \<times> 'u dstate"
  extension_decode_fn :: "nat \<Rightarrow> nat \<Rightarrow> u32 \<Rightarrow> pb_wire_type \<Rightarrow> 'u dstate \<Rightarrow> bool \<times> 'u dstate"
  place :: "heap \<Rightarrow> nat \<Rightarrow> nat \<Rightarrow> nat"
  stack_slot :: "nat \<Rightarrow> nat"

text \<open>\<^verbatim>\<open>realloc\<close>: the address \<open>0\<close> stands for failure, which leaves the heap alone.\<close>

definition pb_realloc :: "'u dec_env \<Rightarrow> heap \<Rightarrow> nat \<Rightarrow> nat \<Rightarrow> (nat \<times> heap) option" where
  "pb_realloc env hp p n =
     (let q = place env hp p n; old = (case blocks hp p of None \<Rightarrow> 0 | Some k \<Rightarrow> k)
      in if p \<noteq> 0 \<and> blocks hp p = None then None
         else if q = 0 then Some (0, hp)
         else
           Some (q, \<lparr>bytes_of = write_bytes (bytes_of hp) q (read_bytes (bytes_of hp) p (min old n)),
                     blocks = ((blocks hp)(p := None))(q \<mapsto> n)\<rparr>))"

definition pb_free :: "heap \<Rightarrow> nat \<Rightarrow> heap option" where
  "pb_free hp p =
     (if p = 0 then Some hp else if blocks hp p = None then None else Some (hp\<lparr>blocks := (blocks hp)(p := None)\<rparr>))"

definition return_ierror :: "'u dstate \<Rightarrow> string \<Rightarrow> 'u din" where
  "return_ierror st msg = Some (False, pb_set_ierror (fst st) msg, snd st)"

definition allocate_field :: "'u dec_env \<Rightarrow> nat \<Rightarrow> nat \<Rightarrow> nat \<Rightarrow> 'u dstate \<Rightarrow> 'u din" where
  "allocate_field env p elem_size count st =
     (if elem_size = 0 \<or> count = 0 then return_ierror st ''invalid size''
      else if (elem_size \<ge> 2 ^ 32 \<or> count \<ge> 2 ^ 32) \<and> (size_max - 1) div count < elem_size
      then return_ierror st ''size too large''
      else
        (case pb_realloc env (snd st) (get (snd st) p 8) (count * elem_size mod size_max) of
           None \<Rightarrow> None
         | Some (q, hp) \<Rightarrow>
             if q = 0 then return_ierror (fst st, hp) ''realloc failed'' else Some (True, fst st, put hp p 8 q)))"

section \<open>Defaults\<close>

text \<open>A \<^verbatim>\<open>pb_extension_t\<close> has \<^verbatim>\<open>type\<close>, \<^verbatim>\<open>dest\<close>, \<^verbatim>\<open>next\<close> and \<^verbatim>\<open>found\<close> at the offsets 0, 8, 16 and 24.\<close>

definition iter_from_extension :: "'u dec_env \<Rightarrow> heap \<Rightarrow> nat \<Rightarrow> pb_field_iter" where
  "iter_from_extension env hp extension =
     (let fs = descriptors_at env (get hp (get hp extension 8 + 16) 8); dest = get hp (extension + 8) 8;
          iter = snd (pb_field_iter_begin fs dest)
      in iter\<lparr>pData := (if PB_ATYPE (fld_type (iter_field iter)) = PB_ATYPE_POINTER then extension + 8 else dest),
              pSize := extension + 24\<rparr>)"

text \<open>A loop over the fields that cannot fail.\<close>

definition all_fields :: "(pb_field_iter \<Rightarrow> heap \<Rightarrow> heap option) \<Rightarrow> pb_field list \<Rightarrow> nat \<Rightarrow> heap \<Rightarrow> heap option" where
  "all_fields body fs dest hp =
     (case pb_field_iter_begin fs dest of
        (False, _) \<Rightarrow> Some hp
      | (True, iter) \<Rightarrow> map_option snd (fields_loop (\<lambda>iter hp. map_option (Pair True) (body iter hp)) iter hp))"

fun extension_defaults :: "nat \<Rightarrow> 'u dec_env \<Rightarrow> (pb_field_iter \<Rightarrow> heap \<Rightarrow> heap option) \<Rightarrow> nat \<Rightarrow> heap \<Rightarrow> heap option" where
  "extension_defaults 0 env body ext hp = (if ext = 0 then Some hp else None)"
| "extension_defaults (Suc k) env body ext hp =
     (if ext = 0 then Some hp
      else
        (let hp = put hp (ext + 24) 1 0
         in case body (iter_from_extension env hp ext) hp of
              None \<Rightarrow> None
            | Some hp \<Rightarrow> extension_defaults k env body (get hp (ext + 16) 8) hp))"

fun pb_field_set_to_default :: "nat \<Rightarrow> 'u dec_env \<Rightarrow> pb_field_iter \<Rightarrow> heap \<Rightarrow> heap option" where
  "pb_field_set_to_default 0 env iter hp = None"
| "pb_field_set_to_default (Suc n) env iter hp =
     (let field = iter_field iter; type = fld_type field; h = PB_HTYPE type; sz = unat (data_size field)
      in if PB_LTYPE type = PB_LTYPE_EXTENSION
         then extension_defaults n env (pb_field_set_to_default n env) (get hp (pData iter) 8) hp
         else if PB_ATYPE type = PB_ATYPE_STATIC then
           if \<not> (h = PB_HTYPE_OPTIONAL \<and> pSize iter \<noteq> pData iter) \<and> (h = PB_HTYPE_REPEATED \<or> h = PB_HTYPE_ONEOF)
           then Some (put hp (pSize iter) 4 0)
           else
             (let hp = (if h = PB_HTYPE_OPTIONAL \<and> pSize iter \<noteq> pData iter then put hp (pSize iter) 1 0 else hp)
              in if PB_LTYPE type = PB_LTYPE_SUBMESSAGE then
                   if fld_ptr field = 0 then None
                   else all_fields (pb_field_set_to_default n env) (descriptors_at env (fld_ptr field)) (pData iter) hp
                 else if fld_ptr field \<noteq> 0
                 then Some (put_bytes hp (pData iter) (read_bytes (bytes_of hp) (fld_ptr field) sz))
                 else Some (put_bytes hp (pData iter) (replicate sz 0)))
         else if PB_ATYPE type = PB_ATYPE_POINTER then
           (let hp = put hp (pData iter) 8 0
            in Some (if h = PB_HTYPE_REPEATED \<or> h = PB_HTYPE_ONEOF then put hp (pSize iter) 4 0 else hp))
         else Some hp)"

definition pb_message_set_to_defaults :: "nat \<Rightarrow> 'u dec_env \<Rightarrow> pb_field list \<Rightarrow> nat \<Rightarrow> heap \<Rightarrow> heap option" where
  "pb_message_set_to_defaults n env fs dest hp = all_fields (pb_field_set_to_default n env) fs dest hp"

section \<open>Release\<close>

fun release_extensions :: "nat \<Rightarrow> 'u dec_env \<Rightarrow> (pb_field_iter \<Rightarrow> heap \<Rightarrow> heap option) \<Rightarrow> nat \<Rightarrow> heap \<Rightarrow> heap option" where
  "release_extensions 0 env body ext hp = (if ext = 0 then Some hp else None)"
| "release_extensions (Suc k) env body ext hp =
     (if ext = 0 then Some hp
      else
        (case body (iter_from_extension env hp ext) hp of
           None \<Rightarrow> None
         | Some hp \<Rightarrow> release_extensions k env body (get hp (ext + 16) 8) hp))"

text \<open>\<^verbatim>\<open>pb_release\<close>, with \<^verbatim>\<open>pb_release_single_field\<close> as \<open>body\<close>.\<close>

definition release_fields :: "(pb_field_iter \<Rightarrow> heap \<Rightarrow> heap option) \<Rightarrow> pb_field list \<Rightarrow> nat \<Rightarrow> heap \<Rightarrow> heap option" where
  "release_fields body fs dest hp = (if dest = 0 then Some hp else all_fields body fs dest hp)"

fun release_items :: "(nat \<Rightarrow> heap \<Rightarrow> heap option) \<Rightarrow> nat \<Rightarrow> nat \<Rightarrow> nat \<Rightarrow> heap \<Rightarrow> heap option" where
  "release_items rel sz 0 p hp = Some hp"
| "release_items rel sz (Suc k) p hp = (case rel p hp of None \<Rightarrow> None | Some hp \<Rightarrow> release_items rel sz k (p + sz) hp)"

text \<open>The three parts of \<^verbatim>\<open>pb_release_single_field\<close>: what is inside, the entries of an array of pointers, the field itself.\<close>

definition release_inside :: "nat \<Rightarrow> 'u dec_env \<Rightarrow> (pb_field_iter \<Rightarrow> heap \<Rightarrow> heap option) \<Rightarrow> pb_field_iter \<Rightarrow> heap \<Rightarrow> heap option" where
  "release_inside n env body iter hp =
     (let field = iter_field iter; type = fld_type field; static = (PB_ATYPE type = PB_ATYPE_STATIC)
      in if PB_LTYPE type = PB_LTYPE_EXTENSION then release_extensions n env body (get hp (pData iter) 8) hp
         else if PB_LTYPE type = PB_LTYPE_SUBMESSAGE \<and> PB_ATYPE type \<noteq> PB_ATYPE_CALLBACK then
           (let pItem = (if PB_ATYPE type = PB_ATYPE_POINTER then get hp (pData iter) 8 else pData iter);
                count = (if static \<and> pSize iter = pData iter then unat (array_size field) else get hp (pSize iter) 4);
                count = (if static \<and> count > unat (array_size field) then unat (array_size field) else count);
                count = (if PB_HTYPE type = PB_HTYPE_REPEATED then count else 1)
            in if pItem = 0 then Some hp
               else if fld_ptr field = 0 then None
               else release_items (release_fields body (descriptors_at env (fld_ptr field))) (unat (data_size field)) count pItem hp)
         else Some hp)"

definition release_entry :: "nat \<Rightarrow> heap \<Rightarrow> heap option" where
  "release_entry p hp = map_option (\<lambda>hp. put hp p 8 0) (pb_free hp (get hp p 8))"

definition release_pointer :: "pb_field_iter \<Rightarrow> heap \<Rightarrow> heap option" where
  "release_pointer iter hp =
     (let type = fld_type (iter_field iter); repeated = (PB_HTYPE type = PB_HTYPE_REPEATED)
      in case (if repeated \<and> (PB_LTYPE type = PB_LTYPE_STRING \<or> PB_LTYPE type = PB_LTYPE_BYTES)
               then release_items release_entry 8 (get hp (pSize iter) 4) (get hp (pData iter) 8) hp else Some hp) of
           None \<Rightarrow> None
         | Some hp \<Rightarrow>
             (let hp = (if repeated then put hp (pSize iter) 4 0 else hp)
              in map_option (\<lambda>hp. put hp (pData iter) 8 0) (pb_free hp (get hp (pData iter) 8))))"

fun pb_release_single_field :: "nat \<Rightarrow> 'u dec_env \<Rightarrow> pb_field_iter \<Rightarrow> heap \<Rightarrow> heap option" where
  "pb_release_single_field 0 env iter hp = None"
| "pb_release_single_field (Suc n) env iter hp =
     (let field = iter_field iter; type = fld_type field
      in if PB_HTYPE type = PB_HTYPE_ONEOF \<and> get hp (pSize iter) 4 \<noteq> unat (fld_tag field) then Some hp
         else
           (case release_inside n env (pb_release_single_field n env) iter hp of
              None \<Rightarrow> None
            | Some hp \<Rightarrow> if PB_ATYPE type = PB_ATYPE_POINTER then release_pointer iter hp else Some hp))"

definition pb_release :: "nat \<Rightarrow> 'u dec_env \<Rightarrow> pb_field list \<Rightarrow> nat \<Rightarrow> heap \<Rightarrow> heap option" where
  "pb_release n env fs dest hp = release_fields (pb_release_single_field n env) fs dest hp"

definition pb_release_union_field ::
  "nat \<Rightarrow> 'u dec_env \<Rightarrow> pb_field_iter \<Rightarrow> 'u dstate \<Rightarrow> (bool \<times> pb_field_iter \<times> 'u dstate) option" where
  "pb_release_union_field n env iter st =
     (let hp = snd st; old_tag = get hp (pSize iter) 4; new_tag = fld_tag (iter_field iter)
      in if old_tag = 0 \<or> old_tag = unat new_tag then Some (True, iter, st)
         else
           (case pb_field_iter_find iter (word_of_nat old_tag) of
              None \<Rightarrow> None
            | Some (False, iter) \<Rightarrow> Some (False, iter, pb_set_ierror (fst st) ''invalid union tag'', hp)
            | Some (True, iter) \<Rightarrow>
                (case pb_release_single_field n env iter hp of
                   None \<Rightarrow> None
                 | Some hp \<Rightarrow>
                     (case pb_field_iter_find iter new_tag of
                        None \<Rightarrow> None
                      | Some (False, iter) \<Rightarrow> Some (False, iter, pb_set_ierror (fst st) ''iterator error'', hp)
                      | Some (True, iter) \<Rightarrow>
                          Some (True, iter, fst st,
                            if PB_ATYPE (fld_type (iter_field iter)) = PB_ATYPE_POINTER then put hp (pData iter) 8 0 else hp)))))"

section \<open>Field decoders\<close>

definition pb_dec_bool :: "pb_field \<Rightarrow> nat \<Rightarrow> 'u dstate \<Rightarrow> 'u din" where
  "pb_dec_bool field dest st =
     (case pb_decode_varint32 (fst st) of
        (None, s) \<Rightarrow> Some (False, s, snd st)
      | (Some v, s) \<Rightarrow> Some (True, s, put (snd st) dest 1 (if v \<noteq> 0 then 1 else 0)))"

text \<open>The store of a value into a field of \<open>sz\<close> bytes, with the value that the field then has; \<open>None\<close> for a bad size.\<close>

definition store_signed :: "u32 \<Rightarrow> nat \<Rightarrow> u64 \<Rightarrow> heap \<Rightarrow> (u64 \<times> heap) option" where
  "store_signed sz dest v hp =
     (if sz = 8 then Some (v, put hp dest 8 (unat v))
      else if sz = 4 then Some (scast (ucast v :: u32), put hp dest 4 (unat (ucast v :: u32)))
      else if sz = 2 then Some (scast (ucast v :: u16), put hp dest 2 (unat (ucast v :: u16)))
      else if sz = 1 then Some (scast (ucast v :: byte), put hp dest 1 (unat (ucast v :: byte)))
      else None)"

definition store_unsigned :: "u32 \<Rightarrow> nat \<Rightarrow> u64 \<Rightarrow> heap \<Rightarrow> (u64 \<times> heap) option" where
  "store_unsigned sz dest v hp =
     (if sz = 8 then Some (v, put hp dest 8 (unat v))
      else if sz = 4 then Some (ucast (ucast v :: u32), put hp dest 4 (unat (ucast v :: u32)))
      else if sz = 2 then Some (ucast (ucast v :: u16), put hp dest 2 (unat (ucast v :: u16)))
      else if sz = 1 then Some (ucast (ucast v :: byte), put hp dest 1 (unat (ucast v :: byte)))
      else None)"

definition store_checked ::
  "(u32 \<Rightarrow> nat \<Rightarrow> u64 \<Rightarrow> heap \<Rightarrow> (u64 \<times> heap) option) \<Rightarrow> pb_field \<Rightarrow> nat \<Rightarrow> u64 \<Rightarrow> 'u dstate \<Rightarrow> 'u din" where
  "store_checked store field dest v st =
     (case store (data_size field) dest v (snd st) of
        None \<Rightarrow> return_ierror st ''invalid data_size''
      | Some (clamped, hp) \<Rightarrow>
          if clamped \<noteq> v then return_ierror (fst st, hp) ''integer too large'' else Some (True, fst st, hp))"

definition pb_dec_varint :: "pb_field \<Rightarrow> nat \<Rightarrow> 'u dstate \<Rightarrow> 'u din" where
  "pb_dec_varint field dest st =
     (case pb_decode_varint (fst st) of
        (None, s) \<Rightarrow> Some (False, s, snd st)
      | (Some v, s) \<Rightarrow>
          store_checked store_signed field dest (if data_size field = 8 then v else scast (ucast v :: u32)) (s, snd st))"

definition pb_dec_uvarint :: "pb_field \<Rightarrow> nat \<Rightarrow> 'u dstate \<Rightarrow> 'u din" where
  "pb_dec_uvarint field dest st =
     (case pb_decode_varint (fst st) of
        (None, s) \<Rightarrow> Some (False, s, snd st)
      | (Some v, s) \<Rightarrow> store_checked store_unsigned field dest v (s, snd st))"

definition pb_dec_svarint :: "pb_field \<Rightarrow> nat \<Rightarrow> 'u dstate \<Rightarrow> 'u din" where
  "pb_dec_svarint field dest st =
     (case pb_decode_svarint (fst st) of
        (None, s) \<Rightarrow> Some (False, s, snd st)
      | (Some v, s) \<Rightarrow> store_checked store_signed field dest v (s, snd st))"

definition pb_dec_fixed32 :: "pb_field \<Rightarrow> nat \<Rightarrow> 'u dstate \<Rightarrow> 'u din" where
  "pb_dec_fixed32 field dest st =
     (case pb_decode_fixed32 (fst st) of
        (None, s) \<Rightarrow> Some (False, s, snd st) | (Some v, s) \<Rightarrow> Some (True, s, put (snd st) dest 4 (unat v)))"

definition pb_dec_fixed64 :: "pb_field \<Rightarrow> nat \<Rightarrow> 'u dstate \<Rightarrow> 'u din" where
  "pb_dec_fixed64 field dest st =
     (case pb_decode_fixed64 (fst st) of
        (None, s) \<Rightarrow> Some (False, s, snd st) | (Some v, s) \<Rightarrow> Some (True, s, put (snd st) dest 8 (unat v)))"

text \<open>\<^verbatim>\<open>pb_read\<close> into the heap.\<close>

definition read_into :: "nat \<Rightarrow> nat \<Rightarrow> 'u dstate \<Rightarrow> 'u din" where
  "read_into dest count st =
     (case pb_read (fst st) count of
        (None, s) \<Rightarrow> Some (False, s, snd st) | (Some bs, s) \<Rightarrow> Some (True, s, put_bytes (snd st) dest bs))"

text \<open>Storage for \<open>sz\<close> bytes of contents in a string or bytes field, and its address.\<close>

definition dest_for ::
  "'u dec_env \<Rightarrow> pb_field \<Rightarrow> nat \<Rightarrow> nat \<Rightarrow> nat \<Rightarrow> string \<Rightarrow> 'u dstate \<Rightarrow> (nat \<Rightarrow> 'u dstate \<Rightarrow> 'u din) \<Rightarrow> 'u din" where
  "dest_for env field dest sz alloc_size msg st cont =
     (if PB_ATYPE (fld_type field) = PB_ATYPE_POINTER then
        if bytes_left (fst st) < sz then return_ierror st ''end-of-stream''
        else or_return (allocate_field env dest alloc_size 1 st) (\<lambda>st. cont (get (snd st) dest 8) st)
      else if alloc_size > unat (data_size field) then return_ierror st msg
      else cont dest st)"

definition pb_dec_bytes :: "'u dec_env \<Rightarrow> pb_field \<Rightarrow> nat \<Rightarrow> 'u dstate \<Rightarrow> 'u din" where
  "pb_dec_bytes env field dest st =
     (case pb_decode_varint32 (fst st) of
        (None, s) \<Rightarrow> Some (False, s, snd st)
      | (Some v, s) \<Rightarrow>
          (let sz = unat v; alloc_size = size_add sz 4; st = (s, snd st)
           in if v > PB_SIZE_MAX then return_ierror st ''bytes overflow''
              else if sz > alloc_size then return_ierror st ''size too large''
              else dest_for env field dest sz alloc_size ''bytes overflow'' st
                     (\<lambda>bdest st. read_into (bdest + 4) sz (fst st, put (snd st) bdest 4 sz))))"

definition pb_dec_string :: "'u dec_env \<Rightarrow> pb_field \<Rightarrow> nat \<Rightarrow> 'u dstate \<Rightarrow> 'u din" where
  "pb_dec_string env field dest st =
     (case pb_decode_varint32 (fst st) of
        (None, s) \<Rightarrow> Some (False, s, snd st)
      | (Some v, s) \<Rightarrow>
          (let sz = unat v; alloc_size = unat (v + 1); st = (s, snd st)
           in if alloc_size < sz then return_ierror st ''size too large''
              else dest_for env field dest sz alloc_size ''string overflow'' st
                     (\<lambda>sdest st. map_option (\<lambda>(status, s, hp). (status, s, put hp (sdest + sz) 1 0)) (read_into sdest sz st))))"

definition pb_dec_fixed_length_bytes :: "pb_field \<Rightarrow> nat \<Rightarrow> 'u dstate \<Rightarrow> 'u din" where
  "pb_dec_fixed_length_bytes field dest st =
     (case pb_decode_varint32 (fst st) of
        (None, s) \<Rightarrow> Some (False, s, snd st)
      | (Some v, s) \<Rightarrow>
          (let st = (s, snd st)
           in if v > PB_SIZE_MAX then return_ierror st ''bytes overflow''
              else if v = 0 then Some (True, s, put_bytes (snd st) dest (replicate (unat (data_size field)) 0))
              else if v \<noteq> data_size field then return_ierror st ''incorrect fixed length bytes size''
              else read_into dest (unat (data_size field)) st))"

text \<open>The end of every function that opens a substream: \<open>sub\<close> with the heap is what the work on the substream has left.\<close>

definition close_after :: "'u pb_istream \<Rightarrow> 'u din \<Rightarrow> 'u din" where
  "close_after s r =
     (case r of
        None \<Rightarrow> None
      | Some (status, sub, hp) \<Rightarrow>
          (case pb_close_string_substream s sub of (False, s) \<Rightarrow> Some (False, s, hp) | (True, s) \<Rightarrow> Some (status, s, hp)))"

type_synonym 'u decoder = "pb_field list \<Rightarrow> nat \<Rightarrow> 'u dstate \<Rightarrow> 'u din"

text \<open>\<^verbatim>\<open>pb_decode\<close>, with \<^verbatim>\<open>pb_decode_noinit\<close> as \<open>noinit\<close>.\<close>

definition decode_init :: "nat \<Rightarrow> 'u dec_env \<Rightarrow> 'u decoder \<Rightarrow> 'u decoder" where
  "decode_init n env noinit fs dest st =
     (case pb_message_set_to_defaults n env fs dest (snd st) of
        None \<Rightarrow> None
      | Some hp \<Rightarrow>
          (case noinit fs dest (fst st, hp) of
             None \<Rightarrow> None
           | Some (True, st) \<Rightarrow> Some (True, st)
           | Some (False, s, hp) \<Rightarrow> map_option (\<lambda>hp. (False, s, hp)) (pb_release n env fs dest hp)))"

definition pb_dec_submessage :: "nat \<Rightarrow> 'u dec_env \<Rightarrow> 'u decoder \<Rightarrow> pb_field \<Rightarrow> nat \<Rightarrow> 'u dstate \<Rightarrow> 'u din" where
  "pb_dec_submessage n env noinit field dest st =
     (case pb_make_string_substream (fst st) of
        (None, s) \<Rightarrow> Some (False, s, snd st)
      | (Some sub, s) \<Rightarrow>
          if fld_ptr field = 0 then return_ierror (s, snd st) ''invalid field descriptor''
          else
            close_after s
              ((if PB_HTYPE (fld_type field) = PB_HTYPE_REPEATED then decode_init n env noinit else noinit)
                 (descriptors_at env (fld_ptr field)) dest (sub, snd st)))"

definition PB_DECODERS ::
  "nat \<Rightarrow> 'u dec_env \<Rightarrow> 'u decoder \<Rightarrow> (pb_field \<Rightarrow> nat \<Rightarrow> 'u dstate \<Rightarrow> 'u din) option list" where
  "PB_DECODERS n env noinit =
     [Some pb_dec_bool, Some pb_dec_varint, Some pb_dec_uvarint, Some pb_dec_svarint, Some pb_dec_fixed32,
      Some pb_dec_fixed64, Some (pb_dec_bytes env), Some (pb_dec_string env), Some (pb_dec_submessage n env noinit), None,
      Some pb_dec_fixed_length_bytes]"

definition decoder_of :: "nat \<Rightarrow> 'u dec_env \<Rightarrow> 'u decoder \<Rightarrow> pb_field \<Rightarrow> nat \<Rightarrow> 'u dstate \<Rightarrow> 'u din" where
  "decoder_of n env noinit field dest st =
     (let i = unat (PB_LTYPE (fld_type field)); table = PB_DECODERS n env noinit
      in if i < length table then (case table ! i of None \<Rightarrow> None | Some func \<Rightarrow> func field dest st) else None)"

section \<open>A single field\<close>

text \<open>The array entry that the counter at \<^verbatim>\<open>pSize\<close> refers to, in an array from \<open>p\<close> on.\<close>

definition item_at :: "pb_field_iter \<Rightarrow> nat \<Rightarrow> heap \<Rightarrow> nat" where
  "item_at iter p hp = ptr_add p (uint (data_size (iter_field iter) * word_of_nat (get hp (pSize iter) 4)))"

definition count_up :: "pb_field_iter \<Rightarrow> heap \<Rightarrow> heap" where
  "count_up iter hp = put hp (pSize iter) 4 (unat (word_of_nat (get hp (pSize iter) 4) + 1 :: u32))"

fun packed_static_loop :: "nat \<Rightarrow> (pb_field \<Rightarrow> nat \<Rightarrow> 'u dstate \<Rightarrow> 'u din) \<Rightarrow> pb_field_iter \<Rightarrow> 'u dstate \<Rightarrow> 'u din" where
  "packed_static_loop k func iter st =
     (if bytes_left (fst st) > 0 \<and> get (snd st) (pSize iter) 4 < unat (array_size (iter_field iter)) then
        case k of
          0 \<Rightarrow> None
        | Suc k \<Rightarrow>
            or_return (func (iter_field iter) (item_at iter (pData iter) (snd st)) st)
              (\<lambda>(s, hp). packed_static_loop k func iter (s, count_up iter hp))
      else Some (True, st))"

declare packed_static_loop.simps [simp del]

definition decode_static_field ::
  "nat \<Rightarrow> 'u dec_env \<Rightarrow> 'u decoder \<Rightarrow> pb_wire_type \<Rightarrow> pb_field_iter \<Rightarrow> 'u dstate \<Rightarrow> 'u din" where
  "decode_static_field n env noinit wire_type iter st =
     (let field = iter_field iter; type = fld_type field; h = PB_HTYPE type; func = decoder_of n env noinit; hp = snd st
      in if h = PB_HTYPE_REQUIRED then func field (pData iter) st
         else if h = PB_HTYPE_OPTIONAL then
           func field (pData iter) (fst st, if pSize iter \<noteq> pData iter then put hp (pSize iter) 1 1 else hp)
         else if h = PB_HTYPE_REPEATED then
           if wire_type = PB_WT_STRING \<and> PB_LTYPE type \<le> PB_LTYPE_LAST_PACKABLE then
             (case pb_make_string_substream (fst st) of
                (None, s) \<Rightarrow> Some (False, s, hp)
              | (Some sub, s) \<Rightarrow>
                  (case packed_static_loop n func iter (sub, hp) of
                     None \<Rightarrow> None
                   | Some (status, sub, hp) \<Rightarrow>
                       if bytes_left sub \<noteq> 0 then return_ierror (s, hp) ''array overflow''
                       else close_after s (Some (status, sub, hp))))
           else if get hp (pSize iter) 4 \<ge> unat (array_size field)
           then return_ierror (fst st, count_up iter hp) ''array overflow''
           else func field (item_at iter (pData iter) hp) (fst st, count_up iter hp)
         else
           (case (if PB_LTYPE type = PB_LTYPE_SUBMESSAGE \<and> get hp (pSize iter) 4 \<noteq> unat (fld_tag field) then
                    if fld_ptr field = 0 then None
                    else pb_message_set_to_defaults n env (descriptors_at env (fld_ptr field)) (pData iter)
                           (put_bytes hp (pData iter) (replicate (unat (data_size field)) 0))
                  else Some hp) of
              None \<Rightarrow> None
            | Some hp \<Rightarrow> func field (pData iter) (fst st, put hp (pSize iter) 4 (unat (fld_tag field)))))"

definition initialize_pointer_field :: "nat \<Rightarrow> 'u dec_env \<Rightarrow> nat \<Rightarrow> pb_field_iter \<Rightarrow> heap \<Rightarrow> heap option" where
  "initialize_pointer_field n env pItem iter hp =
     (let field = iter_field iter; l = PB_LTYPE (fld_type field)
      in if l = PB_LTYPE_STRING \<or> l = PB_LTYPE_BYTES then Some (put hp pItem 8 0)
         else if l = PB_LTYPE_SUBMESSAGE then
           if fld_ptr field = 0 then None
           else pb_message_set_to_defaults n env (descriptors_at env (fld_ptr field)) pItem
                  (put_bytes hp pItem (replicate (unat (data_size field)) 0))
         else Some hp)"

text \<open>A new entry: initialized, then decoded.\<close>

definition decode_item ::
  "nat \<Rightarrow> 'u dec_env \<Rightarrow> 'u decoder \<Rightarrow> pb_field_iter \<Rightarrow> nat \<Rightarrow> 'u dstate \<Rightarrow> 'u din" where
  "decode_item n env noinit iter pItem st =
     (case initialize_pointer_field n env pItem iter (snd st) of
        None \<Rightarrow> None
      | Some hp \<Rightarrow> decoder_of n env noinit (iter_field iter) pItem (fst st, hp))"

text \<open>
  The loop over a packed array behind a pointer.  It works on the substream and the error message of the stream around it;
  \<open>allocated\<close> is the number of entries that there is room for.
\<close>

fun packed_pointer_loop ::
  "nat \<Rightarrow> nat \<Rightarrow> 'u dec_env \<Rightarrow> 'u decoder \<Rightarrow> pb_field_iter \<Rightarrow> nat \<Rightarrow> 'u pb_istream \<Rightarrow> 'u dstate \<Rightarrow>
   (bool \<times> 'u pb_istream \<times> 'u dstate) option" where
  "packed_pointer_loop k n env noinit iter allocated s st =
     (let field = iter_field iter; count = get (snd st) (pSize iter) 4
      in if bytes_left (fst st) = 0 then Some (True, s, st)
         else
           (case k of
              0 \<Rightarrow> None
            | Suc k \<Rightarrow>
                if count = unat PB_SIZE_MAX
                then Some (False, s\<lparr>is_errmsg := Some ''too many array entries''\<rparr>, st)
                else if data_size field = 0 \<and> count + 1 > allocated then None
                else
                  (let remain = (bytes_left (fst st) - 1) div unat (data_size field) + 1;
                       more = (if int remain < (int (unat PB_SIZE_MAX) - int allocated) mod int size_max then remain else 1);
                       allocated' = (if count + 1 > allocated then size_add allocated more else allocated)
                   in case (if count + 1 > allocated
                            then allocate_field env (pData iter) (unat (data_size field)) allocated' st
                            else Some (True, st)) of
                        None \<Rightarrow> None
                      | Some (False, st) \<Rightarrow> Some (False, s, st)
                      | Some (True, st) \<Rightarrow>
                          (let pItem = item_at iter (get (snd st) (pData iter) 8) (snd st)
                           in if pItem = 0 then Some (False, s, st)
                              else
                                (case decode_item n env noinit iter pItem st of
                                   None \<Rightarrow> None
                                 | Some (False, st) \<Rightarrow> Some (False, s, st)
                                 | Some (True, sub, hp) \<Rightarrow>
                                     packed_pointer_loop k n env noinit iter allocated' s (sub, count_up iter hp))))))"

declare packed_pointer_loop.simps [simp del]

definition decode_pointer_field ::
  "nat \<Rightarrow> 'u dec_env \<Rightarrow> 'u decoder \<Rightarrow> pb_wire_type \<Rightarrow> pb_field_iter \<Rightarrow> 'u dstate \<Rightarrow> 'u din" where
  "decode_pointer_field n env noinit wire_type iter st =
     (let field = iter_field iter; type = fld_type field; h = PB_HTYPE type; l = PB_LTYPE type; hp = snd st
      in if h \<noteq> PB_HTYPE_REPEATED then
           (case (if l = PB_LTYPE_SUBMESSAGE \<and> get hp (pData iter) 8 \<noteq> 0 then pb_release_single_field n env iter hp
                  else Some hp) of
              None \<Rightarrow> None
            | Some hp \<Rightarrow>
                (let st = (fst st, if h = PB_HTYPE_ONEOF then put hp (pSize iter) 4 (unat (fld_tag field)) else hp)
                 in if l = PB_LTYPE_STRING \<or> l = PB_LTYPE_BYTES then decoder_of n env noinit field (pData iter) st
                    else
                      or_return (allocate_field env (pData iter) (unat (data_size field)) 1 st)
                        (\<lambda>st. decode_item n env noinit iter (get (snd st) (pData iter) 8) st)))
         else if wire_type = PB_WT_STRING \<and> l \<le> PB_LTYPE_LAST_PACKABLE then
           (case pb_make_string_substream (fst st) of
              (None, s) \<Rightarrow> Some (False, s, hp)
            | (Some sub, s) \<Rightarrow>
                (case packed_pointer_loop n n env noinit iter (get hp (pSize iter) 4) s (sub, hp) of
                   None \<Rightarrow> None
                 | Some (status, s, st) \<Rightarrow> close_after s (Some (status, st))))
         else if get hp (pSize iter) 4 = unat PB_SIZE_MAX then return_ierror st ''too many array entries''
         else
           or_return (allocate_field env (pData iter) (unat (data_size field)) (get hp (pSize iter) 4 + 1) st)
             (\<lambda>(s, hp). decode_item n env noinit iter (item_at iter (get hp (pData iter) 8) hp) (s, count_up iter hp)))"

text \<open>The calls of a callback; its address is looked up again for each of them.\<close>

definition call_decode_fn :: "'u dec_env \<Rightarrow> pb_field \<Rightarrow> nat \<Rightarrow> 'u dstate \<Rightarrow> 'u din" where
  "call_decode_fn env field p st =
     (let fn = get (snd st) p 8 in if fn = 0 then None else Some (decode_fn env fn field (p + 8) st))"

fun callback_loop :: "nat \<Rightarrow> ('u dstate \<Rightarrow> 'u din) \<Rightarrow> 'u dstate \<Rightarrow> 'u din" where
  "callback_loop 0 f st = None"
| "callback_loop (Suc k) f st =
     or_return (f st) (\<lambda>st. if bytes_left (fst st) \<noteq> 0 then callback_loop k f st else Some (True, st))"

definition decode_callback_field :: "nat \<Rightarrow> 'u dec_env \<Rightarrow> pb_wire_type \<Rightarrow> pb_field_iter \<Rightarrow> 'u dstate \<Rightarrow> 'u din" where
  "decode_callback_field n env wire_type iter st =
     (let hp = snd st; p = pData iter; f = call_decode_fn env (iter_field iter) p
      in if p = 0 \<or> get hp p 8 = 0 then (case pb_skip_field (fst st) wire_type of (r, s) \<Rightarrow> Some (r, s, hp))
         else if wire_type = PB_WT_STRING then
           (case pb_make_string_substream (fst st) of
              (None, s) \<Rightarrow> Some (False, s, hp)
            | (Some sub, s) \<Rightarrow>
                (case callback_loop n f (sub, hp) of
                   None \<Rightarrow> None
                 | Some (False, _, hp) \<Rightarrow> return_ierror (s, hp) ''callback failed''
                 | Some (True, st) \<Rightarrow> close_after s (Some (True, st))))
         else
           (case read_raw_value (fst st) wire_type 10 of
              (None, s) \<Rightarrow> Some (False, s, hp)
            | (Some bs, s) \<Rightarrow>
                map_option (\<lambda>(r, _, hp). (r, s, hp))
                  (f (pb_istream_from_buffer (write_bytes (\<lambda>_. 0) 0 bs) 0 (length bs), hp))))"

text \<open>\<open>decode_field\<close> can move the iterator and return it elsewhere only while it replaces a member of a oneof.\<close>

definition decode_field ::
  "nat \<Rightarrow> 'u dec_env \<Rightarrow> 'u decoder \<Rightarrow> pb_wire_type \<Rightarrow> pb_field_iter \<Rightarrow> 'u dstate \<Rightarrow> (bool \<times> pb_field_iter \<times> 'u dstate) option" where
  "decode_field n env noinit wire_type iter st =
     (case (if PB_HTYPE (fld_type (iter_field iter)) = PB_HTYPE_ONEOF then pb_release_union_field n env iter st
            else Some (True, iter, st)) of
        None \<Rightarrow> None
      | Some (False, r) \<Rightarrow> Some (False, r)
      | Some (True, iter, st) \<Rightarrow>
          (let at = PB_ATYPE (fld_type (iter_field iter))
           in map_option (\<lambda>(r, st). (r, iter, st))
                (if at = PB_ATYPE_STATIC then decode_static_field n env noinit wire_type iter st
                 else if at = PB_ATYPE_POINTER then decode_pointer_field n env noinit wire_type iter st
                 else if at = PB_ATYPE_CALLBACK then decode_callback_field n env wire_type iter st
                 else return_ierror st ''invalid field type'')))"

section \<open>Extensions\<close>

definition default_extension_decoder ::
  "nat \<Rightarrow> 'u dec_env \<Rightarrow> 'u decoder \<Rightarrow> nat \<Rightarrow> u32 \<Rightarrow> pb_wire_type \<Rightarrow> 'u dstate \<Rightarrow> 'u din" where
  "default_extension_decoder n env noinit extension tag wire_type st =
     (let hp = snd st; field = field_at (descriptors_at env (get hp (get hp extension 8 + 16) 8)) 0
      in if fld_tag field \<noteq> tag then Some (True, st)
         else
           map_option (\<lambda>(r, _, st). (r, st))
             (decode_field n env noinit wire_type (iter_from_extension env hp extension) (fst st, put hp (extension + 24) 1 1)))"

text \<open>\<open>p\<close> is the number of bytes that were left at the start.\<close>

fun decode_extension_loop ::
  "nat \<Rightarrow> nat \<Rightarrow> 'u dec_env \<Rightarrow> 'u decoder \<Rightarrow> nat \<Rightarrow> u32 \<Rightarrow> pb_wire_type \<Rightarrow> nat \<Rightarrow> 'u dstate \<Rightarrow> 'u din" where
  "decode_extension_loop k n env noinit p tag wire_type extension st =
     (if extension = 0 \<or> p \<noteq> bytes_left (fst st) then Some (True, st)
      else
        (case k of
           0 \<Rightarrow> None
         | Suc k \<Rightarrow>
             (let decode = get (snd st) (get (snd st) extension 8) 8
              in or_return
                   (if decode \<noteq> 0 then Some (extension_decode_fn env decode extension tag wire_type st)
                    else default_extension_decoder n env noinit extension tag wire_type st)
                   (\<lambda>st. decode_extension_loop k n env noinit p tag wire_type (get (snd st) (extension + 16) 8) st))))"

declare decode_extension_loop.simps [simp del]

definition decode_extension ::
  "nat \<Rightarrow> 'u dec_env \<Rightarrow> 'u decoder \<Rightarrow> u32 \<Rightarrow> pb_wire_type \<Rightarrow> pb_field_iter \<Rightarrow> 'u dstate \<Rightarrow> 'u din" where
  "decode_extension n env noinit tag wire_type iter st =
     decode_extension_loop n n env noinit (bytes_left (fst st)) tag wire_type (get (snd st) (pData iter) 8) st"

definition find_extension_field :: "pb_field_iter \<Rightarrow> (bool \<times> pb_field_iter) option" where
  "find_extension_field iter = find_loop (pos iter) (\<lambda>f. PB_LTYPE (fld_type f) = PB_LTYPE_EXTENSION) iter"

section \<open>All fields\<close>

text \<open>
  The local variables of \<^verbatim>\<open>pb_decode_noinit\<close>.  Of these \<^verbatim>\<open>fixed_count_size\<close> is in memory, at \<open>slot\<close>, because \<^verbatim>\<open>iter.pSize\<close> can
  point to it; \<^verbatim>\<open>fixed_count_field\<close> is a position among the descriptors.
\<close>

definition PB_MAX_REQUIRED_FIELDS :: nat where
  "PB_MAX_REQUIRED_FIELDS = 64"

record dec_locals =
  fields_seen :: "u32 list"
  extension_range_start :: u32
  loop_iter :: pb_field_iter
  fixed_count_field :: "nat option"

type_synonym 'u dstep = "(bool \<times> dec_locals \<times> 'u dstate) option"

definition skip_unknown :: "pb_wire_type \<Rightarrow> dec_locals \<Rightarrow> 'u dstate \<Rightarrow> 'u dstep" where
  "skip_unknown wire_type lv st = (case pb_skip_field (fst st) wire_type of (r, s) \<Rightarrow> Some (r, lv, s, snd st))"

definition decode_unknown ::
  "nat \<Rightarrow> 'u dec_env \<Rightarrow> 'u decoder \<Rightarrow> u32 \<Rightarrow> pb_wire_type \<Rightarrow> dec_locals \<Rightarrow> 'u dstate \<Rightarrow> 'u dstep" where
  "decode_unknown n env noinit tag wire_type lv st =
     (if tag < extension_range_start lv then skip_unknown wire_type lv st
      else
        (case find_extension_field (loop_iter lv) of
           None \<Rightarrow> None
         | Some (found, iter) \<Rightarrow>
             (let first = (if found then fld_tag (iter_field iter) else - 1);
                  lv = lv\<lparr>loop_iter := iter, extension_range_start := first\<rparr>
              in if tag < first then skip_unknown wire_type lv st
                 else
                   (case decode_extension n env noinit tag wire_type iter st of
                      None \<Rightarrow> None
                    | Some (False, st') \<Rightarrow> Some (False, lv, st')
                    | Some (True, st') \<Rightarrow>
                        if bytes_left (fst st) \<noteq> bytes_left (fst st') then Some (True, lv, st')
                        else skip_unknown wire_type lv st'))))"

text \<open>The bookkeeping before a known field is decoded: arrays of a fixed count, required fields seen.\<close>

definition wrong_fixed_count :: "nat \<Rightarrow> dec_locals \<Rightarrow> heap \<Rightarrow> bool" where
  "wrong_fixed_count slot lv hp =
     (case fixed_count_field lv of
        None \<Rightarrow> False
      | Some q \<Rightarrow> get hp slot 4 \<noteq> unat (array_size (field_at (start (loop_iter lv)) q)))"

definition decode_known ::
  "nat \<Rightarrow> 'u dec_env \<Rightarrow> 'u decoder \<Rightarrow> nat \<Rightarrow> pb_wire_type \<Rightarrow> dec_locals \<Rightarrow> 'u dstate \<Rightarrow> 'u dstep" where
  "decode_known n env noinit slot wire_type lv st =
     (let iter = loop_iter lv; type = fld_type (iter_field iter); i = required_field_index iter;
          fixed = (PB_HTYPE type = PB_HTYPE_REPEATED \<and> pSize iter = pData iter);
          fresh = (fixed \<and> fixed_count_field lv \<noteq> Some (pos iter))
      in if fresh \<and> wrong_fixed_count slot lv (snd st)
         then Some (False, lv, pb_set_ierror (fst st) ''wrong size for fixed count field'', snd st)
         else
           (let lv = (if fresh then lv\<lparr>fixed_count_field := Some (pos iter)\<rparr> else lv);
                hp = (if fresh then put (snd st) slot 4 0 else snd st);
                iter = (if fixed then iter\<lparr>pSize := slot\<rparr> else iter);
                lv = (if PB_HTYPE type = PB_HTYPE_REQUIRED \<and> i < PB_MAX_REQUIRED_FIELDS
                      then lv\<lparr>fields_seen := (fields_seen lv)[i div 32 := fields_seen lv ! (i div 32) OR push_bit (i mod 32) 1]\<rparr>
                      else lv)
            in map_option (\<lambda>(r, iter, st). (r, lv\<lparr>loop_iter := iter\<rparr>, st))
                 (decode_field n env noinit wire_type iter (fst st, hp))))"

text \<open>One pass of the loop, which a field that cannot be read ends, and the loop; the result tells whether the checks after it are made.\<close>

definition decode_one ::
  "nat \<Rightarrow> 'u dec_env \<Rightarrow> 'u decoder \<Rightarrow> nat \<Rightarrow> u32 \<Rightarrow> pb_wire_type \<Rightarrow> dec_locals \<Rightarrow> 'u dstate \<Rightarrow> 'u dstep" where
  "decode_one n env noinit slot tag wire_type lv st =
     (case pb_field_iter_find (loop_iter lv) tag of
        None \<Rightarrow> None
      | Some (found, iter) \<Rightarrow>
          (if found then decode_known n env noinit slot wire_type else decode_unknown n env noinit tag wire_type)
            (lv\<lparr>loop_iter := iter\<rparr>) st)"

fun decode_fields_loop :: "nat \<Rightarrow> nat \<Rightarrow> 'u dec_env \<Rightarrow> 'u decoder \<Rightarrow> nat \<Rightarrow> dec_locals \<Rightarrow> 'u dstate \<Rightarrow> 'u dstep" where
  "decode_fields_loop k n env noinit slot lv st =
     (if bytes_left (fst st) = 0 then Some (True, lv, st)
      else
        (case k of
           0 \<Rightarrow> None
         | Suc k \<Rightarrow>
             (case pb_decode_tag (fst st) of
                (Inl eof, s) \<Rightarrow> Some (eof, lv, s, snd st)
              | (Inr (wire_type, tag), s) \<Rightarrow>
                  (case decode_one n env noinit slot tag wire_type lv (s, snd st) of
                     None \<Rightarrow> None
                   | Some (False, r) \<Rightarrow> Some (False, r)
                   | Some (True, lv, st) \<Rightarrow> decode_fields_loop k n env noinit slot lv st))))"

declare decode_fields_loop.simps [simp del]

text \<open>The number of required fields and the type of the last field, by going on to the end of the descriptors.\<close>

function seek_end :: "pb_field_iter \<Rightarrow> nat \<times> byte \<times> pb_field_iter" where
  "seek_end iter =
     (case pb_field_iter_next iter of
        (True, iter') \<Rightarrow> seek_end iter'
      | (False, iter') \<Rightarrow> (required_field_index iter, fld_type (iter_field iter), iter'))"
  by pat_completeness auto
termination
  by (relation "measure (\<lambda>iter. length (start iter) - pos iter)") (auto dest!: iter_next_pos [OF sym])

declare seek_end.simps [simp del]

definition req_field_count :: "pb_field_iter \<Rightarrow> nat" where
  "req_field_count iter =
     (case seek_end iter of
        (count, last_type, iter) \<Rightarrow>
          min PB_MAX_REQUIRED_FIELDS
            (if PB_HTYPE last_type = PB_HTYPE_REQUIRED \<and> fld_tag (iter_field iter) \<noteq> 0 then (count + 1) mod 2 ^ 32 else count))"

definition all_required :: "u32 list \<Rightarrow> nat \<Rightarrow> bool" where
  "all_required seen count \<longleftrightarrow> list_all (\<lambda>i. seen ! i = - 1) [0..<count div 32] \<and>
     (count mod 32 \<noteq> 0 \<longrightarrow> seen ! (count div 32) = drop_bit (32 - count mod 32) (- 1))"

text \<open>The argument \<open>d\<close> is the depth of the call, which determines the address of its local variable.\<close>

fun pb_decode_noinit :: "nat \<Rightarrow> nat \<Rightarrow> 'u dec_env \<Rightarrow> pb_field list \<Rightarrow> nat \<Rightarrow> 'u dstate \<Rightarrow> 'u din" where
  "pb_decode_noinit 0 d env fs dest st = None"
| "pb_decode_noinit (Suc n) d env fs dest st =
     (let slot = stack_slot env d;
          lv = \<lparr>fields_seen = [0, 0], extension_range_start = 0, loop_iter = snd (pb_field_iter_begin fs dest),
                fixed_count_field = None\<rparr>
      in case decode_fields_loop n n env (pb_decode_noinit n (d + 1) env) slot lv (fst st, put (snd st) slot 4 0) of
           None \<Rightarrow> None
         | Some (False, _, st) \<Rightarrow> Some (False, st)
         | Some (True, lv, st) \<Rightarrow>
             if wrong_fixed_count slot lv (snd st) then return_ierror st ''wrong size for fixed count field''
             else if \<not> all_required (fields_seen lv) (req_field_count (loop_iter lv))
             then return_ierror st ''missing required field''
             else Some (True, st))"

definition pb_decode :: "nat \<Rightarrow> nat \<Rightarrow> 'u dec_env \<Rightarrow> pb_field list \<Rightarrow> nat \<Rightarrow> 'u dstate \<Rightarrow> 'u din" where
  "pb_decode n d env = decode_init n env (pb_decode_noinit n d env)"

definition delimited :: "'u decoder \<Rightarrow> 'u decoder" where
  "delimited dec fs dest st =
     (case pb_make_string_substream (fst st) of
        (None, s) \<Rightarrow> Some (False, s, snd st)
      | (Some sub, s) \<Rightarrow> close_after s (dec fs dest (sub, snd st)))"

definition pb_decode_delimited_noinit :: "nat \<Rightarrow> nat \<Rightarrow> 'u dec_env \<Rightarrow> pb_field list \<Rightarrow> nat \<Rightarrow> 'u dstate \<Rightarrow> 'u din" where
  "pb_decode_delimited_noinit n d env = delimited (pb_decode_noinit n d env)"

definition pb_decode_delimited :: "nat \<Rightarrow> nat \<Rightarrow> 'u dec_env \<Rightarrow> pb_field list \<Rightarrow> nat \<Rightarrow> 'u dstate \<Rightarrow> 'u din" where
  "pb_decode_delimited n d env = delimited (pb_decode n d env)"

definition pb_decode_nullterminated :: "nat \<Rightarrow> nat \<Rightarrow> 'u dec_env \<Rightarrow> pb_field list \<Rightarrow> nat \<Rightarrow> 'u dstate \<Rightarrow> 'u din" where
  "pb_decode_nullterminated n d env = pb_decode n d env"

end
