(* ===== verification/Pb_Safe.thy ===== *)
theory Pb_Safe
  imports Pb_Decode
begin

text \<open>
  What the decoders of single values may touch: they read only the input that is left in the stream, return in every case, and store only
  into the bytes of the value.
\<close>

section \<open>What a decoder may touch\<close>

text \<open>
  \<open>inside s s'\<close>: the input that \<open>s'\<close> has left is part of the input that \<open>s\<close> has left.  \<open>agree A hp hp'\<close>: the heaps differ at most
  in the bytes of \<open>A\<close>.  A decoder is \<open>safe\<close> if it returns, reads only its input and stores only into \<open>A\<close>.
\<close>

definition inside :: "'u pb_istream \<Rightarrow> 'u pb_istream \<Rightarrow> bool" where
  "inside s s' \<longleftrightarrow> (\<exists>m p p'. src s = Buf_read m p \<and> src s' = Buf_read m p' \<and> p \<le> p' \<and> p' + bytes_left s' \<le> p + bytes_left s)"

definition agree :: "nat set \<Rightarrow> heap \<Rightarrow> heap \<Rightarrow> bool" where
  "agree A hp hp' \<longleftrightarrow> blocks hp' = blocks hp \<and> (\<forall>x. x \<notin> A \<longrightarrow> bytes_of hp' x = bytes_of hp x)"

definition safe :: "nat set \<Rightarrow> 'u dstate \<Rightarrow> 'u din \<Rightarrow> bool" where
  "safe A st x \<longleftrightarrow> (\<exists>r st'. x = Some (r, st') \<and> inside (fst st) (fst st') \<and> agree A (snd st) (snd st'))"

lemma within_inside: "within s s' \<Longrightarrow> inside s s'"
  by (auto simp: within_def inside_def)

lemma inside_refl: "istream_ok s \<Longrightarrow> inside s s"
  by (cases "src s") (auto simp: inside_def istream_ok_def)

lemma inside_trans: "inside s s' \<Longrightarrow> inside s' s'' \<Longrightarrow> inside s s''"
  by (fastforce simp: inside_def)

lemma inside_ok: "inside s s' \<Longrightarrow> istream_ok s \<and> istream_ok s'"
  by (auto simp: inside_def istream_ok_def)

lemma inside_left: "inside s s' \<Longrightarrow> bytes_left s' \<le> bytes_left s"
  by (auto simp: inside_def)

lemma inside_error [simp]: "inside s (pb_set_ierror s' e) = inside s s'"
  by (simp add: inside_def pb_set_ierror_def)

lemma agree_refl [simp]: "agree A hp hp"
  by (simp add: agree_def)

lemma agree_trans: "agree A hp hp' \<Longrightarrow> agree A hp' hp'' \<Longrightarrow> agree A hp hp''"
  by (simp add: agree_def)

lemma agree_mono: "agree A hp hp' \<Longrightarrow> A \<subseteq> B \<Longrightarrow> agree B hp hp'"
  by (auto simp: agree_def)

lemma agree_put_bytes: "{p..<p + length bs} \<subseteq> A \<Longrightarrow> agree A hp (put_bytes hp p bs)"
  unfolding agree_def put_bytes_def by (auto simp: write_bytes_def subset_iff)

lemma length_le_bytes [simp]: "length (le_bytes n v) = n"
  by (induction n arbitrary: v) simp_all

lemma agree_put: "{p..<p + n} \<subseteq> A \<Longrightarrow> agree A hp (put hp p n v)"
  by (simp add: put_def agree_put_bytes)

lemma safe_I: "inside (fst st) s \<Longrightarrow> agree A (snd st) hp \<Longrightarrow> safe A st (Some (r, s, hp))"
  by (auto simp: safe_def)

lemma safe_error: "istream_ok (fst st) \<Longrightarrow> safe A st (return_ierror st e)"
  by (auto simp: return_ierror_def safe_def inside_refl)

lemma safe_mono: "safe A st x \<Longrightarrow> A \<subseteq> B \<Longrightarrow> safe B st x"
  by (auto simp: safe_def intro: agree_mono)

lemma safe_trans: "safe A st' x \<Longrightarrow> inside (fst st) (fst st') \<Longrightarrow> agree A (snd st) (snd st') \<Longrightarrow> safe A st x"
  by (force simp: safe_def intro: inside_trans agree_trans)

lemma safe_or_return:
  assumes "safe A st x" "\<And>st'. x = Some (True, st') \<Longrightarrow> inside (fst st) (fst st') \<Longrightarrow> agree A (snd st) (snd st') \<Longrightarrow> safe A st' (f st')"
  shows "safe A st (or_return x f)"
proof -
  obtain r st' where x: "x = Some (r, st')" "inside (fst st) (fst st')" "agree A (snd st) (snd st')" using assms(1) by (auto simp: safe_def)
  then show ?thesis using assms(2) [of st'] safe_trans [of A st' "f st'" st] by (cases r) (auto simp: or_return_def safe_def)
qed

section \<open>Field decoders\<close>

text \<open>A reader leaves its stream inside; when it succeeds, it has read something.\<close>

definition reads :: "('u pb_istream \<Rightarrow> 'v option \<times> 'u pb_istream) \<Rightarrow> bool" where
  "reads f \<longleftrightarrow> (\<forall>s. istream_ok s \<longrightarrow> inside s (snd (f s)) \<and> (fst (f s) \<noteq> None \<longrightarrow> bytes_left (snd (f s)) < bytes_left s))"

lemma reads_D: "reads f \<Longrightarrow> istream_ok s \<Longrightarrow> f s = (x, s') \<Longrightarrow> inside s s' \<and> (x \<noteq> None \<longrightarrow> bytes_left s' < bytes_left s)"
  by (auto simp: reads_def dest: spec [of _ s])

lemma varint32_loop_left: "varint32_loop s n a = (x, s') \<Longrightarrow> istream_ok s \<Longrightarrow> bytes_left s' \<le> bytes_left s"
  using varint32_loop_within within_inside inside_left by blast

lemma reads_varint32_eof:
  assumes "istream_ok s" "pb_decode_varint32_eof s = (x, e, s')"
  shows "inside s s' \<and> (x \<noteq> None \<longrightarrow> bytes_left s' < bytes_left s)"
proof -
  obtain b t where t: "pb_readbyte s = (b, t)" by force
  then have ok: "istream_ok t" using assms(1) pb_readbyte_within within_ok by blast
  have "inside s s'" using pb_decode_varint32_eof_within [OF assms] by (rule within_inside)
  moreover have "bytes_left s' < bytes_left s" if "x \<noteq> None"
    using that assms(2) t pb_readbyte_bytes_left [of s _ t] varint32_loop_left [OF _ ok]
    by (fastforce simp: pb_decode_varint32_eof_def split: option.splits if_splits prod.splits)
  ultimately show ?thesis by simp
qed

lemma reads_varint32: "reads pb_decode_varint32"
  unfolding reads_def
proof (intro allI impI)
  fix s :: "'a pb_istream"
  assume "istream_ok s"
  moreover obtain x e s' where "pb_decode_varint32_eof s = (x, e, s')" by (metis prod_cases3)
  ultimately show "inside s (snd (pb_decode_varint32 s)) \<and>
    (fst (pb_decode_varint32 s) \<noteq> None \<longrightarrow> bytes_left (snd (pb_decode_varint32 s)) < bytes_left s)"
    using reads_varint32_eof [of s x e s'] by (simp add: pb_decode_varint32_def)
qed

lemma varint_loop_reads:
  assumes "istream_ok s" "varint_loop s n a = (x, s')"
  shows "inside s s' \<and> (x \<noteq> None \<longrightarrow> bytes_left s' < bytes_left s)"
proof -
  have "inside s s'" using varint_loop_within [OF assms] by (rule within_inside)
  moreover have "bytes_left s' < bytes_left s" if "x \<noteq> None"
  proof -
    obtain b t where t: "pb_readbyte s = (b, t)" by force
    then have ok: "istream_ok t" using assms(1) pb_readbyte_within within_ok by blast
    have "bytes_left t' \<le> bytes_left t" if "varint_loop t k c = (y, t')" for k c y t'
      using varint_loop_within [OF ok that] within_inside inside_left by blast
    then show ?thesis
      using \<open>x \<noteq> None\<close> assms(2) t pb_readbyte_bytes_left [of s _ t]
      by (fastforce simp: varint_loop.simps [of s] Let_def split: option.splits if_splits prod.splits)
  qed
  ultimately show ?thesis by simp
qed

lemma reads_varint: "reads pb_decode_varint"
  using varint_loop_reads by (fastforce simp: reads_def pb_decode_varint_def prod_eq_iff)

lemma reads_svarint: "reads pb_decode_svarint"
  using reads_varint by (auto simp: reads_def pb_decode_svarint_def split: prod.splits option.splits)

lemma pb_read_reads:
  assumes "istream_ok s" "pb_read s n = (x, s')"
  shows "inside s s' \<and> (x \<noteq> None \<longrightarrow> bytes_left s' + n = bytes_left s)"
  using pb_read_within [OF assms] within_inside pb_read_bytes_left [of s n _ s'] assms(2) by auto

lemma pb_read_length: "istream_ok s \<Longrightarrow> pb_read s n = (Some bs, s') \<Longrightarrow> length bs = n"
  by (cases "src s") (auto simp: pb_read_def istream_ok_def split: if_splits)

section \<open>The decoders of values\<close>

definition eats :: "'u dstate \<Rightarrow> 'u din \<Rightarrow> bool" where
  "eats st x \<longleftrightarrow> (\<forall>st'. x = Some (True, st') \<longrightarrow> bytes_left (fst st') < bytes_left (fst st))"

text \<open>The bytes that the value of a field can take, but for submessages.\<close>

definition value_size :: "pb_field \<Rightarrow> nat" where
  "value_size f =
     (let t = PB_LTYPE (fld_type f)
      in if t = PB_LTYPE_BOOL then 1 else if t = PB_LTYPE_FIXED32 then 4 else if t = PB_LTYPE_FIXED64 then 8 else unat (data_size f))"

definition value_area :: "pb_field \<Rightarrow> nat \<Rightarrow> nat set" where
  "value_area f p = {p..<p + value_size f}"

definition good :: "nat set \<Rightarrow> 'u dstate \<Rightarrow> 'u din \<Rightarrow> bool" where
  "good A st x \<longleftrightarrow> safe A st x \<and> eats st x"

lemma read_then_put:
  assumes "reads f" "istream_ok (fst st)" "\<And>v. agree A (snd st) (g v)"
  shows "good A st (case f (fst st) of (None, s) \<Rightarrow> Some (False, s, snd st) | (Some v, s) \<Rightarrow> Some (True, s, g v))"
proof -
  obtain x s where f: "f (fst st) = (x, s)" by force
  with reads_D [OF assms(1,2)] assms(3) show ?thesis
    by (cases x) (auto simp: good_def eats_def intro!: safe_I)
qed

lemma store_agree:
  assumes "store_signed sz p v hp = Some (c, hp') \<or> store_unsigned sz p v hp = Some (c, hp')"
  shows "agree {p..<p + unat sz} hp hp'"
  using assms by (auto simp: store_signed_def store_unsigned_def intro!: agree_put split: if_splits)

lemma store_checked_safe:
  assumes "istream_ok (fst st)" "store = store_signed \<or> store = store_unsigned"
  shows "safe {p..<p + unat (data_size f)} st (store_checked store f p v st) \<and>
    (\<forall>st'. store_checked store f p v st = Some (True, st') \<longrightarrow> fst st' = fst st)"
proof (cases "store (data_size f) p v (snd st)")
  case None
  then show ?thesis using assms(1) by (simp add: store_checked_def safe_error) (simp add: return_ierror_def)
next
  case (Some y)
  obtain c hp where y: "y = (c, hp)" by force
  have "agree {p..<p + unat (data_size f)} (snd st) hp" using store_agree [of "data_size f" p v "snd st" c hp] Some y assms(2) by auto
  then show ?thesis
    using Some y assms(1) by (auto simp: store_checked_def return_ierror_def safe_def inside_refl)
qed

lemma read_then_store:
  assumes "reads f" "istream_ok (fst st)" "store = store_signed \<or> store = store_unsigned"
  shows "good {p..<p + unat (data_size field)} st
    (case f (fst st) of (None, s) \<Rightarrow> Some (False, s, snd st) | (Some v, s) \<Rightarrow> store_checked store field p (g v) (s, snd st))"
proof -
  obtain x s where f: "f (fst st) = (x, s)" by force
  note r = reads_D [OF assms(1,2) f]
  show ?thesis
  proof (cases x)
    case None
    with f r show ?thesis by (auto simp: good_def eats_def intro!: safe_I)
  next
    case (Some v)
    have c: "safe {p..<p + unat (data_size field)} (s, snd st) (store_checked store field p (g v) (s, snd st)) \<and>
      (\<forall>st'. store_checked store field p (g v) (s, snd st) = Some (True, st') \<longrightarrow> fst st' = s)"
      using store_checked_safe [of "(s, snd st)" store p field "g v"] r inside_ok assms(3) by auto
    with f r Some show ?thesis by (auto simp: good_def eats_def intro: safe_trans)
  qed
qed

lemma read_into_safe:
  assumes "istream_ok (fst st)"
  shows "safe {p..<p + k} st (read_into p k st)"
proof -
  obtain x s where f: "pb_read (fst st) k = (x, s)" by force
  note r = pb_read_reads [OF assms f]
  show ?thesis
    using f r pb_read_length [OF assms, of k _ s]
    by (cases x) (auto simp: read_into_def intro!: safe_I agree_put_bytes)
qed

lemma eats_step:
  assumes "safe A (s, hp) x" "bytes_left s < bytes_left (fst st)"
  shows "eats st x"
  using assms by (fastforce simp: eats_def safe_def dest: inside_left)

lemma varint32_then:
  assumes "istream_ok (fst st)" "\<And>v s. istream_ok s \<Longrightarrow> safe A (s, snd st) (g v s)"
  shows "good A st (case pb_decode_varint32 (fst st) of (None, s) \<Rightarrow> Some (False, s, snd st) | (Some v, s) \<Rightarrow> g v s)"
proof -
  obtain x s where f: "pb_decode_varint32 (fst st) = (x, s)" by force
  note r = reads_D [OF reads_varint32 assms(1) f]
  show ?thesis
  proof (cases x)
    case None
    with f r show ?thesis by (auto simp: good_def eats_def intro!: safe_I)
  next
    case (Some v)
    have "safe A (s, snd st) (g v s)" using assms(2) r inside_ok by blast
    with r Some f show ?thesis by (auto simp: good_def intro: safe_trans eats_step)
  qed
qed

lemma dest_for_safe:
  assumes "istream_ok (fst st)" "PB_ATYPE (fld_type f) = PB_ATYPE_STATIC"
    and "alloc \<le> unat (data_size f) \<Longrightarrow> safe A st (cont p st)"
  shows "safe A st (dest_for env f p sz alloc msg st cont)"
proof -
  have "PB_ATYPE (fld_type f) \<noteq> PB_ATYPE_POINTER" using assms(2) by (simp add: atype_defs)
  note np = this
  show ?thesis
  proof (cases "alloc > unat (data_size f)")
    case True
    then show ?thesis by (simp add: dest_for_def np safe_error assms(1))
  next
    case False
    then have "safe A st (cont p st)" using assms(3) by simp
    with False show ?thesis by (simp add: dest_for_def np)
  qed
qed

lemma bytes_safe:
  assumes "istream_ok (fst st)" "PB_ATYPE (fld_type f) = PB_ATYPE_STATIC"
  shows "good {p..<p + unat (data_size f)} st (pb_dec_bytes env f p st)"
  unfolding pb_dec_bytes_def Let_def
proof (rule varint32_then [OF assms(1)])
  fix v :: u32 and s :: "'a pb_istream"
  let ?A = "{p..<p + unat (data_size f)}"
  let ?hp = "put (snd st) p 4 (unat v)"
  assume s: "istream_ok s"
  have alloc: "size_add (unat v) 4 = unat v + 4"
    using unsigned_less [of v, where 'a = nat] by (intro size_add_small) (simp add: size_max_def)
  have "safe ?A (s, snd st) (read_into (p + 4) (unat v) (s, ?hp))" if "unat v + 4 \<le> unat (data_size f)"
  proof (rule safe_trans)
    show "safe ?A (s, ?hp) (read_into (p + 4) (unat v) (s, ?hp))"
      by (rule safe_mono [OF read_into_safe]) (use s that in auto)
    show "agree ?A (snd (s, snd st)) (snd (s, ?hp))" using that by (auto intro!: agree_put)
  qed (simp add: s inside_refl)
  then have d: "safe ?A (s, snd st) (dest_for env f p (unat v) (size_add (unat v) 4) ''bytes overflow'' (s, snd st)
      (\<lambda>bdest st. read_into (bdest + 4) (unat v) (fst st, put (snd st) bdest 4 (unat v))))"
    using s assms(2) by (intro dest_for_safe) (simp_all add: alloc)
  have e: "safe ?A (s, snd st) (return_ierror (s, snd st) m)" for m using s by (simp add: safe_error)
  show "safe ?A (s, snd st)
    (if PB_SIZE_MAX < v then return_ierror (s, snd st) ''bytes overflow''
     else if size_add (unat v) 4 < unat v then return_ierror (s, snd st) ''size too large''
     else dest_for env f p (unat v) (size_add (unat v) 4) ''bytes overflow'' (s, snd st)
            (\<lambda>bdest st. read_into (bdest + 4) (unat v) (fst st, put (snd st) bdest 4 (unat v))))"
    using d e by simp
qed

lemma string_safe:
  assumes "istream_ok (fst st)" "PB_ATYPE (fld_type f) = PB_ATYPE_STATIC"
  shows "good {p..<p + unat (data_size f)} st (pb_dec_string env f p st)"
  unfolding pb_dec_string_def Let_def
proof (rule varint32_then [OF assms(1)])
  fix v :: u32 and s :: "'a pb_istream"
  let ?A = "{p..<p + unat (data_size f)}"
  let ?r = "map_option (\<lambda>(status, s, hp). (status, s, put hp (p + unat v) 1 0)) (read_into p (unat v) (s, snd st))"
  assume s: "istream_ok s"
  have "safe ?A (s, snd st) ?r" if "\<not> unat (v + 1) < unat v" "unat (v + 1) \<le> unat (data_size f)"
  proof -
    have "unat (v + 1) = unat v + 1" using that(1) by (metis linorder_not_less unat_plus_simple unsigned_1 word_le_nat_alt)
    with that(2) have v: "unat v + 1 \<le> unat (data_size f)" by simp
    have "safe ?A (s, snd st) (read_into p (unat v) (s, snd st))"
      by (rule safe_mono [OF read_into_safe]) (use s v in auto)
    then obtain r s' hp where r: "read_into p (unat v) (s, snd st) = Some (r, s', hp)" "inside s s'" "agree ?A (snd st) hp"
      by (auto simp: safe_def)
    moreover have "agree ?A hp (put hp (p + unat v) 1 0)" using v by (intro agree_put) auto
    ultimately show ?thesis by (auto simp: safe_def intro: agree_trans)
  qed
  then have d: "safe ?A (s, snd st) (dest_for env f p (unat v) (unat (v + 1)) ''string overflow'' (s, snd st)
      (\<lambda>sdest st. map_option (\<lambda>(status, s, hp). (status, s, put hp (sdest + unat v) 1 0)) (read_into sdest (unat v) st)))"
    if "\<not> unat (v + 1) < unat v"
    using s assms(2) that by (intro dest_for_safe) simp_all
  show "safe ?A (s, snd st)
    (if unat (v + 1) < unat v then return_ierror (s, snd st) ''size too large''
     else dest_for env f p (unat v) (unat (v + 1)) ''string overflow'' (s, snd st)
            (\<lambda>sdest st. map_option (\<lambda>(status, s, hp). (status, s, put hp (sdest + unat v) 1 0)) (read_into sdest (unat v) st)))"
    using d s by (simp add: safe_error)
qed

lemma fixed_length_safe:
  assumes "istream_ok (fst st)"
  shows "good {p..<p + unat (data_size f)} st (pb_dec_fixed_length_bytes f p st)"
  unfolding pb_dec_fixed_length_bytes_def Let_def
proof (rule varint32_then [OF assms(1)])
  fix v :: u32 and s :: "'a pb_istream"
  assume s: "istream_ok s"
  then show "safe {p..<p + unat (data_size f)} (s, snd st)
    (if PB_SIZE_MAX < v then return_ierror (s, snd st) ''bytes overflow''
     else if v = 0 then Some (True, s, put_bytes (snd (s, snd st)) p (replicate (unat (data_size f)) 0))
     else if v \<noteq> data_size f then return_ierror (s, snd st) ''incorrect fixed length bytes size''
     else read_into p (unat (data_size f)) (s, snd st))"
    using read_into_safe [of "(s, snd st)" p "unat (data_size f)"]
    by (auto intro!: safe_error safe_I agree_put_bytes simp: inside_refl)
qed

text \<open>The decoders through the table, but for submessages.\<close>

lemma decoder_of_eq:
  "decoder_of n env noinit field a st =
     (let t = PB_LTYPE (fld_type field)
      in if t = PB_LTYPE_BOOL then pb_dec_bool field a st
         else if t = PB_LTYPE_VARINT then pb_dec_varint field a st
         else if t = PB_LTYPE_UVARINT then pb_dec_uvarint field a st
         else if t = PB_LTYPE_SVARINT then pb_dec_svarint field a st
         else if t = PB_LTYPE_FIXED32 then pb_dec_fixed32 field a st
         else if t = PB_LTYPE_FIXED64 then pb_dec_fixed64 field a st
         else if t = PB_LTYPE_BYTES then pb_dec_bytes env field a st
         else if t = PB_LTYPE_STRING then pb_dec_string env field a st
         else if t = PB_LTYPE_SUBMESSAGE then pb_dec_submessage n env noinit field a st
         else if t = PB_LTYPE_FIXED_LENGTH_BYTES then pb_dec_fixed_length_bytes field a st
         else None)"
proof -
  define t where "t = PB_LTYPE (fld_type field)"
  have e: "t = w \<longleftrightarrow> unat t = unat w" for w by (simp add: word_unat_eq_iff)
  show ?thesis
    unfolding decoder_of_def Let_def t_def [symmetric] e
    by (simp add: PB_DECODERS_def ltype_defs nth_Cons' del: word_unat_eq_iff)
qed

lemma read_some_reads:
  assumes "0 < k"
  shows "reads (\<lambda>s. case pb_read s k of (None, s') \<Rightarrow> (None, s') | (Some bs, s') \<Rightarrow> (Some (g bs), s'))"
  unfolding reads_def
proof (intro allI impI)
  fix s :: "'a pb_istream"
  assume s: "istream_ok s"
  obtain x s' where r: "pb_read s k = (x, s')" by force
  with pb_read_reads [OF s r] assms
  show "inside s (snd (case pb_read s k of (None, s') \<Rightarrow> (None, s') | (Some bs, s') \<Rightarrow> (Some (g bs), s'))) \<and>
    (fst (case pb_read s k of (None, s') \<Rightarrow> (None, s') | (Some bs, s') \<Rightarrow> (Some (g bs), s')) \<noteq> None \<longrightarrow>
      bytes_left (snd (case pb_read s k of (None, s') \<Rightarrow> (None, s') | (Some bs, s') \<Rightarrow> (Some (g bs), s'))) < bytes_left s)"
    by (cases x) auto
qed

lemma fixed_reads: "reads pb_decode_fixed32" "reads pb_decode_fixed64"
  unfolding pb_decode_fixed32_def [abs_def] pb_decode_fixed64_def [abs_def] by (rule read_some_reads, simp)+

lemma number_decoders:
  assumes "istream_ok (fst st)"
  shows "good {p..<p + 1} st (pb_dec_bool f p st)" "good {p..<p + unat (data_size f)} st (pb_dec_varint f p st)"
    "good {p..<p + unat (data_size f)} st (pb_dec_uvarint f p st)" "good {p..<p + unat (data_size f)} st (pb_dec_svarint f p st)"
    "good {p..<p + 4} st (pb_dec_fixed32 f p st)" "good {p..<p + 8} st (pb_dec_fixed64 f p st)"
  unfolding pb_dec_bool_def pb_dec_varint_def pb_dec_uvarint_def pb_dec_svarint_def pb_dec_fixed32_def pb_dec_fixed64_def
  by (rule read_then_put read_then_store, auto simp: reads_varint reads_varint32 reads_svarint fixed_reads assms intro!: agree_put)+

lemma leaf_decoder:
  assumes "istream_ok (fst st)" "PB_ATYPE (fld_type f) = PB_ATYPE_STATIC"
    and "PB_LTYPE (fld_type f) \<le> PB_LTYPE_FIXED_LENGTH_BYTES" "PB_LTYPE (fld_type f) \<noteq> PB_LTYPE_EXTENSION"
    "PB_LTYPE (fld_type f) \<noteq> PB_LTYPE_SUBMESSAGE"
  shows "good (value_area f p) st (decoder_of n env noinit f p st)"
proof -
  define t where "t = PB_LTYPE (fld_type f)"
  have "t \<in> {0, 1, 2, 3, 4, 5, 6, 7, 8, 9, 10}" unfolding t_def by (rule ltype_small [OF assms(3)])
  moreover have "t \<noteq> 9" "t \<noteq> 8" using assms(4,5) by (simp_all add: t_def ltype_defs)
  ultimately show ?thesis
    using number_decoders [OF assms(1)] bytes_safe [OF assms(1,2)] string_safe [OF assms(1,2)] fixed_length_safe [OF assms(1)]
    unfolding decoder_of_eq value_area_def value_size_def Let_def t_def [symmetric] ltype_defs
    by (elim insertE emptyE) simp_all
qed

end
