(* ===== verification/Pb_Static.thy ===== *)
theory Pb_Static
  imports Pb_Safe
begin

text \<open>
  Decoding into messages of a type without pointers: it ends, whatever the input, and stores only into the message and the local
  variables.
\<close>

section \<open>Message types without pointers\<close>

text \<open>The positions that the iterator can take; an empty message type has one as well, at the terminator.\<close>

definition iters :: "pb_field list \<Rightarrow> nat \<Rightarrow> pb_field_iter list" where
  "iters fs a = map (iter_nth fs a) [0..<max 1 (length (layout fs a))]"

lemma iters_field:
  assumes "iter \<in> set (iters fs a)"
  shows "iter_field iter \<in> insert PB_LAST_FIELD (set fs)"
proof (cases "layout fs a = []")
  case True
  with assms have "iter = snd (pb_field_iter_begin fs a)" by (simp add: iters_def)
  then have "iter_field iter = field_at fs 0" by (simp add: pb_field_iter_begin_def Let_def)
  then show ?thesis by (simp add: field_at_def)
next
  case False
  then have "max 1 (length (layout fs a)) = length (layout fs a)" by (cases "layout fs a") simp_all
  with assms obtain j where j: "iter = iter_nth fs a j" "j < length (layout fs a)" by (auto simp: iters_def)
  with iter_nth_field [OF j(2)] have "(iter_field iter, pData iter) \<in> set (layout fs a)" by (metis nth_mem)
  then show ?thesis by (auto dest: layout_fields)
qed

lemma iters_begin: "snd (pb_field_iter_begin fs a) \<in> set (iters fs a)"
  by (force simp: iters_def image_iff intro: bexI [of _ 0])

text \<open>
  Types whose fields are all stored in the message itself, nested at most \<open>n\<close> deep, with arrays of less than four gigabytes, in
  descriptors as the generator emits them.
\<close>

fun static_type :: "nat \<Rightarrow> 'u dec_env \<Rightarrow> pb_field list \<Rightarrow> bool" where
  "static_type 0 env fs = False"
| "static_type (Suc n) env fs =
     list_all (\<lambda>f. PB_ATYPE (fld_type f) = PB_ATYPE_STATIC \<and> (fld_tag f = 0 \<longrightarrow> f = PB_LAST_FIELD) \<and>
       PB_LTYPE (fld_type f) \<le> PB_LTYPE_FIXED_LENGTH_BYTES \<and> PB_LTYPE (fld_type f) \<noteq> PB_LTYPE_EXTENSION \<and>
       unat (data_size f) * unat (array_size f) < 2 ^ 32 \<and>
       (PB_LTYPE (fld_type f) = PB_LTYPE_SUBMESSAGE \<longrightarrow>
         fld_ptr f \<noteq> 0 \<and> static_type n env (descriptors_at env (fld_ptr f)))) fs"

lemma static_type_field:
  assumes "static_type (Suc n) env fs" "f \<in> insert PB_LAST_FIELD (set fs)"
  shows "static_type (Suc n) env [f]"
  using assms by (auto simp: list_all_iff PB_LAST_FIELD_def pb_type_defs)

text \<open>
  The bytes that belong to a message: for every field its \<^verbatim>\<open>has\<close>, \<^verbatim>\<open>which\<close> or count member and its values.  The count of an array without
  such a member is taken to be at the array itself, where the code puts it to zero.
\<close>

definition count_area :: "pb_field_iter \<Rightarrow> nat set" where
  "count_area iter =
     (let h = PB_HTYPE (fld_type (iter_field iter))
      in if h = PB_HTYPE_OPTIONAL then if pSize iter \<noteq> pData iter then {pSize iter..<pSize iter + 1} else {}
         else if h = PB_HTYPE_REQUIRED then {} else {pSize iter..<pSize iter + 4})"

definition item_area :: "(pb_field list \<Rightarrow> nat \<Rightarrow> nat set) \<Rightarrow> 'u dec_env \<Rightarrow> pb_field \<Rightarrow> nat \<Rightarrow> nat set" where
  "item_area sub env f p =
     {p..<p + max (value_size f) (unat (data_size f))} \<union>
     (if PB_LTYPE (fld_type f) = PB_LTYPE_SUBMESSAGE then sub (descriptors_at env (fld_ptr f)) p else {})"

definition items_area :: "(pb_field list \<Rightarrow> nat \<Rightarrow> nat set) \<Rightarrow> 'u dec_env \<Rightarrow> pb_field_iter \<Rightarrow> nat set" where
  "items_area sub env iter =
     (let f = iter_field iter
      in if PB_HTYPE (fld_type f) = PB_HTYPE_REPEATED
         then \<Union>i \<in> {..<unat (array_size f)}. item_area sub env f (ptr_add (pData iter) (int (i * unat (data_size f))))
         else item_area sub env f (pData iter))"

fun area :: "nat \<Rightarrow> 'u dec_env \<Rightarrow> pb_field list \<Rightarrow> nat \<Rightarrow> nat set" where
  "area 0 env fs a = {}"
| "area (Suc n) env fs a = (\<Union>iter \<in> set (iters fs a). count_area iter \<union> items_area (area n env) env iter)"

section \<open>Defaults and release\<close>

lemma next_iter_nth:
  assumes "j < length (layout fs a)"
  shows "fst (pb_field_iter_next (iter_nth fs a j)) \<longleftrightarrow> Suc j < length (layout fs a)"
proof -
  obtain r iter where n: "pb_field_iter_next (iter_nth fs a j) = (r, iter)" by force
  note j = iter_nth_remaining [OF assms]
  have len: "length (remaining (iter_nth fs a j)) = length (layout fs a) - j" using j by simp
  have pos: "length (remaining iter) > 0" by (subst remaining_Cons) simp
  have both: "length (remaining (iter_nth fs a j)) = (if r then Suc (length (remaining iter)) else 1)"
    using remaining_next [OF n conjunct1 [OF conjunct2 [OF j]]] by (cases r) simp_all
  show ?thesis
  proof (cases r)
    case True
    with both len have "length (layout fs a) - j = Suc (length (remaining iter))" by simp
    with pos True n show ?thesis by (simp del: length_greater_0_conv)
  next
    case False
    with both len have "length (layout fs a) - j = 1" by simp
    with False n assms show ?thesis by simp
  qed
qed

text \<open>A loop over all fields, with an invariant.\<close>

lemma all_fields_inv:
  assumes "\<And>j hp. j < length (layout fs a) \<Longrightarrow> P j hp \<Longrightarrow> \<exists>hp'. body (iter_nth fs a j) hp = Some hp' \<and> P (Suc j) hp'" "P 0 hp"
  shows "\<exists>hp'. all_fields body fs a hp = Some hp' \<and> P (length (layout fs a)) hp'"
proof -
  let ?g = "\<lambda>iter hp. map_option (Pair True) (body iter hp)"
  have loop: "\<exists>hp'. fields_loop ?g (iter_nth fs a j) hp = Some (True, hp') \<and> P (length (layout fs a)) hp'"
    if "j < length (layout fs a)" "P j hp" for j hp
    using that
  proof (induction "length (layout fs a) - j" arbitrary: j hp)
    case (Suc d)
    then obtain hp1 where h1: "body (iter_nth fs a j) hp = Some hp1" "P (Suc j) hp1" using assms by blast
    show ?case
    proof (cases "Suc j < length (layout fs a)")
      case True
      define i1 where "i1 = iter_nth fs a (Suc j)"
      from True next_iter_nth [OF Suc.prems(1)] have "pb_field_iter_next (iter_nth fs a j) = (True, i1)"
        by (simp add: prod_eq_iff i1_def)
      moreover have "d = length (layout fs a) - Suc j" using Suc.hyps(2) by linarith
      from Suc.hyps(1) [OF this True h1(2)] obtain hp2 where
        "fields_loop ?g i1 hp1 = Some (True, hp2)" "P (length (layout fs a)) hp2" unfolding i1_def by blast
      ultimately show ?thesis using h1(1) by (subst fields_loop.simps) auto
    next
      case False
      with next_iter_nth [OF Suc.prems(1)] obtain iter where "pb_field_iter_next (iter_nth fs a j) = (False, iter)"
        by (cases "pb_field_iter_next (iter_nth fs a j)") simp
      moreover have "Suc j = length (layout fs a)" using False Suc.prems(1) by simp
      ultimately show ?thesis using h1 by (subst fields_loop.simps) auto
    qed
  qed simp
  obtain r iter where b: "pb_field_iter_begin fs a = (r, iter)" by force
  show ?thesis
  proof (cases r)
    case True
    with layout_begin [OF b] have "layout fs a \<noteq> []" using remaining_Cons [of iter] by auto
    with loop [of 0 hp] b True assms(2) show ?thesis by (auto simp: all_fields_def)
  next
    case False
    with layout_begin [OF b] b assms(2) show ?thesis by (simp add: all_fields_def)
  qed
qed

lemma all_fields_agree:
  assumes "\<And>iter hp. iter \<in> set (iters fs a) \<Longrightarrow> \<exists>hp'. body iter hp = Some hp' \<and> agree A hp hp'"
  shows "\<exists>hp'. all_fields body fs a hp = Some hp' \<and> agree A hp hp'"
proof (rule all_fields_inv)
  fix j hp1
  assume "j < length (layout fs a)" "agree A hp hp1"
  moreover from this(1) have "iter_nth fs a j \<in> set (iters fs a)" by (auto simp: iters_def)
  ultimately show "\<exists>hp'. body (iter_nth fs a j) hp1 = Some hp' \<and> agree A hp hp'" using assms by (meson agree_trans)
qed simp

lemma area_iter:
  "iter \<in> set (iters fs a) \<Longrightarrow> agree (count_area iter \<union> items_area (area k env) env iter) hp hp' \<Longrightarrow> agree (area (Suc k) env fs a) hp hp'"
  by (erule agree_mono) auto

lemma set_default_static:
  "static_type (Suc k) env [iter_field iter] \<Longrightarrow> Suc k \<le> n \<Longrightarrow>
   \<exists>hp'. pb_field_set_to_default n env iter hp = Some hp' \<and> agree (count_area iter \<union> items_area (area k env) env iter) hp hp'"
proof (induction n arbitrary: k iter hp)
  case 0
  then show ?case by simp
next
  case (Suc n)
  let ?f = "iter_field iter"
  let ?h = "PB_HTYPE (fld_type ?f)"
  let ?A = "count_area iter \<union> items_area (area k env) env iter"
  have static: "PB_ATYPE (fld_type ?f) = PB_ATYPE_STATIC" "PB_LTYPE (fld_type ?f) \<noteq> PB_LTYPE_EXTENSION" using Suc.prems by auto
  show ?case
  proof (cases "?h = PB_HTYPE_REPEATED \<or> ?h = PB_HTYPE_ONEOF")
    case True
    then have "agree ?A hp (put hp (pSize iter) 4 0)"
      by (intro agree_put) (auto simp: count_area_def Let_def htype_defs)
    with True static show ?thesis by (auto simp: Let_def htype_defs)
  next
    case False
    define hp1 where "hp1 = (if ?h = PB_HTYPE_OPTIONAL \<and> pSize iter \<noteq> pData iter then put hp (pSize iter) 1 0 else hp)"
    have a1: "agree ?A hp hp1" unfolding hp1_def by (auto simp: count_area_def Let_def htype_defs intro!: agree_put)
    have items: "items_area (area k env) env iter = item_area (area k env) env ?f (pData iter)"
      using False by (simp add: items_area_def Let_def)
    show ?thesis
    proof (cases "PB_LTYPE (fld_type ?f) = PB_LTYPE_SUBMESSAGE")
      case True
      let ?sub = "descriptors_at env (fld_ptr ?f)"
      from True Suc.prems(1) have sub: "static_type k env ?sub" "fld_ptr ?f \<noteq> 0" by auto
      then obtain k' where k: "k = Suc k'" by (cases k) auto
      have "\<exists>hp'. pb_field_set_to_default n env iter' hp = Some hp' \<and> agree (area k env ?sub (pData iter)) hp hp'"
        if "iter' \<in> set (iters ?sub (pData iter))" for iter' hp
        using Suc.IH [OF static_type_field [OF sub(1) [unfolded k] iters_field [OF that]], of hp] Suc.prems(2) area_iter [OF that, of k' env] k
        by (simp del: area.simps) blast
      from all_fields_agree [of ?sub "pData iter" "pb_field_set_to_default n env", OF this] obtain hp2 where
        "all_fields (pb_field_set_to_default n env) ?sub (pData iter) hp1 = Some hp2" "agree (area k env ?sub (pData iter)) hp1 hp2"
        by blast
      moreover from this(2) have "agree ?A hp1 hp2" by (rule agree_mono) (auto simp: items item_area_def True)
      ultimately show ?thesis
        using a1 False static True sub(2) by (auto simp: Let_def hp1_def intro: agree_trans)
    next
      case leaf: False
      have "agree ?A hp1 (put_bytes hp1 (pData iter) bs)" if "length bs = unat (data_size ?f)" for bs
        using that by (intro agree_put_bytes) (auto simp: items item_area_def)
      then show ?thesis
        using a1 False static leaf by (auto simp: Let_def hp1_def [symmetric] intro!: agree_trans [OF a1])
    qed
  qed
qed

lemma set_defaults_static:
  assumes "static_type k env fs" "k \<le> n"
  shows "\<exists>hp'. pb_message_set_to_defaults n env fs a hp = Some hp' \<and> agree (area k env fs a) hp hp'"
proof -
  from assms(1) obtain k' where k: "k = Suc k'" by (cases k) auto
  show ?thesis
    unfolding pb_message_set_to_defaults_def
  proof (rule all_fields_agree)
    fix iter hp
    assume i: "iter \<in> set (iters fs a)"
    show "\<exists>hp'. pb_field_set_to_default n env iter hp = Some hp' \<and> agree (area k env fs a) hp hp'"
      using set_default_static [OF static_type_field [OF assms(1) [unfolded k] iters_field [OF i]], of n hp] assms(2) k area_iter [OF i, of k' env]
      by (simp del: area.simps) blast
  qed
qed

lemma release_items_agree:
  assumes "\<And>p hp. \<exists>hp'. rel p hp = Some hp' \<and> agree A hp hp'"
  shows "\<exists>hp'. release_items rel sz c p hp = Some hp' \<and> agree A hp hp'"
proof (induction c arbitrary: p hp)
  case (Suc c)
  obtain hp1 where "rel p hp = Some hp1" "agree A hp hp1" using assms by blast
  moreover obtain hp2 where "release_items rel sz c (p + sz) hp1 = Some hp2" "agree A hp1 hp2" using Suc by blast
  ultimately show ?case by (auto intro: agree_trans)
qed simp

lemma release_single_static:
  "static_type (Suc k) env [iter_field iter] \<Longrightarrow> Suc k \<le> n \<Longrightarrow>
   \<exists>hp'. pb_release_single_field n env iter hp = Some hp' \<and> agree {} hp hp'"
proof (induction n arbitrary: k iter hp)
  case 0
  then show ?case by simp
next
  case (Suc n)
  let ?f = "iter_field iter"
  have static: "PB_ATYPE (fld_type ?f) = PB_ATYPE_STATIC" "PB_LTYPE (fld_type ?f) \<noteq> PB_LTYPE_EXTENSION" using Suc.prems by auto
  have "\<exists>hp'. release_inside n env (pb_release_single_field n env) iter hp = Some hp' \<and> agree {} hp hp'"
  proof (cases "PB_LTYPE (fld_type ?f) = PB_LTYPE_SUBMESSAGE")
    case True
    let ?sub = "descriptors_at env (fld_ptr ?f)"
    from True Suc.prems(1) have sub: "static_type k env ?sub" "fld_ptr ?f \<noteq> 0" by auto
    then obtain k' where k: "k = Suc k'" by (cases k) auto
    have "\<exists>hp'. pb_release_single_field n env iter' hp = Some hp' \<and> agree {} hp hp'" if "iter' \<in> set (iters ?sub q)" for iter' q hp
      using Suc.IH [OF static_type_field [OF sub(1) [unfolded k] iters_field [OF that]], of hp] Suc.prems(2) k by auto
    from all_fields_agree [of ?sub _ "pb_release_single_field n env", OF this]
    have "\<exists>hp'. release_fields (pb_release_single_field n env) ?sub q hp = Some hp' \<and> agree {} hp hp'" for q hp
      by (simp add: release_fields_def)
    from release_items_agree [OF this] show ?thesis
      using static True sub(2) by (simp add: release_inside_def Let_def atype_defs)
  next
    case False
    with static show ?thesis by (simp add: release_inside_def Let_def)
  qed
  then show ?case using static by (auto simp: Let_def atype_defs)
qed

lemma agree_empty: "agree {} hp hp' \<longleftrightarrow> hp' = hp"
  by (cases hp; cases hp') (auto simp: agree_def)

lemma release_static:
  assumes "static_type k env fs" "k \<le> n"
  shows "pb_release n env fs a hp = Some hp"
proof -
  from assms(1) obtain k' where k: "k = Suc k'" by (cases k) auto
  have "\<exists>hp'. all_fields (pb_release_single_field n env) fs a hp = Some hp' \<and> agree {} hp hp'"
  proof (rule all_fields_agree)
    fix iter hp
    assume i: "iter \<in> set (iters fs a)"
    show "\<exists>hp'. pb_release_single_field n env iter hp = Some hp' \<and> agree {} hp hp'"
      using release_single_static [OF static_type_field [OF assms(1) [unfolded k] iters_field [OF i]], of n hp] assms(2) k by simp
  qed
  then show ?thesis by (auto simp: pb_release_def release_fields_def agree_empty)
qed

section \<open>Substreams\<close>

definition opens :: "'u pb_istream \<Rightarrow> 'u pb_istream \<Rightarrow> 'u pb_istream \<Rightarrow> bool" where
  "opens s sub s' \<longleftrightarrow> (\<exists>m p p'. src s = Buf_read m p \<and> src sub = Buf_read m p' \<and> src s' = Buf_read m p' \<and> p \<le> p' \<and>
     p' + bytes_left sub + bytes_left s' \<le> p + bytes_left s) \<and> bytes_left sub + bytes_left s' < bytes_left s"

lemma make_substream:
  assumes "istream_ok s" "pb_make_string_substream s = (x, s')"
  shows "case x of None \<Rightarrow> inside s s' | Some sub \<Rightarrow> opens s sub s'"
proof -
  obtain y t where t: "pb_decode_varint32 s = (y, t)" by force
  note r = reads_D [OF reads_varint32 assms(1) t]
  show ?thesis
  proof (cases y)
    case None
    with t r assms(2) show ?thesis by (auto simp: pb_make_string_substream_def)
  next
    case (Some v)
    with r have "inside s t" "bytes_left t < bytes_left s" by auto
    then have "opens s (t\<lparr>bytes_left := unat v\<rparr>) (t\<lparr>bytes_left := bytes_left t - unat v\<rparr>)" if "\<not> bytes_left t < unat v"
      using that by (auto simp: opens_def inside_def)
    with Some t assms(2) \<open>inside s t\<close> show ?thesis
      by (auto simp: pb_make_string_substream_def split: if_splits)
  qed
qed

lemma opens_ok: "opens s sub s' \<Longrightarrow> istream_ok s \<and> istream_ok sub \<and> istream_ok s' \<and> inside s s'"
  by (auto simp: opens_def istream_ok_def inside_def)

lemma close_substream:
  assumes "opens s sub s'" "inside sub sub'"
  shows "\<exists>s''. pb_close_string_substream s' sub' = (True, s'') \<and> inside s s'' \<and> bytes_left s'' < bytes_left s"
proof -
  obtain m p p1 p2 where b: "src s = Buf_read m p" "src sub = Buf_read m p1" "src s' = Buf_read m p1" "p \<le> p1"
    "p1 + bytes_left sub + bytes_left s' \<le> p + bytes_left s" "bytes_left sub + bytes_left s' < bytes_left s"
    "src sub' = Buf_read m p2" "p1 \<le> p2" "p2 + bytes_left sub' \<le> p1 + bytes_left sub"
    using assms by (auto simp: opens_def inside_def)
  have "pb_close_string_substream s' sub' =
    (True, s'\<lparr>src := Buf_read m (p2 + bytes_left sub'), is_errmsg := is_errmsg sub'\<rparr>)"
    using b(7) by (simp add: pb_close_string_substream_def pb_read_null_def pb_read_def)
  with b show ?thesis by (auto simp: inside_def)
qed

lemma close_after_safe:
  assumes "opens s sub s'" "safe A (sub, hp) x"
  shows "good A (s, hp) (close_after s' x)"
proof -
  obtain r sub' hp' where x: "x = Some (r, sub', hp')" "inside sub sub'" "agree A hp hp'" using assms(2) by (auto simp: safe_def)
  with close_substream [OF assms(1), of sub'] show ?thesis by (auto simp: close_after_def good_def eats_def safe_def)
qed

lemma good_safe: "good A st x \<Longrightarrow> safe A st x"
  by (simp add: good_def)

lemma good_mono: "good A st x \<Longrightarrow> A \<subseteq> B \<Longrightarrow> good B st x"
  by (auto simp: good_def dest: safe_mono)

section \<open>Decoding\<close>

definition slots :: "'u dec_env \<Rightarrow> nat set" where
  "slots env = (\<Union>d. {stack_slot env d..<stack_slot env d + 4})"

text \<open>What is known of the decoder of the levels below: it handles types that are nested \<open>k\<close> deep and less than \<open>n\<close> bytes.\<close>

definition handles :: "nat \<Rightarrow> nat \<Rightarrow> 'u dec_env \<Rightarrow> 'u decoder \<Rightarrow> bool" where
  "handles n k env dec \<longleftrightarrow> (\<forall>fs a st. static_type k env fs \<longrightarrow> istream_ok (fst st) \<longrightarrow> bytes_left (fst st) < n \<longrightarrow>
     safe (area k env fs a \<union> slots env) st (dec fs a st))"

lemma decode_init_handles:
  assumes "handles n k env noinit" "k \<le> n"
  shows "handles n k env (decode_init n env noinit)"
  unfolding handles_def
proof (intro allI impI)
  fix fs a and st :: "'a dstate"
  assume h: "static_type k env fs" "istream_ok (fst st)" "bytes_left (fst st) < n"
  let ?A = "area k env fs a \<union> slots env"
  obtain hp where d: "pb_message_set_to_defaults n env fs a (snd st) = Some hp" "agree (area k env fs a) (snd st) hp"
    using set_defaults_static [OF h(1) assms(2)] by blast
  have "safe ?A (fst st, hp) (noinit fs a (fst st, hp))" using assms(1) h by (simp add: handles_def)
  then obtain r s' hp' where "noinit fs a (fst st, hp) = Some (r, s', hp')" "inside (fst st) s'" "agree ?A hp hp'"
    by (auto simp: safe_def)
  moreover have "agree ?A (snd st) hp" using d(2) by (rule agree_mono) simp
  ultimately show "safe ?A st (decode_init n env noinit fs a st)"
    using d(1) release_static [OF h(1) assms(2)]
    by (cases r) (auto simp: decode_init_def safe_def intro: agree_trans)
qed

lemma submessage_decoder:
  assumes "handles n k env noinit" "k \<le> n" "static_type (Suc k) env [f]" "PB_LTYPE (fld_type f) = PB_LTYPE_SUBMESSAGE"
    and "istream_ok (fst st)" "bytes_left (fst st) \<le> n"
  shows "good (item_area (area k env) env f p \<union> slots env) st (pb_dec_submessage n env noinit f p st)"
proof -
  let ?sub = "descriptors_at env (fld_ptr f)"
  let ?dec = "if PB_HTYPE (fld_type f) = PB_HTYPE_REPEATED then decode_init n env noinit else noinit"
  have sub: "static_type k env ?sub" "fld_ptr f \<noteq> 0" using assms(3,4) by auto
  obtain x s where m: "pb_make_string_substream (fst st) = (x, s)" by force
  note mk = make_substream [OF assms(5) m]
  show ?thesis
  proof (cases x)
    case None
    with mk m show ?thesis by (auto simp: pb_dec_submessage_def good_def eats_def intro!: safe_I)
  next
    case (Some t)
    with mk have o: "opens (fst st) t s" by simp
    then have t: "istream_ok t" "bytes_left t < n" using opens_ok [OF o] assms(6) by (simp, simp add: opens_def)
    have "handles n k env ?dec" using assms(1,2) decode_init_handles by auto
    then have "safe (area k env ?sub p \<union> slots env) (t, snd st) (?dec ?sub p (t, snd st))"
      using sub(1) t by (simp add: handles_def)
    from close_after_safe [OF o this] have
      "good (area k env ?sub p \<union> slots env) st (close_after s (?dec ?sub p (t, snd st)))" by simp
    then have "good (item_area (area k env) env f p \<union> slots env) st (close_after s (?dec ?sub p (t, snd st)))"
      by (rule good_mono) (auto simp: item_area_def assms(4))
    with Some m sub(2) show ?thesis by (simp add: pb_dec_submessage_def)
  qed
qed

lemma decoder_good:
  assumes "handles n k env noinit" "k \<le> n" "static_type (Suc k) env [f]" "istream_ok (fst st)" "bytes_left (fst st) \<le> n"
  shows "good (item_area (area k env) env f p \<union> slots env) st (decoder_of n env noinit f p st)"
proof (cases "PB_LTYPE (fld_type f) = PB_LTYPE_SUBMESSAGE")
  case True
  from submessage_decoder [OF assms(1-3) True assms(4,5)] True show ?thesis
    by (simp add: decoder_of_eq Let_def ltype_defs)
next
  case False
  have "good (value_area f p) st (decoder_of n env noinit f p st)"
    using assms(3,4) False by (intro leaf_decoder) auto
  then show ?thesis by (rule good_mono) (auto simp: value_area_def item_area_def)
qed

section \<open>A single field\<close>

lemma item_at_area:
  assumes "PB_HTYPE (fld_type (iter_field iter)) = PB_HTYPE_REPEATED" "get hp (pSize iter) 4 < unat (array_size (iter_field iter))"
    and "unat (data_size (iter_field iter)) * unat (array_size (iter_field iter)) < 2 ^ 32"
  shows "item_area sub env (iter_field iter) (item_at iter (pData iter) hp) \<subseteq> items_area sub env iter"
proof -
  let ?i = "get hp (pSize iter) 4"
  let ?d = "data_size (iter_field iter)"
  have "?i < 2 ^ 32" using assms(2) unsigned_less [of "array_size (iter_field iter)", where 'a = nat] by simp
  then have i: "unat (word_of_nat ?i :: u32) = ?i" by (rule unat_of_nat_u32)
  have "unat ?d * ?i \<le> unat ?d * unat (array_size (iter_field iter))" using assms(2) by simp
  with assms(3) have "unat ?d * ?i < 2 ^ 32" by linarith
  then have "unat (?d * word_of_nat ?i) = unat ?d * ?i" using i by (simp add: unat_word_ariths(2))
  then have "uint (?d * word_of_nat ?i) = int (?i * unat ?d)" by (metis mult.commute uint_nat)
  then show ?thesis using assms(1,2) by (auto simp: item_at_def items_area_def Let_def)
qed

text \<open>The situation in which a field of a static type is decoded: \<open>A\<close> holds everything that belongs to it.\<close>

definition field_in :: "nat set \<Rightarrow> nat \<Rightarrow> nat \<Rightarrow> 'u dec_env \<Rightarrow> 'u decoder \<Rightarrow> pb_field_iter \<Rightarrow> bool" where
  "field_in A n k env noinit iter \<longleftrightarrow> handles n k env noinit \<and> k \<le> n \<and> static_type (Suc k) env [iter_field iter] \<and>
     count_area iter \<subseteq> A \<and> items_area (area k env) env iter \<subseteq> A \<and> slots env \<subseteq> A"

lemma field_decoder:
  assumes "field_in A n k env noinit iter" "istream_ok (fst st)" "bytes_left (fst st) \<le> n"
    and "item_area (area k env) env (iter_field iter) p \<subseteq> A"
  shows "good A st (decoder_of n env noinit (iter_field iter) p st)"
proof -
  have "good (item_area (area k env) env (iter_field iter) p \<union> slots env) st (decoder_of n env noinit (iter_field iter) p st)"
    using assms(1-3) by (intro decoder_good) (simp_all add: field_in_def)
  then show ?thesis by (rule good_mono) (use assms(1,4) in \<open>auto simp: field_in_def\<close>)
qed

lemma field_count:
  assumes "field_in A n k env noinit iter" "PB_HTYPE (fld_type (iter_field iter)) \<notin> {PB_HTYPE_REQUIRED, PB_HTYPE_OPTIONAL}"
  shows "agree A hp (put hp (pSize iter) 4 v)"
  using assms by (intro agree_put) (auto simp: count_area_def Let_def field_in_def)

lemma item_in:
  assumes "field_in A n k env noinit iter" "PB_HTYPE (fld_type (iter_field iter)) = PB_HTYPE_REPEATED"
    and "get hp (pSize iter) 4 < unat (array_size (iter_field iter))"
  shows "item_area (area k env) env (iter_field iter) (item_at iter (pData iter) hp) \<subseteq> A"
proof -
  have "unat (data_size (iter_field iter)) * unat (array_size (iter_field iter)) < 2 ^ 32" using assms(1) by (simp add: field_in_def)
  from item_at_area [OF assms(2,3) this] show ?thesis using assms(1) unfolding field_in_def by blast
qed

lemma item_parts:
  assumes "item_area sub env f p \<subseteq> A"
  shows "{p..<p + unat (data_size f)} \<subseteq> A"
    "PB_LTYPE (fld_type f) = PB_LTYPE_SUBMESSAGE \<Longrightarrow> sub (descriptors_at env (fld_ptr f)) p \<subseteq> A"
proof -
  have "{p..<p + unat (data_size f)} \<subseteq> {p..<p + max (value_size f) (unat (data_size f))}" by auto
  with assms show "{p..<p + unat (data_size f)} \<subseteq> A" unfolding item_area_def by blast
  show "sub (descriptors_at env (fld_ptr f)) p \<subseteq> A" if "PB_LTYPE (fld_type f) = PB_LTYPE_SUBMESSAGE"
    using assms that by (simp add: item_area_def)
qed

lemma safe_after:
  assumes "agree A (snd st) hp" "istream_ok (fst st)" "safe A (fst st, hp) x"
  shows "safe A st x"
  using safe_trans [OF assms(3)] assms(1,2) by (simp add: inside_refl)

lemma packed_loop:
  assumes f: "field_in A n k env noinit iter" and rep: "PB_HTYPE (fld_type (iter_field iter)) = PB_HTYPE_REPEATED"
  shows "istream_ok (fst st) \<Longrightarrow> bytes_left (fst st) \<le> j \<Longrightarrow> bytes_left (fst st) \<le> n \<Longrightarrow>
    safe A st (packed_static_loop j (decoder_of n env noinit) iter st)"
proof (induction j arbitrary: st)
  case 0
  then show ?case by (subst packed_static_loop.simps) (cases st, auto intro!: safe_I inside_refl)
next
  case (Suc j)
  show ?case
  proof (cases "bytes_left (fst st) > 0 \<and> get (snd st) (pSize iter) 4 < unat (array_size (iter_field iter))")
    case True
    let ?p = "item_at iter (pData iter) (snd st)"
    have "good A st (decoder_of n env noinit (iter_field iter) ?p st)"
      using Suc.prems item_in [OF f rep] True by (intro field_decoder [OF f]) simp_all
    then have "safe A st (or_return (decoder_of n env noinit (iter_field iter) ?p st)
      (\<lambda>(s, hp). packed_static_loop j (decoder_of n env noinit) iter (s, count_up iter hp)))"
    proof (intro safe_or_return)
      fix st'
      assume g: "good A st (decoder_of n env noinit (iter_field iter) ?p st)" and d: "decoder_of n env noinit (iter_field iter) ?p st = Some (True, st')"
        and i: "inside (fst st) (fst st')"
      obtain s hp where st': "st' = (s, hp)" by force
      have left: "bytes_left s < bytes_left (fst st)" using g d st' by (auto simp: good_def eats_def)
      have "safe A (s, count_up iter hp) (packed_static_loop j (decoder_of n env noinit) iter (s, count_up iter hp))"
        using Suc.prems left i inside_ok st' by (intro Suc.IH) auto
      moreover have "agree A hp (count_up iter hp)" unfolding count_up_def using rep by (intro field_count [OF f]) (simp add: htype_defs)
      ultimately have "safe A (s, hp) (packed_static_loop j (decoder_of n env noinit) iter (s, count_up iter hp))"
        using safe_after [of A "(s, hp)" "count_up iter hp"] inside_ok [OF i] st' by simp
      then show "safe A st' (case st' of (s, hp) \<Rightarrow> packed_static_loop j (decoder_of n env noinit) iter (s, count_up iter hp))"
        by (simp add: st')
    qed (simp add: good_def)
    with True show ?thesis by (subst packed_static_loop.simps) simp
  next
    case False
    with Suc.prems show ?thesis by (subst packed_static_loop.simps) (cases st, auto intro!: safe_I inside_refl)
  qed
qed

lemma in_place:
  assumes "field_in A n k env noinit iter" "PB_HTYPE (fld_type (iter_field iter)) \<noteq> PB_HTYPE_REPEATED"
  shows "item_area (area k env) env (iter_field iter) (pData iter) \<subseteq> A"
  using assms by (auto simp: field_in_def items_area_def Let_def)

lemma static_repeated:
  assumes f: "field_in A n k env noinit iter" and rep: "PB_HTYPE (fld_type (iter_field iter)) = PB_HTYPE_REPEATED"
    and s: "istream_ok (fst st)" "bytes_left (fst st) \<le> n"
  shows "safe A st (decode_static_field n env noinit wt iter st)"
proof -
  have up: "agree A hp (count_up iter hp)" for hp unfolding count_up_def using rep by (intro field_count [OF f]) (simp add: htype_defs)
  have noreq: "PB_HTYPE_REPEATED \<noteq> PB_HTYPE_REQUIRED" "PB_HTYPE_REPEATED \<noteq> PB_HTYPE_OPTIONAL" by (simp_all add: htype_defs)
  show ?thesis
  proof (cases "wt = PB_WT_STRING \<and> PB_LTYPE (fld_type (iter_field iter)) \<le> PB_LTYPE_LAST_PACKABLE")
    case packed: True
    obtain x t where m: "pb_make_string_substream (fst st) = (x, t)" by force
    note mk = make_substream [OF s(1) m]
    show ?thesis
    proof (cases x)
      case None
      with mk m packed rep noreq show ?thesis by (auto simp: decode_static_field_def Let_def intro!: safe_I)
    next
      case (Some sub)
      with mk have o: "opens (fst st) sub t" by simp
      have "safe A (sub, snd st) (packed_static_loop n (decoder_of n env noinit) iter (sub, snd st))"
        using opens_ok [OF o] o s by (intro packed_loop [OF f rep]) (auto simp: opens_def)
      then obtain r sub' hp where l: "packed_static_loop n (decoder_of n env noinit) iter (sub, snd st) = Some (r, sub', hp)"
        "inside sub sub'" "agree A (snd st) hp" by (auto simp: safe_def)
      have "safe A (sub, snd st) (Some (r, sub', hp))" using l by (auto simp: safe_def)
      from good_safe [OF close_after_safe [OF o this]] have c: "safe A st (close_after t (Some (r, sub', hp)))" by simp
      have e: "safe A st (return_ierror (t, hp) ''array overflow'')"
        using opens_ok [OF o] l(3) by (auto simp: return_ierror_def safe_def)
      show ?thesis using m Some packed rep noreq l(1) c e by (simp add: decode_static_field_def Let_def)
    qed
  next
    case plain: False
    let ?hp = "count_up iter (snd st)"
    have e: "safe A st (return_ierror (fst st, ?hp) ''array overflow'')"
      using up [of "snd st"] s(1) by (auto simp: return_ierror_def safe_def inside_refl)
    have "safe A st (decoder_of n env noinit (iter_field iter) (item_at iter (pData iter) (snd st)) (fst st, ?hp))"
      if "get (snd st) (pSize iter) 4 < unat (array_size (iter_field iter))"
    proof (rule safe_after [OF up s(1)])
      show "safe A (fst st, ?hp) (decoder_of n env noinit (iter_field iter) (item_at iter (pData iter) (snd st)) (fst st, ?hp))"
        using s item_in [OF f rep that] by (intro good_safe field_decoder [OF f]) simp_all
    qed
    with e plain rep noreq show ?thesis by (auto simp: decode_static_field_def Let_def)
  qed
qed

lemma static_decode:
  assumes f: "field_in A n k env noinit iter" and s: "istream_ok (fst st)" "bytes_left (fst st) \<le> n"
  shows "safe A st (decode_static_field n env noinit wt iter st)"
proof -
  let ?f = "iter_field iter"
  have decode: "safe A (fst st, hp) (decoder_of n env noinit ?f (pData iter) (fst st, hp))"
    if "PB_HTYPE (fld_type ?f) \<noteq> PB_HTYPE_REPEATED" for hp
    using s in_place [OF f that] by (intro good_safe field_decoder [OF f]) auto
  consider (req) "PB_HTYPE (fld_type ?f) = PB_HTYPE_REQUIRED" | (opt) "PB_HTYPE (fld_type ?f) = PB_HTYPE_OPTIONAL"
    | (rep) "PB_HTYPE (fld_type ?f) = PB_HTYPE_REPEATED" | (one) "PB_HTYPE (fld_type ?f) = PB_HTYPE_ONEOF"
    using htype_cases [of "fld_type ?f"] by auto
  then show ?thesis
  proof cases
    case req
    with decode [of "snd st"] show ?thesis by (simp add: decode_static_field_def Let_def htype_defs)
  next
    case opt
    let ?hp = "if pSize iter \<noteq> pData iter then put (snd st) (pSize iter) 1 1 else snd st"
    have "agree A (snd st) ?hp" using f opt by (auto simp: field_in_def count_area_def Let_def htype_defs intro!: agree_put)
    from safe_after [OF this s(1) decode] opt show ?thesis by (simp add: decode_static_field_def Let_def htype_defs)
  next
    case rep
    with f s show ?thesis by (intro static_repeated)
  next
    case one
    let ?init = "if PB_LTYPE (fld_type ?f) = PB_LTYPE_SUBMESSAGE \<and> get (snd st) (pSize iter) 4 \<noteq> unat (fld_tag ?f) then
        if fld_ptr ?f = 0 then None
        else pb_message_set_to_defaults n env (descriptors_at env (fld_ptr ?f)) (pData iter)
               (put_bytes (snd st) (pData iter) (replicate (unat (data_size ?f)) 0))
      else Some (snd st)"
    have norep: "PB_HTYPE (fld_type ?f) \<noteq> PB_HTYPE_REPEATED" using one by (simp add: htype_defs)
    note place = in_place [OF f norep]
    have "\<exists>hp. ?init = Some hp \<and> agree A (snd st) hp"
    proof (cases "PB_LTYPE (fld_type ?f) = PB_LTYPE_SUBMESSAGE")
      case True
      let ?hp = "put_bytes (snd st) (pData iter) (replicate (unat (data_size ?f)) 0)"
      have sub: "static_type k env (descriptors_at env (fld_ptr ?f))" "fld_ptr ?f \<noteq> 0" "k \<le> n" using f True by (auto simp: field_in_def)
      obtain hp where hp: "pb_message_set_to_defaults n env (descriptors_at env (fld_ptr ?f)) (pData iter) ?hp = Some hp"
        "agree (area k env (descriptors_at env (fld_ptr ?f)) (pData iter)) ?hp hp" using set_defaults_static [OF sub(1,3)] by blast
      have "agree A (snd st) ?hp" using item_parts(1) [OF place] by (intro agree_put_bytes) simp
      moreover have "agree A ?hp hp" using hp(2) item_parts(2) [OF place True] by (rule agree_mono)
      ultimately show ?thesis using hp(1) sub(2) by (auto intro: agree_trans)
    qed simp
    then obtain hp where hp: "?init = Some hp" "agree A (snd st) hp" by blast
    let ?hp = "put hp (pSize iter) 4 (unat (fld_tag ?f))"
    have "agree A hp ?hp" using one by (intro field_count [OF f]) (simp add: htype_defs)
    with hp(2) have "agree A (snd st) ?hp" by (rule agree_trans)
    from safe_after [OF this s(1) decode [OF norep]] have
      "safe A st (decoder_of n env noinit ?f (pData iter) (fst st, ?hp))" .
    with one hp(1) show ?thesis unfolding decode_static_field_def Let_def by (simp add: htype_defs)
  qed
qed

section \<open>The main loop\<close>

text \<open>The positions of the iterator in the main loop, where \<^verbatim>\<open>pSize\<close> may have been redirected to the local counter.\<close>

definition loop_iters :: "pb_field list \<Rightarrow> nat \<Rightarrow> nat \<Rightarrow> pb_field_iter set" where
  "loop_iters fs a slot = set (iters fs a) \<union>
     (\<lambda>i. i\<lparr>pSize := slot\<rparr>) ` {i \<in> set (iters fs a). PB_HTYPE (fld_type (iter_field i)) = PB_HTYPE_REPEATED}"

lemma find_iters:
  assumes "iter \<in> set (iters fs a)"
  shows "\<exists>ok iter'. find_loop (pos iter) hit iter = Some (ok, iter') \<and> iter' \<in> set (iters fs a) \<and> (ok \<longrightarrow> hit (iter_field iter'))"
proof (cases "layout fs a = []")
  case True
  with assms have i: "iter = snd (pb_field_iter_begin fs a)" by (simp add: iters_def)
  have "\<not> fst (pb_field_iter_begin fs a)"
    using layout_begin [of fs a True iter] remaining_Cons [of iter] True i
    by (cases "pb_field_iter_begin fs a") auto
  then have "pb_field_iter_next iter = (False, iter)"
    using i by (auto simp: pb_field_iter_next_def pb_field_iter_begin_def Let_def)
  then show ?thesis using assms by (subst find_loop.simps) auto
next
  case False
  let ?L = "length (layout fs a)"
  from False have max: "max 1 ?L = ?L" "0 < ?L" by (cases "layout fs a", simp_all)+
  with assms obtain j where j: "iter = iter_nth fs a j" "j < ?L" by (auto simp: iters_def)
  have "pos iter = j" using iter_nth_remaining [OF j(2)] j(1) by simp
  moreover obtain ok q where q: "find_loop j hit (iter_nth fs a j) = Some (ok, iter_nth fs a q)" "q < ?L"
    "ok \<longrightarrow> hit (fst (layout fs a ! q))"
    using find_loop_from [OF j(2) max(2) _ refl, of hit] j(2) by (auto split: if_splits)
  moreover have "iter_field (iter_nth fs a q) = fst (layout fs a ! q)" using iter_nth_field [OF q(2)] by (metis fst_conv)
  ultimately show ?thesis using j max by (auto simp: iters_def)
qed

lemma find_redirected:
  assumes "PB_HTYPE (fld_type (iter_field i)) = PB_HTYPE_REPEATED" "fld_tag (iter_field i) \<noteq> 0"
  shows "find_loop p hit (i\<lparr>pSize := slot\<rparr>) =
    (if hit (iter_field i) then Some (True, i\<lparr>pSize := slot\<rparr>) else find_loop p hit i)"
proof -
  have "pb_field_iter_next (i\<lparr>pSize := slot\<rparr>) = pb_field_iter_next i"
    using assms by (simp add: pb_field_iter_next_def Let_def htype_defs)
  then show ?thesis
    by (subst find_loop.simps, subst (2) find_loop.simps) simp
qed

lemma iters_tag:
  assumes "static_type (Suc k) env fs" "iter \<in> set (iters fs a)" "PB_HTYPE (fld_type (iter_field iter)) = PB_HTYPE_REPEATED"
  shows "fld_tag (iter_field iter) \<noteq> 0"
proof
  assume "fld_tag (iter_field iter) = 0"
  with static_type_field [OF assms(1) iters_field [OF assms(2)]] have "iter_field iter = PB_LAST_FIELD" by simp
  with assms(3) show False by (simp add: PB_LAST_FIELD_def pb_type_defs)
qed

lemma find_loop_iters:
  assumes "static_type (Suc k) env fs" "iter \<in> loop_iters fs a slot"
  shows "\<exists>ok iter'. find_loop (pos iter) hit iter = Some (ok, iter') \<and> (ok \<longrightarrow> hit (iter_field iter')) \<and>
    (if ok then iter' \<in> loop_iters fs a slot else iter' \<in> set (iters fs a))"
proof (cases "iter \<in> set (iters fs a)")
  case True
  then obtain ok iter' where "find_loop (pos iter) hit iter = Some (ok, iter')" "iter' \<in> set (iters fs a)" "ok \<longrightarrow> hit (iter_field iter')"
    using find_iters [OF True, of hit] by blast
  then show ?thesis by (intro exI [of _ ok] exI [of _ iter']) (simp add: loop_iters_def)
next
  case False
  with assms(2) obtain i where i: "i \<in> set (iters fs a)" "iter = i\<lparr>pSize := slot\<rparr>"
    "PB_HTYPE (fld_type (iter_field i)) = PB_HTYPE_REPEATED" by (auto simp: loop_iters_def)
  note r = find_redirected [OF i(3) iters_tag [OF assms(1) i(1,3)], of "pos i" hit slot]
  obtain ok iter' where o: "find_loop (pos i) hit i = Some (ok, iter')" "iter' \<in> set (iters fs a)" "ok \<longrightarrow> hit (iter_field iter')"
    using find_iters [OF i(1), of hit] by blast
  have p: "pos iter = pos i" "iter_field iter = iter_field i" using i(2) by simp_all
  show ?thesis
  proof (cases "hit (iter_field i)")
    case True
    with r have "find_loop (pos iter) hit iter = Some (True, iter)" by (simp add: i(2))
    with True assms(2) p show ?thesis by (intro exI [of _ True] exI [of _ iter]) simp
  next
    case False
    with r have "find_loop (pos iter) hit iter = Some (ok, iter')" by (simp add: i(2) o(1))
    with o(2,3) show ?thesis by (intro exI [of _ ok] exI [of _ iter']) (simp add: loop_iters_def)
  qed
qed

lemma loop_iters_field_in:
  assumes "handles n k env noinit" "k \<le> n" "static_type (Suc k) env fs" "iter \<in> loop_iters fs a (stack_slot env d)"
  shows "field_in (area (Suc k) env fs a \<union> slots env) n k env noinit iter"
proof -
  obtain i where i: "i \<in> set (iters fs a)" "iter = i \<or> iter = i\<lparr>pSize := stack_slot env d\<rparr> \<and> PB_HTYPE (fld_type (iter_field i)) = PB_HTYPE_REPEATED"
    using assms(4) by (auto simp: loop_iters_def)
  have f: "iter_field iter = iter_field i" "items_area sub env iter = items_area sub env i" for sub
    using i(2) by (auto simp: items_area_def)
  have slot: "{stack_slot env d..<stack_slot env d + 4} \<subseteq> slots env" by (auto simp: slots_def)
  have "count_area iter \<subseteq> count_area i \<union> slots env"
    using i(2) slot by (auto simp: count_area_def Let_def htype_defs)
  moreover have "count_area i \<union> items_area (area k env) env i \<subseteq> area (Suc k) env fs a" using i(1) by auto
  ultimately show ?thesis
    using assms(1,2) static_type_field [OF assms(3) iters_field [OF i(1)]] f
    by (auto simp: field_in_def simp del: area.simps static_type.simps)
qed

text \<open>A step of the main loop: like \<open>safe\<close>, with an iterator.\<close>

definition steps :: "pb_field_iter set \<Rightarrow> nat set \<Rightarrow> 'u dstate \<Rightarrow> (bool \<times> pb_field_iter \<times> 'u dstate) option \<Rightarrow> bool" where
  "steps I A st x \<longleftrightarrow> (\<exists>r iter st'. x = Some (r, iter, st') \<and> iter \<in> I \<and> inside (fst st) (fst st') \<and> agree A (snd st) (snd st'))"

lemma release_union_steps:
  assumes "static_type (Suc k) env fs" "Suc k \<le> n" "iter \<in> set (iters fs a)" "istream_ok (fst st)"
  shows "steps (set (iters fs a)) A st (pb_release_union_field n env iter st)"
proof -
  obtain ok i1 where f1: "pb_field_iter_find iter (word_of_nat (get (snd st) (pSize iter) 4)) = Some (ok, i1)" "i1 \<in> set (iters fs a)"
    using find_iters [OF assms(3)] unfolding pb_field_iter_find_def by blast
  have rel: "pb_release_single_field n env i1 (snd st) = Some (snd st)"
    using release_single_static [OF static_type_field [OF assms(1) iters_field [OF f1(2)]] assms(2)] by (simp add: agree_empty)
  obtain ok2 i2 where f2: "pb_field_iter_find i1 (fld_tag (iter_field iter)) = Some (ok2, i2)" "i2 \<in> set (iters fs a)"
    using find_iters [OF f1(2)] unfolding pb_field_iter_find_def by blast
  have np: "PB_ATYPE (fld_type (iter_field i2)) \<noteq> PB_ATYPE_POINTER"
    using static_type_field [OF assms(1) iters_field [OF f2(2)]] by (simp add: atype_defs)
  show ?thesis
    using f1 f2 rel np assms(3,4)
    by (cases st; cases ok; cases ok2) (auto simp: pb_release_union_field_def Let_def steps_def inside_refl)
qed

lemma decode_field_steps:
  assumes "handles n k env noinit" "Suc k \<le> n" "static_type (Suc k) env fs" "iter \<in> loop_iters fs a (stack_slot env d)"
    and "istream_ok (fst st)" "bytes_left (fst st) \<le> n"
  shows "steps (loop_iters fs a (stack_slot env d)) (area (Suc k) env fs a \<union> slots env) st (decode_field n env noinit wt iter st)"
proof -
  let ?I = "loop_iters fs a (stack_slot env d)"
  let ?A = "area (Suc k) env fs a \<union> slots env"
  let ?u = "if PB_HTYPE (fld_type (iter_field iter)) = PB_HTYPE_ONEOF then pb_release_union_field n env iter st else Some (True, iter, st)"
  have "steps ?I ?A st ?u"
  proof (cases "PB_HTYPE (fld_type (iter_field iter)) = PB_HTYPE_ONEOF")
    case True
    with assms(4) have "iter \<in> set (iters fs a)" by (auto simp: loop_iters_def htype_defs)
    from release_union_steps [OF assms(3,2) this assms(5), of ?A] True show ?thesis
      by (auto simp: steps_def loop_iters_def simp del: area.simps)
  next
    case False
    with assms(4,5) show ?thesis by (cases st) (auto simp: steps_def inside_refl)
  qed
  then obtain r iter' st' where u: "?u = Some (r, iter', st')" "iter' \<in> ?I" "inside (fst st) (fst st')" "agree ?A (snd st) (snd st')"
    by (auto simp: steps_def)
  show ?thesis
  proof (cases r)
    case False
    with u show ?thesis by (auto simp: decode_field_def steps_def simp del: area.simps)
  next
    case True
    have f: "field_in ?A n k env noinit iter'" using assms(1-3) u(2) by (intro loop_iters_field_in) simp_all
    have "safe ?A st' (decode_static_field n env noinit wt iter' st')"
      using inside_ok [OF u(3)] inside_left [OF u(3)] assms(6) by (intro static_decode [OF f]) simp_all
    then have "safe ?A st (decode_static_field n env noinit wt iter' st')" using u(3,4) by (rule safe_trans)
    moreover have "PB_ATYPE (fld_type (iter_field iter')) = PB_ATYPE_STATIC" using f by (simp add: field_in_def)
    ultimately show ?thesis using u(1,2) True by (auto simp: decode_field_def Let_def steps_def safe_def simp del: area.simps)
  qed
qed

definition loops :: "pb_field_iter set \<Rightarrow> nat set \<Rightarrow> 'u dstate \<Rightarrow> 'u dstep \<Rightarrow> bool" where
  "loops I A st x \<longleftrightarrow> (\<exists>r lv st'. x = Some (r, lv, st') \<and> loop_iter lv \<in> I \<and> inside (fst st) (fst st') \<and> agree A (snd st) (snd st'))"

lemma loops_after:
  assumes "loops I A st' x" "inside (fst st) (fst st')" "agree A (snd st) (snd st')"
  shows "loops I A st x"
  using assms by (force simp: loops_def intro: inside_trans agree_trans)

lemma skip_loops:
  assumes "istream_ok (fst st)" "loop_iter lv \<in> I"
  shows "loops I A st (skip_unknown wt lv st)"
proof -
  obtain r s where s: "pb_skip_field (fst st) wt = (r, s)" by force
  with within_inside [OF pb_skip_field_within [OF assms(1) s]] assms(2) show ?thesis by (auto simp: skip_unknown_def loops_def)
qed

text \<open>A tag is too small to be taken for the end of the range of extensions.\<close>

lemma tag_small: "drop_bit 3 (t :: u32) < - 1"
proof -
  have "unat (drop_bit 3 t) = unat t div 8" by (simp add: drop_bit_eq_div unat_div)
  moreover have "unat t < 2 ^ 32" using unsigned_less [of t, where 'a = nat] by simp
  ultimately have "unat (drop_bit 3 t) < 2 ^ 29" by simp
  moreover have "unat (- 1 :: u32) = 2 ^ 32 - 1" by (simp add: unsigned_minus_1_eq_mask mask_eq_exp_minus_1)
  ultimately show ?thesis by (simp add: word_less_nat_alt)
qed

lemma unknown_loops:
  assumes "static_type (Suc k) env fs" "loop_iter lv \<in> set (iters fs a)" "istream_ok (fst st)" "tag < - 1"
  shows "loops (set (iters fs a)) A st (decode_unknown n env noinit tag wt lv st)"
proof -
  obtain ok iter where f: "find_extension_field (loop_iter lv) = Some (ok, iter)" "iter \<in> set (iters fs a)"
    "ok \<longrightarrow> PB_LTYPE (fld_type (iter_field iter)) = PB_LTYPE_EXTENSION"
    using find_iters [OF assms(2)] unfolding find_extension_field_def by blast
  then have "\<not> ok" using static_type_field [OF assms(1) iters_field [OF f(2)]] by auto
  then show ?thesis
    using f(1,2) assms skip_loops [OF assms(3)] by (simp add: decode_unknown_def Let_def)
qed

lemma known_loops:
  assumes "handles n k env noinit" "Suc k \<le> n" "static_type (Suc k) env fs" "loop_iter lv \<in> loop_iters fs a (stack_slot env d)"
    and "istream_ok (fst st)" "bytes_left (fst st) \<le> n"
  shows "loops (loop_iters fs a (stack_slot env d)) (area (Suc k) env fs a \<union> slots env) st
    (decode_known n env noinit (stack_slot env d) wt lv st)"
proof -
  let ?slot = "stack_slot env d"
  let ?I = "loop_iters fs a ?slot"
  let ?A = "area (Suc k) env fs a \<union> slots env"
  let ?iter = "loop_iter lv"
  define fixed where "fixed = (PB_HTYPE (fld_type (iter_field ?iter)) = PB_HTYPE_REPEATED \<and> pSize ?iter = pData ?iter)"
  define fresh where "fresh = (fixed \<and> fixed_count_field lv \<noteq> Some (pos ?iter))"
  define hp where "hp = (if fresh then put (snd st) ?slot 4 0 else snd st)"
  define iter where "iter = (if fixed then ?iter\<lparr>pSize := ?slot\<rparr> else ?iter)"
  have slot: "{?slot..<?slot + 4} \<subseteq> ?A" by (auto simp: slots_def)
  have a: "agree ?A (snd st) hp" unfolding hp_def using slot by (auto intro: agree_put)
  have "iter \<in> ?I" using assms(4) unfolding iter_def fixed_def loop_iters_def by auto
  from decode_field_steps [OF assms(1-3) this, of "(fst st, hp)" wt] assms(5,6) obtain r iter' st' where
    s: "decode_field n env noinit wt iter (fst st, hp) = Some (r, iter', st')" "iter' \<in> ?I" "inside (fst st) (fst st')" "agree ?A hp (snd st')"
    by (auto simp: steps_def)
  have e: "loops ?I ?A st (Some (False, lv, pb_set_ierror (fst st) ''wrong size for fixed count field'', snd st))"
    using assms(4,5) by (auto simp: loops_def inside_refl)
  have d: "loops ?I ?A st (map_option (\<lambda>(r, iter, st). (r, lv'\<lparr>loop_iter := iter\<rparr>, st)) (decode_field n env noinit wt iter (fst st, hp)))" for lv'
    using s agree_trans [OF a s(4)] by (auto simp: loops_def)
  show ?thesis
    unfolding decode_known_def Let_def fixed_def [symmetric] fresh_def [symmetric] hp_def [symmetric] iter_def [symmetric]
    using d e by (simp del: area.simps)
qed

lemma one_loops:
  assumes "handles n k env noinit" "Suc k \<le> n" "static_type (Suc k) env fs" "loop_iter lv \<in> loop_iters fs a (stack_slot env d)"
    and "istream_ok (fst st)" "bytes_left (fst st) \<le> n" "tag < - 1"
  shows "loops (loop_iters fs a (stack_slot env d)) (area (Suc k) env fs a \<union> slots env) st
    (decode_one n env noinit (stack_slot env d) tag wt lv st)"
proof -
  obtain ok iter where f: "pb_field_iter_find (loop_iter lv) tag = Some (ok, iter)"
    "if ok then iter \<in> loop_iters fs a (stack_slot env d) else iter \<in> set (iters fs a)"
    using find_loop_iters [OF assms(3,4)] unfolding pb_field_iter_find_def by blast
  show ?thesis
  proof (cases ok)
    case True
    with f known_loops [OF assms(1-3) _ assms(5,6), of "lv\<lparr>loop_iter := iter\<rparr>"] show ?thesis by (simp add: decode_one_def del: area.simps)
  next
    case False
    with f unknown_loops [OF assms(3) _ assms(5,7), of "lv\<lparr>loop_iter := iter\<rparr>" a "area (Suc k) env fs a \<union> slots env"]
    have "loops (set (iters fs a)) (area (Suc k) env fs a \<union> slots env) st (decode_one n env noinit (stack_slot env d) tag wt lv st)"
      by (simp add: decode_one_def del: area.simps)
    then show ?thesis by (auto simp: loops_def loop_iters_def simp del: area.simps)
  qed
qed

lemma tag_reads:
  assumes "istream_ok s" "pb_decode_tag s = (x, s')"
  shows "inside s s'" "x = Inr (wt, tag) \<Longrightarrow> bytes_left s' < bytes_left s \<and> tag < - 1"
proof -
  obtain y e t where t: "pb_decode_varint32_eof s = (y, e, t)" by (metis prod_cases3)
  note r = reads_varint32_eof [OF assms(1) t]
  show "inside s s'" "x = Inr (wt, tag) \<Longrightarrow> bytes_left s' < bytes_left s \<and> tag < - 1"
    using r assms(2) t by (auto simp: pb_decode_tag_def tag_small split: option.splits if_splits)
qed

lemma loop_loops:
  assumes "handles n k env noinit" "Suc k \<le> n" "static_type (Suc k) env fs"
  shows "loop_iter lv \<in> loop_iters fs a (stack_slot env d) \<Longrightarrow> istream_ok (fst st) \<Longrightarrow> bytes_left (fst st) \<le> n \<Longrightarrow> bytes_left (fst st) \<le> j \<Longrightarrow>
    loops (loop_iters fs a (stack_slot env d)) (area (Suc k) env fs a \<union> slots env) st
      (decode_fields_loop j n env noinit (stack_slot env d) lv st)"
proof (induction j arbitrary: lv st)
  case 0
  then show ?case by (subst decode_fields_loop.simps) (cases st, auto simp: loops_def inside_refl simp del: area.simps)
next
  case (Suc j)
  let ?I = "loop_iters fs a (stack_slot env d)"
  let ?A = "area (Suc k) env fs a \<union> slots env"
  show ?case
  proof (cases "bytes_left (fst st) = 0")
    case True
    with Suc.prems show ?thesis by (subst decode_fields_loop.simps) (cases st, auto simp: loops_def inside_refl simp del: area.simps)
  next
    case False
    obtain x s where t: "pb_decode_tag (fst st) = (x, s)" by force
    note tr = tag_reads [OF Suc.prems(2) t]
    show ?thesis
    proof (cases x)
      case (Inl e)
      with False t tr Suc.prems show ?thesis by (subst decode_fields_loop.simps) (auto simp: loops_def simp del: area.simps)
    next
      case (Inr y)
      obtain wt tag where y: "y = (wt, tag)" by force
      have s: "istream_ok s" "bytes_left s \<le> n" "tag < - 1" "bytes_left s < bytes_left (fst st)"
        using inside_ok [OF tr(1)] tr(2) Inr y Suc.prems(3) by auto
      have "loops ?I ?A (s, snd st) (decode_one n env noinit (stack_slot env d) tag wt lv (s, snd st))"
        using s Suc.prems by (intro one_loops [OF assms]) simp_all
      then obtain r lv' st' where o: "decode_one n env noinit (stack_slot env d) tag wt lv (s, snd st) = Some (r, lv', st')"
        "loop_iter lv' \<in> ?I" "inside s (fst st')" "agree ?A (snd st) (snd st')" by (auto simp: loops_def)
      have i: "inside (fst st) (fst st')" using tr(1) o(3) by (rule inside_trans)
      show ?thesis
      proof (cases r)
        case True
        have "loops ?I ?A st' (decode_fields_loop j n env noinit (stack_slot env d) lv' st')"
          using o(2) inside_ok [OF o(3)] inside_left [OF o(3)] s Suc.prems(4) by (intro Suc.IH) simp_all
        from loops_after [OF this i o(4)] show ?thesis
          using False t Inr y o(1) True by (subst decode_fields_loop.simps) (simp del: area.simps)
      next
        case no: False
        with False t Inr y o i show ?thesis by (subst decode_fields_loop.simps) (auto simp: loops_def simp del: area.simps)
      qed
    qed
  qed
qed

lemma noinit_handles:
  assumes "k < n"
  shows "handles n k env (pb_decode_noinit n d env)"
  using assms
proof (induction n arbitrary: k d)
  case 0
  then show ?case by (simp add: handles_def)
next
  case (Suc n)
  show ?case
    unfolding handles_def
  proof (intro allI impI)
    fix fs a and st :: "'a dstate"
    assume h: "static_type k env fs" "istream_ok (fst st)" "bytes_left (fst st) < Suc n"
    then obtain k' where k: "k = Suc k'" by (cases k) auto
    let ?slot = "stack_slot env d"
    let ?A = "area k env fs a \<union> slots env"
    let ?lv = "\<lparr>fields_seen = [0, 0], extension_range_start = 0, loop_iter = snd (pb_field_iter_begin fs a), fixed_count_field = None\<rparr>"
    let ?hp = "put (snd st) ?slot 4 0"
    have "loops (loop_iters fs a ?slot) ?A (fst st, ?hp) (decode_fields_loop n n env (pb_decode_noinit n (d + 1) env) ?slot ?lv (fst st, ?hp))"
      unfolding k using h Suc.prems k Suc.IH [of k' "d + 1"] iters_begin [of fs a]
      by (intro loop_loops) (simp_all add: loop_iters_def del: area.simps)
    then obtain r lv s' hp' where l: "decode_fields_loop n n env (pb_decode_noinit n (d + 1) env) ?slot ?lv (fst st, ?hp) = Some (r, lv, s', hp')"
      "inside (fst st) s'" "agree ?A ?hp hp'" by (auto simp: loops_def)
    have "{?slot..<?slot + 4} \<subseteq> ?A" by (auto simp: slots_def)
    then have "agree ?A (snd st) ?hp" by (rule agree_put)
    with l(3) have "agree ?A (snd st) hp'" by (rule agree_trans [rotated])
    with l(1,2) show "safe ?A st (pb_decode_noinit (Suc n) d env fs a st)"
      by (cases r) (auto simp: Let_def safe_def return_ierror_def simp del: area.simps)
  qed
qed

lemma decode_safe:
  assumes "static_type k env fs" "k < n" "istream_ok (fst st)" "bytes_left (fst st) < n"
  shows "safe (area k env fs dest \<union> slots env) st (pb_decode n d env fs dest st)"
proof -
  have "handles n k env (pb_decode n d env)"
    unfolding pb_decode_def using noinit_handles [OF assms(2)] assms(2) by (intro decode_init_handles) simp_all
  with assms(1,3,4) show ?thesis unfolding handles_def by blast
qed

text \<open>In an empty message type, field number 0 is found at the terminator, which reads as a required bool.\<close>

lemma empty_type_finds_zero:
  "pb_field_iter_find (snd (pb_field_iter_begin [] dest)) 0 = Some (True, snd (pb_field_iter_begin [] dest))"
  "iter_field (snd (pb_field_iter_begin [] dest)) = PB_LAST_FIELD" "PB_HTYPE (fld_type PB_LAST_FIELD) = PB_HTYPE_REQUIRED"
  by (simp_all add: pb_field_iter_find_def find_loop.simps is_hit_def pb_field_iter_begin_def field_at_def PB_LAST_FIELD_def pb_type_defs Let_def)

section \<open>Correctness\<close>

text \<open>A message of a number and an array of at most two bytes, with its count between them; a message that is an array of two bytes.\<close>

definition sample_type :: "pb_field list" where
  "sample_type =
    [\<lparr>fld_tag = 1, fld_type = 0x02, data_offset = 0, size_offset = 0, data_size = 4, array_size = 0, fld_ptr = 0\<rparr>,
     \<lparr>fld_tag = 2, fld_type = 0x22, data_offset = 4, size_offset = - 4, data_size = 1, array_size = 2, fld_ptr = 0\<rparr>]"

definition pair_type :: "pb_field list" where
  "pair_type = [\<lparr>fld_tag = 1, fld_type = 0x22, data_offset = 0, size_offset = 0, data_size = 1, array_size = 2, fld_ptr = 0\<rparr>]"

definition sample_env :: "unit dec_env" where
  "sample_env = \<lparr>descriptors_at = (\<lambda>_. []), decode_fn = (\<lambda>_ _ _ st. (True, st)), extension_decode_fn = (\<lambda>_ _ _ _ st. (True, st)),
     place = (\<lambda>_ _ _. 0), stack_slot = (\<lambda>d. 900 + 4 * d)\<rparr>"

lemma sample_static: "static_type 1 env sample_type"
  by (simp add: sample_type_def pb_type_defs)

lemma sample_iters:
  "iters sample_type 200 =
    [\<lparr>start = sample_type, pos = 0, required_field_index = 0, dest_struct = 200, pData = 200, pSize = 200\<rparr>,
     \<lparr>start = sample_type, pos = 1, required_field_index = 1, dest_struct = 200, pData = 208, pSize = 204\<rparr>]"
  by (simp add: iters_def sample_type_def next_addr_def pb_field_iter_begin_def pb_field_iter_next_def field_at_def ptr_add_def
      pb_type_defs size_max_def PB_SIZE_MAX_def upt_rec)

lemma sample_area: "area 1 env sample_type 200 = {200..<204} \<union> {204..<208} \<union> {208..<210}"
proof -
  have two: "{..<2 :: nat} = {0, 1}" by auto
  show ?thesis
    unfolding One_nat_def area.simps sample_iters
    by (simp add: sample_type_def count_area_def items_area_def item_area_def value_size_def field_at_def ptr_add_def
      pb_type_defs size_max_def Let_def two) auto
qed



text \<open>(C39) The defaults of an array of fixed count take four bytes, also when the array has only two: two bytes behind the message are
  set to zero.\<close>

theorem fixed_count_defaults_overrun:
  "layout pair_type 200 = [(hd pair_type, 200)] \<and> unat (data_size (hd pair_type)) * unat (array_size (hd pair_type)) = 2 \<and>
   pb_message_set_to_defaults (Suc n) env pair_type 200 hp = Some (put_bytes hp 200 [0, 0, 0, 0])"
proof -
  let ?iter = "\<lparr>start = pair_type, pos = 0, required_field_index = 0, dest_struct = 200, pData = 200, pSize = 200\<rparr>"
  have b: "pb_field_iter_begin pair_type 200 = (True, ?iter)" "fst (pb_field_iter_next ?iter) = False"
    by (simp_all add: pair_type_def pb_field_iter_begin_def pb_field_iter_next_def field_at_def ptr_add_def size_max_def Let_def PB_LAST_FIELD_def)
  have "le_bytes 4 0 = [0, 0, 0, 0]" by code_simp
  then have "pb_field_set_to_default (Suc n) env ?iter hp = Some (put_bytes hp 200 [0, 0, 0, 0])"
    by (simp add: pair_type_def field_at_def pb_type_defs Let_def put_def)
  moreover obtain iter where "pb_field_iter_next ?iter = (False, iter)" using b(2) by (cases "pb_field_iter_next ?iter") simp
  ultimately have "fields_loop (\<lambda>iter hp. map_option (Pair True) (pb_field_set_to_default (Suc n) env iter hp)) ?iter hp
      = Some (True, put_bytes hp 200 [0, 0, 0, 0])"
    by (subst fields_loop.simps) (simp del: pb_field_set_to_default.simps)
  with b(1) have "pb_message_set_to_defaults (Suc n) env pair_type 200 hp = Some (put_bytes hp 200 [0, 0, 0, 0])"
    by (simp add: pb_message_set_to_defaults_def all_fields_def del: pb_field_set_to_default.simps)
  moreover have "layout pair_type 200 = [(hd pair_type, 200)]" "unat (data_size (hd pair_type)) * unat (array_size (hd pair_type)) = 2"
    by (simp_all add: pair_type_def ptr_add_def size_max_def)
  ultimately show ?thesis by simp
qed

end
