(* ===== verification/Pb_Encode.thy ===== *)
theory Pb_Encode
  imports Pb_Fields
begin

text \<open>
  The encoder of messages (\<^verbatim>\<open>pb_encode.c\<close>), on a message in the memory \<open>h\<close>, which the output buffer does not overlap.

  Addresses that the code follows without looking at what is there are resolved by an environment: the descriptors of
  a submessage, the functions of callback fields and of extension types.  A message can be nested without bound, and
  its pointers and chains of extensions could even run in a circle; so \<open>pb_encode\<close> takes the number of levels it may
  descend.  A call that goes deeper, to an entry that \<^verbatim>\<open>PB_ENCODERS\<close> does not have, through a null
  pointer to descriptors or to the number that a oneof without \<^verbatim>\<open>which\<close> member does not have, yields \<open>None\<close>; otherwise the
  result is the value returned and the stream.
\<close>

section \<open>Streams and the environment\<close>

type_synonym 'u out = "(bool \<times> 'u pb_ostream) option"

record 'u pb_env =
  descriptors :: "nat \<Rightarrow> pb_field list"
  encode_fn :: "nat \<Rightarrow> 'u pb_ostream \<Rightarrow> pb_field \<Rightarrow> nat \<Rightarrow> bool \<times> 'u pb_ostream"
  extension_encode_fn :: "nat \<Rightarrow> 'u pb_ostream \<Rightarrow> nat \<Rightarrow> bool \<times> 'u pb_ostream"

definition return_error :: "'u pb_ostream \<Rightarrow> string \<Rightarrow> 'u out" where
  "return_error s msg = Some (False, pb_set_oerror s msg)"

definition safe_read_bool :: "mem \<Rightarrow> nat \<Rightarrow> bool" where
  "safe_read_bool h p \<longleftrightarrow> list_ex (\<lambda>i. h (p + i) \<noteq> 0) [0..<1]"

section \<open>Tags\<close>

definition pb_encode_tag_for_field :: "'u pb_ostream \<Rightarrow> pb_field \<Rightarrow> bool \<times> 'u pb_ostream" where
  "pb_encode_tag_for_field s field =
     (let t = PB_LTYPE (fld_type field)
      in if t \<in> {PB_LTYPE_BOOL, PB_LTYPE_VARINT, PB_LTYPE_UVARINT, PB_LTYPE_SVARINT}
         then pb_encode_tag s PB_WT_VARINT (fld_tag field)
         else if t = PB_LTYPE_FIXED32 then pb_encode_tag s PB_WT_32BIT (fld_tag field)
         else if t = PB_LTYPE_FIXED64 then pb_encode_tag s PB_WT_64BIT (fld_tag field)
         else if t \<in> {PB_LTYPE_BYTES, PB_LTYPE_STRING, PB_LTYPE_SUBMESSAGE, PB_LTYPE_FIXED_LENGTH_BYTES}
         then pb_encode_tag s PB_WT_STRING (fld_tag field)
         else (False, pb_set_oerror s ''invalid field type''))"

section \<open>Field encoders\<close>

definition pb_enc_bool :: "mem \<Rightarrow> 'u pb_ostream \<Rightarrow> pb_field \<Rightarrow> nat \<Rightarrow> 'u out" where
  "pb_enc_bool h s field a = Some (pb_encode_varint s (if safe_read_bool h a then 1 else 0))"

text \<open>A signed value of one, two, four or eight bytes.\<close>

definition load_signed :: "mem \<Rightarrow> u32 \<Rightarrow> nat \<Rightarrow> u64 option" where
  "load_signed h sz a =
     (if sz = 1 then Some (scast (word_of_nat (load h a 1) :: byte))
      else if sz = 2 then Some (scast (word_of_nat (load h a 2) :: u16))
      else if sz = 4 then Some (scast (word_of_nat (load h a 4) :: u32))
      else if sz = 8 then Some (word_of_nat (load h a 8))
      else None)"

definition pb_enc_varint :: "mem \<Rightarrow> 'u pb_ostream \<Rightarrow> pb_field \<Rightarrow> nat \<Rightarrow> 'u out" where
  "pb_enc_varint h s field a =
     (case load_signed h (data_size field) a of
        None \<Rightarrow> return_error s ''invalid data_size''
      | Some v \<Rightarrow> Some (pb_encode_varint s v))"

definition pb_enc_uvarint :: "mem \<Rightarrow> 'u pb_ostream \<Rightarrow> pb_field \<Rightarrow> nat \<Rightarrow> 'u out" where
  "pb_enc_uvarint h s field a =
     (if data_size field \<in> {1, 2, 4, 8}
      then Some (pb_encode_varint s (word_of_nat (load h a (unat (data_size field)))))
      else return_error s ''invalid data_size'')"

definition pb_enc_svarint :: "mem \<Rightarrow> 'u pb_ostream \<Rightarrow> pb_field \<Rightarrow> nat \<Rightarrow> 'u out" where
  "pb_enc_svarint h s field a =
     (case load_signed h (data_size field) a of
        None \<Rightarrow> return_error s ''invalid data_size''
      | Some v \<Rightarrow> Some (pb_encode_svarint s v))"

definition pb_enc_fixed64 :: "mem \<Rightarrow> 'u pb_ostream \<Rightarrow> pb_field \<Rightarrow> nat \<Rightarrow> 'u out" where
  "pb_enc_fixed64 h s field a = Some (pb_encode_fixed64 s (word_of_nat (load h a 8)))"

definition pb_enc_fixed32 :: "mem \<Rightarrow> 'u pb_ostream \<Rightarrow> pb_field \<Rightarrow> nat \<Rightarrow> 'u out" where
  "pb_enc_fixed32 h s field a = Some (pb_encode_fixed32 s (word_of_nat (load h a 4)))"

text \<open>A \<^verbatim>\<open>pb_bytes_array_t\<close> is a \<^verbatim>\<open>pb_size_t\<close> followed by the bytes.\<close>

definition pb_enc_bytes :: "mem \<Rightarrow> 'u pb_ostream \<Rightarrow> pb_field \<Rightarrow> nat \<Rightarrow> 'u out" where
  "pb_enc_bytes h s field a =
     (if a = 0 then Some (pb_encode_string s [] 0)
      else
        (let sz = load h a 4
         in if PB_ATYPE (fld_type field) = PB_ATYPE_STATIC \<and>
               sz > nat ((uint (data_size field) - 4) mod int size_max)
            then return_error s ''bytes size exceeded''
            else Some (pb_encode_string s (read_bytes h (a + 4) sz) sz)))"

function string_size :: "mem \<Rightarrow> nat \<Rightarrow> nat \<Rightarrow> nat \<Rightarrow> nat" where
  "string_size h a limit k =
     (if k < limit \<and> h (a + k) \<noteq> 0 then string_size h a limit (k + 1) else k)"
  by pat_completeness auto
termination
  by (relation "measure (\<lambda>(h, a, limit, k). limit - k)") auto

declare string_size.simps [simp del]

definition pb_enc_string :: "mem \<Rightarrow> 'u pb_ostream \<Rightarrow> pb_field \<Rightarrow> nat \<Rightarrow> 'u out" where
  "pb_enc_string h s field a =
     (let limit = (if PB_ATYPE (fld_type field) = PB_ATYPE_POINTER then size_max - 1 else unat (data_size field));
          sz = (if a = 0 then 0 else string_size h a limit 0)
      in Some (pb_encode_string s (read_bytes h a sz) sz))"

definition pb_enc_fixed_length_bytes :: "mem \<Rightarrow> 'u pb_ostream \<Rightarrow> pb_field \<Rightarrow> nat \<Rightarrow> 'u out" where
  "pb_enc_fixed_length_bytes h s field a =
     Some (pb_encode_string s (read_bytes h a (unat (data_size field))) (unat (data_size field)))"

text \<open>\<open>enc\<close> is \<open>pb_encode\<close>, for the levels below.\<close>

definition pb_encode_submessage ::
  "('u pb_ostream \<Rightarrow> pb_field list \<Rightarrow> nat \<Rightarrow> 'u out) \<Rightarrow> 'u pb_ostream \<Rightarrow> pb_field list \<Rightarrow> nat \<Rightarrow> 'u out" where
  "pb_encode_submessage enc s fs a =
     (case enc PB_OSTREAM_SIZING fs a of
        None \<Rightarrow> None
      | Some (False, substream) \<Rightarrow> Some (False, s\<lparr>os_errmsg := os_errmsg substream\<rparr>)
      | Some (True, substream) \<Rightarrow>
          (let sz = bytes_written substream
           in or_return (Some (pb_encode_varint s (word_of_nat sz))) (\<lambda>s.
                if is_Sizing (sink s) then Some (pb_write s [] sz)
                else if size_add (bytes_written s) sz > max_size s then return_error s ''stream full''
                else
                  (case enc \<lparr>sink = sink s, max_size = sz, bytes_written = 0, os_errmsg = None\<rparr> fs a of
                     None \<Rightarrow> None
                   | Some (status, substream) \<Rightarrow>
                       (let s' = s\<lparr>bytes_written := size_add (bytes_written s) (bytes_written substream),
                                   sink := sink substream, os_errmsg := os_errmsg substream\<rparr>
                        in if bytes_written substream \<noteq> sz then return_error s' ''submsg size changed''
                           else Some (status, s'))))))"

definition pb_enc_submessage ::
  "'u pb_env \<Rightarrow> ('u pb_ostream \<Rightarrow> pb_field list \<Rightarrow> nat \<Rightarrow> 'u out) \<Rightarrow> 'u pb_ostream \<Rightarrow> pb_field \<Rightarrow> nat \<Rightarrow> 'u out" where
  "pb_enc_submessage env enc s field a =
     (if fld_ptr field = 0 then return_error s ''invalid field descriptor''
      else pb_encode_submessage enc s (descriptors env (fld_ptr field)) a)"

definition PB_ENCODERS ::
  "'u pb_env \<Rightarrow> mem \<Rightarrow> ('u pb_ostream \<Rightarrow> pb_field list \<Rightarrow> nat \<Rightarrow> 'u out) \<Rightarrow>
   ('u pb_ostream \<Rightarrow> pb_field \<Rightarrow> nat \<Rightarrow> 'u out) option list" where
  "PB_ENCODERS env h enc =
     [Some (pb_enc_bool h), Some (pb_enc_varint h), Some (pb_enc_uvarint h), Some (pb_enc_svarint h),
      Some (pb_enc_fixed32 h), Some (pb_enc_fixed64 h), Some (pb_enc_bytes h), Some (pb_enc_string h),
      Some (pb_enc_submessage env enc), None, Some (pb_enc_fixed_length_bytes h)]"

text \<open>The call through the table.\<close>

definition encoder_of ::
  "'u pb_env \<Rightarrow> mem \<Rightarrow> ('u pb_ostream \<Rightarrow> pb_field list \<Rightarrow> nat \<Rightarrow> 'u out) \<Rightarrow>
   'u pb_ostream \<Rightarrow> pb_field \<Rightarrow> nat \<Rightarrow> 'u out" where
  "encoder_of env h enc s field a =
     (let i = unat (PB_LTYPE (fld_type field))
      in if i < length (PB_ENCODERS env h enc) then
           (case PB_ENCODERS env h enc ! i of None \<Rightarrow> None | Some func \<Rightarrow> func s field a)
         else None)"

section \<open>A single field\<close>

text \<open>The loops of \<open>encode_array\<close> over \<open>k\<close> entries from \<open>p\<close> on, packed and not.\<close>

fun packed_items :: "('u pb_ostream \<Rightarrow> pb_field \<Rightarrow> nat \<Rightarrow> 'u out) \<Rightarrow> pb_field \<Rightarrow> nat \<Rightarrow> nat \<Rightarrow> 'u pb_ostream \<Rightarrow> 'u out" where
  "packed_items func field p 0 s = Some (True, s)"
| "packed_items func field p (Suc k) s =
     or_return (func s field p) (packed_items func field (p + unat (data_size field)) k)"

fun tagged_items ::
  "mem \<Rightarrow> ('u pb_ostream \<Rightarrow> pb_field \<Rightarrow> nat \<Rightarrow> 'u out) \<Rightarrow> pb_field \<Rightarrow> nat \<Rightarrow> nat \<Rightarrow> 'u pb_ostream \<Rightarrow> 'u out" where
  "tagged_items h func field p 0 s = Some (True, s)"
| "tagged_items h func field p (Suc k) s =
     or_return (Some (pb_encode_tag_for_field s field)) (\<lambda>s.
       or_return
         (if PB_ATYPE (fld_type field) = PB_ATYPE_POINTER \<and>
             (PB_LTYPE (fld_type field) = PB_LTYPE_STRING \<or> PB_LTYPE (fld_type field) = PB_LTYPE_BYTES)
          then func s field (load h p 8) else func s field p)
         (tagged_items h func field (p + unat (data_size field)) k))"

definition encode_array ::
  "mem \<Rightarrow> 'u pb_ostream \<Rightarrow> pb_field \<Rightarrow> nat \<Rightarrow> nat \<Rightarrow> ('u pb_ostream \<Rightarrow> pb_field \<Rightarrow> nat \<Rightarrow> 'u out) \<Rightarrow> 'u out" where
  "encode_array h s field p count func =
     (if count = 0 then Some (True, s)
      else if PB_ATYPE (fld_type field) \<noteq> PB_ATYPE_POINTER \<and> count > unat (array_size field)
      then return_error s ''array max size exceeded''
      else if PB_LTYPE (fld_type field) \<le> PB_LTYPE_LAST_PACKABLE then
        or_return (Some (pb_encode_tag s PB_WT_STRING (fld_tag field))) (\<lambda>s.
          case (if PB_LTYPE (fld_type field) = PB_LTYPE_FIXED32 then Some (True, 4 * count)
                else if PB_LTYPE (fld_type field) = PB_LTYPE_FIXED64 then Some (True, 8 * count)
                else map_option (\<lambda>(r, sizestream). (r, bytes_written sizestream))
                       (packed_items func field p count PB_OSTREAM_SIZING)) of
            None \<Rightarrow> None
          | Some (False, _) \<Rightarrow> Some (False, s)
          | Some (True, sz) \<Rightarrow>
              or_return (Some (pb_encode_varint s (word_of_nat sz))) (\<lambda>s.
                if is_Sizing (sink s) then Some (pb_write s [] sz)
                else packed_items func field p count s))
      else tagged_items h func field p count s)"

text \<open>\<open>check\<close> is \<open>pb_check_proto3_default_value\<close>, for the levels below.\<close>

definition default_value ::
  "'u pb_env \<Rightarrow> mem \<Rightarrow> (pb_field \<Rightarrow> nat \<Rightarrow> bool option) \<Rightarrow> pb_field \<Rightarrow> nat \<Rightarrow> bool option" where
  "default_value env h check field p =
     (let t = fld_type field; size_p = ptr_add p (sint (size_offset field)); l = PB_LTYPE t;
          static = (PB_ATYPE t = PB_ATYPE_STATIC);
          zeros = Some (list_all (\<lambda>i. h (p + i) = 0) [0..<unat (data_size field)]);
          rest =
            (if static \<and> l = PB_LTYPE_BYTES then Some (load h p 4 = 0)
             else if static \<and> l = PB_LTYPE_STRING then Some (h p = 0)
             else if static \<and> l = PB_LTYPE_FIXED_LENGTH_BYTES then Some (data_size field = 0)
             else if static \<and> l = PB_LTYPE_SUBMESSAGE then
               if fld_ptr field = 0 then None
               else
                 (case pb_field_iter_begin (descriptors env (fld_ptr field)) p of
                    (False, _) \<Rightarrow> Some True
                  | (True, iter) \<Rightarrow>
                      map_option fst
                        (fields_loop (\<lambda>iter u. map_option (\<lambda>d. (d, u)) (check (iter_field iter) (pData iter))) iter ()))
             else if PB_ATYPE t = PB_ATYPE_POINTER \<and> l > PB_LTYPE_LAST_PACKABLE then Some (load h p 8 = 0)
             else zeros)
      in if PB_HTYPE t = PB_HTYPE_REQUIRED then Some False
         else if PB_HTYPE t = PB_HTYPE_REPEATED then
           if size_offset field \<noteq> 0 then Some (load h size_p 4 = 0)
           else if static then Some False else rest
         else if PB_HTYPE t = PB_HTYPE_ONEOF then Some (load h size_p 4 = 0)
         else if PB_HTYPE t = PB_HTYPE_OPTIONAL \<and> size_offset field \<noteq> 0 then Some (\<not> safe_read_bool h size_p)
         else rest)"

fun pb_check_proto3_default_value :: "nat \<Rightarrow> 'u pb_env \<Rightarrow> mem \<Rightarrow> pb_field \<Rightarrow> nat \<Rightarrow> bool option" where
  "pb_check_proto3_default_value 0 env h field p = None"
| "pb_check_proto3_default_value (Suc n) env h field p =
     default_value env h (pb_check_proto3_default_value n env h) field p"

text \<open>
  \<open>encode_basic_field\<close>.  \<open>has\<close> is what \<^verbatim>\<open>pSize\<close> points to when that is \<^verbatim>\<open>implicit_has\<close>; a oneof field has its \<^verbatim>\<open>which\<close>
  member in the message.
\<close>

definition encode_basic_field ::
  "nat \<Rightarrow> 'u pb_env \<Rightarrow> mem \<Rightarrow> ('u pb_ostream \<Rightarrow> pb_field list \<Rightarrow> nat \<Rightarrow> 'u out) \<Rightarrow>
   'u pb_ostream \<Rightarrow> pb_field \<Rightarrow> nat \<Rightarrow> 'u out" where
  "encode_basic_field n env h enc s field p =
     (let func = encoder_of env h enc; t = fld_type field; size_p = ptr_add p (sint (size_offset field));
          pointer = (PB_ATYPE t = PB_ATYPE_POINTER);
          d = (if pointer then load h p 8 else p);
          item = (\<lambda>s. or_return (Some (pb_encode_tag_for_field s field)) (\<lambda>s. func s field d))
      in case (if size_offset field \<noteq> 0 then Some (safe_read_bool h size_p)
               else
                 (case (if PB_HTYPE t = PB_HTYPE_OPTIONAL
                        then map_option Not (pb_check_proto3_default_value n env h field p) else Some True) of
                    None \<Rightarrow> None
                  | Some has \<Rightarrow> Some (if pointer then d \<noteq> 0 else has))) of
           None \<Rightarrow> None
         | Some has \<Rightarrow>
             if PB_HTYPE t = PB_HTYPE_REQUIRED then
               if d = 0 then return_error s ''missing required field'' else item s
             else if PB_HTYPE t = PB_HTYPE_OPTIONAL then if has then item s else Some (True, s)
             else if PB_HTYPE t = PB_HTYPE_REPEATED then
               encode_array h s field d (if size_offset field \<noteq> 0 then load h size_p 4 else unat (array_size field)) func
             else if size_offset field = 0 then None
             else if load h size_p 4 = unat (fld_tag field) then item s else Some (True, s))"

definition encode_callback_field :: "'u pb_env \<Rightarrow> mem \<Rightarrow> 'u pb_ostream \<Rightarrow> pb_field \<Rightarrow> nat \<Rightarrow> 'u out" where
  "encode_callback_field env h s field p =
     (let fn = load h p 8
      in if fn \<noteq> 0 then
           (case encode_fn env fn s field (p + 8) of
              (False, s) \<Rightarrow> return_error s ''callback error''
            | (True, s) \<Rightarrow> Some (True, s))
         else Some (True, s))"

definition encode_field ::
  "nat \<Rightarrow> 'u pb_env \<Rightarrow> mem \<Rightarrow> ('u pb_ostream \<Rightarrow> pb_field list \<Rightarrow> nat \<Rightarrow> 'u out) \<Rightarrow>
   'u pb_ostream \<Rightarrow> pb_field \<Rightarrow> nat \<Rightarrow> 'u out" where
  "encode_field n env h enc s field p =
     (let at = PB_ATYPE (fld_type field)
      in if at = PB_ATYPE_STATIC \<or> at = PB_ATYPE_POINTER then encode_basic_field n env h enc s field p
         else if at = PB_ATYPE_CALLBACK then encode_callback_field env h s field p
         else return_error s ''invalid field type'')"

text \<open>A \<^verbatim>\<open>pb_extension_t\<close> has the members \<^verbatim>\<open>type\<close>, \<^verbatim>\<open>dest\<close> and \<^verbatim>\<open>next\<close>; a \<^verbatim>\<open>pb_extension_type_t\<close> has \<^verbatim>\<open>decode\<close>, \<^verbatim>\<open>encode\<close> and
  \<^verbatim>\<open>arg\<close>.\<close>

definition default_extension_encoder ::
  "nat \<Rightarrow> 'u pb_env \<Rightarrow> mem \<Rightarrow> ('u pb_ostream \<Rightarrow> pb_field list \<Rightarrow> nat \<Rightarrow> 'u out) \<Rightarrow> 'u pb_ostream \<Rightarrow> nat \<Rightarrow> 'u out" where
  "default_extension_encoder n env h enc s extension =
     (let field = field_at (descriptors env (load h (load h extension 8 + 16) 8)) 0
      in if PB_ATYPE (fld_type field) = PB_ATYPE_POINTER
         then encode_field n env h enc s field (extension + 8)
         else encode_field n env h enc s field (load h (extension + 8) 8))"

fun extension_loop ::
  "nat \<Rightarrow> nat \<Rightarrow> 'u pb_env \<Rightarrow> mem \<Rightarrow> ('u pb_ostream \<Rightarrow> pb_field list \<Rightarrow> nat \<Rightarrow> 'u out) \<Rightarrow>
   nat \<Rightarrow> 'u pb_ostream \<Rightarrow> 'u out" where
  "extension_loop 0 n env h enc extension s = (if extension = 0 then Some (True, s) else None)"
| "extension_loop (Suc k) n env h enc extension s =
     (if extension = 0 then Some (True, s)
      else
        (let encode = load h (load h extension 8 + 8) 8
         in or_return
              (if encode \<noteq> 0 then Some (extension_encode_fn env encode s extension)
               else default_extension_encoder n env h enc s extension)
              (extension_loop k n env h enc (load h (extension + 16) 8))))"

definition encode_extension_field ::
  "nat \<Rightarrow> 'u pb_env \<Rightarrow> mem \<Rightarrow> ('u pb_ostream \<Rightarrow> pb_field list \<Rightarrow> nat \<Rightarrow> 'u out) \<Rightarrow>
   'u pb_ostream \<Rightarrow> pb_field \<Rightarrow> nat \<Rightarrow> 'u out" where
  "encode_extension_field n env h enc s field p = extension_loop n n env h enc (load h p 8) s"

section \<open>All fields\<close>

fun pb_encode :: "nat \<Rightarrow> 'u pb_env \<Rightarrow> mem \<Rightarrow> 'u pb_ostream \<Rightarrow> pb_field list \<Rightarrow> nat \<Rightarrow> 'u out" where
  "pb_encode 0 env h s fs a = None"
| "pb_encode (Suc n) env h s fs a =
     (case pb_field_iter_begin fs a of
        (False, _) \<Rightarrow> Some (True, s)
      | (True, iter) \<Rightarrow>
          fields_loop
            (\<lambda>iter s.
               if PB_LTYPE (fld_type (iter_field iter)) = PB_LTYPE_EXTENSION
               then encode_extension_field (Suc n) env h (pb_encode n env h) s (iter_field iter) (pData iter)
               else encode_field (Suc n) env h (pb_encode n env h) s (iter_field iter) (pData iter))
            iter s)"

definition pb_encode_delimited :: "nat \<Rightarrow> 'u pb_env \<Rightarrow> mem \<Rightarrow> 'u pb_ostream \<Rightarrow> pb_field list \<Rightarrow> nat \<Rightarrow> 'u out" where
  "pb_encode_delimited n env h s fs a = pb_encode_submessage (pb_encode n env h) s fs a"

definition pb_encode_nullterminated :: "nat \<Rightarrow> 'u pb_env \<Rightarrow> mem \<Rightarrow> 'u pb_ostream \<Rightarrow> pb_field list \<Rightarrow> nat \<Rightarrow> 'u out" where
  "pb_encode_nullterminated n env h s fs a =
     or_return (pb_encode n env h s fs a) (\<lambda>s. Some (pb_write s [0] 1))"

text \<open>The outer option is that of \<open>pb_encode\<close>, the inner one \<^verbatim>\<open>*size\<close>, if the function returns \<^verbatim>\<open>true\<close>.\<close>

definition pb_get_encoded_size :: "nat \<Rightarrow> 'u pb_env \<Rightarrow> mem \<Rightarrow> pb_field list \<Rightarrow> nat \<Rightarrow> nat option option" where
  "pb_get_encoded_size n env h fs a =
     map_option (\<lambda>(ok, s). if ok then Some (bytes_written s) else None)
       (pb_encode n env h (PB_OSTREAM_SIZING :: 'u pb_ostream) fs a)"

section \<open>The shape of the functions\<close>

text \<open>A call through the table, by the low half of the type.\<close>

lemma encoder_of_eq:
  "encoder_of env h enc s field a =
     (let t = PB_LTYPE (fld_type field)
      in if t = PB_LTYPE_BOOL then pb_enc_bool h s field a
         else if t = PB_LTYPE_VARINT then pb_enc_varint h s field a
         else if t = PB_LTYPE_UVARINT then pb_enc_uvarint h s field a
         else if t = PB_LTYPE_SVARINT then pb_enc_svarint h s field a
         else if t = PB_LTYPE_FIXED32 then pb_enc_fixed32 h s field a
         else if t = PB_LTYPE_FIXED64 then pb_enc_fixed64 h s field a
         else if t = PB_LTYPE_BYTES then pb_enc_bytes h s field a
         else if t = PB_LTYPE_STRING then pb_enc_string h s field a
         else if t = PB_LTYPE_SUBMESSAGE then pb_enc_submessage env enc s field a
         else if t = PB_LTYPE_FIXED_LENGTH_BYTES then pb_enc_fixed_length_bytes h s field a
         else None)"
proof -
  define t where "t = PB_LTYPE (fld_type field)"
  have e: "t = w \<longleftrightarrow> unat t = unat w" for w by (simp add: word_unat_eq_iff)
  show ?thesis
    unfolding encoder_of_def Let_def t_def [symmetric] e
    by (simp add: PB_ENCODERS_def pb_type_defs nth_Cons' del: word_unat_eq_iff)
qed

text \<open>The cases of a field that is in memory, by its label.\<close>

lemma encode_basic_field_eq:
  "encode_basic_field n env h enc s field p =
     (let t = PB_HTYPE (fld_type field); pointer = (PB_ATYPE (fld_type field) = PB_ATYPE_POINTER);
          size_p = ptr_add p (sint (size_offset field)); explicit = (size_offset field \<noteq> 0);
          d = (if pointer then load h p 8 else p);
          item = or_return (Some (pb_encode_tag_for_field s field)) (\<lambda>s. encoder_of env h enc s field d)
      in if t = PB_HTYPE_REQUIRED then if d = 0 then return_error s ''missing required field'' else item
         else if t = PB_HTYPE_REPEATED then
           encode_array h s field d (if explicit then load h size_p 4 else unat (array_size field)) (encoder_of env h enc)
         else if t = PB_HTYPE_OPTIONAL then
           if explicit then if h size_p \<noteq> 0 then item else Some (True, s)
           else
             (case pb_check_proto3_default_value n env h field p of
                None \<Rightarrow> None
              | Some zero \<Rightarrow> if (if pointer then d = 0 else zero) then Some (True, s) else item)
         else if \<not> explicit then None
         else if load h size_p 4 = unat (fld_tag field) then item else Some (True, s))"
  by (auto simp: encode_basic_field_def Let_def htype_defs safe_read_bool_def split: option.split)

lemma pb_encode_layout:
  "pb_encode (Suc n) env h s fs a =
     run_fields (\<lambda>field p s.
        if PB_LTYPE (fld_type field) = PB_LTYPE_EXTENSION then encode_extension_field (Suc n) env h (pb_encode n env h) s field p
        else encode_field (Suc n) env h (pb_encode n env h) s field p) (layout fs a) s"
  by (simp add: fields_loop_layout [symmetric])

section \<open>Return\<close>

text \<open>
  A message type whose submessages are nested at most \<open>n\<close> deep, in descriptors as the generator emits them: entries of the
  table, a \<^verbatim>\<open>which\<close> member for every oneof, descriptors for every submessage.
\<close>

fun nested_within :: "nat \<Rightarrow> 'u pb_env \<Rightarrow> pb_field list \<Rightarrow> bool" where
  "nested_within 0 env fs = False"
| "nested_within (Suc n) env fs =
     list_all (\<lambda>f. PB_LTYPE (fld_type f) \<le> PB_LTYPE_FIXED_LENGTH_BYTES \<and> PB_LTYPE (fld_type f) \<noteq> PB_LTYPE_EXTENSION \<and>
       (PB_HTYPE (fld_type f) = PB_HTYPE_ONEOF \<longrightarrow> size_offset f \<noteq> 0) \<and>
       (PB_LTYPE (fld_type f) = PB_LTYPE_SUBMESSAGE \<longrightarrow>
         fld_ptr f \<noteq> 0 \<and> nested_within n env (descriptors env (fld_ptr f)))) fs"

definition returns :: "'a option \<Rightarrow> bool" where
  "returns x \<longleftrightarrow> x \<noteq> None"

lemma returns_simps [simp]: "returns (Some x)" "\<not> returns None" "returns (return_error s e)" "returns (map_option f y) = returns y"
  by (simp_all add: returns_def return_error_def)

lemma returns_obtain: "(\<And>x. returns (f x)) \<Longrightarrow> (\<And>g. f = (\<lambda>x. Some (g x)) \<Longrightarrow> thesis) \<Longrightarrow> thesis"
  by (metis ext returns_def option.collapse)

lemma or_return_returns: "returns x \<Longrightarrow> (\<And>s. returns (f s)) \<Longrightarrow> returns (or_return x f)"
  by (auto simp: or_return_def returns_def split: option.split bool.split)

lemma run_fields_returns:
  "(\<And>f p s. (f, p) \<in> set l \<Longrightarrow> returns (g f p s)) \<Longrightarrow> returns (run_fields g l s)"
proof (induction l arbitrary: s)
  case (Cons x l)
  obtain f p where x: "x = (f, p)" by force
  show ?case
    unfolding x run_fields.simps using Cons.IH Cons.prems by (intro or_return_returns) (simp_all add: x)
qed simp

lemma submessage_returns:
  assumes "\<And>s. returns (enc s fs a)"
  shows "returns (pb_encode_submessage enc s fs a)"
proof -
  obtain R where "(\<lambda>s. enc s fs a) = (\<lambda>s. Some (R s))" using returns_obtain [OF assms] .
  then have R: "enc s fs a = Some (R s)" for s by meson
  show ?thesis
    unfolding pb_encode_submessage_def R
    by (auto simp: Let_def split: bool.split prod.split intro!: or_return_returns)
qed

lemma leaf_returns:
  "returns (pb_enc_bool h s field a)" "returns (pb_enc_varint h s field a)" "returns (pb_enc_uvarint h s field a)"
  "returns (pb_enc_svarint h s field a)" "returns (pb_enc_fixed32 h s field a)" "returns (pb_enc_fixed64 h s field a)"
  "returns (pb_enc_bytes h s field a)" "returns (pb_enc_string h s field a)" "returns (pb_enc_fixed_length_bytes h s field a)"
  by (simp_all add: pb_enc_bool_def pb_enc_varint_def pb_enc_uvarint_def pb_enc_svarint_def pb_enc_fixed32_def
      pb_enc_fixed64_def pb_enc_bytes_def pb_enc_string_def pb_enc_fixed_length_bytes_def Let_def split: option.split)

lemma encoder_returns:
  assumes "PB_LTYPE (fld_type field) \<le> PB_LTYPE_FIXED_LENGTH_BYTES" "PB_LTYPE (fld_type field) \<noteq> PB_LTYPE_EXTENSION"
    and "PB_LTYPE (fld_type field) = PB_LTYPE_SUBMESSAGE \<Longrightarrow> (\<And>s a. returns (enc s (descriptors env (fld_ptr field)) a))"
  shows "returns (encoder_of env h enc s field a)"
proof (cases "PB_LTYPE (fld_type field) = PB_LTYPE_SUBMESSAGE")
  case True
  then have "returns (pb_encode_submessage enc s (descriptors env (fld_ptr field)) a)"
    by (intro submessage_returns assms(3))
  with True show ?thesis
    by (simp add: encoder_of_eq Let_def pb_enc_submessage_def ltype_defs)
next
  case False
  define t where "t = PB_LTYPE (fld_type field)"
  have "t \<in> {0, 1, 2, 3, 4, 5, 6, 7, 8, 9, 10}" unfolding t_def by (rule ltype_small [OF assms(1)])
  moreover have "t \<noteq> 9" "t \<noteq> 8" using assms(2) False by (simp_all add: t_def ltype_defs)
  ultimately show ?thesis
    unfolding encoder_of_eq Let_def t_def [symmetric] ltype_defs by (elim insertE emptyE) (simp_all add: leaf_returns)
qed

lemma items_return:
  assumes "\<And>s a. returns (func s field a)"
  shows "returns (packed_items func field p k s)" "returns (tagged_items h func field p k s)"
  using assms by (induction k arbitrary: p s) (auto intro!: or_return_returns)

lemma array_returns:
  assumes "\<And>s a. returns (func s field a)"
  shows "returns (encode_array h s field p count func)"
proof -
  obtain R where "packed_items func field p count = (\<lambda>s. Some (R s))" using returns_obtain [OF items_return(1) [of func field, OF assms]] .
  then show ?thesis
    unfolding encode_array_def using items_return(2) [of func field, OF assms]
    by (auto split: bool.split prod.split if_splits intro!: or_return_returns)
qed

lemma check_returns:
  "nested_within n env [field] \<Longrightarrow> returns (pb_check_proto3_default_value n env h field p)"
proof (induction n arbitrary: field p)
  case 0
  then show ?case by simp
next
  case (Suc n)
  let ?sub = "descriptors env (fld_ptr field)"
  let ?g = "\<lambda>f q u. map_option (\<lambda>d. (d, u)) (pb_check_proto3_default_value n env h f q)"
  have run: "returns (run_fields ?g (layout ?sub p) ())" if "PB_LTYPE (fld_type field) = PB_LTYPE_SUBMESSAGE"
  proof (rule run_fields_returns)
    fix f q u
    assume "(f, q) \<in> set (layout ?sub p)"
    then have "f \<in> set ?sub" by (rule layout_fields)
    moreover have "nested_within n env ?sub" using Suc.prems that by simp
    ultimately have "nested_within n env [f]" by (cases n) (auto simp: list_all_iff)
    from Suc.IH [OF this] show "returns (?g f q u)" by simp
  qed
  have "returns (case pb_field_iter_begin ?sub p of (False, _) \<Rightarrow> Some True
    | (True, iter) \<Rightarrow> map_option fst (fields_loop (\<lambda>iter. ?g (iter_field iter) (pData iter)) iter ()))"
    if "PB_LTYPE (fld_type field) = PB_LTYPE_SUBMESSAGE"
    using run [OF that] unfolding fields_loop_layout [symmetric] by (auto split: prod.splits bool.splits)
  with Suc.prems show ?case
    by (auto simp: default_value_def Let_def)
qed

lemma basic_returns:
  assumes "nested_within (Suc n) env [field]"
    and "\<And>fs s a. nested_within n env fs \<Longrightarrow> returns (enc s fs a)"
  shows "returns (encode_field (Suc n) env h enc s field p)"
proof -
  have func: "returns (encoder_of env h enc s field a)" for s a
    using assms by (intro encoder_returns) auto
  have check: "returns (pb_check_proto3_default_value (Suc n) env h field p)" using check_returns [OF assms(1)] .
  have item: "returns (or_return (Some (pb_encode_tag_for_field s field)) (\<lambda>s. encoder_of env h enc s field d))" for s d
    using func by (intro or_return_returns) simp_all
  have arr: "returns (encode_array h s field d count (encoder_of env h enc))" for d count
    using func by (rule array_returns)
  obtain zero where zero: "pb_check_proto3_default_value (Suc n) env h field p = Some zero" using check by (auto simp: returns_def)
  have "returns (encode_basic_field (Suc n) env h enc s field p)"
    using htype_cases [of "fld_type field"] assms(1) item arr
    unfolding encode_basic_field_eq zero Let_def by (auto simp: htype_distinct simp del: One_nat_def)
  moreover have "returns (encode_callback_field env h s field p)"
    by (auto simp: encode_callback_field_def Let_def split: prod.split bool.split)
  ultimately show ?thesis by (simp add: encode_field_def Let_def)
qed

lemma pb_encode_returns:
  "nested_within n env fs \<Longrightarrow> returns (pb_encode n env h s fs a)"
proof (induction n arbitrary: fs s a)
  case 0
  then show ?case by simp
next
  case (Suc n)
  show ?case
    unfolding pb_encode_layout
  proof (rule run_fields_returns)
    fix f p and s :: "'a pb_ostream"
    assume "(f, p) \<in> set (layout fs a)"
    then have "f \<in> set fs" by (rule layout_fields)
    with Suc.prems have f: "nested_within (Suc n) env [f]" by (auto simp: list_all_iff)
    then have "PB_LTYPE (fld_type f) \<noteq> PB_LTYPE_EXTENSION" by simp
    with basic_returns [OF f Suc.IH] show "returns (if PB_LTYPE (fld_type f) = PB_LTYPE_EXTENSION
      then encode_extension_field (Suc n) env h (pb_encode n env h) s f p
      else encode_field (Suc n) env h (pb_encode n env h) s f p)" by simp
  qed
qed

text \<open>More levels never change a result.\<close>

definition below :: "'a option \<Rightarrow> 'a option \<Rightarrow> bool" where
  "below x y \<longleftrightarrow> x = None \<or> x = y"

lemma below_simps [simp]: "below x x" "below None y" "below (Some z) y \<longleftrightarrow> y = Some z"
  by (auto simp: below_def)

lemma below_trans: "below x y \<Longrightarrow> below y z \<Longrightarrow> below x z"
  by (auto simp: below_def)

lemma below_map: "below x y \<Longrightarrow> below (map_option f x) (map_option f y)"
  by (auto simp: below_def)

lemma below_case: "below x y \<Longrightarrow> (\<And>z. below (f z) (g z)) \<Longrightarrow>
  below (case x of None \<Rightarrow> None | Some z \<Rightarrow> f z) (case y of None \<Rightarrow> None | Some z \<Rightarrow> g z)"
  by (cases x) simp_all

lemma below_or_return: "below x y \<Longrightarrow> (\<And>s. below (f s) (g s)) \<Longrightarrow> below (or_return x f) (or_return y g)"
  unfolding or_return_def by (rule below_case) (auto split: bool.split)

lemma run_fields_below:
  "(\<And>f p s. below (g f p s) (g' f p s)) \<Longrightarrow> below (run_fields g l s) (run_fields g' l s)"
proof (induction l arbitrary: s)
  case (Cons x l)
  then show ?case by (cases x) (auto intro: below_or_return)
qed simp

lemma submessage_below:
  assumes "\<And>s. below (enc s fs a) (enc' s fs a)"
  shows "below (pb_encode_submessage enc s fs a) (pb_encode_submessage enc' s fs a)"
  unfolding pb_encode_submessage_def
  by (intro below_case assms) (auto simp: Let_def split: bool.split intro!: below_or_return below_case assms)

lemma encoder_below:
  assumes "\<And>s fs a. below (enc s fs a) (enc' s fs a)"
  shows "below (encoder_of env h enc s field a) (encoder_of env h enc' s field a)"
  using submessage_below [of enc _ _ enc', OF assms] by (simp add: encoder_of_eq Let_def pb_enc_submessage_def)

lemma items_below:
  assumes "\<And>s a. below (func s field a) (func' s field a)"
  shows "below (packed_items func field p k s) (packed_items func' field p k s)"
    "below (tagged_items h func field p k s) (tagged_items h func' field p k s)"
  using assms by (induction k arbitrary: p s) (auto intro!: below_or_return)

lemma array_below:
  assumes "\<And>s a. below (func s field a) (func' s field a)"
  shows "below (encode_array h s field p count func) (encode_array h s field p count func')"
proof -
  note items = items_below [of func field func', OF assms]
  show ?thesis
    unfolding encode_array_def
    by (auto simp: items split: bool.split intro!: below_or_return below_case below_map)
qed

lemma check_below: "below (pb_check_proto3_default_value n env h field p) (pb_check_proto3_default_value (Suc n) env h field p)"
proof (induction n arbitrary: field p)
  case (Suc n)
  let ?g = "\<lambda>n f q u. map_option (\<lambda>d. (d, u)) (pb_check_proto3_default_value n env h f q)"
  let ?sub = "descriptors env (fld_ptr field)"
  have run: "below (run_fields (?g n) (layout ?sub p) ()) (run_fields (?g (Suc n)) (layout ?sub p) ())"
    by (intro run_fields_below below_map Suc.IH)
  have "below (case pb_field_iter_begin ?sub p of (False, _) \<Rightarrow> Some True
      | (True, iter) \<Rightarrow> map_option fst (fields_loop (\<lambda>iter. ?g n (iter_field iter) (pData iter)) iter ()))
    (case pb_field_iter_begin ?sub p of (False, _) \<Rightarrow> Some True
      | (True, iter) \<Rightarrow> map_option fst (fields_loop (\<lambda>iter. ?g (Suc n) (iter_field iter) (pData iter)) iter ()))"
    using run unfolding fields_loop_layout [symmetric]
    by (auto split: prod.splits bool.splits intro: below_map)
  then show ?case
    unfolding pb_check_proto3_default_value.simps default_value_def Let_def by (simp del: pb_check_proto3_default_value.simps)
qed simp

lemma basic_below:
  assumes "\<And>s fs a. below (enc s fs a) (enc' s fs a)"
  shows "below (encode_field n env h enc s field p) (encode_field (Suc n) env h enc' s field p)"
proof -
  note func = encoder_below [of enc enc' env h, OF assms]
  note arr = array_below [of "encoder_of env h enc" field "encoder_of env h enc'", OF func]
  have "below (encode_basic_field n env h enc s field p) (encode_basic_field (Suc n) env h enc' s field p)"
    unfolding encode_basic_field_eq Let_def
    by (auto simp: arr simp del: pb_check_proto3_default_value.simps intro!: below_or_return below_case check_below func)
  then show ?thesis by (simp add: encode_field_def Let_def del: pb_check_proto3_default_value.simps)
qed

lemma extension_below:
  assumes "\<And>s fs a. below (enc s fs a) (enc' s fs a)"
  shows "below (extension_loop k n env h enc e s) (extension_loop (Suc k) (Suc n) env h enc' e s)"
proof (induction k arbitrary: e s)
  case 0
  then show ?case by simp
next
  case (Suc k)
  note field = basic_below [of enc enc', OF assms]
  have "below (default_extension_encoder n env h enc s e) (default_extension_encoder (Suc n) env h enc' s e)"
    by (simp add: default_extension_encoder_def Let_def field)
  moreover define K where "K = Suc k"
  have "below (extension_loop k n env h enc e' s') (extension_loop K (Suc n) env h enc' e' s')" for e' s'
    unfolding K_def by (rule Suc.IH)
  ultimately have "below (extension_loop (Suc k) n env h enc e s) (extension_loop (Suc K) (Suc n) env h enc' e s)"
    by (auto simp: Let_def intro!: below_or_return)
  then show ?case by (simp only: K_def)
qed

lemma pb_encode_below: "below (pb_encode n env h s fs a) (pb_encode (Suc n) env h s fs a)"
proof (induction n arbitrary: s fs a)
  case 0
  then show ?case by simp
next
  case (Suc n)
  note ext = extension_below [of "pb_encode n env h" "pb_encode (Suc n) env h", OF Suc.IH]
  note field = basic_below [of "pb_encode n env h" "pb_encode (Suc n) env h", OF Suc.IH]
  show ?case
    by (subst (1 2) pb_encode_layout, rule run_fields_below) (simp add: encode_extension_field_def ext field
        del: pb_encode.simps extension_loop.simps pb_check_proto3_default_value.simps)
qed

lemma pb_encode_levels: "pb_encode n env h s fs a = Some r \<Longrightarrow> n \<le> m \<Longrightarrow> pb_encode m env h s fs a = Some r"
proof (induction "m - n" arbitrary: m)
  case (Suc d)
  then obtain m' where m: "m = Suc m'" "n \<le> m'" "d = m' - n" by (cases m) auto
  with Suc have "pb_encode m' env h s fs a = Some r" by blast
  then show ?case using pb_encode_below [of m' env h s fs a] m by (simp del: pb_encode.simps)
qed simp

section \<open>Correctness\<close>

text \<open>An example: a message with a signed number, a submessage behind a pointer and an array of two bytes.\<close>

definition example_inner :: "pb_field list" where
  "example_inner = [\<lparr>fld_tag = 1, fld_type = 0x02, data_offset = 0, size_offset = 0, data_size = 4, array_size = 0, fld_ptr = 0\<rparr>]"

definition example_outer :: "pb_field list" where
  "example_outer =
    [\<lparr>fld_tag = 1, fld_type = 0x13, data_offset = 0, size_offset = 0, data_size = 4, array_size = 0, fld_ptr = 0\<rparr>,
     \<lparr>fld_tag = 2, fld_type = 0x98, data_offset = 4, size_offset = 0, data_size = 4, array_size = 0, fld_ptr = 100\<rparr>,
     \<lparr>fld_tag = 3, fld_type = 0x22, data_offset = 0, size_offset = 0, data_size = 1, array_size = 2, fld_ptr = 0\<rparr>]"

definition example_env :: "unit pb_env" where
  "example_env = \<lparr>descriptors = (\<lambda>a. if a = 100 then example_inner else []),
     encode_fn = (\<lambda>_ s _ _. (True, s)), extension_encode_fn = (\<lambda>_ s _. (True, s))\<rparr>"

lemmas example_defs = example_inner_def example_outer_def example_env_def

lemma example_nested: "nested_within 2 example_env example_outer"
  unfolding numeral_2_eq_2 by (simp add: example_defs pb_type_defs)



end
