(* ===== verification/Pb_Records.thy ===== *)
theory Pb_Records
  imports Pb_Encode
begin

text \<open>
  What the encoder writes: the records of a message, a list of field numbers with wire values, and the proof that
  \<open>pb_encode\<close> writes their bytes.  Every function that writes to a stream satisfies the contract \<open>emitter\<close>.
\<close>

section \<open>What a function writes\<close>

text \<open>
  A stream that counts or writes to memory, without an error so far; and the contract of a function that writes \<open>bs\<close>
  to it: a counting stream takes everything, a memory stream takes everything or, when it is full, a prefix.
\<close>

definition fine :: "'u pb_ostream \<Rightarrow> bool" where
  "fine s \<longleftrightarrow> \<not> is_User_write (sink s) \<and> os_errmsg s = None \<and> max_size s < size_max \<and>
     (is_Sizing (sink s) \<or> bytes_written s \<le> max_size s)"

definition emits :: "byte list \<Rightarrow> 'u pb_ostream \<Rightarrow> bool \<Rightarrow> 'u pb_ostream \<Rightarrow> bool" where
  "emits bs s r s' \<longleftrightarrow> (r \<longleftrightarrow> is_Sizing (sink s) \<or> bytes_written s + length bs \<le> max_size s) \<and>
     (\<exists>pre suf. bs = pre @ suf \<and> (r \<longrightarrow> suf = [] \<and> os_errmsg s' = None) \<and> sink s' = snd (buf_write (sink s) pre) \<and>
       bytes_written s' = bytes_written s + length pre \<and> max_size s' = max_size s \<and>
       (is_Sizing (sink s) \<or> bytes_written s' \<le> max_size s))"

locale emitter =
  fixes f :: "'u pb_ostream \<Rightarrow> 'u out" and bs :: "byte list"
  assumes runs: "fine s \<Longrightarrow> bytes_written s + length bs < size_max \<Longrightarrow> \<exists>r s'. f s = Some (r, s') \<and> emits bs s r s'"

lemma buf_write_append:
  "\<not> is_User_write k \<Longrightarrow> snd (buf_write (snd (buf_write k as)) bs) = snd (buf_write k (as @ bs))"
  by (cases k) (simp_all add: write_bytes_append add.assoc)

lemma is_User_buf_write [simp]: "is_User_write (snd (buf_write k bs)) = is_User_write k"
  by (cases k) (auto split: prod.splits)

lemma buf_write_Nil: "\<not> is_User_write k \<Longrightarrow> snd (buf_write k []) = k"
  by (cases k) simp_all

lemma emits_fine: "fine s \<Longrightarrow> emits bs s True s' \<Longrightarrow> fine s' \<and> bytes_written s' = bytes_written s + length bs \<and>
  sink s' = snd (buf_write (sink s) bs) \<and> max_size s' = max_size s \<and> os_errmsg s' = None"
  by (auto simp: fine_def emits_def)

lemma emits_refl: "fine s \<Longrightarrow> emits [] s True s"
  by (auto simp: emits_def fine_def buf_write_Nil)

lemma emits_more: "emits as s False s' \<Longrightarrow> emits (as @ bs) s False s'"
  by (fastforce simp: emits_def)

lemma emits_trans:
  assumes "fine s" "emits as s True s1" "emits bs s1 r s'"
  shows "emits (as @ bs) s r s'"
proof -
  note s1 = emits_fine [OF assms(1,2)]
  have u: "\<not> is_User_write (sink s)" using assms(1) by (simp add: fine_def)
  obtain pre suf where p: "bs = pre @ suf" "r \<longrightarrow> suf = [] \<and> os_errmsg s' = None" "sink s' = snd (buf_write (sink s1) pre)"
    "bytes_written s' = bytes_written s1 + length pre" "max_size s' = max_size s1"
    "is_Sizing (sink s1) \<or> bytes_written s' \<le> max_size s1" "r \<longleftrightarrow> is_Sizing (sink s1) \<or> bytes_written s1 + length bs \<le> max_size s1"
    using assms(3) by (auto simp: emits_def)
  show ?thesis
    unfolding emits_def using p s1 buf_write_append [OF u, of as pre]
    by (intro conjI exI [of _ "as @ pre"] exI [of _ suf]) auto
qed

lemma pb_write_emits:
  assumes "fine s" "bytes_written s + length bs < size_max" "pb_write s bs (length bs) = (r, s')"
  shows "emits bs s r s'"
proof (cases "length bs > 0 \<and> \<not> is_Sizing (sink s)")
  case False
  then show ?thesis using assms
    by (cases "sink s") (auto simp: pb_write_def emits_def fine_def intro!: exI [of _ bs])
next
  case True
  then obtain m p where k: "sink s = Buf_write m p" using assms(1) by (cases "sink s") (auto simp: fine_def)
  from True assms(2) have w: "pb_write s bs (length bs) =
    (if bytes_written s + length bs > max_size s then (False, pb_set_oerror s ''stream full'')
     else (True, s\<lparr>sink := snd (buf_write (sink s) bs), bytes_written := bytes_written s + length bs\<rparr>))"
    by (simp add: pb_write_def k)
  show ?thesis
  proof (cases "bytes_written s + length bs \<le> max_size s")
    case True
    with w assms have "r" "s' = s\<lparr>sink := snd (buf_write (sink s) bs), bytes_written := bytes_written s + length bs\<rparr>" by auto
    with True assms(1) show ?thesis
      unfolding emits_def by (intro conjI exI [of _ bs] exI [of _ "[]"]) (simp_all add: fine_def)
  next
    case False
    with w assms have "\<not> r" "s' = pb_set_oerror s ''stream full''" by auto
    with False assms(1) k show ?thesis
      unfolding emits_def by (intro conjI exI [of _ "[]"] exI [of _ bs]) (simp_all add: fine_def)
  qed
qed

lemma write_emitter: "emitter (\<lambda>s. Some (pb_write s bs (length bs))) bs"
proof
  fix s :: "'a pb_ostream"
  assume "fine s" "bytes_written s + length bs < size_max"
  then show "\<exists>r s'. Some (pb_write s bs (length bs)) = Some (r, s') \<and> emits bs s r s'"
    by (cases "pb_write s bs (length bs)") (simp add: pb_write_emits)
qed

lemma varint_emitter: "emitter (\<lambda>s. Some (pb_encode_varint s v)) (varint_bytes v)"
  unfolding pb_encode_varint_eq by (rule write_emitter)

lemma nothing_emitter: "emitter (\<lambda>s. Some (True, s)) []"
  by unfold_locales (auto simp: emits_refl intro!: exI [of _ True])

interpretation written: emitter "\<lambda>s. Some (pb_write s bs (length bs))" bs for bs
  by (rule write_emitter)

interpretation varint: emitter "\<lambda>s. Some (pb_encode_varint s v)" "varint_bytes v" for v
  by (rule varint_emitter)

lemma emitter_seq:
  assumes "emitter f as" "emitter g bs"
  shows "emitter (\<lambda>s. or_return (f s) g) (as @ bs)"
proof
  fix s :: "'a pb_ostream"
  assume s: "fine s" "bytes_written s + length (as @ bs) < size_max"
  then obtain r1 s1 where r1: "f s = Some (r1, s1)" "emits as s r1 s1" using emitter.runs [OF assms(1), of s] by auto
  show "\<exists>r s'. or_return (f s) g = Some (r, s') \<and> emits (as @ bs) s r s'"
  proof (cases r1)
    case False
    with r1 emits_more [of as s s1 bs] show ?thesis by (auto simp: or_return_def)
  next
    case True
    with r1 emits_fine [of s as s1] s have "fine s1" "bytes_written s1 + length bs < size_max" by auto
    then obtain r s' where "g s1 = Some (r, s')" "emits bs s1 r s'" using emitter.runs [OF assms(2)] by blast
    with r1 True emits_trans [OF s(1), of as s1 bs r s'] show ?thesis by (simp add: or_return_def)
  qed
qed

lemma emitter_cong: "emitter f bs \<Longrightarrow> (\<And>s. f s = g s) \<Longrightarrow> emitter g bs"
  by (simp add: emitter_def)

text \<open>A length and as many bytes.\<close>

lemma string_emitter: "emitter (\<lambda>s. Some (pb_encode_string s bs (length bs))) (varint_bytes (of_nat (length bs)) @ bs)"
  by (rule emitter_cong [OF emitter_seq [OF varint_emitter write_emitter]])
    (auto simp: pb_encode_string_def or_return_def split: prod.splits bool.splits)

lemma sizing_fine: "fine PB_OSTREAM_SIZING"
  by (simp add: fine_def PB_OSTREAM_SIZING_def size_max_def)

text \<open>Every emitter on a counting stream and on a buffer.\<close>

context emitter
begin

lemma sizes:
  assumes "length bs < size_max"
  obtains s' where "f PB_OSTREAM_SIZING = Some (True, s')" "bytes_written s' = length bs"
proof -
  obtain r s' where "f PB_OSTREAM_SIZING = Some (r, s')" "emits bs PB_OSTREAM_SIZING r s'"
    using runs [OF sizing_fine] assms by (auto simp: PB_OSTREAM_SIZING_def)
  with that show ?thesis by (auto simp: emits_def PB_OSTREAM_SIZING_def)
qed

lemma buffered:
  assumes "length bs < size_max" "n < size_max"
  shows "\<exists>ok s. f (pb_ostream_from_buffer m buf n) = Some (ok, s) \<and> (ok \<longleftrightarrow> length bs \<le> n) \<and>
     (\<exists>pre suf. bs = pre @ suf \<and> length pre \<le> n \<and> (ok \<longrightarrow> suf = [] \<and> os_errmsg s = None) \<and>
       bytes_written s = length pre \<and> sink s = Buf_write (write_bytes m buf pre) (buf + length pre))"
proof -
  let ?s = "pb_ostream_from_buffer m buf n"
  have "fine ?s" "bytes_written ?s + length bs < size_max"
    using assms by (simp_all add: fine_def pb_ostream_from_buffer_def)
  then obtain ok s where e: "f ?s = Some (ok, s)" "emits bs ?s ok s" using runs by blast
  then show ?thesis
    unfolding emits_def
    by (elim conjE exE) (intro exI conjI, assumption, auto simp: pb_ostream_from_buffer_def)
qed

end

text \<open>Counting bytes that are not there.\<close>

lemma sizing_write_emits:
  assumes "fine s" "is_Sizing (sink s)" "bytes_written s + length bs < size_max"
  shows "\<exists>s'. pb_write s [] (length bs) = (True, s') \<and> emits bs s True s'"
  using assms by (cases "sink s") (auto simp: pb_write_def emits_def fine_def intro!: exI [of _ bs])

lemma submessage_emitter:
  assumes "emitter (\<lambda>s. enc s fs a) bs"
  shows "emitter (\<lambda>s. pb_encode_submessage enc s fs a) (varint_bytes (of_nat (length bs)) @ bs)"
proof
  fix s :: "'a pb_ostream"
  assume s: "fine s" "bytes_written s + length (varint_bytes (of_nat (length bs)) @ bs) < size_max"
  obtain z where z: "enc PB_OSTREAM_SIZING fs a = Some (True, z)" "bytes_written z = length bs"
    using emitter.sizes [OF assms] s(2) by auto
  let ?body = "\<lambda>s. if is_Sizing (sink s) then Some (pb_write s [] (length bs))
    else if size_add (bytes_written s) (length bs) > max_size s then return_error s ''stream full''
    else
      (case enc \<lparr>sink = sink s, max_size = length bs, bytes_written = 0, os_errmsg = None\<rparr> fs a of
         None \<Rightarrow> None
       | Some (status, substream) \<Rightarrow>
           (let s' = s\<lparr>bytes_written := size_add (bytes_written s) (bytes_written substream),
                       sink := sink substream, os_errmsg := os_errmsg substream\<rparr>
            in if bytes_written substream \<noteq> length bs then return_error s' ''submsg size changed''
               else Some (status, s')))"
  have "emitter ?body bs"
  proof
    fix s :: "'a pb_ostream"
    assume s: "fine s" "bytes_written s + length bs < size_max"
    consider (count) "is_Sizing (sink s)" | (full) "\<not> is_Sizing (sink s)" "bytes_written s + length bs > max_size s"
      | (room) "\<not> is_Sizing (sink s)" "bytes_written s + length bs \<le> max_size s" by linarith
    then show "\<exists>r s'. ?body s = Some (r, s') \<and> emits bs s r s'"
    proof cases
      case count
      then show ?thesis using sizing_write_emits [OF s(1) _ s(2)] by auto
    next
      case full
      have "?body s = Some (False, pb_set_oerror s ''stream full'')" using full s by (simp add: return_error_def)
      moreover have "emits bs s False (pb_set_oerror s ''stream full'')"
        unfolding emits_def using full s buf_write_Nil [of "sink s"]
        by (intro conjI exI [of _ "[]"] exI [of _ bs]) (simp_all add: fine_def)
      ultimately show ?thesis by blast
    next
      case room
      let ?t = "\<lparr>sink = sink s, max_size = length bs, bytes_written = 0, os_errmsg = None\<rparr> :: 'a pb_ostream"
      have t: "fine ?t" "bytes_written ?t + length bs < size_max" using s by (auto simp: fine_def)
      obtain r t' where t': "enc ?t fs a = Some (r, t')" "emits bs ?t r t'"
        using emitter.runs [OF assms t] by auto
      then have r by (auto simp: emits_def)
      with t' have e: "bytes_written t' = length bs" "sink t' = snd (buf_write (sink s) bs)" "os_errmsg t' = None"
        using emits_fine [OF t(1), of bs t'] by auto
      let ?s = "s\<lparr>bytes_written := bytes_written s + length bs, sink := sink t', os_errmsg := None\<rparr>"
      have "?body s = Some (True, ?s)" using room s t'(1) e \<open>r\<close> by (simp add: Let_def)
      moreover have "emits bs s True ?s"
        unfolding emits_def using room e by (intro conjI exI [of _ bs] exI [of _ "[]"]) simp_all
      ultimately show ?thesis by blast
    qed
  qed
  from emitter.runs [OF emitter_seq [OF varint_emitter this] s]
  show "\<exists>r s'. pb_encode_submessage enc s fs a = Some (r, s') \<and> emits (varint_bytes (of_nat (length bs)) @ bs) s r s'"
    unfolding pb_encode_submessage_def z(1) option.case prod.case bool.case Let_def z(2) .
qed

section \<open>The records of a message\<close>

text \<open>
  What a message stands for: a list of field numbers and wire values.  \<open>None\<close> is a message that the encoder rejects, or
  whose bytes the message alone does not determine because a callback writes them.
\<close>

type_synonym wire_record = "u32 \<times> wire_value"

definition record_bytes :: "wire_record \<Rightarrow> byte list" where
  "record_bytes = (\<lambda>(tag, w). tag_bytes (wire_type_of w, tag) @ wire_bytes w)"

definition message_bytes :: "wire_record list \<Rightarrow> byte list" where
  "message_bytes ws = concat (map record_bytes ws)"

lemma message_bytes_simps [simp]:
  "message_bytes [] = []" "message_bytes (w # ws) = record_bytes w @ message_bytes ws"
  "message_bytes (vs @ ws) = message_bytes vs @ message_bytes ws"
  by (simp_all add: message_bytes_def)

definition item_value ::
  "'u pb_env \<Rightarrow> mem \<Rightarrow> (pb_field list \<Rightarrow> nat \<Rightarrow> wire_record list option) \<Rightarrow> pb_field \<Rightarrow> nat \<Rightarrow> wire_value option" where
  "item_value env h sub field a =
     (let t = PB_LTYPE (fld_type field); sz = unat (data_size field)
      in if t = PB_LTYPE_BOOL then Some (WVarint (of_bool (h a \<noteq> 0)))
         else if t = PB_LTYPE_VARINT then map_option WVarint (load_signed h (data_size field) a)
         else if t = PB_LTYPE_UVARINT then
           if data_size field \<in> {1, 2, 4, 8} then Some (WVarint (word_of_nat (load h a sz))) else None
         else if t = PB_LTYPE_SVARINT then map_option (\<lambda>v. WVarint (zigzag v)) (load_signed h (data_size field) a)
         else if t = PB_LTYPE_FIXED32 then Some (WFixed32 (word_of_nat (load h a 4)))
         else if t = PB_LTYPE_FIXED64 then Some (WFixed64 (word_of_nat (load h a 8)))
         else if t = PB_LTYPE_BYTES then
           if a = 0 then Some (WBytes [])
           else if PB_ATYPE (fld_type field) = PB_ATYPE_STATIC \<and> 4 \<le> sz \<and> sz - 4 < load h a 4 then None
           else Some (WBytes (read_bytes h (a + 4) (load h a 4)))
         else if t = PB_LTYPE_STRING then
           if a = 0 then Some (WBytes [])
           else Some (WBytes (read_bytes h a (string_size h a
                  (if PB_ATYPE (fld_type field) = PB_ATYPE_POINTER then size_max - 1 else sz) 0)))
         else if t = PB_LTYPE_SUBMESSAGE then
           if fld_ptr field = 0 then None
           else map_option (\<lambda>ws. WBytes (message_bytes ws)) (sub (descriptors env (fld_ptr field)) a)
         else if t = PB_LTYPE_FIXED_LENGTH_BYTES then Some (WBytes (read_bytes h a sz))
         else None)"

lemma static_room:
  assumes "n < 2 ^ 32"
  shows "n > nat ((uint (d :: u32) - 4) mod int size_max) \<longleftrightarrow> 4 \<le> unat d \<and> unat d - 4 < n"
proof -
  define u where "u = unat d"
  have d: "uint d = int u" by (simp add: u_def)
  have u: "u < 2 ^ 32" using unsigned_less [of d, where 'a = nat] by (simp add: u_def)
  show ?thesis
  proof (cases "4 \<le> u")
    case True
    then have "(int u - 4) mod int size_max = int (u - 4)"
      using u by (subst mod_pos_pos_trivial) (simp_all add: size_max_def)
    with True show ?thesis unfolding d u_def [symmetric] by simp linarith
  next
    case False
    then have "(int u - 4 + int size_max) mod int size_max = int u - 4 + int size_max"
      by (intro mod_pos_pos_trivial) (simp_all add: size_max_def)
    then have "(int u - 4) mod int size_max = int u - 4 + int size_max" by (simp only: mod_add_self2)
    also have "\<dots> = int (u + size_max - 4)" by (simp add: size_max_def)
    finally have "(int u - 4) mod int size_max = int (u + size_max - 4)" .
    with False assms show ?thesis unfolding d u_def [symmetric] by (simp add: size_max_def)
  qed
qed

lemma le_nat_bound: "le_nat bs < 256 ^ length bs"
proof (induction bs)
  case (Cons b bs)
  have "unat b < 256" using unsigned_less [of b, where 'a = nat] by simp
  with Cons show ?case by simp
qed simp

lemma load_bound: "load h a 4 < 2 ^ 32"
  using le_nat_bound [of "read_bytes h a 4"] by (simp add: load_def)

lemma fixed_emitters:
  "emitter (\<lambda>s. Some (pb_encode_fixed32 s v)) (fixed32_bytes v)"
  "emitter (\<lambda>s. Some (pb_encode_fixed64 s w)) (fixed64_bytes w)"
  using write_emitter [of "fixed32_bytes v"] write_emitter [of "fixed64_bytes w"]
  by (simp_all add: pb_encode_fixed32_def pb_encode_fixed64_def fixed32_bytes_def fixed64_bytes_def eval_nat_numeral)

lemma read_string_emitter:
  "emitter (\<lambda>s. Some (pb_encode_string s (read_bytes h a n) n)) (varint_bytes (of_nat n) @ read_bytes h a n)"
  using string_emitter [of "read_bytes h a n"] by simp

lemma number_emitter:
  assumes "item_value env h sub field a = Some w"
    and "PB_LTYPE (fld_type field) \<in> {PB_LTYPE_BOOL, PB_LTYPE_VARINT, PB_LTYPE_UVARINT, PB_LTYPE_SVARINT, PB_LTYPE_FIXED32, PB_LTYPE_FIXED64}"
  shows "emitter (\<lambda>s. encoder_of env h enc s field a) (wire_bytes w)"
  using assms(2)
proof (elim insertE emptyE)
  assume t: "PB_LTYPE (fld_type field) = PB_LTYPE_BOOL"
  with assms(1) have w: "w = WVarint (of_bool (h a \<noteq> 0))" by (simp add: item_value_def)
  show ?thesis
    using varint_emitter [of "of_bool (h a \<noteq> 0)"] by (simp add: encoder_of_eq t w pb_enc_bool_def safe_read_bool_def of_bool_def)
next
  assume t: "PB_LTYPE (fld_type field) = PB_LTYPE_VARINT"
  with assms(1) obtain v where "load_signed h (data_size field) a = Some v" "w = WVarint v"
    by (auto simp: item_value_def ltype_defs Let_def)
  then show ?thesis using varint_emitter [of v] t by (simp add: encoder_of_eq ltype_defs Let_def pb_enc_varint_def)
next
  assume t: "PB_LTYPE (fld_type field) = PB_LTYPE_UVARINT"
  with assms(1) have d: "data_size field \<in> {1, 2, 4, 8}" "w = WVarint (word_of_nat (load h a (unat (data_size field))))"
    by (auto simp: item_value_def ltype_defs Let_def split: if_splits)
  have "emitter (\<lambda>s. pb_enc_uvarint h s field a) (wire_bytes w)"
    unfolding pb_enc_uvarint_def d(2) wire_bytes.simps using d(1) by (simp only: if_True varint_emitter)
  then show ?thesis using t by (simp add: encoder_of_eq ltype_defs Let_def)
next
  assume t: "PB_LTYPE (fld_type field) = PB_LTYPE_SVARINT"
  with assms(1) obtain v where "load_signed h (data_size field) a = Some v" "w = WVarint (zigzag v)"
    by (auto simp: item_value_def ltype_defs Let_def)
  then show ?thesis
    using varint_emitter [of "zigzag v"] t by (simp add: encoder_of_eq ltype_defs Let_def pb_enc_svarint_def pb_encode_svarint_eq)
next
  assume t: "PB_LTYPE (fld_type field) = PB_LTYPE_FIXED32"
  with assms(1) show ?thesis
    using fixed_emitters(1) [of "word_of_nat (load h a 4)"]
    by (auto simp: item_value_def encoder_of_eq ltype_defs Let_def pb_enc_fixed32_def)
next
  assume t: "PB_LTYPE (fld_type field) = PB_LTYPE_FIXED64"
  with assms(1) show ?thesis
    using fixed_emitters(2) [of "word_of_nat (load h a 8)"]
    by (auto simp: item_value_def encoder_of_eq ltype_defs Let_def pb_enc_fixed64_def)
qed

lemma bytes_emitter:
  assumes "item_value env h sub field a = Some w" "PB_LTYPE (fld_type field) = PB_LTYPE_BYTES"
  shows "emitter (\<lambda>s. pb_enc_bytes h s field a) (wire_bytes w)"
proof (cases "a = 0")
  case True
  with assms have "w = WBytes []" by (simp add: item_value_def ltype_defs Let_def)
  with True string_emitter [of "[]"] show ?thesis by (simp add: pb_enc_bytes_def)
next
  case False
  let ?no = "PB_ATYPE (fld_type field) = PB_ATYPE_STATIC \<and> 4 \<le> unat (data_size field) \<and> unat (data_size field) - 4 < load h a 4"
  from False assms have w: "\<not> ?no" "w = WBytes (read_bytes h (a + 4) (load h a 4))"
    by (simp_all add: item_value_def ltype_defs Let_def split: if_splits)
  then have "pb_enc_bytes h s field a = Some (pb_encode_string s (read_bytes h (a + 4) (load h a 4)) (load h a 4))"
    for s :: "'b pb_ostream"
    using False unfolding pb_enc_bytes_def Let_def static_room [OF load_bound] by (simp only: if_False)
  with read_string_emitter w(2) show ?thesis by simp
qed

lemma item_emitter:
  assumes "\<And>fs a ws. sub fs a = Some ws \<Longrightarrow> emitter (\<lambda>s. enc s fs a) (message_bytes ws)"
    and "item_value env h sub field a = Some w"
  shows "emitter (\<lambda>s. encoder_of env h enc s field a) (wire_bytes w)"
proof -
  let ?t = "PB_LTYPE (fld_type field)"
  consider (number) "?t \<in> {PB_LTYPE_BOOL, PB_LTYPE_VARINT, PB_LTYPE_UVARINT, PB_LTYPE_SVARINT, PB_LTYPE_FIXED32, PB_LTYPE_FIXED64}"
    | (bytes) "?t = PB_LTYPE_BYTES" | (string) "?t = PB_LTYPE_STRING" | (submessage) "?t = PB_LTYPE_SUBMESSAGE"
    | (fixed) "?t = PB_LTYPE_FIXED_LENGTH_BYTES"
    using assms(2) by (auto simp: item_value_def Let_def split: if_splits)
  then show ?thesis
  proof cases
    case number
    with assms(2) show ?thesis by (rule number_emitter)
  next
    case bytes
    from bytes_emitter [OF assms(2) this] show ?thesis by (simp add: encoder_of_eq bytes ltype_defs Let_def)
  next
    case string
    show ?thesis
    proof (cases "a = 0")
      case True
      with assms(2) string have "w = WBytes []" by (simp add: item_value_def ltype_defs Let_def)
      with True string string_emitter [of "[]"] show ?thesis by (simp add: encoder_of_eq ltype_defs Let_def pb_enc_string_def)
    next
      case False
      define n where "n = string_size h a (if PB_ATYPE (fld_type field) = PB_ATYPE_POINTER then size_max - 1 else unat (data_size field)) 0"
      have "w = WBytes (read_bytes h a n)" using assms(2) False string by (simp add: item_value_def ltype_defs Let_def n_def)
      moreover have "pb_enc_string h s field a = Some (pb_encode_string s (read_bytes h a n) n)" for s :: "'a pb_ostream"
        using False by (simp add: pb_enc_string_def n_def Let_def)
      ultimately show ?thesis using read_string_emitter string by (simp add: encoder_of_eq ltype_defs Let_def)
    qed
  next
    case submessage
    with assms(2) obtain ws where ws: "fld_ptr field \<noteq> 0" "sub (descriptors env (fld_ptr field)) a = Some ws"
      "w = WBytes (message_bytes ws)"
      by (auto simp: item_value_def ltype_defs Let_def split: if_splits)
    from submessage_emitter [of enc, OF assms(1) [OF ws(2)]] submessage ws show ?thesis
      by (simp add: encoder_of_eq ltype_defs Let_def pb_enc_submessage_def)
  next
    case fixed
    with assms(2) have "w = WBytes (read_bytes h a (unat (data_size field)))" by (simp add: item_value_def ltype_defs Let_def)
    with read_string_emitter [of h a "unat (data_size field)"] fixed show ?thesis
      by (simp add: encoder_of_eq ltype_defs Let_def pb_enc_fixed_length_bytes_def)
  qed
qed

definition one_record ::
  "(pb_field \<Rightarrow> nat \<Rightarrow> wire_value option) \<Rightarrow> pb_field \<Rightarrow> nat \<Rightarrow> wire_record list option" where
  "one_record val field a =
     (if 0 < fld_tag field \<and> fld_tag field < 2 ^ 29 then map_option (\<lambda>w. [(fld_tag field, w)]) (val field a) else None)"

fun entries :: "nat \<Rightarrow> nat \<Rightarrow> nat \<Rightarrow> nat list" where
  "entries p sz 0 = []"
| "entries p sz (Suc k) = p # entries (p + sz) sz k"

text \<open>An array is one record with all values if these are numbers, and otherwise a record for each entry.\<close>

definition array_records ::
  "mem \<Rightarrow> (pb_field \<Rightarrow> nat \<Rightarrow> wire_value option) \<Rightarrow> pb_field \<Rightarrow> nat \<Rightarrow> nat \<Rightarrow> wire_record list option" where
  "array_records h val field p count =
     (let es = entries p (unat (data_size field)) count;
          t = PB_LTYPE (fld_type field); pointer = (PB_ATYPE (fld_type field) = PB_ATYPE_POINTER)
      in if count = 0 then Some []
         else if \<not> pointer \<and> count > unat (array_size field) then None
         else if t \<le> PB_LTYPE_LAST_PACKABLE then
           if 0 < fld_tag field \<and> fld_tag field < 2 ^ 29
           then map_option (\<lambda>ws. [(fld_tag field, WBytes (concat (map wire_bytes ws)))]) (those (map (val field) es))
           else None
         else
           map_option concat
             (those (map (\<lambda>a. one_record val field (if pointer \<and> (t = PB_LTYPE_STRING \<or> t = PB_LTYPE_BYTES) then load h a 8 else a))
                es)))"

definition basic_records ::
  "nat \<Rightarrow> 'u pb_env \<Rightarrow> mem \<Rightarrow> (pb_field list \<Rightarrow> nat \<Rightarrow> wire_record list option) \<Rightarrow> pb_field \<Rightarrow> nat \<Rightarrow> wire_record list option" where
  "basic_records n env h sub field p =
     (let val = item_value env h sub; t = PB_HTYPE (fld_type field);
          size_p = ptr_add p (sint (size_offset field)); explicit = (size_offset field \<noteq> 0);
          pointer = (PB_ATYPE (fld_type field) = PB_ATYPE_POINTER); d = (if pointer then load h p 8 else p)
      in if t = PB_HTYPE_REQUIRED then if d = 0 then None else one_record val field d
         else if t = PB_HTYPE_REPEATED then
           array_records h val field d (if explicit then load h size_p 4 else unat (array_size field))
         else if t = PB_HTYPE_OPTIONAL then
           if explicit then if h size_p \<noteq> 0 then one_record val field d else Some []
           else
             (case pb_check_proto3_default_value n env h field p of
                None \<Rightarrow> None
              | Some zero \<Rightarrow> if (if pointer then d = 0 else zero) then Some [] else one_record val field d)
         else if \<not> explicit then None
         else if load h size_p 4 = unat (fld_tag field) then one_record val field d else Some [])"

definition field_records ::
  "nat \<Rightarrow> 'u pb_env \<Rightarrow> mem \<Rightarrow> (pb_field list \<Rightarrow> nat \<Rightarrow> wire_record list option) \<Rightarrow> pb_field \<Rightarrow> nat \<Rightarrow> wire_record list option" where
  "field_records n env h sub field p =
     (let at = PB_ATYPE (fld_type field)
      in if at = PB_ATYPE_STATIC \<or> at = PB_ATYPE_POINTER then basic_records n env h sub field p
         else if at = PB_ATYPE_CALLBACK \<and> load h p 8 = 0 then Some [] else None)"

text \<open>The chain of extensions from the address \<open>e\<close> on, all of the default kind.\<close>

fun extension_records ::
  "nat \<Rightarrow> nat \<Rightarrow> 'u pb_env \<Rightarrow> mem \<Rightarrow> (pb_field list \<Rightarrow> nat \<Rightarrow> wire_record list option) \<Rightarrow> nat \<Rightarrow> wire_record list option" where
  "extension_records 0 n env h sub e = (if e = 0 then Some [] else None)"
| "extension_records (Suc k) n env h sub e =
     (if e = 0 then Some []
      else if load h (load h e 8 + 8) 8 \<noteq> 0 then None
      else
        (let field = field_at (descriptors env (load h (load h e 8 + 16) 8)) 0
         in case field_records n env h sub field
                   (if PB_ATYPE (fld_type field) = PB_ATYPE_POINTER then e + 8 else load h (e + 8) 8) of
              None \<Rightarrow> None
            | Some ws \<Rightarrow> map_option (\<lambda>vs. ws @ vs) (extension_records k n env h sub (load h (e + 16) 8))))"

fun message_records :: "nat \<Rightarrow> 'u pb_env \<Rightarrow> mem \<Rightarrow> pb_field list \<Rightarrow> nat \<Rightarrow> wire_record list option" where
  "message_records 0 env h fs a = None"
| "message_records (Suc n) env h fs a =
     map_option concat
       (those (map (\<lambda>(field, p).
          if PB_LTYPE (fld_type field) = PB_LTYPE_EXTENSION
          then extension_records (Suc n) (Suc n) env h (message_records n env h) (load h p 8)
          else field_records (Suc n) env h (message_records n env h) field p) (layout fs a)))"

lemma tag_emitter: "tag_ok (wt, num) \<Longrightarrow> emitter (\<lambda>s. Some (pb_encode_tag s wt num)) (tag_bytes (wt, num))"
  by (simp add: pb_encode_tag_eq write_emitter)

text \<open>The wire type of a value is that of its field.\<close>

lemma item_wire_type:
  assumes "item_value env h sub field a = Some w"
  shows "pb_encode_tag_for_field s field = pb_encode_tag s (wire_type_of w) (fld_tag field)"
  using assms by (auto simp: item_value_def pb_encode_tag_for_field_def Let_def ltype_defs split: if_splits)

lemma wire_type_ok: "tag_ok (wire_type_of w, n) \<longleftrightarrow> n < 2 ^ 29 \<and> n \<noteq> 0"
  by (cases w) (simp_all add: tag_ok_def)

lemma one_emitter:
  assumes "one_record (item_value env h sub) field a = Some ws"
    and "\<And>w. item_value env h sub field a = Some w \<Longrightarrow> emitter (\<lambda>s. func s field a) (wire_bytes w)"
  shows "emitter (\<lambda>s. or_return (Some (pb_encode_tag_for_field s field)) (\<lambda>s. func s field a)) (message_bytes ws)"
proof -
  from assms(1) obtain w where w: "item_value env h sub field a = Some w" "ws = [(fld_tag field, w)]"
    "fld_tag field < 2 ^ 29" "fld_tag field \<noteq> 0"
    by (auto simp: one_record_def split: if_splits)
  then have "tag_ok (wire_type_of w, fld_tag field)" by (simp add: wire_type_ok)
  from emitter_seq [OF tag_emitter [OF this] assms(2) [OF w(1)]] show ?thesis
    by (simp add: item_wire_type [OF w(1)] w(2) record_bytes_def)
qed

lemma those_Cons_Some: "those (x # xs) = Some zs \<longleftrightarrow> (\<exists>y ys. x = Some y \<and> those xs = Some ys \<and> zs = y # ys)"
  by (auto split: option.splits)

lemma packed_emitter:
  assumes "\<And>a w. val field a = Some w \<Longrightarrow> emitter (\<lambda>s. func s field a) (wire_bytes w)"
    and "those (map (val field) (entries p (unat (data_size field)) k)) = Some ws"
  shows "emitter (packed_items func field p k) (concat (map wire_bytes ws))"
  using assms(2)
proof (induction k arbitrary: p ws)
  case 0
  then show ?case by (simp add: nothing_emitter)
next
  case (Suc k)
  then obtain w vs where "val field p = Some w" "ws = w # vs"
    "those (map (val field) (entries (p + unat (data_size field)) (unat (data_size field)) k)) = Some vs"
    by (auto simp: those_Cons_Some simp del: those.simps)
  with emitter_seq [OF assms(1) Suc.IH] show ?case by simp
qed

lemma tagged_emitter:
  assumes "\<And>a w. item_value env h sub field a = Some w \<Longrightarrow> emitter (\<lambda>s. func s field a) (wire_bytes w)"
    and "deref \<longleftrightarrow> PB_ATYPE (fld_type field) = PB_ATYPE_POINTER \<and>
      (PB_LTYPE (fld_type field) = PB_LTYPE_STRING \<or> PB_LTYPE (fld_type field) = PB_LTYPE_BYTES)"
    and "those (map (\<lambda>a. one_record (item_value env h sub) field (if deref then load h a 8 else a))
      (entries p (unat (data_size field)) k)) = Some ws"
  shows "emitter (tagged_items h func field p k) (message_bytes (concat ws))"
  using assms(3)
proof (induction k arbitrary: p ws)
  case 0
  then show ?case by (simp add: nothing_emitter)
next
  case (Suc k)
  let ?a = "if deref then load h p 8 else p"
  from Suc.prems obtain w vs where w: "one_record (item_value env h sub) field ?a = Some w" "ws = w # vs"
    and vs: "those (map (\<lambda>a. one_record (item_value env h sub) field (if deref then load h a 8 else a))
      (entries (p + unat (data_size field)) (unat (data_size field)) k)) = Some vs"
    by (auto simp: those_Cons_Some simp del: those.simps)
  have "emitter (\<lambda>s. or_return (or_return (Some (pb_encode_tag_for_field s field)) (\<lambda>s. func s field ?a))
     (tagged_items h func field (p + unat (data_size field)) k)) (message_bytes (concat ws))"
    using emitter_seq [OF one_emitter [OF w(1), where func = func, OF assms(1)] Suc.IH [OF vs]] w(2) by simp
  then show ?case
    by (rule emitter_cong) (auto simp: or_return_def assms(2) split: option.split bool.split prod.split)
qed

text \<open>A counted run: its length, determined by a first run that only counts or by arithmetic, and its bytes.\<close>

lemma counted_emitter:
  assumes "emitter g bs" and "length bs < size_max \<Longrightarrow> count = Some (True, length bs)"
  shows "emitter (\<lambda>s. case count of
      None \<Rightarrow> None | Some (False, _) \<Rightarrow> Some (False, s)
    | Some (True, sz) \<Rightarrow>
        or_return (Some (pb_encode_varint s (word_of_nat sz))) (\<lambda>s. if is_Sizing (sink s) then Some (pb_write s [] sz) else g s))
    (varint_bytes (of_nat (length bs)) @ bs)"
proof
  fix s :: "'a pb_ostream"
  assume s: "fine s" "bytes_written s + length (varint_bytes (of_nat (length bs)) @ bs) < size_max"
  let ?body = "\<lambda>s. if is_Sizing (sink s) then Some (pb_write s [] (length bs)) else g s"
  have "emitter ?body bs"
  proof
    fix s :: "'a pb_ostream"
    assume "fine s" "bytes_written s + length bs < size_max"
    then show "\<exists>r s'. ?body s = Some (r, s') \<and> emits bs s r s'"
      using sizing_write_emits [of s bs] emitter.runs [OF assms(1), of s] by auto
  qed
  from emitter.runs [OF emitter_seq [OF varint_emitter this] s] assms(2) s(2)
  show "\<exists>r s'. (case count of None \<Rightarrow> None | Some (False, _) \<Rightarrow> Some (False, s)
    | Some (True, sz) \<Rightarrow>
        or_return (Some (pb_encode_varint s (word_of_nat sz))) (\<lambda>s. if is_Sizing (sink s) then Some (pb_write s [] sz) else g s)) =
    Some (r, s') \<and> emits (varint_bytes (of_nat (length bs)) @ bs) s r s'"
    by simp
qed

lemma fixed_wire_length:
  assumes "those (map (item_value env h sub field) as) = Some ws"
  shows "PB_LTYPE (fld_type field) = PB_LTYPE_FIXED32 \<Longrightarrow> length (concat (map wire_bytes ws)) = 4 * length as"
    "PB_LTYPE (fld_type field) = PB_LTYPE_FIXED64 \<Longrightarrow> length (concat (map wire_bytes ws)) = 8 * length as"
  using assms
  by (induction as arbitrary: ws) (auto simp: those_Cons_Some item_value_def ltype_defs simp del: those.simps(2))

lemma length_entries [simp]: "length (entries p sz k) = k"
  by (induction k arbitrary: p) simp_all

lemma array_emitter:
  assumes "\<And>a w. item_value env h sub field a = Some w \<Longrightarrow> emitter (\<lambda>s. func s field a) (wire_bytes w)"
    and "array_records h (item_value env h sub) field p count = Some ws"
  shows "emitter (\<lambda>s. encode_array h s field p count func) (message_bytes ws)"
proof -
  consider (empty) "count = 0" "ws = []"
    | (packed) vs where "count \<noteq> 0" "PB_LTYPE (fld_type field) \<le> PB_LTYPE_LAST_PACKABLE"
        "\<not> (PB_ATYPE (fld_type field) \<noteq> PB_ATYPE_POINTER \<and> count > unat (array_size field))"
        "0 < fld_tag field" "fld_tag field < 2 ^ 29"
        "those (map (item_value env h sub field) (entries p (unat (data_size field)) count)) = Some vs"
        "ws = [(fld_tag field, WBytes (concat (map wire_bytes vs)))]"
    | (tagged) vs where "count \<noteq> 0" "\<not> PB_LTYPE (fld_type field) \<le> PB_LTYPE_LAST_PACKABLE"
        "\<not> (PB_ATYPE (fld_type field) \<noteq> PB_ATYPE_POINTER \<and> count > unat (array_size field))"
        "those (map (\<lambda>a. one_record (item_value env h sub) field
            (if PB_ATYPE (fld_type field) = PB_ATYPE_POINTER \<and>
              (PB_LTYPE (fld_type field) = PB_LTYPE_STRING \<or> PB_LTYPE (fld_type field) = PB_LTYPE_BYTES) then load h a 8 else a))
          (entries p (unat (data_size field)) count)) = Some vs" "ws = concat vs"
    using assms(2) by (auto simp: array_records_def Let_def split: if_splits)
  then show ?thesis
  proof cases
    case empty
    then show ?thesis by (simp add: encode_array_def nothing_emitter)
  next
    case (packed vs)
    let ?bs = "concat (map wire_bytes vs)"
    let ?t = "PB_LTYPE (fld_type field)"
    let ?count = "if ?t = PB_LTYPE_FIXED32 then Some (True, 4 * count) else if ?t = PB_LTYPE_FIXED64 then Some (True, 8 * count)
      else map_option (\<lambda>(r, sizestream). (r, bytes_written sizestream)) (packed_items func field p count PB_OSTREAM_SIZING)"
    have tag: "tag_ok (PB_WT_STRING, fld_tag field)" using packed(4,5) by (simp add: tag_ok_def)
    have e: "emitter (packed_items func field p count) ?bs" using assms(1) packed(6) by (rule packed_emitter)
    have c: "?count = Some (True, length ?bs)" if len: "length ?bs < size_max"
    proof -
      obtain s' where "packed_items func field p count PB_OSTREAM_SIZING = Some (True, s')" "bytes_written s' = length ?bs"
        by (rule emitter.sizes [OF e len])
      with fixed_wire_length [OF packed(6)] show ?thesis by auto
    qed
    show ?thesis
      using emitter_seq [OF tag_emitter [OF tag] counted_emitter [OF e c]] packed
      unfolding encode_array_def by (simp only: if_False if_True) (simp add: record_bytes_def)
  next
    case (tagged vs)
    show ?thesis
      using tagged_emitter [where func = func, OF assms(1) refl tagged(4)] tagged
      unfolding encode_array_def by (simp only: if_False)
  qed
qed

lemma basic_emitter:
  assumes "\<And>fs a ws. sub fs a = Some ws \<Longrightarrow> emitter (\<lambda>s. enc s fs a) (message_bytes ws)"
    and "basic_records n env h sub field p = Some ws"
  shows "emitter (\<lambda>s. encode_basic_field n env h enc s field p) (message_bytes ws)"
proof -
  have func: "emitter (\<lambda>s. encoder_of env h enc s field a) (wire_bytes w)" if "item_value env h sub field a = Some w" for a w
    using assms(1) that by (rule item_emitter)
  have one: "emitter (\<lambda>s. or_return (Some (pb_encode_tag_for_field s field)) (\<lambda>s. encoder_of env h enc s field d)) (message_bytes vs)"
    if "one_record (item_value env h sub) field d = Some vs" for d vs
    using one_emitter [OF that, where func = "encoder_of env h enc", OF func] .
  have arr: "emitter (\<lambda>s. encode_array h s field d count (encoder_of env h enc)) (message_bytes vs)"
    if "array_records h (item_value env h sub) field d count = Some vs" for d count vs
    using array_emitter [where func = "encoder_of env h enc", OF func that] .
  consider "PB_HTYPE (fld_type field) = PB_HTYPE_REQUIRED" | "PB_HTYPE (fld_type field) = PB_HTYPE_REPEATED"
    | "PB_HTYPE (fld_type field) = PB_HTYPE_OPTIONAL"
    | "PB_HTYPE (fld_type field) \<notin> {PB_HTYPE_REQUIRED, PB_HTYPE_REPEATED, PB_HTYPE_OPTIONAL}" by auto
  then show ?thesis
  proof cases
    case 1
    with assms(2) one show ?thesis
      by (auto simp: basic_records_def encode_basic_field_eq Let_def split: if_splits)
  next
    case 2
    with assms(2) arr show ?thesis
      by (auto simp: basic_records_def encode_basic_field_eq Let_def htype_defs split: if_splits)
  next
    case 3
    with assms(2) one show ?thesis
      by (auto simp: basic_records_def encode_basic_field_eq Let_def htype_defs nothing_emitter split: if_splits option.splits)
  next
    case 4
    with assms(2) one show ?thesis
      by (auto simp: basic_records_def encode_basic_field_eq Let_def nothing_emitter split: if_splits)
  qed
qed

lemma field_emitter:
  assumes "\<And>fs a ws. sub fs a = Some ws \<Longrightarrow> emitter (\<lambda>s. enc s fs a) (message_bytes ws)"
    and "field_records n env h sub field p = Some ws"
  shows "emitter (\<lambda>s. encode_field n env h enc s field p) (message_bytes ws)"
  using assms(2) basic_emitter [of sub enc n env h field p ws, OF assms(1)]
  by (auto simp: field_records_def encode_field_def encode_callback_field_def Let_def atype_defs nothing_emitter split: if_splits)

lemma extension_emitter:
  assumes "\<And>fs a ws. sub fs a = Some ws \<Longrightarrow> emitter (\<lambda>s. enc s fs a) (message_bytes ws)"
  shows "extension_records k n env h sub e = Some ws \<Longrightarrow> emitter (extension_loop k n env h enc e) (message_bytes ws)"
proof (induction k arbitrary: e ws)
  case 0
  then show ?case by (auto simp: nothing_emitter split: if_splits)
next
  case (Suc k)
  show ?case
  proof (cases "e = 0")
    case True
    with Suc.prems show ?thesis by (simp add: nothing_emitter)
  next
    case False
    let ?field = "field_at (descriptors env (load h (load h e 8 + 16) 8)) 0"
    let ?p = "if PB_ATYPE (fld_type ?field) = PB_ATYPE_POINTER then e + 8 else load h (e + 8) 8"
    from Suc.prems False obtain us vs where c: "load h (load h e 8 + 8) 8 = 0"
      "field_records n env h sub ?field ?p = Some us" "extension_records k n env h sub (load h (e + 16) 8) = Some vs" "ws = us @ vs"
      by (auto simp: Let_def split: if_splits option.splits)
    have "emitter (\<lambda>s. or_return (encode_field n env h enc s ?field ?p) (extension_loop k n env h enc (load h (e + 16) 8)))
      (message_bytes ws)"
      using emitter_seq [OF field_emitter [OF assms c(2)] Suc.IH [OF c(3)]] c(4) by simp
    then show ?thesis
      by (rule emitter_cong) (use c(1) False in \<open>simp add: Let_def default_extension_encoder_def\<close>)
  qed
qed

lemma run_fields_emitter:
  assumes "\<And>f p ws. rec f p = Some ws \<Longrightarrow> emitter (g f p) (message_bytes ws)"
  shows "those (map (\<lambda>(f, p). rec f p) l) = Some vs \<Longrightarrow> emitter (run_fields g l) (message_bytes (concat vs))"
proof (induction l arbitrary: vs)
  case Nil
  then show ?case by (simp add: nothing_emitter)
next
  case (Cons x l)
  obtain f p where x: "x = (f, p)" by force
  with Cons.prems obtain us ws where c: "rec f p = Some us" "those (map (\<lambda>(f, p). rec f p) l) = Some ws" "vs = us # ws"
    by (auto simp: those_Cons_Some simp del: those.simps(2))
  have "emitter (\<lambda>s. or_return (g f p s) (run_fields g l)) (message_bytes (concat vs))"
    using emitter_seq [OF assms [OF c(1)] Cons.IH [OF c(2)]] c(3) by simp
  then show ?case by (simp add: x)
qed

lemma message_emitter:
  "message_records n env h fs a = Some ws \<Longrightarrow> emitter (\<lambda>s. pb_encode n env h s fs a) (message_bytes ws)"
proof (induction n arbitrary: fs a ws)
  case 0
  then show ?case by simp
next
  case (Suc n)
  let ?sub = "message_records n env h"
  let ?rec = "\<lambda>field p. if PB_LTYPE (fld_type field) = PB_LTYPE_EXTENSION then extension_records (Suc n) (Suc n) env h ?sub (load h p 8)
    else field_records (Suc n) env h ?sub field p"
  let ?g = "\<lambda>field p s. if PB_LTYPE (fld_type field) = PB_LTYPE_EXTENSION
    then encode_extension_field (Suc n) env h (pb_encode n env h) s field p else encode_field (Suc n) env h (pb_encode n env h) s field p"
  have f: "emitter (?g field p) (message_bytes vs)" if "?rec field p = Some vs" for field p vs
    using that extension_emitter [of ?sub "pb_encode n env h" "Suc n" "Suc n" env h "load h p 8" vs, OF Suc.IH]
      field_emitter [of ?sub "pb_encode n env h" "Suc n" env h field p vs, OF Suc.IH]
    by (simp add: encode_extension_field_def del: extension_loop.simps extension_records.simps split: if_splits)
  from Suc.prems obtain vs where vs: "those (map (\<lambda>(f, p). ?rec f p) (layout fs a)) = Some vs" "ws = concat vs" by auto
  show ?case
    unfolding pb_encode_layout vs(2) by (rule run_fields_emitter [of ?rec ?g, OF f vs(1)])
qed

text \<open>The example.\<close>

definition example_memory :: mem where
  "example_memory a = (if a = 200 then 0x05 else if a = 208 then 0x90 else if a = 209 then 0x01
     else if a = 216 then 0x07 else if a = 217 then 0xC8 else if a = 400 then 0x96 else if a = 401 then 1 else 0)"

definition example_records :: "wire_record list" where
  "example_records = [(1, WVarint 10), (2, WBytes [0x08, 0x96, 0x03]), (3, WBytes [0x07, 0xC8, 0x01])]"

lemma entries_numeral [simp]: "entries p sz (numeral k) = p # entries (p + sz) sz (pred_numeral k)"
  by (simp add: numeral_eq_Suc)

lemma example_layout:
  "layout example_outer 200 = [(example_outer ! 0, 200), (example_outer ! 1, 208), (example_outer ! 2, 216)]"
  "layout example_inner 400 = [(example_inner ! 0, 400)]"
  by (simp_all add: example_defs next_addr_def ptr_add_def pb_type_defs size_max_def PB_SIZE_MAX_def)

lemma read_bytes_numeral: "read_bytes h a (numeral k) = h a # read_bytes h (Suc a) (pred_numeral k)"
  by (simp add: numeral_eq_Suc read_bytes_Suc)

lemma example_load [simp]:
  "load example_memory 200 4 = 5" "load example_memory 208 8 = 400" "load example_memory 216 (Suc 0) = 7"
  "load example_memory 217 (Suc 0) = 200" "load example_memory 400 4 = 406"
  by (simp_all add: load_def read_bytes_numeral read_bytes_Suc example_memory_def)

lemmas example_eval = field_records_def basic_records_def one_record_def item_value_def array_records_def Let_def load_signed_def
  pb_type_defs

lemma example_inner_records:
  "message_records (Suc 0) example_env example_memory example_inner 400 = Some [(1, WVarint 406)]"
  unfolding message_records.simps(2) example_layout by (simp add: example_inner_def example_eval)

lemma example_inner_bytes: "message_bytes [(1, WVarint 406)] = [0x08, 0x96, 0x03]"
  by code_simp

lemma example_memory_zero: "\<not> list_all (\<lambda>i. example_memory (200 + i) = 0) [0..<4]"
  by (simp add: example_memory_def upt_rec)

lemma example_packed: "zigzag 5 = 10" "varint_bytes 7 = [0x07]" "varint_bytes 200 = [0xC8, 0x01]"
  by code_simp+

lemma example_sub: "descriptors example_env 100 = example_inner" "message_records (Suc 0) example_env example_memory example_inner 400 = Some [(1, WVarint 406)]"
  "message_bytes [(1, WVarint 406)] = [0x08, 0x96, 0x03]"
  using example_inner_records example_inner_bytes by (simp_all add: example_env_def del: message_records.simps message_bytes_simps)

lemma example_fields:
  "field_records (Suc (Suc 0)) example_env example_memory (message_records (Suc 0) example_env example_memory) (example_outer ! 0) 200
    = Some [(1, WVarint 10)]"
  "field_records (Suc (Suc 0)) example_env example_memory (message_records (Suc 0) example_env example_memory) (example_outer ! 1) 208
    = Some [(2, WBytes [0x08, 0x96, 0x03])]"
  "field_records (Suc (Suc 0)) example_env example_memory (message_records (Suc 0) example_env example_memory) (example_outer ! 2) 216
    = Some [(3, WBytes [0x07, 0xC8, 0x01])]"
  by (simp_all add: example_eval example_outer_def default_value_def example_sub example_memory_zero example_packed
      del: message_records.simps message_bytes_simps)

lemma example_types:
  "PB_LTYPE (fld_type (example_outer ! 0)) \<noteq> PB_LTYPE_EXTENSION" "PB_LTYPE (fld_type (example_outer ! 1)) \<noteq> PB_LTYPE_EXTENSION"
  "PB_LTYPE (fld_type (example_outer ! 2)) \<noteq> PB_LTYPE_EXTENSION"
  by (simp_all add: example_outer_def pb_type_defs)

lemma example_records_ok: "message_records 2 example_env example_memory example_outer 200 = Some example_records"
proof -
  have "message_records (Suc (Suc 0)) example_env example_memory example_outer 200 = Some example_records"
    unfolding message_records.simps(2) [of "Suc 0"] example_layout
    by (simp add: example_fields example_types example_records_def del: One_nat_def message_records.simps)
  then show ?thesis by (simp only: numeral_2_eq_2)
qed

lemma example_bytes: "message_bytes example_records = [0x08, 0x0A, 0x12, 0x03, 0x08, 0x96, 0x03, 0x1A, 0x03, 0x07, 0xC8, 0x01]"
  by code_simp

text \<open>(C5) Encoding into a buffer of \<open>n\<close> bytes writes the message's records exactly when they fit.  Otherwise it fails, after a
  prefix of them.  In both cases nothing outside the buffer changes.\<close>

theorem pb_encode_refines:
  assumes "message_records k env h fs a = Some ws" "length (message_bytes ws) < size_max" "n < size_max"
  shows "\<exists>ok s. pb_encode k env h (pb_ostream_from_buffer m buf n) fs a = Some (ok, s) \<and>
     (ok \<longleftrightarrow> length (message_bytes ws) \<le> n) \<and>
     (\<exists>pre suf. message_bytes ws = pre @ suf \<and> length pre \<le> n \<and> (ok \<longrightarrow> suf = [] \<and> os_errmsg s = None) \<and>
       bytes_written s = length pre \<and> sink s = Buf_write (write_bytes m buf pre) (buf + length pre))"
  by (rule emitter.buffered [OF message_emitter [OF assms(1)] assms(2,3)])

theorem pb_encode_refines_witness:
  "\<exists>s. pb_encode 2 example_env example_memory (pb_ostream_from_buffer (\<lambda>_. 0) 500 12) example_outer 200 = Some (True, s) \<and>
     bytes_written s = 12"
proof -
  have "length (message_bytes example_records) = 12" "(12 :: nat) < size_max" by (simp_all add: example_bytes size_max_def)
  with pb_encode_refines [OF example_records_ok, of 12 "\<lambda>_. 0" 500] show ?thesis by (metis append_Nil2 order_refl)
qed

text \<open>(C22) The size that \<open>pb_get_encoded_size\<close> reports is the number of bytes that the message's records take.\<close>

theorem pb_get_encoded_size_exact:
  assumes "message_records k env h fs a = Some ws" "length (message_bytes ws) < size_max"
  shows "pb_get_encoded_size k env h fs a = Some (Some (length (message_bytes ws)))"
proof -
  obtain s where "pb_encode k env h PB_OSTREAM_SIZING fs a = Some (True, s)" "bytes_written s = length (message_bytes ws)"
    by (rule emitter.sizes [OF message_emitter [OF assms(1)] assms(2)])
  then show ?thesis by (simp add: pb_get_encoded_size_def)
qed

theorem pb_get_encoded_size_exact_witness:
  "pb_get_encoded_size 2 example_env example_memory example_outer 200 = Some (Some 12)"
  using pb_get_encoded_size_exact [OF example_records_ok] by (simp add: example_bytes size_max_def)


end
