(* ===== verification/Pb_Values.thy ===== *)
theory Pb_Values
  imports Pb_Safe Pb_Records
begin

text \<open>
  Single values: a decoder that reads what the encoder has written for a value stores a value that encodes in the same way.
\<close>

section \<open>Stores and loads\<close>

lemma le_nat_le_bytes: "le_nat (le_bytes n v) = v mod 256 ^ n"
proof (induction n arbitrary: v)
  case (Suc n)
  have "unat (word_of_nat v :: byte) = v mod 256" by (simp add: unat_of_nat)
  then show ?case by (simp add: Suc.IH mod_mult2_eq)
qed simp

lemma load_cong: "(\<And>x. x \<in> {p..<p + n} \<Longrightarrow> h x = h' x) \<Longrightarrow> load h p n = load h' p n"
  unfolding load_def using read_bytes_cong [of p n h h'] by simp

lemma load_put [simp]: "load (bytes_of (put hp p n v)) p n = v mod 256 ^ n"
  using read_write_same [of "bytes_of hp" p "le_bytes n v"] by (simp add: load_def put_def put_bytes_def le_nat_le_bytes)

lemma unat_word_mod [simp]:
  "unat (v :: u64) mod 18446744073709551616 = unat v" "unat (w :: u32) mod 4294967296 = unat w"
  "unat (x :: u16) mod 65536 = unat x" "unat (b :: byte) mod 256 = unat b"
  using unsigned_less [of v, where 'a = nat] unsigned_less [of w, where 'a = nat]
    unsigned_less [of x, where 'a = nat] unsigned_less [of b, where 'a = nat] by simp_all

lemma narrow_widened:
  "ucast (scast (w :: u32) :: u64) = w" "ucast (scast (x :: u16) :: u64) = x" "ucast (scast (b :: byte) :: u64) = b"
  "ucast (ucast w :: u64) = w" "ucast (ucast x :: u64) = x" "ucast (ucast b :: u64) = b"
  by (rule bit_word_eqI, auto simp: bit_simps)+

lemma widen_twice:
  "scast (ucast (scast (w :: u32) :: u64) :: u32) = (scast w :: u64)"
  "scast (ucast (scast (x :: u16) :: u64) :: u32) = (scast x :: u64)"
  "scast (ucast (scast (b :: byte) :: u64) :: u32) = (scast b :: u64)"
  by (rule bit_word_eqI, simp add: bit_simps min_less_iff_disj flip: min.assoc)+

lemma store_signed_load:
  assumes "load_signed h sz a = Some v"
  shows "\<exists>hp'. store_signed sz p v hp = Some (v, hp') \<and> load_signed (bytes_of hp') sz p = Some v"
  using assms by (auto simp: load_signed_def store_signed_def narrow_widened split: if_splits)

lemma signed_width: "load_signed h sz a = Some v \<Longrightarrow> sz \<noteq> 8 \<Longrightarrow> scast (ucast v :: u32) = v"
  by (auto simp: load_signed_def widen_twice split: if_splits)

lemma load_bounds: "load h a 1 < 256" "load h a 2 < 65536" "load h a 4 < 4294967296"
  using le_nat_bound [of "read_bytes h a 1"] le_nat_bound [of "read_bytes h a 2"] le_nat_bound [of "read_bytes h a 4"]
  by (simp_all add: load_def)

lemma store_unsigned_load:
  assumes "sz \<in> {1, 2, 4, 8 :: u32}" "v = word_of_nat (load h a (unat sz))"
  shows "\<exists>hp'. store_unsigned sz p v hp = Some (v, hp') \<and> word_of_nat (load (bytes_of hp') p (unat sz)) = v"
proof -
  have "(word_of_nat (load h a 1) :: u64) = ucast (word_of_nat (load h a 1) :: byte)"
    "(word_of_nat (load h a 2) :: u64) = ucast (word_of_nat (load h a 2) :: u16)"
    "(word_of_nat (load h a 4) :: u64) = ucast (word_of_nat (load h a 4) :: u32)"
    using load_bounds [of h a] by (simp_all add: word_eq_iff_unsigned unsigned_of_nat take_bit_nat_eq_self)
  then show ?thesis
    using assms by (auto simp: store_unsigned_def narrow_widened)
qed

section \<open>Values\<close>

text \<open>\<open>restores\<close>: a decoder at the front of \<open>wire_bytes w\<close> consumes exactly these bytes and stores a value that encodes as \<open>w\<close> again.\<close>

definition restores :: "(mem \<Rightarrow> wire_value option) \<Rightarrow> wire_value \<Rightarrow> 'u dstate \<Rightarrow> 'u din \<Rightarrow> bool" where
  "restores val w st x \<longleftrightarrow> (\<exists>hp. x = Some (True, iskip (fst st) (length (wire_bytes w)), hp) \<and> val (bytes_of hp) = Some w)"

lemma number_restored:
  assumes "istream_ok (fst st)" "ibuf (fst st) = wire_bytes w @ r" "item_value penv h sub f a = Some w"
    and "PB_LTYPE (fld_type f) \<le> PB_LTYPE_LAST_PACKABLE"
  shows "restores (\<lambda>h. item_value penv h sub f p) w st (decoder_of n env noinit f p st)"
proof -
  define t where "t = PB_LTYPE (fld_type f)"
  have "t \<in> {0, 1, 2, 3, 4, 5, 6, 7, 8, 9, 10}"
    using assms(4) by (intro ltype_small) (simp add: t_def ltype_defs word_le_nat_alt)
  with assms(4) consider "t = PB_LTYPE_BOOL" | "t = PB_LTYPE_VARINT" | "t = PB_LTYPE_UVARINT" | "t = PB_LTYPE_SVARINT"
    | "t = PB_LTYPE_FIXED32" | "t = PB_LTYPE_FIXED64" by (auto simp: ltype_defs t_def [symmetric])
  then show ?thesis
  proof cases
    case 1
    with assms(3) have w: "w = WVarint (ucast (of_bool (h a \<noteq> 0) :: u32))" by (auto simp: item_value_def t_def [symmetric] Let_def)
    with pb_decode_varint32_bytes [OF assms(1), of "of_bool (h a \<noteq> 0)" r] assms(2) 1 show ?thesis
      by (auto simp: decoder_of_eq t_def [symmetric] Let_def pb_dec_bool_def restores_def item_value_def put_def put_bytes_def write_bytes_def)
  next
    case 2
    with assms(3) obtain v where v: "w = WVarint v" "load_signed h (data_size f) a = Some v"
      by (auto simp: item_value_def t_def [symmetric] Let_def ltype_defs)
    obtain hp' where hp: "store_signed (data_size f) p v (snd st) = Some (v, hp')" "load_signed (bytes_of hp') (data_size f) p = Some v"
      using store_signed_load [OF v(2)] by blast
    have e: "(if data_size f = 8 then v else scast (ucast v :: u32)) = v" using signed_width [OF v(2)] by simp
    from pb_decode_varint_bytes [OF assms(1), of v r] assms(2) v(1) 2 hp show ?thesis
      by (auto simp: decoder_of_eq t_def [symmetric] Let_def pb_dec_varint_def restores_def item_value_def store_checked_def ltype_defs e)
  next
    case 3
    with assms(3) have v: "data_size f \<in> {1, 2, 4, 8}" "w = WVarint (word_of_nat (load h a (unat (data_size f))))"
      by (auto simp: item_value_def t_def [symmetric] Let_def ltype_defs split: if_splits)
    define v' where "v' = (word_of_nat (load h a (unat (data_size f))) :: u64)"
    obtain hp' where hp: "store_unsigned (data_size f) p v' (snd st) = Some (v', hp')"
      "word_of_nat (load (bytes_of hp') p (unat (data_size f))) = v'"
      using store_unsigned_load [OF v(1) v'_def] by blast
    from pb_decode_varint_bytes [OF assms(1), of v' r] assms(2) v 3 hp show ?thesis
      by (simp add: decoder_of_eq t_def [symmetric] Let_def pb_dec_uvarint_def restores_def item_value_def store_checked_def ltype_defs v'_def [symmetric])
  next
    case 4
    with assms(3) obtain v where v: "w = WVarint (zigzag v)" "load_signed h (data_size f) a = Some v"
      by (auto simp: item_value_def t_def [symmetric] Let_def ltype_defs)
    obtain hp' where hp: "store_signed (data_size f) p v (snd st) = Some (v, hp')" "load_signed (bytes_of hp') (data_size f) p = Some v"
      using store_signed_load [OF v(2)] by blast
    from pb_decode_svarint_bytes [OF assms(1), of v r] assms(2) v(1) 4 hp show ?thesis
      by (auto simp: decoder_of_eq t_def [symmetric] Let_def pb_dec_svarint_def restores_def item_value_def store_checked_def ltype_defs)
  next
    case 5
    with assms(3) obtain v where v: "w = WFixed32 v" by (auto simp: item_value_def t_def [symmetric] Let_def ltype_defs)
    with pb_decode_fixed32_bytes [OF assms(1), of v r] assms(2) 5 show ?thesis
      by (auto simp: decoder_of_eq t_def [symmetric] Let_def pb_dec_fixed32_def restores_def item_value_def ltype_defs)
  next
    case 6
    with assms(3) obtain v where v: "w = WFixed64 v" by (auto simp: item_value_def t_def [symmetric] Let_def ltype_defs)
    with pb_decode_fixed64_bytes [OF assms(1), of v r] assms(2) 6 show ?thesis
      by (auto simp: decoder_of_eq t_def [symmetric] Let_def pb_dec_fixed64_def restores_def item_value_def ltype_defs)
  qed
qed

text \<open>Strings and byte arrays.\<close>

lemma length_prefix:
  assumes "istream_ok s" "ibuf s = wire_bytes (WBytes bs) @ r" "length bs < 2 ^ 32"
  defines "k \<equiv> length (varint_bytes (of_nat (length bs)))"
  shows "pb_decode_varint32 s = (Some (of_nat (length bs)), iskip s k)" "istream_ok (iskip s k)" "ibuf (iskip s k) = bs @ r"
    "unat (of_nat (length bs) :: u32) = length bs" "length (wire_bytes (WBytes bs)) = k + length bs"
proof -
  let ?n = "of_nat (length bs) :: u32"
  have n: "(of_nat (length bs) :: u64) = ucast ?n" using assms(3) by (rule of_nat_u64_u32)
  show "pb_decode_varint32 s = (Some ?n, iskip s k)"
    unfolding k_def n by (rule pb_decode_varint32_bytes) (use assms n in simp_all)
  show "istream_ok (iskip s k)" "ibuf (iskip s k) = bs @ r" "length (wire_bytes (WBytes bs)) = k + length bs"
    using assms(1,2) by (simp_all add: k_def)
  show "unat ?n = length bs" using assms(3) by (rule unat_of_nat_u32)
qed

lemma read_into_restored:
  assumes "istream_ok s" "ibuf s = bs @ r"
  shows "read_into p (length bs) (s, hp) = Some (True, iskip s (length bs), put_bytes hp p bs)"
  using pb_read_append [OF assms] by (simp add: read_into_def)

lemma string_size_found:
  assumes "\<forall>j < n. h (a + j) \<noteq> 0" "h (a + n) = 0" "n \<le> limit" "k \<le> n"
  shows "string_size h a limit k = n"
  using assms(4)
proof (induction "n - k" arbitrary: k)
  case 0
  then show ?case using assms(2) by (subst string_size.simps) simp
next
  case (Suc d)
  then have "k < n" "d = n - (k + 1)" by linarith+
  with assms Suc.hyps(1) [of "k + 1"] show ?case by (subst string_size.simps) simp
qed

lemma string_size_nonzero: "j < string_size h a limit k \<Longrightarrow> k \<le> j \<Longrightarrow> h (a + j) \<noteq> 0"
proof (induction h a limit k rule: string_size.induct)
  case (1 h a limit k)
  from 1(2) have c: "k < limit" "h (a + k) \<noteq> 0" "string_size h a limit k = string_size h a limit (k + 1)"
    using 1(3) by (auto simp: string_size.simps [of h a limit k] split: if_splits)
  show ?case
  proof (cases "j = k")
    case True
    with c show ?thesis by simp
  next
    case False
    with 1 c show ?thesis by simp
  qed
qed

lemma string_restored:
  assumes "istream_ok (fst st)" "ibuf (fst st) = wire_bytes w @ r" "item_value penv h sub f a = Some w"
    and "PB_LTYPE (fld_type f) = PB_LTYPE_STRING" "PB_ATYPE (fld_type f) = PB_ATYPE_STATIC" "a \<noteq> 0" "p \<noteq> 0"
    and "string_size h a (unat (data_size f)) 0 < unat (data_size f)"
  shows "restores (\<lambda>h. item_value penv h sub f p) w st (decoder_of n env noinit f p st)"
proof -
  define m where "m = string_size h a (unat (data_size f)) 0"
  define bs where "bs = read_bytes h a m"
  have np: "PB_ATYPE (fld_type f) \<noteq> PB_ATYPE_POINTER" using assms(5) by (simp add: atype_defs)
  have bs: "w = WBytes bs" "length bs = m" "\<forall>j < m. bs ! j \<noteq> 0"
    using assms(3-7) np string_size_nonzero [of _ h a "unat (data_size f)" 0]
    by (auto simp: item_value_def Let_def ltype_defs bs_def m_def read_bytes_def)
  have m: "m < unat (data_size f)" "m + 1 < 2 ^ 32"
    using assms(8) unsigned_less [of "data_size f", where 'a = nat] by (simp_all add: m_def)
  then have len: "length bs < 2 ^ 32" by (simp add: bs(2))
  let ?s = "iskip (fst st) (length (varint_bytes (of_nat (length bs))))"
  note lp = length_prefix [OF assms(1) assms(2) [unfolded bs(1)] len]
  have al: "unat (of_nat (length bs) + 1 :: u32) = m + 1" using m(2) lp(4) by (simp add: bs(2) unat_word_ariths(1))
  let ?hp = "put (put_bytes (snd st) p bs) (p + m) 1 0"
  have "decoder_of n env noinit f p st = Some (True, iskip ?s (length bs), ?hp)"
    using lp(1,4) al m(1) np read_into_restored [OF lp(2,3), of p "snd st"] bs(2)
    by (simp add: decoder_of_eq assms(4) ltype_defs pb_dec_string_def dest_for_def Let_def)
  moreover have "bytes_of ?hp (p + j) = (if j < m then bs ! j else if j = m then 0 else bytes_of (snd st) (p + j))" for j
    using bs(2) by (simp add: put_def put_bytes_def write_bytes_def)
  then have h: "\<forall>j < m. bytes_of ?hp (p + j) = bs ! j" "bytes_of ?hp (p + m) = 0" by simp_all
  then have "string_size (bytes_of ?hp) p (unat (data_size f)) 0 = m" using bs(3) m(1) by (intro string_size_found) auto
  moreover have "read_bytes (bytes_of ?hp) p m = bs" using h(1) bs(2) by (intro nth_equalityI) (simp_all add: read_bytes_def)
  ultimately show ?thesis
    using lp(5) bs(1) assms(4,7) np by (auto simp: restores_def item_value_def Let_def ltype_defs)
qed

lemma bytes_restored:
  assumes "istream_ok (fst st)" "ibuf (fst st) = wire_bytes w @ r" "item_value penv h sub f a = Some w"
    and "PB_LTYPE (fld_type f) = PB_LTYPE_BYTES" "PB_ATYPE (fld_type f) = PB_ATYPE_STATIC" "a \<noteq> 0" "p \<noteq> 0"
    and "4 \<le> unat (data_size f)"
  shows "restores (\<lambda>h. item_value penv h sub f p) w st (decoder_of n env noinit f p st)"
proof -
  define m where "m = load h a 4"
  define bs where "bs = read_bytes h (a + 4) m"
  have np: "PB_ATYPE (fld_type f) \<noteq> PB_ATYPE_POINTER" using assms(5) by (simp add: atype_defs)
  have bs: "w = WBytes bs" "length bs = m" "m + 4 \<le> unat (data_size f)"
    using assms(3-8) np by (auto simp: item_value_def Let_def ltype_defs bs_def m_def split: if_splits)
  have m: "m + 4 < 2 ^ 32" using bs(3) unsigned_less [of "data_size f", where 'a = nat] by simp
  then have len: "length bs < 2 ^ 32" "size_add m 4 = m + 4" by (simp_all add: bs(2) size_add_def size_max_def)
  let ?s = "iskip (fst st) (length (varint_bytes (of_nat (length bs))))"
  note lp = length_prefix [OF assms(1) assms(2) [unfolded bs(1)] len(1)]
  have le: "\<not> (of_nat (length bs) :: u32) > PB_SIZE_MAX" by (simp add: PB_SIZE_MAX_def)
  let ?hp = "put_bytes (put (snd st) p 4 m) (p + 4) bs"
  have "decoder_of n env noinit f p st = Some (True, iskip ?s (length bs), ?hp)"
    using lp(1,4) len(2) le bs(3) np read_into_restored [OF lp(2,3), of "p + 4" "put (snd st) p 4 m"] bs(2)
    by (simp add: decoder_of_eq assms(4) ltype_defs pb_dec_bytes_def dest_for_def Let_def)
  moreover have "load (bytes_of ?hp) p 4 = load (bytes_of (put (snd st) p 4 m)) p 4"
    by (rule load_cong) (auto simp: put_bytes_def write_bytes_def)
  then have "load (bytes_of ?hp) p 4 = m" using m by simp
  moreover have "read_bytes (bytes_of ?hp) (p + 4) m = bs" using bs(2) by (simp add: put_bytes_def flip: bs(2))
  ultimately show ?thesis
    using lp(5) bs(1,3) assms(4,7) by (auto simp: restores_def item_value_def Let_def ltype_defs)
qed

lemma fixed_length_restored:
  assumes "istream_ok (fst st)" "ibuf (fst st) = wire_bytes w @ r" "item_value penv h sub f a = Some w"
    and "PB_LTYPE (fld_type f) = PB_LTYPE_FIXED_LENGTH_BYTES"
  shows "restores (\<lambda>h. item_value penv h sub f p) w st (decoder_of n env noinit f p st)"
proof -
  define bs where "bs = read_bytes h a (unat (data_size f))"
  have bs: "w = WBytes bs" "length bs = unat (data_size f)"
    using assms(3,4) by (auto simp: item_value_def Let_def ltype_defs bs_def)
  have len: "length bs < 2 ^ 32" using bs(2) unsigned_less [of "data_size f", where 'a = nat] by simp
  let ?s = "iskip (fst st) (length (varint_bytes (of_nat (length bs))))"
  note lp = length_prefix [OF assms(1) assms(2) [unfolded bs(1)] len]
  have sz: "(of_nat (length bs) :: u32) = data_size f" by (simp add: bs(2))
  have z: "bs = []" if "data_size f = 0" using that bs(2) by simp
  have "decoder_of n env noinit f p st = Some (True, iskip ?s (length bs), put_bytes (snd st) p bs)"
    using lp(1) sz z bs(2) read_into_restored [OF lp(2,3), of p "snd st"]
    by (auto simp: decoder_of_eq assms(4) ltype_defs pb_dec_fixed_length_bytes_def Let_def PB_SIZE_MAX_def)
  moreover have "read_bytes (bytes_of (put_bytes (snd st) p bs)) p (unat (data_size f)) = bs" by (simp add: put_bytes_def flip: bs(2))
  ultimately show ?thesis
    using lp(5) bs(1) assms(4) by (auto simp: restores_def item_value_def Let_def ltype_defs)
qed

end
