(* ===== verification/Pb_Roundtrip.thy ===== *)
theory Pb_Roundtrip
  imports Pb_Static Pb_Values
begin

text \<open>
  Whole messages: what \<open>pb_encode\<close> writes, \<open>pb_decode\<close> reads back.  Messages are compared by their records, since padding and the
  bytes after the end of a string are not part of a message.
\<close>

section \<open>Plain messages\<close>

text \<open>
  Types whose fields are required, or optional with a \<^verbatim>\<open>has\<close> member, and stored in the message; submessages are of such types.
\<close>

definition plain_field :: "pb_field \<Rightarrow> bool" where
  "plain_field f \<longleftrightarrow> fld_tag f \<noteq> 0 \<and> PB_ATYPE (fld_type f) = PB_ATYPE_STATIC \<and> array_size f = 0 \<and>
     (PB_HTYPE (fld_type f) = PB_HTYPE_REQUIRED \<or> PB_HTYPE (fld_type f) = PB_HTYPE_OPTIONAL \<and> size_offset f \<noteq> 0) \<and>
     PB_LTYPE (fld_type f) \<le> PB_LTYPE_FIXED_LENGTH_BYTES \<and> PB_LTYPE (fld_type f) \<noteq> PB_LTYPE_EXTENSION \<and>
     (PB_LTYPE (fld_type f) = PB_LTYPE_BYTES \<longrightarrow> 4 \<le> data_size f)"

fun plain :: "nat \<Rightarrow> 'u dec_env \<Rightarrow> pb_field list \<Rightarrow> bool" where
  "plain 0 env fs = False"
| "plain (Suc k) env fs \<longleftrightarrow> distinct (map fld_tag fs) \<and> length fs < 2 ^ 32 \<and>
     list_all (\<lambda>f. plain_field f \<and>
       (PB_LTYPE (fld_type f) = PB_LTYPE_SUBMESSAGE \<longrightarrow> fld_ptr f \<noteq> 0 \<and> plain k env (descriptors_at env (fld_ptr f)))) fs"

lemma plain_static: "plain k env fs \<Longrightarrow> static_type k env fs"
  by (induction k arbitrary: fs) (auto simp: plain_field_def list_all_iff)

lemma plain_field_D:
  assumes "plain (Suc k) env fs" "f \<in> set fs"
  shows "plain_field f" "PB_LTYPE (fld_type f) = PB_LTYPE_SUBMESSAGE \<Longrightarrow> fld_ptr f \<noteq> 0 \<and> plain k env (descriptors_at env (fld_ptr f))"
  using assms by (auto simp: list_all_iff)

lemma layout_from_all: "list_all (\<lambda>f. fld_tag f \<noteq> 0) fs \<Longrightarrow> map fst (layout_from f p fs) = f # fs"
  by (induction f p fs rule: layout_from.induct) auto

lemma plain_layout:
  assumes "plain (Suc k) env fs"
  shows "map fst (layout fs a) = fs"
proof (cases fs)
  case (Cons f gs)
  with assms have "fld_tag f \<noteq> 0" "list_all (\<lambda>f. fld_tag f \<noteq> 0) gs" by (auto simp: plain_field_def list_all_iff)
  with layout_from_all show ?thesis by (auto simp: Cons)
qed simp

lemma plain_iter:
  assumes "plain (Suc k) env fs" "j < length fs"
  shows "j < length (layout fs a)" "iter_field (iter_nth fs a j) = fs ! j" "pos (iter_nth fs a j) = j"
    "start (iter_nth fs a j) = fs" "dest_struct (iter_nth fs a j) = a" "iter_nth fs a j \<in> set (iters fs a)"
proof -
  have l: "map fst (layout fs a) = fs" using assms(1) by (rule plain_layout)
  then have "length (layout fs a) = length fs" by (metis length_map)
  with assms(2) show j: "j < length (layout fs a)" by simp
  show "iter_field (iter_nth fs a j) = fs ! j" using iter_nth_field [OF j] l j by (metis fst_conv nth_map)
  show "pos (iter_nth fs a j) = j" "start (iter_nth fs a j) = fs" "dest_struct (iter_nth fs a j) = a"
    using iter_nth_remaining [OF j] by simp_all
  show "iter_nth fs a j \<in> set (iters fs a)" using j by (auto simp: iters_def)
qed

lemma plain_length: "plain (Suc k) env fs \<Longrightarrow> length (layout fs a) = length fs"
  using plain_layout [of k env fs a] by (metis length_map)

lemma ptr_add_bound: "ptr_add p i < size_max"
  by (simp add: ptr_add_def size_max_def nat_less_iff)

text \<open>Without oneofs the iterator recomputes both addresses at every step.\<close>

lemma plain_pSize:
  assumes "plain (Suc k) env fs" "j < length fs" "a \<noteq> 0"
  shows "pSize (iter_nth fs a j) = ptr_add (pData (iter_nth fs a j)) (sint (size_offset (fs ! j))) \<and>
    pData (iter_nth fs a j) < size_max"
  using assms(2)
proof (induction j)
  case 0
  then show ?case using assms(3) by (cases fs) (simp_all add: pb_field_iter_begin_def Let_def field_at_def ptr_add_bound)
next
  case (Suc j)
  then have j: "j < length fs" by simp
  define iter where "iter = iter_nth fs a j"
  note i = plain_iter [OF assms(1) j, of a, folded iter_def]
  have p: "plain_field (fs ! j)" "plain_field (fs ! Suc j)" using assms(1) j Suc.prems by (auto intro: plain_field_D)
  have n: "field_at (start iter) (pos iter + 1) = fs ! Suc j" using i Suc.prems by (simp add: field_at_def)
  have "pSize (snd (pb_field_iter_next iter)) = ptr_add (pData (snd (pb_field_iter_next iter))) (sint (size_offset (fs ! Suc j))) \<and>
    pData (snd (pb_field_iter_next iter)) < size_max"
    using p unfolding pb_field_iter_next_def Let_def n i(2)
    by (auto simp: plain_field_def htype_defs ptr_add_bound)
  then show ?case by (simp add: iter_def)
qed

lemma ptr_add_ne:
  assumes "p < size_max" "i \<noteq> 0" "- int size_max < i" "i < int size_max"
  shows "ptr_add p i \<noteq> p"
proof
  assume "ptr_add p i = p"
  then have "(int p + i) mod int size_max = int p" by (simp add: ptr_add_def size_max_def)
  then have "(int p + i) mod int size_max = int p mod int size_max" using assms(1) by simp
  then have "int size_max dvd i" by (simp add: mod_eq_dvd_iff)
  with assms(2-4) show False by (metis abs_less_iff dvd_imp_le_int linorder_not_less minus_less_iff abs_of_nat)
qed

lemma plain_has:
  assumes "plain (Suc k) env fs" "j < length fs" "a \<noteq> 0" "size_offset (fs ! j) \<noteq> 0"
  shows "pSize (iter_nth fs a j) \<noteq> pData (iter_nth fs a j)"
proof -
  let ?i = "sint (size_offset (fs ! j))"
  have "?i \<noteq> 0" using assms(4) by (metis signed_0 signed_word_eqI)
  moreover have "- int size_max < ?i" "?i < int size_max"
    using sint_ge [of "size_offset (fs ! j)"] sint_lt [of "size_offset (fs ! j)"] by (simp_all add: size_max_def)
  ultimately show ?thesis using ptr_add_ne plain_pSize [OF assms(1-3)] by metis
qed

section \<open>Records of a field\<close>

definition rec :: "nat \<Rightarrow> 'v pb_env \<Rightarrow> mem \<Rightarrow> pb_field_iter \<Rightarrow> wire_record list option" where
  "rec k penv h iter = field_records (Suc k) penv h (message_records k penv h) (iter_field iter) (pData iter)"

abbreviation val_at :: "nat \<Rightarrow> 'v pb_env \<Rightarrow> mem \<Rightarrow> pb_field \<Rightarrow> nat \<Rightarrow> wire_value option" where
  "val_at k penv h \<equiv> item_value penv h (message_records k penv h)"

lemma plain_rec:
  assumes "plain (Suc k) env fs" "j < length fs" "a \<noteq> 0"
  shows "rec k penv h (iter_nth fs a j) =
    (if PB_HTYPE (fld_type (fs ! j)) = PB_HTYPE_OPTIONAL \<and> h (pSize (iter_nth fs a j)) = 0 then Some []
     else if PB_HTYPE (fld_type (fs ! j)) = PB_HTYPE_REQUIRED \<and> pData (iter_nth fs a j) = 0 then None
     else one_record (val_at k penv h) (fs ! j) (pData (iter_nth fs a j)))"
proof -
  have p: "plain_field (fs ! j)" using assms(1,2) by (auto intro: plain_field_D)
  define iter where "iter = iter_nth fs a j"
  note i = plain_iter(2) [OF assms(1,2), of a, folded iter_def] plain_pSize [OF assms, folded iter_def]
  show ?thesis
    using p unfolding iter_def [symmetric] rec_def i(1)
    by (auto simp: field_records_def basic_records_def Let_def plain_field_def htype_defs atype_defs i(2))
qed

lemma message_records_nth:
  assumes "plain (Suc k) env fs"
  shows "message_records (Suc k) penv h fs a =
    map_option concat (those (map (\<lambda>j. rec k penv h (iter_nth fs a j)) [0..<length fs]))"
proof -
  have "map (\<lambda>(field, p). if PB_LTYPE (fld_type field) = PB_LTYPE_EXTENSION
          then extension_records (Suc k) (Suc k) penv h (message_records k penv h) (load h p 8)
          else field_records (Suc k) penv h (message_records k penv h) field p) (layout fs a) =
        map (\<lambda>j. rec k penv h (iter_nth fs a j)) [0..<length fs]" (is "map ?g _ = _")
  proof (rule nth_equalityI)
    show "length (map ?g (layout fs a)) = length (map (\<lambda>j. rec k penv h (iter_nth fs a j)) [0..<length fs])"
      using plain_length [OF assms] by simp
  next
    fix j
    assume "j < length (map ?g (layout fs a))"
    then have j: "j < length fs" "j < length (layout fs a)" using plain_length [OF assms] by simp_all
    have "PB_LTYPE (fld_type (fs ! j)) \<noteq> PB_LTYPE_EXTENSION"
      using plain_field_D(1) [OF assms, of "fs ! j"] j(1) by (simp add: plain_field_def)
    then show "map ?g (layout fs a) ! j = map (\<lambda>j. rec k penv h (iter_nth fs a j)) [0..<length fs] ! j"
      using j iter_nth_field [OF j(2)] plain_iter(2) [OF assms j(1), of a]
      by (cases "layout fs a ! j") (auto simp: rec_def)
  qed
  then show ?thesis by (simp only: message_records.simps)
qed

section \<open>What the records depend on\<close>

definition field_area :: "nat \<Rightarrow> 'u dec_env \<Rightarrow> pb_field_iter \<Rightarrow> nat set" where
  "field_area k env iter = count_area iter \<union> items_area (area k env) env iter"

lemma area_fields: "area (Suc k) env fs a = (\<Union>iter \<in> set (iters fs a). field_area k env iter)"
  by (simp add: field_area_def)

lemma plain_items: "plain_field (iter_field iter) \<Longrightarrow> items_area sub env iter = item_area sub env (iter_field iter) (pData iter)"
  by (auto simp: items_area_def plain_field_def htype_defs Let_def)

lemma string_size_cong:
  "(\<And>x. x \<in> {a..<a + limit} \<Longrightarrow> h x = h' x) \<Longrightarrow> string_size h a limit k = string_size h' a limit k"
proof (induction h a limit k rule: string_size.induct)
  case (1 h a limit k)
  then show ?case by (subst (1 2) string_size.simps) auto
qed

lemma string_size_limit: "k \<le> limit \<Longrightarrow> string_size h a limit k \<le> limit"
  by (induction h a limit k rule: string_size.induct) (subst string_size.simps, simp)

lemma leaf_cong:
  assumes "plain_field f" "PB_LTYPE (fld_type f) \<noteq> PB_LTYPE_SUBMESSAGE"
    and "\<And>x. x \<in> {p..<p + max (value_size f) (unat (data_size f))} \<Longrightarrow> h x = h' x"
  shows "item_value penv h sub f p = item_value penv h' sub' f p"
proof -
  let ?sz = "unat (data_size f)"
  have np: "PB_ATYPE (fld_type f) \<noteq> PB_ATYPE_POINTER" using assms(1) by (simp add: plain_field_def atype_defs)
  have c: "h x = h' x" if "x \<in> {p..<p + ?sz} \<or> x \<in> {p..<p + value_size f}" for x using that assms(3) by auto
  have d: "load h p ?sz = load h' p ?sz" "read_bytes h p ?sz = read_bytes h' p ?sz"
    "string_size h p ?sz 0 = string_size h' p ?sz 0" using c by (auto intro: load_cong read_bytes_cong string_size_cong)
  have s: "load_signed h (data_size f) p = load_signed h' (data_size f) p"
    unfolding load_signed_def using d(1) by (auto split: if_splits)
  have r: "read_bytes h p (string_size h' p ?sz 0) = read_bytes h' p (string_size h' p ?sz 0)"
    using string_size_limit [of 0 ?sz h' p] c by (intro read_bytes_cong) auto
  have b: "h p = h' p" if "PB_LTYPE (fld_type f) = PB_LTYPE_BOOL" using that c [of p] by (simp add: value_size_def)
  have x4: "load h p 4 = load h' p 4" if "PB_LTYPE (fld_type f) = PB_LTYPE_FIXED32 \<or> PB_LTYPE (fld_type f) = PB_LTYPE_BYTES"
    using that assms(1) c by (intro load_cong) (auto simp: value_size_def ltype_defs plain_field_def word_le_nat_alt)
  have x8: "load h p 8 = load h' p 8" if "PB_LTYPE (fld_type f) = PB_LTYPE_FIXED64"
    using that c by (intro load_cong) (auto simp: value_size_def ltype_defs)
  have y: "read_bytes h (p + 4) n = read_bytes h' (p + 4) n" if "n + 4 \<le> ?sz" for n
    using that c by (intro read_bytes_cong) auto
  have z: "4 \<le> ?sz" if "PB_LTYPE (fld_type f) = PB_LTYPE_BYTES"
    using that assms(1) by (simp add: plain_field_def word_le_nat_alt)
  have str: "read_bytes h p (string_size h p (if PB_ATYPE (fld_type f) = PB_ATYPE_POINTER then size_max - 1 else ?sz) 0) =
    read_bytes h' p (string_size h' p (if PB_ATYPE (fld_type f) = PB_ATYPE_POINTER then size_max - 1 else ?sz) 0)"
    unfolding if_not_P [OF np] d(3) by (rule r)
  have byt: "read_bytes h (p + 4) (load h' p 4) = read_bytes h' (p + 4) (load h' p 4)"
    if "PB_LTYPE (fld_type f) = PB_LTYPE_BYTES" "\<not> (PB_ATYPE (fld_type f) = PB_ATYPE_STATIC \<and> 4 \<le> ?sz \<and> ?sz - 4 < load h' p 4)"
    using y [of "load h' p 4"] z that assms(1) by (auto simp: plain_field_def)
  show ?thesis
    unfolding item_value_def Let_def by (intro if_cong refl) (simp_all only: d s b x4 x8 str byt simp_thms assms(2))
qed

text \<open>The parts of a message at \<open>a\<close> do not overlap each other or the decoder's counters.\<close>

fun apart :: "nat \<Rightarrow> 'u dec_env \<Rightarrow> pb_field list \<Rightarrow> nat \<Rightarrow> bool" where
  "apart 0 env fs a = True"
| "apart (Suc k) env fs a \<longleftrightarrow> a \<noteq> 0 \<and>
     (\<forall>iter \<in> set (iters fs a). pData iter \<noteq> 0 \<and> count_area iter \<inter> items_area (area k env) env iter = {} \<and>
        field_area k env iter \<inter> slots env = {} \<and>
        (PB_LTYPE (fld_type (iter_field iter)) = PB_LTYPE_SUBMESSAGE \<longrightarrow>
           apart k env (descriptors_at env (fld_ptr (iter_field iter))) (pData iter))) \<and>
     pairwise (\<lambda>i j. field_area k env i \<inter> field_area k env j = {}) (set (iters fs a))"

lemma apart_D:
  assumes "plain (Suc k) env fs" "apart (Suc k) env fs a" "j < length fs"
  shows "a \<noteq> 0" "pData (iter_nth fs a j) \<noteq> 0" "count_area (iter_nth fs a j) \<inter> items_area (area k env) env (iter_nth fs a j) = {}"
    "field_area k env (iter_nth fs a j) \<inter> slots env = {}"
    "PB_LTYPE (fld_type (fs ! j)) = PB_LTYPE_SUBMESSAGE \<Longrightarrow> apart k env (descriptors_at env (fld_ptr (fs ! j))) (pData (iter_nth fs a j))"
    "i < length fs \<Longrightarrow> i \<noteq> j \<Longrightarrow> field_area k env (iter_nth fs a i) \<inter> field_area k env (iter_nth fs a j) = {}"
proof -
  note i = plain_iter [OF assms(1,3), of a]
  show "a \<noteq> 0" using assms(2) by simp
  show "pData (iter_nth fs a j) \<noteq> 0" "count_area (iter_nth fs a j) \<inter> items_area (area k env) env (iter_nth fs a j) = {}"
    "field_area k env (iter_nth fs a j) \<inter> slots env = {}" using assms(2) i(6) by auto
  show "apart k env (descriptors_at env (fld_ptr (fs ! j))) (pData (iter_nth fs a j))" if "PB_LTYPE (fld_type (fs ! j)) = PB_LTYPE_SUBMESSAGE"
    using that assms(2) i(2,6) by fastforce
  show "field_area k env (iter_nth fs a i) \<inter> field_area k env (iter_nth fs a j) = {}" if "i < length fs" "i \<noteq> j"
    using that assms(2) i(3,6) plain_iter(3,6) [OF assms(1) that(1), of a] unfolding apart.simps pairwise_def by metis
qed

lemma rec_frame:
  assumes "plain (Suc k) env fs" "apart (Suc k) env fs a" "j < length fs" "descriptors penv = descriptors_at env"
    and "\<And>fs a. plain k env fs \<Longrightarrow> apart k env fs a \<Longrightarrow> (\<And>x. x \<in> area k env fs a \<Longrightarrow> h x = h' x) \<Longrightarrow>
      message_records k penv h fs a = message_records k penv h' fs a"
    and "\<And>x. x \<in> field_area k env (iter_nth fs a j) \<Longrightarrow> h x = h' x"
  shows "rec k penv h (iter_nth fs a j) = rec k penv h' (iter_nth fs a j)"
proof -
  define iter where "iter = iter_nth fs a j"
  define f where "f = fs ! j"
  have f: "plain_field f" "PB_LTYPE (fld_type f) = PB_LTYPE_SUBMESSAGE \<Longrightarrow> plain k env (descriptors_at env (fld_ptr f))"
    using plain_field_D [OF assms(1), of f] assms(3) by (auto simp: f_def)
  note i = plain_iter [OF assms(1,3), of a, folded iter_def f_def]
  note p = apart_D [OF assms(1-3), folded iter_def f_def]
  have A: "h x = h' x" if "x \<in> count_area iter \<union> item_area (area k env) env f (pData iter)" for x
    using that assms(6) plain_items [of iter "area k env" env] f(1) i(2) by (auto simp: field_area_def iter_def)
  have has: "h (pSize iter) = h' (pSize iter)" if "PB_HTYPE (fld_type f) = PB_HTYPE_OPTIONAL"
    using that A [of "pSize iter"] plain_has [OF assms(1,3) p(1), folded iter_def f_def] f(1) i(2)
    by (auto simp: count_area_def Let_def plain_field_def htype_defs)
  have val: "val_at k penv h f (pData iter) = val_at k penv h' f (pData iter)"
  proof (cases "PB_LTYPE (fld_type f) = PB_LTYPE_SUBMESSAGE")
    case True
    have "message_records k penv h (descriptors_at env (fld_ptr f)) (pData iter) =
      message_records k penv h' (descriptors_at env (fld_ptr f)) (pData iter)"
      using True f(2) p(5) A by (intro assms(5)) (auto simp: item_area_def)
    with True show ?thesis by (simp add: item_value_def ltype_defs assms(4) Let_def)
  next
    case False
    with f(1) A show ?thesis by (intro leaf_cong) (auto simp: item_area_def)
  qed
  show ?thesis
    using has val unfolding iter_def [symmetric] plain_rec [OF assms(1,3) p(1), folded iter_def f_def] by (auto simp: one_record_def)
qed

lemma records_frame:
  assumes "descriptors penv = descriptors_at env"
  shows "plain k env fs \<Longrightarrow> apart k env fs a \<Longrightarrow> (\<And>x. x \<in> area k env fs a \<Longrightarrow> h x = h' x) \<Longrightarrow>
    message_records k penv h fs a = message_records k penv h' fs a"
proof (induction k arbitrary: fs a)
  case (Suc k)
  have "rec k penv h (iter_nth fs a j) = rec k penv h' (iter_nth fs a j)" if j: "j < length fs" for j
    using Suc.prems(3) plain_iter(6) [OF Suc.prems(1) j, of a]
    by (intro rec_frame [OF Suc.prems(1,2) j assms Suc.IH]) (auto simp: area_fields simp del: area.simps)
  then show ?case unfolding message_records_nth [OF Suc.prems(1)] by (metis (no_types, lifting) atLeastLessThan_iff map_eq_conv set_upt)
qed simp

section \<open>Decoding a field\<close>

text \<open>The strings of a message that is encoded end within their fields.\<close>

fun texts_end :: "nat \<Rightarrow> 'u dec_env \<Rightarrow> mem \<Rightarrow> pb_field list \<Rightarrow> nat \<Rightarrow> bool" where
  "texts_end 0 env h fs a = True"
| "texts_end (Suc k) env h fs a =
     list_all (\<lambda>(f, p). p \<noteq> 0 \<and>
       (PB_LTYPE (fld_type f) = PB_LTYPE_STRING \<longrightarrow> string_size h p (unat (data_size f)) 0 < unat (data_size f)) \<and>
       (PB_LTYPE (fld_type f) = PB_LTYPE_SUBMESSAGE \<longrightarrow> texts_end k env h (descriptors_at env (fld_ptr f)) p)) (layout fs a)"

text \<open>No optional field is present.\<close>

fun blank :: "nat \<Rightarrow> 'u dec_env \<Rightarrow> mem \<Rightarrow> pb_field list \<Rightarrow> nat \<Rightarrow> bool" where
  "blank 0 env h fs a = True"
| "blank (Suc k) env h fs a =
     list_all (\<lambda>iter. (PB_HTYPE (fld_type (iter_field iter)) = PB_HTYPE_OPTIONAL \<longrightarrow> h (pSize iter) = 0) \<and>
       (PB_LTYPE (fld_type (iter_field iter)) = PB_LTYPE_SUBMESSAGE \<longrightarrow>
          blank k env h (descriptors_at env (fld_ptr (iter_field iter))) (pData iter))) (iters fs a)"

text \<open>What is shown of a decoder for messages that are nested \<open>k\<close> deep.\<close>

definition inverts :: "nat \<Rightarrow> nat \<Rightarrow> 'v pb_env \<Rightarrow> 'u dec_env \<Rightarrow> 'u decoder \<Rightarrow> bool" where
  "inverts n k penv env dec \<longleftrightarrow> (\<forall>fs dest st a h ws. plain k env fs \<longrightarrow> apart k env fs dest \<longrightarrow> blank k env (bytes_of (snd st)) fs dest \<longrightarrow>
     a \<noteq> 0 \<longrightarrow> texts_end k env h fs a \<longrightarrow> message_records k penv h fs a = Some ws \<longrightarrow>
     istream_ok (fst st) \<longrightarrow> ibuf (fst st) = message_bytes ws \<longrightarrow> bytes_left (fst st) < n \<longrightarrow> bytes_left (fst st) < 2 ^ 32 \<longrightarrow>
     (\<exists>hp. dec fs dest st = Some (True, iskip (fst st) (bytes_left (fst st)), hp) \<and>
        message_records k penv (bytes_of hp) fs dest = Some ws))"

lemma inverts_D:
  assumes "inverts n k penv env dec" "plain k env fs" "apart k env fs dest" "blank k env (bytes_of hp) fs dest" "a \<noteq> 0"
    and "texts_end k env h fs a" "message_records k penv h fs a = Some ws"
    and "istream_ok s" "ibuf s = message_bytes ws" "bytes_left s < n" "bytes_left s < 2 ^ 32"
  shows "\<exists>hp'. dec fs dest (s, hp) = Some (True, iskip s (bytes_left s), hp') \<and> message_records k penv (bytes_of hp') fs dest = Some ws"
  using assms(1) [unfolded inverts_def, rule_format, of fs dest "(s, hp)" a h ws] assms(2-) by simp

lemma submessage_restored:
  assumes "inverts n k penv env noinit" "descriptors penv = descriptors_at env"
    and f: "plain_field f" "PB_LTYPE (fld_type f) = PB_LTYPE_SUBMESSAGE" "fld_ptr f \<noteq> 0" "plain k env (descriptors_at env (fld_ptr f))"
    and dest: "apart k env (descriptors_at env (fld_ptr f)) p" "blank k env (bytes_of (snd st)) (descriptors_at env (fld_ptr f)) p"
    and src: "a \<noteq> 0" "texts_end k env h (descriptors_at env (fld_ptr f)) a" "val_at k penv h f a = Some w"
    and st: "istream_ok (fst st)" "ibuf (fst st) = wire_bytes w @ r" "bytes_left (fst st) \<le> n" "bytes_left (fst st) < 2 ^ 32"
  shows "restores (\<lambda>h. val_at k penv h f p) w st (decoder_of n env noinit f p st)"
proof -
  let ?fs = "descriptors_at env (fld_ptr f)"
  obtain ws where ws: "message_records k penv h ?fs a = Some ws" "w = WBytes (message_bytes ws)"
    using src(3) f(2,3) by (auto simp: item_value_def ltype_defs assms(2) Let_def)
  define bs where "bs = message_bytes ws"
  define s where "s = fst st"
  define q where "q = length (varint_bytes (of_nat (length bs)))"
  have left: "bytes_left s = q + length bs + length r"
    using length_ibuf [OF st(1)] st(2) by (simp add: ws(2) bs_def [symmetric] s_def q_def)
  have q: "0 < q" using length_varint_bytes [of "of_nat (length bs)"] by (simp add: q_def)
  have len: "length bs < 2 ^ 32" using st(4) left by (simp add: s_def)
  let ?sub = "(iskip s q)\<lparr>bytes_left := length bs\<rparr>"
  have mk: "pb_make_string_substream s = (Some ?sub, (iskip s q)\<lparr>bytes_left := length r\<rparr>)"
    unfolding q_def using st(1,2) by (intro make_substream_bytes len) (simp_all add: s_def ws(2) bs_def)
  have ok: "istream_ok (iskip s q)" using st(1) by (simp add: s_def)
  then have sub: "istream_ok ?sub" "ibuf ?sub = bs"
    using ibuf_take [OF ok, of "length bs"] left st(1,2) by (simp_all add: istream_ok_def s_def ws(2) bs_def q_def)
  obtain hp where hp: "noinit ?fs p (?sub, snd st) = Some (True, iskip ?sub (length bs), hp)" "message_records k penv (bytes_of hp) ?fs p = Some ws"
    using inverts_D [OF assms(1) f(4) dest src(1,2) ws(1) sub(1)] sub(2) st(3,4) left q by (auto simp: bs_def s_def)
  have cl: "pb_close_string_substream ((iskip s q)\<lparr>bytes_left := length r\<rparr>) (iskip ?sub (length bs)) = (True, iskip s (q + length bs))"
    using st(1) left
    by (cases "src s") (simp_all add: s_def istream_ok_def pb_close_string_substream_def pb_read_null_def pb_read_def iskip_def)
  have "decoder_of n env noinit f p st = Some (True, iskip s (q + length bs), hp)"
    using mk hp(1) cl f(1-3)
    by (auto simp: decoder_of_eq ltype_defs Let_def pb_dec_submessage_def s_def close_after_def plain_field_def htype_defs)
  moreover have "val_at k penv (bytes_of hp) f p = Some w"
    using hp(2) f(2,3) by (simp add: item_value_def ltype_defs assms(2) Let_def ws(2))
  ultimately show ?thesis by (simp add: restores_def s_def ws(2) bs_def q_def)
qed

lemma plain_optional:
  assumes "plain (Suc k) env fs" "j < length fs" "a \<noteq> 0" "PB_HTYPE (fld_type (fs ! j)) = PB_HTYPE_OPTIONAL"
  shows "pSize (iter_nth fs a j) \<noteq> pData (iter_nth fs a j)"
proof -
  have "plain_field (fs ! j)" using assms(1,2) by (auto intro: plain_field_D)
  with assms(4) have "size_offset (fs ! j) \<noteq> 0" by (simp add: plain_field_def htype_defs)
  then show ?thesis by (rule plain_has [OF assms(1-3)])
qed

lemma plain_iters_cases:
  assumes "plain (Suc k) env fs" "iter \<in> set (iters fs a)"
  obtains j where "j < length fs" "iter = iter_nth fs a j" | "fs = []" "iter_field iter = PB_LAST_FIELD"
proof (cases "fs = []")
  case True
  with assms(2) have "iter_field iter = PB_LAST_FIELD" using iters_field [of iter fs a] by simp
  with True that(2) show ?thesis by simp
next
  case False
  then have "max 1 (length (layout fs a)) = length fs" using plain_length [OF assms(1), of a] by (cases fs) simp_all
  with assms(2) that(1) show ?thesis by (auto simp: iters_def)
qed

lemma last_field_kind [simp]:
  "PB_HTYPE (fld_type PB_LAST_FIELD) \<noteq> PB_HTYPE_OPTIONAL" "PB_LTYPE (fld_type PB_LAST_FIELD) \<noteq> PB_LTYPE_SUBMESSAGE"
  by (simp_all add: PB_LAST_FIELD_def pb_type_defs)

definition blank_field :: "nat \<Rightarrow> 'u dec_env \<Rightarrow> mem \<Rightarrow> pb_field_iter \<Rightarrow> bool" where
  "blank_field k env h iter \<longleftrightarrow> (PB_HTYPE (fld_type (iter_field iter)) = PB_HTYPE_OPTIONAL \<longrightarrow> h (pSize iter) = 0) \<and>
     (PB_LTYPE (fld_type (iter_field iter)) = PB_LTYPE_SUBMESSAGE \<longrightarrow>
        blank k env h (descriptors_at env (fld_ptr (iter_field iter))) (pData iter))"

lemma blank_iff:
  assumes "plain (Suc k) env fs"
  shows "blank (Suc k) env h fs a \<longleftrightarrow> (\<forall>j < length fs. blank_field k env h (iter_nth fs a j))"
proof -
  have "blank (Suc k) env h fs a \<longleftrightarrow> (\<forall>iter \<in> set (iters fs a). blank_field k env h iter)"
    by (simp add: blank_field_def list_all_iff)
  also have "\<dots> \<longleftrightarrow> (\<forall>j < length fs. blank_field k env h (iter_nth fs a j))"
  proof (intro iffI ballI allI impI)
    fix iter
    assume all: "\<forall>j < length fs. blank_field k env h (iter_nth fs a j)" and iter: "iter \<in> set (iters fs a)"
    from assms iter show "blank_field k env h iter"
    proof (cases rule: plain_iters_cases)
      case (1 j)
      with all show ?thesis by blast
    next
      case 2
      then show ?thesis unfolding blank_field_def 2(2) by simp
    qed
  qed (use plain_iter(6) [OF assms] in blast)
  finally show ?thesis .
qed

lemma field_area_sub:
  assumes "plain_field (iter_field iter)"
  shows "PB_LTYPE (fld_type (iter_field iter)) = PB_LTYPE_SUBMESSAGE \<Longrightarrow>
      area k env (descriptors_at env (fld_ptr (iter_field iter))) (pData iter) \<subseteq> items_area (area k env) env iter"
    "PB_HTYPE (fld_type (iter_field iter)) = PB_HTYPE_OPTIONAL \<Longrightarrow> pSize iter \<noteq> pData iter \<Longrightarrow> count_area iter = {pSize iter}"
  using assms by (auto simp: plain_items item_area_def count_area_def)

lemma blank_field_frame:
  assumes "plain (Suc k) env fs" "apart (Suc k) env fs a" "j < length fs" "blank_field k env h (iter_nth fs a j)"
    and "\<And>fs a. plain k env fs \<Longrightarrow> apart k env fs a \<Longrightarrow> (\<And>x. x \<in> area k env fs a \<Longrightarrow> h x = h' x) \<Longrightarrow> blank k env h fs a \<Longrightarrow> blank k env h' fs a"
    and "\<And>x. x \<in> field_area k env (iter_nth fs a j) \<Longrightarrow> h x = h' x"
  shows "blank_field k env h' (iter_nth fs a j)"
proof -
  define iter where "iter = iter_nth fs a j"
  note i = plain_iter [OF assms(1,3), of a, folded iter_def]
  note p = apart_D [OF assms(1-3), folded iter_def]
  have f: "plain_field (iter_field iter)" "PB_LTYPE (fld_type (fs ! j)) = PB_LTYPE_SUBMESSAGE \<Longrightarrow> plain k env (descriptors_at env (fld_ptr (fs ! j)))"
    using plain_field_D [OF assms(1), of "fs ! j"] assms(3) by (auto simp: i(2))
  have has: "pSize iter \<noteq> pData iter" if "PB_HTYPE (fld_type (iter_field iter)) = PB_HTYPE_OPTIONAL"
    using that plain_optional [OF assms(1,3) p(1)] i(2) by (simp add: iter_def)
  have A: "h x = h' x" if "x \<in> count_area iter \<union> items_area (area k env) env iter" for x
    using that assms(6) by (simp add: iter_def field_area_def)
  have s: "area k env (descriptors_at env (fld_ptr (fs ! j))) (pData iter) \<subseteq> items_area (area k env) env iter"
    if "PB_LTYPE (fld_type (fs ! j)) = PB_LTYPE_SUBMESSAGE" using that field_area_sub(1) [OF f(1)] i(2) by simp
  have "blank k env h' (descriptors_at env (fld_ptr (fs ! j))) (pData iter)" if "PB_LTYPE (fld_type (fs ! j)) = PB_LTYPE_SUBMESSAGE"
    using that f(2) p(5) s A assms(4) by (intro assms(5)) (auto simp: blank_field_def i(2) iter_def [symmetric])
  moreover have "h' (pSize iter) = 0" if "PB_HTYPE (fld_type (iter_field iter)) = PB_HTYPE_OPTIONAL"
    using that field_area_sub(2) [OF f(1) that has [OF that]] A [of "pSize iter"] assms(4) by (simp add: blank_field_def iter_def [symmetric])
  ultimately show ?thesis by (simp add: blank_field_def iter_def [symmetric] i(2))
qed

lemma blank_frame:
  "plain k env fs \<Longrightarrow> apart k env fs a \<Longrightarrow> (\<And>x. x \<in> area k env fs a \<Longrightarrow> h x = h' x) \<Longrightarrow> blank k env h fs a \<Longrightarrow> blank k env h' fs a"
proof (induction k arbitrary: fs a)
  case (Suc k)
  have "blank_field k env h' (iter_nth fs a j)" if j: "j < length fs" for j
    using Suc.prems(3,4) plain_iter(6) [OF Suc.prems(1) j, of a] j blank_iff [OF Suc.prems(1), of h a]
    by (intro blank_field_frame [where h = h and h' = h', OF Suc.prems(1,2) j _ Suc.IH]) (auto simp: area_fields simp del: area.simps blank.simps)
  with blank_iff [OF Suc.prems(1)] show ?case by blast
qed simp

text \<open>Any value of a field.\<close>

definition text_ok :: "nat \<Rightarrow> 'u dec_env \<Rightarrow> mem \<Rightarrow> pb_field \<Rightarrow> nat \<Rightarrow> bool" where
  "text_ok k env h f p \<longleftrightarrow> p \<noteq> 0 \<and>
     (PB_LTYPE (fld_type f) = PB_LTYPE_STRING \<longrightarrow> string_size h p (unat (data_size f)) 0 < unat (data_size f)) \<and>
     (PB_LTYPE (fld_type f) = PB_LTYPE_SUBMESSAGE \<longrightarrow> texts_end k env h (descriptors_at env (fld_ptr f)) p)"

lemma leaf_restored:
  assumes f: "plain_field f" "PB_LTYPE (fld_type f) \<noteq> PB_LTYPE_SUBMESSAGE"
    and src: "text_ok k env h f a" "item_value penv h sub f a = Some w" and p: "p \<noteq> 0"
    and st: "istream_ok (fst st)" "ibuf (fst st) = wire_bytes w @ r"
  shows "restores (\<lambda>h. item_value penv h sub f p) w st (decoder_of n env' noinit f p st)"
proof -
  let ?t = "PB_LTYPE (fld_type f)"
  have stat: "PB_ATYPE (fld_type f) = PB_ATYPE_STATIC" "a \<noteq> 0" using f(1) src(1) by (simp_all add: plain_field_def text_ok_def)
  have "?t \<in> {0, 1, 2, 3, 4, 5, 6, 7, 8, 9, 10}" using f(1) by (intro ltype_small) (simp add: plain_field_def)
  then consider "?t \<le> PB_LTYPE_LAST_PACKABLE" | "?t = PB_LTYPE_BYTES" | "?t = PB_LTYPE_STRING" | "?t = PB_LTYPE_FIXED_LENGTH_BYTES"
    using f by (auto simp: plain_field_def ltype_defs)
  then show ?thesis
  proof cases
    case 1
    show ?thesis by (rule number_restored [OF st src(2) 1])
  next
    case 2
    then have "4 \<le> unat (data_size f)" using f(1) by (simp add: plain_field_def word_le_nat_alt)
    then show ?thesis by (rule bytes_restored [OF st src(2) 2 stat p])
  next
    case 3
    then have "string_size h a (unat (data_size f)) 0 < unat (data_size f)" using src(1) by (simp add: text_ok_def)
    then show ?thesis by (rule string_restored [OF st src(2) 3 stat p])
  next
    case 4
    show ?thesis by (rule fixed_length_restored [OF st src(2) 4])
  qed
qed

lemma item_restored:
  assumes "inverts n k penv env noinit" "descriptors penv = descriptors_at env"
    and f: "plain_field f" "PB_LTYPE (fld_type f) = PB_LTYPE_SUBMESSAGE \<Longrightarrow> fld_ptr f \<noteq> 0 \<and> plain k env (descriptors_at env (fld_ptr f))"
    and dest: "p \<noteq> 0" "PB_LTYPE (fld_type f) = PB_LTYPE_SUBMESSAGE \<Longrightarrow>
      apart k env (descriptors_at env (fld_ptr f)) p \<and> blank k env (bytes_of (snd st)) (descriptors_at env (fld_ptr f)) p"
    and src: "text_ok k env h f a" "val_at k penv h f a = Some w"
    and st: "istream_ok (fst st)" "ibuf (fst st) = wire_bytes w @ r" "bytes_left (fst st) \<le> n" "bytes_left (fst st) < 2 ^ 32"
  shows "restores (\<lambda>h. val_at k penv h f p) w st (decoder_of n env noinit f p st)"
proof (cases "PB_LTYPE (fld_type f) = PB_LTYPE_SUBMESSAGE")
  case True
  with f(2) dest(2) src show ?thesis
    by (intro submessage_restored [OF assms(1,2) f(1) True _ _ _ _ _ _ _ st]) (auto simp: text_ok_def)
next
  case False
  then have leaf: "item_value penv h sub f a = item_value penv h sub' f a" for sub sub' a h
    using leaf_cong [OF f(1) False, of a h h] by simp
  have "restores (\<lambda>h. item_value penv h (\<lambda>_ _. None) f p) w st (decoder_of n env noinit f p st)"
    using src(2) leaf by (intro leaf_restored [OF f(1) False src(1) _ dest(1) st(1,2)]) metis
  then show ?thesis using leaf by (metis (no_types, lifting) restores_def)
qed

lemma blank_sub:
  assumes "plain (Suc k) env fs" "apart (Suc k) env fs dest" "j < length fs" "blank_field k env (bytes_of hp) (iter_nth fs dest j)"
    and "agree (count_area (iter_nth fs dest j)) hp hp'" "PB_LTYPE (fld_type (fs ! j)) = PB_LTYPE_SUBMESSAGE"
  shows "apart k env (descriptors_at env (fld_ptr (fs ! j))) (pData (iter_nth fs dest j)) \<and>
    blank k env (bytes_of hp') (descriptors_at env (fld_ptr (fs ! j))) (pData (iter_nth fs dest j))"
proof -
  define iter where "iter = iter_nth fs dest j"
  define f where "f = fs ! j"
  note i = plain_iter [OF assms(1,3), of dest, folded iter_def f_def]
  note p = apart_D [OF assms(1-3), folded iter_def f_def]
  have t: "PB_LTYPE (fld_type f) = PB_LTYPE_SUBMESSAGE" and fin: "f \<in> set fs" using assms(3,6) by (simp_all add: f_def)
  let ?sub = "descriptors_at env (fld_ptr f)"
  have "area k env ?sub (pData iter) \<subseteq> items_area (area k env) env iter"
    using field_area_sub(1) [of iter] plain_field_D(1) [OF assms(1) fin] i(2) t by simp
  then have "bytes_of hp x = bytes_of hp' x" if "x \<in> area k env ?sub (pData iter)" for x
    using that assms(5) p(3) unfolding agree_def iter_def [symmetric] by (metis disjoint_iff subsetD)
  with blank_frame [of k env ?sub "pData iter" "bytes_of hp" "bytes_of hp'"] p(5) [OF t] plain_field_D(2) [OF assms(1) fin t]
    assms(4) i(2) t show ?thesis by (auto simp: blank_field_def iter_def [symmetric] f_def [symmetric])
qed

lemma field_restored:
  assumes inv: "inverts n k penv env noinit" "descriptors penv = descriptors_at env" "handles n k env noinit" "k \<le> n"
    and dest: "plain (Suc k) env fs" "apart (Suc k) env fs dest" "j < length fs" "blank_field k env (bytes_of hp) (iter_nth fs dest j)"
    and src: "text_ok k env h (fs ! j) p" "val_at k penv h (fs ! j) p = Some w" "0 < fld_tag (fs ! j)" "fld_tag (fs ! j) < 2 ^ 29"
    and st: "istream_ok s" "ibuf s = wire_bytes w @ r" "bytes_left s \<le> n" "bytes_left s < 2 ^ 32"
  shows "\<exists>hp'. decode_field n env noinit wt (iter_nth fs dest j) (s, hp) =
      Some (True, iter_nth fs dest j, iskip s (length (wire_bytes w)), hp') \<and>
    rec k penv (bytes_of hp') (iter_nth fs dest j) = Some [(fld_tag (fs ! j), w)] \<and>
    agree (field_area k env (iter_nth fs dest j) \<union> slots env) hp hp'"
proof -
  define iter where "iter = iter_nth fs dest j"
  define f where "f = fs ! j"
  note i = plain_iter [OF dest(1,3), of dest, folded iter_def f_def]
  note p = apart_D [OF dest(1-3), folded iter_def f_def]
  note f = plain_field_D [OF dest(1), of f]
  have fin: "f \<in> set fs" using dest(3) by (simp add: f_def)
  note pf = f(1) [OF fin]
  let ?opt = "PB_HTYPE (fld_type f) = PB_HTYPE_OPTIONAL"
  let ?it = "items_area (area k env) env iter"
  have has: "pSize iter \<noteq> pData iter" if ?opt using that plain_optional [OF dest(1,3) p(1)] by (simp add: f_def iter_def)
  define hp1 where "hp1 = (if ?opt then put hp (pSize iter) 1 1 else hp)"
  have cnt: "count_area iter = {pSize iter}" if ?opt using field_area_sub(2) [of iter] that has pf i(2) by simp
  have a1: "agree (count_area iter) hp hp1" using cnt by (auto simp: hp1_def intro: agree_put)
  have items: "?it = item_area (area k env) env f (pData iter)" using plain_items [of iter] pf i(2) by simp
  note sub = blank_sub [OF dest a1 [unfolded iter_def], folded iter_def f_def]
  have "restores (\<lambda>h. val_at k penv h f (pData iter)) w (s, hp1) (decoder_of n env noinit f (pData iter) (s, hp1))"
    using sub st p(2) src(1,2) by (intro item_restored [where h = h and a = p, OF inv(1,2) pf f(2) [OF fin]]) (simp_all add: f_def)
  then obtain hp' where d: "decoder_of n env noinit f (pData iter) (s, hp1) = Some (True, iskip s (length (wire_bytes w)), hp')"
    "val_at k penv (bytes_of hp') f (pData iter) = Some w" by (auto simp: restores_def)
  have "good (item_area (area k env) env f (pData iter) \<union> slots env) (s, hp1) (decoder_of n env noinit f (pData iter) (s, hp1))"
    using st static_type_field [OF plain_static [OF dest(1)], of f] fin by (intro decoder_good [OF inv(3,4)]) auto
  then have a2: "agree (?it \<union> slots env) hp1 hp'" unfolding d items by (simp add: good_def safe_def)
  have "agree (field_area k env iter \<union> slots env) hp hp'"
    using agree_mono [OF a1, of "field_area k env iter \<union> slots env"] agree_mono [OF a2, of "field_area k env iter \<union> slots env"]
    by (auto simp: field_area_def intro: agree_trans)
  moreover have "decode_field n env noinit wt iter (s, hp) = Some (True, iter, iskip s (length (wire_bytes w)), hp')"
    using pf d(1) has i(2) by (auto simp: decode_field_def decode_static_field_def Let_def plain_field_def hp1_def htype_defs)
  moreover have "bytes_of hp' (pSize iter) = 1" if ?opt
  proof -
    have "pSize iter \<in> count_area iter" using cnt that by simp
    with p(3,4) have "pSize iter \<notin> ?it \<union> slots env" by (auto simp: field_area_def)
    with a2 that show ?thesis by (simp add: agree_def hp1_def put_def put_bytes_def write_bytes_def)
  qed
  ultimately show ?thesis
    using d(2) src(3,4) p(2) unfolding iter_def [symmetric] plain_rec [OF dest(1,3) p(1), folded iter_def f_def] f_def [symmetric]
    by (auto simp: one_record_def)
qed

lemma find_plain:
  assumes "plain (Suc k) env fs" "q < length fs" "j < length fs"
  shows "pb_field_iter_find (iter_nth fs a q) (fld_tag (fs ! j)) = Some (True, iter_nth fs a j)"
proof -
  let ?L = "length (layout fs a)"
  have L: "?L = length fs" "map fst (layout fs a) = fs" using assms(1) by (rule plain_length, rule plain_layout)
  have nth: "fst (layout fs a ! i) = fs ! i" if "i < length fs" for i using L that by (metis nth_map)
  have q: "q < ?L" "0 < ?L" using assms(2) L(1) by auto
  then have "\<exists>ok i. find_loop q (is_hit (fld_tag (fs ! j))) (iter_nth fs a q) = Some (ok, iter_nth fs a i) \<and> i < ?L \<and>
      (if ok then is_hit (fld_tag (fs ! j)) (fst (layout fs a ! i))
       else i = q \<and> (\<forall>m < ?L. \<not> is_hit (fld_tag (fs ! j)) (fst (layout fs a ! ((q + m) mod ?L)))))"
    using find_loop_from [OF q _ refl, of "is_hit (fld_tag (fs ! j))"] by simp
  then obtain ok i where f: "find_loop q (is_hit (fld_tag (fs ! j))) (iter_nth fs a q) = Some (ok, iter_nth fs a i)" "i < ?L"
    "if ok then is_hit (fld_tag (fs ! j)) (fst (layout fs a ! i))
     else i = q \<and> (\<forall>m < ?L. \<not> is_hit (fld_tag (fs ! j)) (fst (layout fs a ! ((q + m) mod ?L))))"
    by blast
  have hit: "is_hit (fld_tag (fs ! j)) (fs ! j)"
    using plain_field_D(1) [OF assms(1), of "fs ! j"] assms(3) by (simp add: is_hit_def plain_field_def)
  have ok
  proof (rule ccontr)
    assume "\<not> ok"
    define m where "m = (j + ?L - q) mod ?L"
    have "(q + m) mod ?L = (q + (j + ?L - q)) mod ?L" unfolding m_def by (rule mod_add_right_eq)
    then have "(q + m) mod ?L = j" using assms(2,3) L(1) by simp
    moreover have "m < ?L" unfolding m_def using q(2) by (rule mod_less_divisor)
    ultimately show False using f(3) \<open>\<not> ok\<close> hit nth assms(3) by auto
  qed
  with f have "fld_tag (fs ! i) = fld_tag (fs ! j)" "i < length fs" using nth L(1) by (auto simp: is_hit_def)
  then have "i = j" using assms(1,3) by (auto simp: distinct_conv_nth)
  with f(1) \<open>ok\<close> plain_iter(3) [OF assms(1,2), of a] show ?thesis by (simp add: pb_field_iter_find_def)
qed

section \<open>Required fields\<close>

definition reqs :: "pb_field list \<Rightarrow> nat \<Rightarrow> nat" where
  "reqs fs i = length (filter (\<lambda>f. PB_HTYPE (fld_type f) = PB_HTYPE_REQUIRED) (take i fs))"

definition seen :: "nat \<Rightarrow> u32 list" where
  "seen c = [mask (min 32 c), mask (min 32 (c - 32))]"

lemma reqs_Suc:
  "i < length fs \<Longrightarrow> reqs fs (Suc i) = reqs fs i + (if PB_HTYPE (fld_type (fs ! i)) = PB_HTYPE_REQUIRED then 1 else 0)"
  by (simp add: reqs_def take_Suc_conv_app_nth)

lemma reqs_le: "reqs fs i \<le> length fs"
proof -
  have "reqs fs i \<le> length (take i fs)" unfolding reqs_def by (rule length_filter_le)
  then show ?thesis by simp
qed

lemma plain_index:
  assumes "plain (Suc k) env fs" "j < length fs"
  shows "required_field_index (iter_nth fs a j) = reqs fs j"
  using assms(2)
proof (induction j)
  case 0
  then show ?case by (simp add: pb_field_iter_begin_def Let_def reqs_def)
next
  case (Suc j)
  then have j: "j < length fs" by simp
  define iter where "iter = iter_nth fs a j"
  note i = plain_iter [OF assms(1) j, of a, folded iter_def]
  have p: "plain_field (fs ! j)" "plain_field (fs ! Suc j)" using assms(1) j Suc.prems by (auto intro: plain_field_D)
  have n: "field_at (start iter) (pos iter + 1) = fs ! Suc j" using i Suc.prems by (simp add: field_at_def)
  have idx: "required_field_index iter = reqs fs j" using Suc.IH j by (simp add: iter_def)
  have "reqs fs (Suc j) < 2 ^ 32" using reqs_le [of fs "Suc j"] assms(1) by simp
  then have "required_field_index (snd (pb_field_iter_next iter)) = reqs fs (Suc j)"
    using p unfolding pb_field_iter_next_def Let_def n i(2) reqs_Suc [OF j]
    by (auto simp: plain_field_def htype_defs idx)
  then show ?case by (simp add: iter_def)
qed

lemma second_word: "32 \<le> c \<Longrightarrow> c < 64 \<Longrightarrow> c div 32 = 1 \<and> c mod 32 = c - 32 \<and> c - 32 < (32 :: nat)"
  by (simp add: le_mod_geq le_div_geq)

lemma seen_step:
  assumes "c < PB_MAX_REQUIRED_FIELDS"
  shows "(seen c)[c div 32 := seen c ! (c div 32) OR push_bit (c mod 32) 1] = seen (Suc c)"
proof -
  have m: "(mask n :: u32) OR push_bit n 1 = mask (Suc n)" for n by (simp add: mask_Suc_exp or.commute)
  show ?thesis
  proof (cases "c < 32")
    case True
    then have "min 32 (Suc c) = Suc c" "min 32 c = c" "Suc c - 32 = 0" "c - 32 = 0" by auto
    with True m [of c] show ?thesis by (simp add: seen_def)
  next
    case False
    then have "c div 32 = 1" "c mod 32 = c - 32" "c - 32 < 32" using assms second_word [of c] by (simp_all add: PB_MAX_REQUIRED_FIELDS_def)
    moreover from this have "min 32 (Suc c - 32) = Suc (c - 32)" "min 32 (c - 32) = c - 32" "min 32 (Suc c) = 32" "min 32 c = 32"
      using False by (simp_all add: Suc_diff_le)
    ultimately show ?thesis using m [of "c - 32"] by (simp add: seen_def)
  qed
qed

lemma seen_full: "PB_MAX_REQUIRED_FIELDS \<le> c \<Longrightarrow> seen (Suc c) = seen c"
  by (simp add: seen_def PB_MAX_REQUIRED_FIELDS_def min_def)

lemma all_required_seen: "all_required (seen c) (min PB_MAX_REQUIRED_FIELDS c)"
proof -
  have full: "(mask 32 :: u32) = - 1" by (simp add: mask_eq_exp_minus_1)
  have part: "drop_bit (32 - r) (- 1 :: u32) = mask r" if "r < 32" for r
    by (rule bit_word_eqI) (use that in \<open>auto simp: bit_simps\<close>)
  consider "c < 32" | "32 \<le> c" "c < 64" | "64 \<le> c" by linarith
  then show ?thesis
  proof cases
    case 1
    then show ?thesis by (simp add: all_required_def seen_def PB_MAX_REQUIRED_FIELDS_def part min_def)
  next
    case 2
    with second_word [OF 2] show ?thesis
      by (simp add: all_required_def seen_def PB_MAX_REQUIRED_FIELDS_def part full upt_rec min_absorb1 min_absorb2)
  next
    case 3
    then show ?thesis by (simp add: all_required_def seen_def PB_MAX_REQUIRED_FIELDS_def full min_def upt_rec)
  qed
qed

lemma seek_end_plain:
  assumes "plain (Suc k) env fs" "q < length fs"
  shows "seek_end (iter_nth fs a q) =
    (reqs fs (length fs - 1), fld_type (fs ! (length fs - 1)), snd (pb_field_iter_begin fs a))"
  using assms(2)
proof (induction "length fs - q" arbitrary: q)
  case (Suc d)
  note i = plain_iter [OF assms(1) Suc.prems, of a]
  have L: "length (layout fs a) = length fs" using assms(1) by (rule plain_length)
  define iter where "iter = iter_nth fs a q"
  show ?case
  proof (cases "Suc q < length fs")
    case True
    with next_iter_nth [OF i(1)] L have "pb_field_iter_next iter = (True, iter_nth fs a (Suc q))" by (simp add: prod_eq_iff iter_def)
    moreover have "d = length fs - Suc q" using Suc.hyps(2) by linarith
    ultimately show ?thesis
      using Suc.hyps(1) [OF _ True] unfolding iter_def [symmetric] by (subst seek_end.simps) (simp del: iter_nth.simps)
  next
    case False
    with next_iter_nth [OF i(1)] L obtain iter' where n: "pb_field_iter_next iter = (False, iter')"
      by (cases "pb_field_iter_next iter") (simp add: iter_def)
    with remaining_next [OF n] i iter_nth_remaining [OF i(1)] plain_field_D(1) [OF assms(1), of "fs ! q"] Suc.prems have "iter' = snd (pb_field_iter_begin fs a)" by (simp add: iter_def plain_field_def)
    moreover have "q = length fs - 1" using False Suc.prems by linarith
    ultimately show ?thesis
      using n plain_index [OF assms(1) Suc.prems, of a] i(2) unfolding iter_def [symmetric] by (subst seek_end.simps) simp
  qed
qed simp

lemma req_count_plain:
  assumes "plain (Suc k) env fs" "q < length fs"
  shows "req_field_count (iter_nth fs a q) = min PB_MAX_REQUIRED_FIELDS (reqs fs (length fs))"
proof -
  have l: "length fs - 1 < length fs" "Suc (length fs - 1) = length fs" using assms(2) by auto
  have "iter_field (snd (pb_field_iter_begin fs a)) = fs ! 0"
    using plain_iter(2) [OF assms(1), of 0 a] assms(2) by (cases fs) simp_all
  moreover have "plain_field (fs ! 0)" using assms by (intro plain_field_D(1) [OF assms(1)] nth_mem) (cases fs, simp_all)
  moreover have "reqs fs (length fs) < 2 ^ 32" using reqs_le [of fs "length fs"] assms(1) by simp
  ultimately show ?thesis
    using reqs_Suc [OF l(1)] unfolding l(2)
    by (auto simp: req_field_count_def seek_end_plain [OF assms] plain_field_def)
qed

section \<open>The whole message\<close>

text \<open>After \<open>i\<close> fields: these have the records \<open>us\<close>, the others are as they were left by the defaults.\<close>

definition filled :: "nat \<Rightarrow> 'v pb_env \<Rightarrow> 'u dec_env \<Rightarrow> pb_field list \<Rightarrow> nat \<Rightarrow> wire_record list list \<Rightarrow> nat \<Rightarrow> mem \<Rightarrow> bool" where
  "filled k penv env fs dest us i h \<longleftrightarrow> (\<forall>j < i. rec k penv h (iter_nth fs dest j) = Some (us ! j)) \<and>
     (\<forall>j < length fs. i \<le> j \<longrightarrow> blank_field k env h (iter_nth fs dest j))"

definition at_field :: "pb_field list \<Rightarrow> nat \<Rightarrow> nat \<Rightarrow> dec_locals \<Rightarrow> bool" where
  "at_field fs dest i lv \<longleftrightarrow> (\<exists>q. loop_iter lv = iter_nth fs dest q \<and> (q < length fs \<or> q = 0)) \<and> fixed_count_field lv = None \<and>
     fields_seen lv = seen (reqs fs i)"

lemma filled_frame:
  assumes "plain (Suc k) env fs" "apart (Suc k) env fs dest" "descriptors penv = descriptors_at env" "i < length fs"
    and "filled k penv env fs dest us i (bytes_of hp)" "agree (field_area k env (iter_nth fs dest i) \<union> slots env) hp hp'"
    and "rec k penv (bytes_of hp') (iter_nth fs dest i) = Some (us ! i)"
  shows "filled k penv env fs dest us (Suc i) (bytes_of hp')"
proof -
  have same: "bytes_of hp x = bytes_of hp' x" if "j < length fs" "j \<noteq> i" "x \<in> field_area k env (iter_nth fs dest j)" for j x
  proof -
    have "x \<notin> field_area k env (iter_nth fs dest i) \<union> slots env"
      using that(3) apart_D(4) [OF assms(1,2) that(1)] apart_D(6) [OF assms(1,2,4) that(1,2)] by blast
    with assms(6) show ?thesis by (simp add: agree_def)
  qed
  have "rec k penv (bytes_of hp') (iter_nth fs dest j) = Some (us ! j)" if "j < i" for j
  proof -
    have "rec k penv (bytes_of hp) (iter_nth fs dest j) = rec k penv (bytes_of hp') (iter_nth fs dest j)"
      using that assms(4) same [of j] by (intro rec_frame [OF assms(1,2) _ assms(3) records_frame [OF assms(3)]]) auto
    with that assms(5) show ?thesis by (simp add: filled_def)
  qed
  moreover have "blank_field k env (bytes_of hp') (iter_nth fs dest j)" if "j < length fs" "Suc i \<le> j" for j
    using that assms(5) same [of j]
    by (intro blank_field_frame [where h = "bytes_of hp" and h' = "bytes_of hp'", OF assms(1,2) that(1) _ blank_frame]) (auto simp: filled_def)
  ultimately show ?thesis using assms(7) by (auto simp: filled_def less_Suc_eq)
qed

text \<open>A field that is absent.\<close>

lemma filled_absent:
  assumes "plain (Suc k) env fs" "apart (Suc k) env fs dest" "a \<noteq> 0" "i < length fs"
    and "rec k penv h (iter_nth fs a i) = Some []" "us ! i = []" "filled k penv env fs dest us i h'"
  shows "filled k penv env fs dest us (Suc i) h'" "reqs fs (Suc i) = reqs fs i"
proof -
  have opt: "PB_HTYPE (fld_type (fs ! i)) = PB_HTYPE_OPTIONAL"
    using assms(5) unfolding plain_rec [OF assms(1,4,3)] by (auto simp: one_record_def split: if_splits)
  have "h' (pSize (iter_nth fs dest i)) = 0"
    using assms(4,7) opt plain_iter(2) [OF assms(1,4), of dest] by (simp add: filled_def blank_field_def)
  then have "rec k penv h' (iter_nth fs dest i) = Some []"
    using opt unfolding plain_rec [OF assms(1,4) apart_D(1) [OF assms(1,2,4)]] by simp
  with assms(6,7) show "filled k penv env fs dest us (Suc i) h'" by (auto simp: filled_def less_Suc_eq)
  show "reqs fs (Suc i) = reqs fs i" using opt by (simp add: reqs_Suc [OF assms(4)] htype_defs)
qed

lemma rec_present:
  assumes "plain (Suc k) env fs" "a \<noteq> 0" "i < length fs" "rec k penv h (iter_nth fs a i) = Some (u # v)"
  obtains w where "u = (fld_tag (fs ! i), w)" "v = []" "val_at k penv h (fs ! i) (pData (iter_nth fs a i)) = Some w"
    "0 < fld_tag (fs ! i)" "fld_tag (fs ! i) < 2 ^ 29"
  using assms(4) that unfolding plain_rec [OF assms(1,3,2)] by (auto simp: one_record_def split: if_splits)

lemma known_restored:
  assumes "inverts n k penv env noinit" "descriptors penv = descriptors_at env" "handles n k env noinit" "k \<le> n"
    and dest: "plain (Suc k) env fs" "apart (Suc k) env fs dest" "i < length fs" "filled k penv env fs dest us i (bytes_of hp)"
    and src: "text_ok k env h (fs ! i) p" "val_at k penv h (fs ! i) p = Some w" "us ! i = [(fld_tag (fs ! i), w)]"
      "0 < fld_tag (fs ! i)" "fld_tag (fs ! i) < 2 ^ 29"
    and st: "istream_ok s" "ibuf s = wire_bytes w @ r" "bytes_left s \<le> n" "bytes_left s < 2 ^ 32"
    and lv: "at_field fs dest i lv"
  shows "\<exists>lv' hp'. decode_one n env noinit slot (fld_tag (fs ! i)) wt lv (s, hp) =
      Some (True, lv', iskip s (length (wire_bytes w)), hp') \<and>
    filled k penv env fs dest us (Suc i) (bytes_of hp') \<and> at_field fs dest (Suc i) lv'"
proof -
  define iter where "iter = iter_nth fs dest i"
  have "blank_field k env (bytes_of hp) (iter_nth fs dest i)" using dest(3,4) by (simp add: filled_def)
  from field_restored [OF assms(1-4) dest(1-3) this src(1,2,4,5) st, folded iter_def] obtain hp' where
    d: "decode_field n env noinit wt iter (s, hp) = Some (True, iter, iskip s (length (wire_bytes w)), hp')"
      "rec k penv (bytes_of hp') iter = Some [(fld_tag (fs ! i), w)]" "agree (field_area k env iter \<union> slots env) hp hp'" by blast
  have up: "filled k penv env fs dest us (Suc i) (bytes_of hp')"
    using filled_frame [OF dest(1,2) assms(2) dest(3,4)] d(2,3) src(3) by (simp add: iter_def)
  obtain q where q: "loop_iter lv = iter_nth fs dest q" "q < length fs" using lv dest(3) by (fastforce simp: at_field_def)
  note fnd = find_plain [OF dest(1) q(2) dest(3), of dest, folded iter_def]
  note i = plain_iter [OF dest(1,3), of dest, folded iter_def] plain_index [OF dest(1,3), of dest, folded iter_def]
  have nr: "PB_HTYPE (fld_type (fs ! i)) \<noteq> PB_HTYPE_REPEATED"
    using plain_field_D(1) [OF dest(1), of "fs ! i"] dest(3) by (auto simp: plain_field_def htype_defs)
  define lv' where "lv' = (if PB_HTYPE (fld_type (fs ! i)) = PB_HTYPE_REQUIRED \<and> reqs fs i < PB_MAX_REQUIRED_FIELDS
    then lv\<lparr>fields_seen := (fields_seen lv)[reqs fs i div 32 := fields_seen lv ! (reqs fs i div 32) OR push_bit (reqs fs i mod 32) 1]\<rparr>
    else lv)\<lparr>loop_iter := iter\<rparr>"
  have "decode_one n env noinit slot (fld_tag (fs ! i)) wt lv (s, hp) = Some (True, lv', iskip s (length (wire_bytes w)), hp')"
    using d(1) nr i fnd q(1) by (simp add: decode_one_def decode_known_def Let_def lv'_def)
  moreover have "at_field fs dest (Suc i) lv'"
    using lv dest(3) seen_step [of "reqs fs i"] seen_full [of "reqs fs i"] reqs_Suc [OF dest(3)]
    by (auto simp: at_field_def lv'_def iter_def)
  ultimately show ?thesis using up by blast
qed

lemma loop_restored:
  assumes inv: "inverts n k penv env noinit" "descriptors penv = descriptors_at env" "handles n k env noinit" "k \<le> n"
    and dest: "plain (Suc k) env fs" "apart (Suc k) env fs dest"
    and src: "a \<noteq> 0" "length us = length fs" "\<And>j. j < length fs \<Longrightarrow> rec k penv h (iter_nth fs a j) = Some (us ! j)"
      "\<And>j. j < length fs \<Longrightarrow> text_ok k env h (fs ! j) (pData (iter_nth fs a j))"
  shows "i \<le> length fs \<Longrightarrow> at_field fs dest i lv \<Longrightarrow> filled k penv env fs dest us i (bytes_of hp) \<Longrightarrow>
    istream_ok s \<Longrightarrow> ibuf s = message_bytes (concat (drop i us)) \<Longrightarrow> bytes_left s \<le> n \<Longrightarrow> bytes_left s < 2 ^ 32 \<Longrightarrow> bytes_left s \<le> m \<Longrightarrow>
    \<exists>lv' hp'. decode_fields_loop m n env noinit slot lv (s, hp) = Some (True, lv', iskip s (bytes_left s), hp') \<and>
      filled k penv env fs dest us (length fs) (bytes_of hp') \<and> at_field fs dest (length fs) lv'"
proof (induction "length fs - i" arbitrary: i lv hp s m)
  case 0
  then have "i = length fs" by simp
  with 0 src(2) length_ibuf [of s] have "bytes_left s = 0" by simp
  with 0 \<open>i = length fs\<close> show ?case by (subst decode_fields_loop.simps) auto
next
  case (Suc d)
  then have i: "i < length fs" "d = length fs - Suc i" by linarith+
  have dr: "drop i us = us ! i # drop (Suc i) us" using i(1) src(2) by (simp add: Cons_nth_drop_Suc)
  show ?case
  proof (cases "us ! i")
    case Nil
    have "at_field fs dest (Suc i) lv" "filled k penv env fs dest us (Suc i) (bytes_of hp)"
      using filled_absent [OF dest src(1) i(1) src(3) [OF i(1), unfolded Nil] Nil Suc.prems(3)] Suc.prems(2) by (auto simp: at_field_def)
    from Suc.hyps(1) [OF i(2) _ this Suc.prems(4)] Suc.prems i(1) dr Nil show ?thesis by simp
  next
    case (Cons u v)
    then obtain w where w: "u = (fld_tag (fs ! i), w)" "v = []" "val_at k penv h (fs ! i) (pData (iter_nth fs a i)) = Some w"
      "0 < fld_tag (fs ! i)" "fld_tag (fs ! i) < 2 ^ 29" using rec_present [OF dest(1) src(1) i(1)] src(3) [OF i(1)] by metis
    define tb where "tb = tag_bytes (wire_type_of w, fld_tag (fs ! i))"
    define r where "r = message_bytes (concat (drop (Suc i) us))"
    have buf: "ibuf s = tb @ wire_bytes w @ r" using Suc.prems(5) dr Cons w(1,2) by (simp add: record_bytes_def tb_def r_def)
    have left: "bytes_left s = length tb + length (wire_bytes w) + length r" using length_ibuf [OF Suc.prems(4)] buf by simp
    have pos: "0 < length tb" using length_varint_bytes by (simp add: tb_def tag_bytes_def)
    have ok: "tag_ok (wire_type_of w, fld_tag (fs ! i))" using w(4,5) by (simp add: wire_type_ok)
    have tag: "pb_decode_tag s = (Inr (wire_type_of w, fld_tag (fs ! i)), iskip s (length tb))"
      unfolding tb_def by (rule pb_decode_tag_bytes [OF Suc.prems(4) ok]) (use buf in \<open>simp add: tb_def\<close>)
    let ?s = "iskip s (length tb)"
    have s1: "istream_ok ?s" "ibuf ?s = wire_bytes w @ r" "bytes_left ?s \<le> n" "bytes_left ?s < 2 ^ 32"
      using Suc.prems(4,6,7) buf by simp_all
    obtain lv1 hp1 where o: "decode_one n env noinit slot (fld_tag (fs ! i)) (wire_type_of w) lv (?s, hp) =
        Some (True, lv1, iskip ?s (length (wire_bytes w)), hp1)"
      "filled k penv env fs dest us (Suc i) (bytes_of hp1)" "at_field fs dest (Suc i) lv1"
      using known_restored [OF inv dest i(1) Suc.prems(3) src(4) [OF i(1)] w(3) _ w(4,5) s1 Suc.prems(2)] Cons w(1,2) by blast
    obtain m' where m: "m = Suc m'" using left pos Suc.prems(8) by (cases m) simp_all
    have rm: "length r \<le> m'" using left pos Suc.prems(8) m by linarith
    let ?t = "iskip ?s (length (wire_bytes w))"
    have t: "istream_ok ?t" "ibuf ?t = r" "bytes_left ?t = length r" using s1 Suc.prems(4) buf left by simp_all
    have "\<exists>lv' hp'. decode_fields_loop m' n env noinit slot lv1 (?t, hp1) = Some (True, lv', iskip ?t (bytes_left ?t), hp') \<and>
        filled k penv env fs dest us (length fs) (bytes_of hp') \<and> at_field fs dest (length fs) lv'"
      using Suc.prems(6,7) left rm t i(1) by (intro Suc.hyps(1) [OF i(2) _ o(3,2) t(1)]) (simp_all add: r_def)
    moreover have "iskip ?t (bytes_left ?t) = iskip s (bytes_left s)" using left t(3) by (simp add: add.assoc)
    moreover have "decode_fields_loop m n env noinit slot lv (s, hp) = decode_fields_loop m' n env noinit slot lv1 (?t, hp1)"
      using tag o(1) left pos unfolding m by (subst decode_fields_loop.simps) simp
    ultimately show ?thesis by simp
  qed
qed

lemma those_map_nth:
  assumes "those (map g [0..<n]) = Some us"
  shows "length us = n" "j < n \<Longrightarrow> g j = Some (us ! j)"
proof -
  have "those xs = Some ys \<Longrightarrow> map Some ys = xs" for xs :: "'a option list" and ys
    by (induction xs arbitrary: ys) (auto split: option.splits)
  from this [OF assms] have m: "map Some us = map g [0..<n]" .
  then show "length us = n" by (metis length_map length_upt diff_zero)
  then show "g j = Some (us ! j)" if "j < n" using m that by (metis add_0 diff_zero length_upt nth_map nth_upt)
qed

lemma those_map_eq: "(\<And>j. j < n \<Longrightarrow> g j = Some (us ! j)) \<Longrightarrow> length us = n \<Longrightarrow> those (map g [0..<n]) = Some us"
proof -
  have "those (map Some us) = Some us" for us :: "'a list" by (induction us) simp_all
  moreover assume "\<And>j. j < n \<Longrightarrow> g j = Some (us ! j)" "length us = n"
  then have "map g [0..<n] = map Some us" by (intro nth_equalityI) simp_all
  ultimately show ?thesis by simp
qed

lemma required_seen:
  assumes "plain (Suc k) env fs" "at_field fs dest (length fs) lv"
  shows "all_required (fields_seen lv) (req_field_count (loop_iter lv))"
proof -
  obtain q where q: "loop_iter lv = iter_nth fs dest q" "q < length fs \<or> q = 0" "fields_seen lv = seen (reqs fs (length fs))"
    using assms(2) by (auto simp: at_field_def)
  show ?thesis
  proof (cases "q < length fs")
    case True
    with all_required_seen [of "reqs fs (length fs)"] show ?thesis unfolding q(1,3) req_count_plain [OF assms(1) True] by simp
  next
    case False
    with q(2) have "q = 0" by simp
    then have e: "fs = [] \<or> q < length fs" by (cases fs) simp_all
    with False have fs: "fs = []" by simp
    let ?iter = "snd (pb_field_iter_begin [] dest)"
    have f: "iter_field ?iter = PB_LAST_FIELD" "required_field_index ?iter = 0"
      by (simp_all add: pb_field_iter_begin_def field_at_def Let_def)
    then have "pb_field_iter_next ?iter = (False, ?iter)" by (simp add: pb_field_iter_next_def)
    then have "seek_end ?iter = (0, fld_type PB_LAST_FIELD, ?iter)" using f by (subst seek_end.simps) simp
    then have "req_field_count ?iter = 0" using f by (simp add: req_field_count_def)
    with all_required_seen [of 0] fs q \<open>q = 0\<close> show ?thesis by (simp add: reqs_def)
  qed
qed

lemma texts_end_D:
  assumes "plain (Suc k) env fs" "texts_end (Suc k) env h fs a" "j < length fs"
  shows "text_ok k env h (fs ! j) (pData (iter_nth fs a j))"
proof -
  have "(fs ! j, pData (iter_nth fs a j)) \<in> set (layout fs a)"
    using iter_nth_field [OF plain_iter(1) [OF assms(1,3)], of a] plain_iter(1,2) [OF assms(1,3), of a] by (metis nth_mem)
  with assms(2) show ?thesis by (auto simp: text_ok_def list_all_iff)
qed

lemma blank_slot:
  assumes "plain (Suc k) env fs" "apart (Suc k) env fs dest" "blank (Suc k) env (bytes_of hp) fs dest"
  shows "blank (Suc k) env (bytes_of (put hp (stack_slot env d) 4 v)) fs dest"
proof (rule blank_frame [OF assms(1,2) _ assms(3)])
  fix x
  assume "x \<in> area (Suc k) env fs dest"
  then have "x \<notin> slots env" using assms(2) unfolding area_fields by auto
  moreover have "agree (slots env) hp (put hp (stack_slot env d) 4 v)" by (rule agree_put) (auto simp: slots_def)
  ultimately show "bytes_of hp x = bytes_of (put hp (stack_slot env d) 4 v) x" by (simp add: agree_def)
qed

lemma noinit_inverts:
  assumes "descriptors penv = descriptors_at env"
  shows "k < n \<Longrightarrow> inverts n k penv env (pb_decode_noinit n d env)"
proof (induction n arbitrary: k d)
  case (Suc n)
  show ?case
    unfolding inverts_def
  proof (intro allI impI)
    fix fs dest a h ws and st :: "'b dstate"
    assume p: "plain k env fs" "apart k env fs dest" "blank k env (bytes_of (snd st)) fs dest" "a \<noteq> 0" "texts_end k env h fs a"
      "message_records k penv h fs a = Some ws" "istream_ok (fst st)" "ibuf (fst st) = message_bytes ws" "bytes_left (fst st) < Suc n"
      "bytes_left (fst st) < 2 ^ 32"
    then obtain k' where k: "k = Suc k'" by (cases k) auto
    note pl = p(1) [unfolded k] and ap = p(2) [unfolded k]
    let ?slot = "stack_slot env d"
    let ?lv = "\<lparr>fields_seen = [0, 0], extension_range_start = 0, loop_iter = snd (pb_field_iter_begin fs dest), fixed_count_field = None\<rparr>"
    let ?hp = "put (snd st) ?slot 4 0"
    obtain us where us: "those (map (\<lambda>j. rec k' penv h (iter_nth fs a j)) [0..<length fs]) = Some us" "ws = concat us"
      using p(6) unfolding k message_records_nth [OF pl] by auto
    note u = those_map_nth [OF us(1)]
    note tx = texts_end_D [OF pl p(5) [unfolded k]]
    have bl: "filled k' penv env fs dest us 0 (bytes_of ?hp)"
      using blank_slot [OF pl ap p(3) [unfolded k]] blank_iff [OF pl] by (simp add: filled_def del: blank.simps)
    have lv: "at_field fs dest 0 ?lv" by (auto simp: at_field_def seen_def reqs_def intro: exI [of _ 0])
    have hd: "handles n k' env (pb_decode_noinit n (d + 1) env)" using Suc.prems k by (intro noinit_handles) simp
    have iv: "inverts n k' penv env (pb_decode_noinit n (d + 1) env)" using Suc.prems k by (intro Suc.IH) simp
    have kn: "k' \<le> n" "bytes_left (fst st) \<le> n" "ibuf (fst st) = message_bytes (concat (drop 0 us))"
      using Suc.prems k p(8,9) us(2) by simp_all
    obtain lv' hp' where
      l: "decode_fields_loop n n env (pb_decode_noinit n (d + 1) env) ?slot ?lv (fst st, ?hp) =
          Some (True, lv', iskip (fst st) (bytes_left (fst st)), hp')"
        "filled k' penv env fs dest us (length fs) (bytes_of hp')" "at_field fs dest (length fs) lv'"
      using loop_restored [where h = h and a = a, OF iv assms hd kn(1) pl ap p(4) u(1) u(2) tx le0 lv bl p(7) kn(3,2) p(10) kn(2), of ?slot]
      by blast
    have req: "all_required (fields_seen lv') (req_field_count (loop_iter lv'))"
      using required_seen [OF pl l(3)] .
    have "message_records k penv (bytes_of hp') fs dest = Some ws"
      using those_map_eq [of "length fs" "\<lambda>j. rec k' penv (bytes_of hp') (iter_nth fs dest j)" us] l(2) u(1) us(2)
      unfolding k message_records_nth [OF pl] by (simp add: filled_def)
    with l req show "\<exists>hp. pb_decode_noinit (Suc n) d env fs dest st = Some (True, iskip (fst st) (bytes_left (fst st)), hp) \<and>
        message_records k penv (bytes_of hp) fs dest = Some ws"
      by (auto simp: Let_def at_field_def wrong_fixed_count_def)
  qed
qed simp

text \<open>The defaults leave a blank message.\<close>

lemma set_default_blank:
  assumes "plain (Suc k) env fs" "apart (Suc k) env fs a" "j < length fs" "Suc k \<le> Suc n"
    and sub: "\<And>fs a hp. plain k env fs \<Longrightarrow> apart k env fs a \<Longrightarrow>
      \<exists>hp'. all_fields (pb_field_set_to_default n env) fs a hp = Some hp' \<and> blank k env (bytes_of hp') fs a \<and> agree (area k env fs a) hp hp'"
  shows "\<exists>hp'. pb_field_set_to_default (Suc n) env (iter_nth fs a j) hp = Some hp' \<and> blank_field k env (bytes_of hp') (iter_nth fs a j) \<and>
    agree (field_area k env (iter_nth fs a j)) hp hp'"
proof -
  define iter where "iter = iter_nth fs a j"
  note i = plain_iter [OF assms(1,3), of a, folded iter_def]
  define f where "f = fs ! j"
  note p = apart_D [OF assms(1-3), folded iter_def f_def]
  have fin: "f \<in> set fs" using assms(3) by (simp add: f_def)
  note pf = plain_field_D(1) [OF assms(1) fin]
  let ?opt = "PB_HTYPE (fld_type f) = PB_HTYPE_OPTIONAL"
  have if': "iter_field iter = f" using i(2) by (simp add: f_def)
  have has: "pSize iter \<noteq> pData iter" if ?opt using that plain_optional [OF assms(1,3) p(1)] by (simp add: f_def iter_def)
  define hp1 where "hp1 = (if ?opt then put hp (pSize iter) 1 0 else hp)"
  have cnt: "count_area iter = {pSize iter}" if ?opt using field_area_sub(2) [of iter] that has pf if' by simp
  have a1: "agree (count_area iter) hp hp1" using cnt by (auto simp: hp1_def intro: agree_put)
  have items: "items_area (area k env) env iter = item_area (area k env) env f (pData iter)" using plain_items [of iter] pf if' by simp
  obtain hp2 where h2: "pb_field_set_to_default (Suc n) env iter hp = Some hp2" "agree (items_area (area k env) env iter) hp1 hp2"
    "PB_LTYPE (fld_type f) = PB_LTYPE_SUBMESSAGE \<longrightarrow> blank k env (bytes_of hp2) (descriptors_at env (fld_ptr f)) (pData iter)"
  proof (cases "PB_LTYPE (fld_type f) = PB_LTYPE_SUBMESSAGE")
    case True
    let ?fs = "descriptors_at env (fld_ptr f)"
    have "fld_ptr f \<noteq> 0" "plain k env ?fs" using plain_field_D(2) [OF assms(1) fin True] by simp_all
    moreover obtain hp2 where "all_fields (pb_field_set_to_default n env) ?fs (pData iter) hp1 = Some hp2"
      "blank k env (bytes_of hp2) ?fs (pData iter)" "agree (area k env ?fs (pData iter)) hp1 hp2"
      using sub [OF calculation(2) p(5) [OF True]] by blast
    moreover from this(3) have "agree (items_area (area k env) env iter) hp1 hp2" by (rule agree_mono) (auto simp: items item_area_def True)
    ultimately show ?thesis using that pf True has if' by (auto simp: Let_def plain_field_def hp1_def htype_defs)
  next
    case False
    define bs where "bs = (if fld_ptr f \<noteq> 0 then read_bytes (bytes_of hp1) (fld_ptr f) (unat (data_size f)) else replicate (unat (data_size f)) 0)"
    have "length bs = unat (data_size f)" by (simp add: bs_def)
    then have "agree (items_area (area k env) env iter) hp1 (put_bytes hp1 (pData iter) bs)"
      by (intro agree_put_bytes) (auto simp: items item_area_def)
    moreover have "pb_field_set_to_default (Suc n) env iter hp = Some (put_bytes hp1 (pData iter) bs)"
      using pf False has if' by (auto simp: Let_def plain_field_def hp1_def bs_def htype_defs)
    ultimately show ?thesis using that False by simp
  qed
  have "bytes_of hp2 (pSize iter) = 0" if ?opt
  proof -
    have "pSize iter \<notin> items_area (area k env) env iter" using cnt [OF that] p(3) by auto
    with h2(2) that show ?thesis by (simp add: agree_def hp1_def put_def put_bytes_def write_bytes_def)
  qed
  moreover have "agree (field_area k env iter) hp hp2"
    using agree_mono [OF a1, of "field_area k env iter"] agree_mono [OF h2(2), of "field_area k env iter"]
    by (auto simp: field_area_def intro: agree_trans)
  ultimately show ?thesis using h2(1,3) if' by (auto simp: blank_field_def iter_def [symmetric])
qed

lemma defaults_blank:
  "plain k env fs \<Longrightarrow> apart k env fs a \<Longrightarrow> k \<le> n \<Longrightarrow>
   \<exists>hp'. all_fields (pb_field_set_to_default n env) fs a hp = Some hp' \<and> blank k env (bytes_of hp') fs a \<and> agree (area k env fs a) hp hp'"
proof (induction k arbitrary: n fs a hp)
  case (Suc k)
  then obtain n' where n: "n = Suc n'" by (cases n) simp_all
  have L: "length (layout fs a) = length fs" using Suc.prems(1) by (rule plain_length)
  let ?P = "\<lambda>j hp'. (\<forall>i < j. blank_field k env (bytes_of hp') (iter_nth fs a i)) \<and> agree (area (Suc k) env fs a) hp hp'"
  have "\<exists>hp'. all_fields (pb_field_set_to_default n env) fs a hp = Some hp' \<and> ?P (length (layout fs a)) hp'"
  proof (rule all_fields_inv)
    fix j hp1
    assume j: "j < length (layout fs a)" and P: "?P j hp1"
    have jl: "j < length fs" using j L by simp
    obtain hp2 where h2: "pb_field_set_to_default n env (iter_nth fs a j) hp1 = Some hp2"
      "blank_field k env (bytes_of hp2) (iter_nth fs a j)" "agree (field_area k env (iter_nth fs a j)) hp1 hp2"
      using set_default_blank [OF Suc.prems(1,2) jl _ Suc.IH, of n' hp1] Suc.prems(3) unfolding n by auto
    have "bytes_of hp1 x = bytes_of hp2 x" if "i < j" "x \<in> field_area k env (iter_nth fs a i)" for i x
      using that h2(3) jl apart_D(6) [OF Suc.prems(1,2) jl, of i] by (auto simp: agree_def)
    then have "blank_field k env (bytes_of hp2) (iter_nth fs a i)" if "i < j" for i
      using that jl P by (intro blank_field_frame [where h = "bytes_of hp1" and h' = "bytes_of hp2", OF Suc.prems(1,2) _ _ blank_frame]) auto
    moreover have "agree (area (Suc k) env fs a) hp1 hp2"
      using h2(3) plain_iter(6) [OF Suc.prems(1) jl, of a] by (elim agree_mono) (auto simp: area_fields simp del: area.simps)
    ultimately show "\<exists>hp'. pb_field_set_to_default n env (iter_nth fs a j) hp1 = Some hp' \<and> ?P (Suc j) hp'"
      using h2(1,2) P by (auto simp: less_Suc_eq intro: agree_trans simp del: area.simps)
  qed (simp del: area.simps)
  then show ?case unfolding L blank_iff [OF Suc.prems(1)] by blast
qed simp

section \<open>An example\<close>

text \<open>A message with an optional number, a submessage and a string.\<close>

definition note_type :: "pb_field list" where
  "note_type =
    [\<lparr>fld_tag = 1, fld_type = 0x13, data_offset = 4, size_offset = - 4, data_size = 4, array_size = 0, fld_ptr = 0\<rparr>,
     \<lparr>fld_tag = 2, fld_type = 0x08, data_offset = 0, size_offset = 0, data_size = 4, array_size = 0, fld_ptr = 100\<rparr>,
     \<lparr>fld_tag = 3, fld_type = 0x07, data_offset = 0, size_offset = 0, data_size = 4, array_size = 0, fld_ptr = 0\<rparr>]"

definition note_dec :: "unit dec_env" where
  "note_dec = sample_env\<lparr>descriptors_at := (\<lambda>a. if a = 100 then example_inner else [])\<rparr>"

definition note_memory :: mem where
  "note_memory x = (if x = 200 then 1 else if x = 204 then 5 else if x = 208 then 0x96 else if x = 209 then 1
     else if x = 212 then 0x48 else if x = 213 then 0x69 else 0)"

definition note_records :: "wire_record list" where
  "note_records = [(1, WVarint 10), (2, WBytes [0x08, 0x96, 0x03]), (3, WBytes [0x48, 0x69])]"

lemmas note_defs = note_type_def example_inner_def

lemma note_env: "descriptors example_env = descriptors_at note_dec" "descriptors_at note_dec 100 = example_inner"
  by (simp_all add: example_env_def note_dec_def sample_env_def)

lemma note_plain: "plain 2 note_dec note_type"
  unfolding numeral_2_eq_2 by (simp add: note_type_def note_env(2) plain_field_def pb_type_defs) (simp add: example_inner_def plain_field_def pb_type_defs)

lemma note_iters:
  "iters note_type 300 =
    [\<lparr>start = note_type, pos = 0, required_field_index = 0, dest_struct = 300, pData = 304, pSize = 300\<rparr>,
     \<lparr>start = note_type, pos = 1, required_field_index = 0, dest_struct = 300, pData = 308, pSize = 308\<rparr>,
     \<lparr>start = note_type, pos = 2, required_field_index = 1, dest_struct = 300, pData = 312, pSize = 312\<rparr>]"
  "iters example_inner 308 = [\<lparr>start = example_inner, pos = 0, required_field_index = 0, dest_struct = 308, pData = 308, pSize = 308\<rparr>]"
  by (simp_all add: iters_def note_defs next_addr_def pb_field_iter_begin_def pb_field_iter_next_def field_at_def ptr_add_def
      pb_type_defs size_max_def PB_SIZE_MAX_def upt_rec)

lemma note_slots: "slots note_dec \<subseteq> {900..}"
  by (auto simp: slots_def note_dec_def sample_env_def)

lemmas note_eval = count_area_def items_area_def item_area_def value_size_def field_at_def pb_type_defs Let_def

lemma note_inner_area: "area 1 note_dec example_inner 308 = {308..<312}"
  unfolding One_nat_def area.simps note_iters by (simp add: example_inner_def note_eval)

lemma note_field_areas:
  "field_area 1 note_dec \<lparr>start = note_type, pos = 0, required_field_index = 0, dest_struct = 300, pData = 304, pSize = 300\<rparr> = {300..<301} \<union> {304..<308}"
  "field_area 1 note_dec \<lparr>start = note_type, pos = 1, required_field_index = 0, dest_struct = 300, pData = 308, pSize = 308\<rparr> = {308..<312}"
  "field_area 1 note_dec \<lparr>start = note_type, pos = 2, required_field_index = 1, dest_struct = 300, pData = 312, pSize = 312\<rparr> = {312..<316}"
  unfolding field_area_def by (simp_all add: note_type_def note_eval note_env(2) note_inner_area del: One_nat_def)

lemma note_inner_apart: "apart 1 note_dec example_inner 308"
  using note_slots unfolding One_nat_def apart.simps note_iters field_area_def
  by (auto simp: example_inner_def note_eval)

lemma note_apart: "apart 2 note_dec note_type 300"
proof -
  define i0 where "i0 = \<lparr>start = note_type, pos = 0, required_field_index = 0, dest_struct = 300, pData = 304, pSize = 300\<rparr>"
  define i1 where "i1 = \<lparr>start = note_type, pos = 1, required_field_index = 0, dest_struct = 300, pData = 308, pSize = 308\<rparr>"
  define i2 where "i2 = \<lparr>start = note_type, pos = 2, required_field_index = 1, dest_struct = 300, pData = 312, pSize = 312\<rparr>"
  have it: "set (iters note_type 300) = {i0, i1, i2}" by (simp add: note_iters i0_def i1_def i2_def)
  note fa = note_field_areas [folded i0_def i1_def i2_def]
  have pw: "pairwise (\<lambda>i j. field_area 1 note_dec i \<inter> field_area 1 note_dec j = {}) {i0, i1, i2}"
    unfolding pairwise_insert fa by (auto simp: fa simp del: One_nat_def)
  have sl: "field_area 1 note_dec i0 \<inter> slots note_dec = {}" "field_area 1 note_dec i1 \<inter> slots note_dec = {}"
    "field_area 1 note_dec i2 \<inter> slots note_dec = {}" using note_slots unfolding fa by auto
  have cn: "count_area i0 \<inter> items_area (area 1 note_dec) note_dec i0 = {}" "count_area i1 = {}" "count_area i2 = {}"
    by (simp_all add: i0_def i1_def i2_def note_type_def note_eval del: One_nat_def)
  have ty: "PB_LTYPE (fld_type (iter_field i0)) \<noteq> PB_LTYPE_SUBMESSAGE" "PB_LTYPE (fld_type (iter_field i2)) \<noteq> PB_LTYPE_SUBMESSAGE"
    "fld_ptr (iter_field i1) = 100" "pData i0 \<noteq> 0" "pData i1 = 308" "pData i2 \<noteq> 0"
    by (simp_all add: i0_def i1_def i2_def note_type_def note_eval)
  have "apart (Suc 1) note_dec note_type 300"
    using pw sl cn ty note_inner_apart unfolding apart.simps it by (simp add: note_env(2) del: One_nat_def)
  then show ?thesis by (simp add: numeral_2_eq_2)
qed

lemma note_layout:
  "layout note_type 200 = [(note_type ! 0, 204), (note_type ! 1, 208), (note_type ! 2, 212)]" "layout example_inner 208 = [(example_inner ! 0, 208)]"
  by (simp_all add: note_defs next_addr_def ptr_add_def pb_type_defs size_max_def PB_SIZE_MAX_def)

lemma note_string: "string_size note_memory 212 4 0 = 2"
  by (simp add: string_size.simps note_memory_def)

lemma note_texts: "texts_end 2 note_dec note_memory note_type 200"
  unfolding numeral_2_eq_2 texts_end.simps note_layout
  by (simp add: note_type_def note_env(2) note_layout pb_type_defs note_string) (simp add: example_inner_def pb_type_defs)

lemma note_load: "load note_memory 204 4 = 5" "load note_memory 208 4 = 406" "read_bytes note_memory 212 2 = [0x48, 0x69]"
  by (simp_all add: load_def read_bytes_numeral read_bytes_Suc note_memory_def)

lemma note_inner_records: "message_records (Suc 0) example_env note_memory example_inner 208 = Some [(1, WVarint 406)]"
  unfolding message_records.simps(2) note_layout by (simp add: example_inner_def example_eval note_load)

lemma note_fields:
  "field_records (Suc (Suc 0)) example_env note_memory (message_records (Suc 0) example_env note_memory) (note_type ! 0) 204 = Some [(1, WVarint 10)]"
  "field_records (Suc (Suc 0)) example_env note_memory (message_records (Suc 0) example_env note_memory) (note_type ! 1) 208
    = Some [(2, WBytes [0x08, 0x96, 0x03])]"
  "field_records (Suc (Suc 0)) example_env note_memory (message_records (Suc 0) example_env note_memory) (note_type ! 2) 212
    = Some [(3, WBytes [0x48, 0x69])]"
  by (simp_all add: example_eval note_type_def example_sub(1) note_inner_records example_inner_bytes note_load note_string example_packed ptr_add_def
      size_max_def note_memory_def del: message_records.simps message_bytes_simps)

lemma note_records_ok: "message_records 2 example_env note_memory note_type 200 = Some note_records"
proof -
  have "message_records (Suc (Suc 0)) example_env note_memory note_type 200 = Some note_records"
    unfolding message_records.simps(2) [of "Suc 0"] note_layout
    by (simp add: note_fields note_records_def del: One_nat_def message_records.simps) (simp add: note_type_def pb_type_defs)
  then show ?thesis by (simp only: numeral_2_eq_2)
qed

lemma note_bytes: "message_bytes note_records = [0x08, 0x0A, 0x12, 0x03, 0x08, 0x96, 0x03, 0x1A, 0x02, 0x48, 0x69]"
  by code_simp

section \<open>Correctness\<close>

text \<open>(C2) A message of required and optional fields, among them submessages of such messages, is encoded into a buffer that has room, and
  decoded from it: the decoder accepts the bytes, reads all of them, and the message that it has stored has the same records, whatever was in
  memory before.\<close>

theorem pb_message_roundtrip:
  fixes env :: "'u dec_env"
  assumes "plain k env fs" "apart k env fs dest" "descriptors penv = descriptors_at env" "a \<noteq> 0" "texts_end k env h fs a"
    and "message_records k penv h fs a = Some ws" "length (message_bytes ws) < 2 ^ 32"
    and "k < n" "length (message_bytes ws) < n" "length (message_bytes ws) \<le> z" "z < size_max"
  shows "\<exists>s. pb_encode k penv h (pb_ostream_from_buffer m buf z) fs a = Some (True, s) \<and>
    (\<exists>m'. sink s = Buf_write m' (buf + bytes_written s) \<and>
     (\<exists>s' hp'. pb_decode n d env fs dest (pb_istream_from_buffer m' buf (bytes_written s), hp) = Some (True, s', hp') \<and>
        bytes_left s' = 0 \<and> message_records k penv (bytes_of hp') fs dest = Some ws))"
proof -
  define bs where "bs = message_bytes ws"
  have len: "length bs < size_max" using assms(7) by (simp add: bs_def size_max_def)
  obtain ok s pre suf where e: "pb_encode k penv h (pb_ostream_from_buffer m buf z) fs a = Some (ok, s)" "ok"
    "bs = pre @ suf" "suf = []" "bytes_written s = length pre" "sink s = Buf_write (write_bytes m buf pre) (buf + length pre)"
    using emitter.buffered [OF message_emitter [OF assms(6)], of z m buf] len assms(10,11) by (auto simp: bs_def)
  let ?m = "write_bytes m buf bs"
  let ?s = "pb_istream_from_buffer ?m buf (length bs) :: 'u pb_istream"
  obtain hp1 where hp1: "pb_message_set_to_defaults n env fs dest hp = Some hp1" "blank k env (bytes_of hp1) fs dest"
    using defaults_blank [OF assms(1,2)] assms(8) unfolding pb_message_set_to_defaults_def by (meson less_imp_le)
  have st: "istream_ok ?s" "ibuf ?s = message_bytes ws" "bytes_left ?s < n" "bytes_left ?s < 2 ^ 32"
    using assms(7,9) by (simp_all add: bs_def [symmetric]) (simp_all add: pb_istream_from_buffer_def)
  obtain hp2 where "pb_decode_noinit n d env fs dest (?s, hp1) = Some (True, iskip ?s (bytes_left ?s), hp2)"
    "message_records k penv (bytes_of hp2) fs dest = Some ws"
    using inverts_D [OF noinit_inverts [OF assms(3,8), of d] assms(1,2) hp1(2) assms(4-6) st] by blast
  then have "\<exists>s' hp'. pb_decode n d env fs dest (?s, hp) = Some (True, s', hp') \<and> bytes_left s' = 0 \<and>
      message_records k penv (bytes_of hp') fs dest = Some ws"
    using hp1(1) by (auto simp: pb_decode_def decode_init_def)
  with e show ?thesis by (auto simp: bs_def [symmetric])
qed

theorem pb_message_roundtrip_witness:
  "\<exists>s m'. pb_encode 2 example_env note_memory (pb_ostream_from_buffer (\<lambda>_. 0) 500 64) note_type 200 = Some (True, s) \<and>
     sink s = Buf_write m' (500 + bytes_written s) \<and>
     (\<exists>s' hp'. pb_decode 20 0 note_dec note_type 300
        (pb_istream_from_buffer m' 500 (bytes_written s), \<lparr>bytes_of = (\<lambda>_. 7), blocks = Map.empty\<rparr>) = Some (True, s', hp') \<and>
        message_records 2 example_env (bytes_of hp') note_type 300 = Some note_records)"
proof -
  have len: "length (message_bytes note_records) = 11" unfolding note_bytes by simp
  show ?thesis
    using pb_message_roundtrip [OF note_plain note_apart note_env(1) _ note_texts note_records_ok,
        of 20 64 "\<lambda>_. 0" 500 0 "\<lparr>bytes_of = (\<lambda>_. 7), blocks = Map.empty\<rparr>"]
    unfolding len by (auto simp: size_max_def)
qed

end
