(* ===== verification/Heap_Sort.thy ===== *)
theory Heap_Sort
  imports Main "HOL-Library.Multiset"
begin

text \<open>
  The in-place heap sort of BoringSSL's \<^verbatim>\<open>crypto/stack/stack.c\<close> (\<open>parent_idx\<close>, \<open>left_idx\<close>,
  \<open>down_heap\<close> and the two loops of \<open>OPENSSL_sk_sort\<close>) on the array of elements, and the contract a
  comparison function has to keep for it.
\<close>

section \<open>The code\<close>

definition parent_idx :: "nat \<Rightarrow> nat" where
  "parent_idx idx = (idx - 1) div 2"

definition left_idx :: "nat \<Rightarrow> nat" where
  "left_idx idx = 2 * idx + 1"

definition swap_at :: "'a list \<Rightarrow> nat \<Rightarrow> nat \<Rightarrow> 'a list" where
  "swap_at xs i j = xs[i := xs ! j, j := xs ! i]"

text \<open>The child that \<open>down_heap\<close> descends to, or \<open>i\<close> itself when it is the largest of the three.\<close>

definition next_idx :: "('a \<Rightarrow> 'a \<Rightarrow> int) \<Rightarrow> 'a list \<Rightarrow> nat \<Rightarrow> nat \<Rightarrow> nat" where
  "next_idx cmp xs i num =
     (let left = left_idx i;
          next = (if cmp (xs ! i) (xs ! left) < 0 then left else i);
          right = left + 1
      in if right < num \<and> cmp (xs ! next) (xs ! right) < 0 then right else next)"

function down_heap :: "('a \<Rightarrow> 'a \<Rightarrow> int) \<Rightarrow> 'a list \<Rightarrow> nat \<Rightarrow> nat \<Rightarrow> 'a list" where
  "down_heap cmp xs i num =
     (if left_idx i \<ge> num then xs
      else
        (let next = next_idx cmp xs i num
         in if i = next then xs else down_heap cmp (swap_at xs i next) next num))"
  by pat_completeness auto
termination
  by (relation "measure (\<lambda>(cmp, xs, i, num). num - i)")
     (auto simp: next_idx_def left_idx_def Let_def split: if_splits)

declare down_heap.simps [simp del]

text \<open>The first loop of \<open>OPENSSL_sk_sort\<close>, from index \<open>i\<close> down to 0.\<close>

fun build_heap :: "('a \<Rightarrow> 'a \<Rightarrow> int) \<Rightarrow> 'a list \<Rightarrow> nat \<Rightarrow> nat \<Rightarrow> 'a list" where
  "build_heap cmp xs num 0 = down_heap cmp xs 0 num"
| "build_heap cmp xs num (Suc i) = build_heap cmp (down_heap cmp xs (Suc i) num) num i"

text \<open>The second loop: \<open>i\<close> runs down to 1.\<close>

fun extract_max :: "('a \<Rightarrow> 'a \<Rightarrow> int) \<Rightarrow> 'a list \<Rightarrow> nat \<Rightarrow> 'a list" where
  "extract_max cmp xs 0 = xs"
| "extract_max cmp xs (Suc i) =
     extract_max cmp (down_heap cmp (swap_at xs 0 (Suc i)) 0 (Suc i)) i"

definition heap_sort :: "('a \<Rightarrow> 'a \<Rightarrow> int) \<Rightarrow> 'a list \<Rightarrow> nat \<Rightarrow> 'a list" where
  "heap_sort cmp xs num =
     (if num \<ge> 2 then extract_max cmp (build_heap cmp xs num (parent_idx (num - 1))) (num - 1)
      else xs)"

section \<open>Permutation and frame\<close>

lemma length_swap_at [simp]: "length (swap_at xs i j) = length xs"
  by (simp add: swap_at_def)

lemma swap_at_nth:
  "i < length xs \<Longrightarrow> j < length xs \<Longrightarrow>
   swap_at xs i j ! k = (if k = j then xs ! i else if k = i then xs ! j else xs ! k)"
  by (auto simp: swap_at_def nth_list_update)

lemma mset_swap_at [simp]: "i < length xs \<Longrightarrow> j < length xs \<Longrightarrow> mset (swap_at xs i j) = mset xs"
  by (simp add: swap_at_def mset_swap)

lemma next_idx_cases:
  assumes "left_idx i < num"
  shows "next_idx cmp xs i num = i \<or>
    (next_idx cmp xs i num < num \<and>
     (next_idx cmp xs i num = 2 * i + 1 \<or> next_idx cmp xs i num = 2 * i + 2))"
  using assms by (auto simp: next_idx_def left_idx_def Let_def)

lemma next_idx_less: "left_idx i < num \<Longrightarrow> next_idx cmp xs i num \<noteq> i \<Longrightarrow>
   i < next_idx cmp xs i num \<and> next_idx cmp xs i num < num"
  using next_idx_cases [of i num cmp xs] by auto

lemma down_heap_frame:
  "num \<le> length xs \<Longrightarrow> length (down_heap cmp xs i num) = length xs \<and>
   mset (down_heap cmp xs i num) = mset xs \<and>
   (\<forall>k. k < i \<or> num \<le> k \<longrightarrow> down_heap cmp xs i num ! k = xs ! k)"
proof (induction cmp xs i num rule: down_heap.induct)
  case (1 cmp xs i num)
  let ?n = "next_idx cmp xs i num"
  show ?case
  proof (cases "left_idx i < num \<and> ?n \<noteq> i")
    case True
    then have n: "i < ?n" "?n < num" using next_idx_less by blast+
    with True "1.IH" [OF _ refl] "1.prems" show ?thesis
      by (auto simp: down_heap.simps [of cmp xs i num] swap_at_nth Let_def)
  next
    case False
    then show ?thesis by (auto simp: down_heap.simps [of cmp xs i num] Let_def)
  qed
qed

lemma length_down_heap [simp]: "num \<le> length xs \<Longrightarrow> length (down_heap cmp xs i num) = length xs"
  using down_heap_frame by blast

lemma mset_down_heap [simp]: "num \<le> length xs \<Longrightarrow> mset (down_heap cmp xs i num) = mset xs"
  using down_heap_frame by blast

lemma down_heap_outside: "num \<le> length xs \<Longrightarrow> num \<le> k \<Longrightarrow> down_heap cmp xs i num ! k = xs ! k"
  using down_heap_frame by blast

lemma build_heap_frame:
  "num \<le> length xs \<Longrightarrow> length (build_heap cmp xs num i) = length xs \<and>
   mset (build_heap cmp xs num i) = mset xs \<and>
   (\<forall>k. num \<le> k \<longrightarrow> build_heap cmp xs num i ! k = xs ! k)"
  by (induction cmp xs num i rule: build_heap.induct) (auto simp: down_heap_outside)

lemma extract_max_frame:
  "i < length xs \<Longrightarrow> length (extract_max cmp xs i) = length xs \<and>
   mset (extract_max cmp xs i) = mset xs \<and>
   (\<forall>k. i < k \<longrightarrow> extract_max cmp xs i ! k = xs ! k)"
proof (induction cmp xs i rule: extract_max.induct)
  case (2 cmp xs i)
  let ?ys = "down_heap cmp (swap_at xs 0 (Suc i)) 0 (Suc i)"
  have "xs \<noteq> []" using "2.prems" by auto
  then have "length ?ys = length xs" "mset ?ys = mset xs"
    "\<forall>k. Suc i < k \<longrightarrow> ?ys ! k = xs ! k"
    using "2.prems" by (auto simp: down_heap_outside swap_at_nth)
  with "2.IH" "2.prems" show ?case by auto
qed simp

lemma heap_sort_frame:
  "num \<le> length xs \<Longrightarrow> length (heap_sort cmp xs num) = length xs \<and>
   mset (heap_sort cmp xs num) = mset xs \<and>
   (\<forall>k. num \<le> k \<longrightarrow> heap_sort cmp xs num ! k = xs ! k)"
  using build_heap_frame [of num xs cmp "parent_idx (num - 1)"]
    extract_max_frame [of "num - 1" "build_heap cmp xs num (parent_idx (num - 1))" cmp]
  by (auto simp: heap_sort_def)

section \<open>Order\<close>

definition sorted_cmp :: "('a \<Rightarrow> 'a \<Rightarrow> int) \<Rightarrow> 'a list \<Rightarrow> bool" where
  "sorted_cmp cmp xs \<longleftrightarrow> (\<forall>i j. i < j \<and> j < length xs \<longrightarrow> cmp (xs ! i) (xs ! j) \<le> 0)"

text \<open>What a comparison function has to satisfy: it orders any two elements consistently.\<close>

locale comparator =
  fixes cmp :: "'a \<Rightarrow> 'a \<Rightarrow> int"
  assumes cmp_swap: "cmp a b < 0 \<longleftrightarrow> cmp b a > 0"
    and cmp_trans: "cmp a b \<le> 0 \<Longrightarrow> cmp b c \<le> 0 \<Longrightarrow> cmp a c \<le> 0"
begin

lemma cmp_total: "cmp a b \<le> 0 \<or> cmp b a \<le> 0"
  using cmp_swap [of a b] by linarith

lemma cmp_refl: "cmp a a = 0"
  using cmp_swap [of a a] by linarith

lemma cmp_not_less: "\<not> cmp a b < 0 \<longleftrightarrow> cmp b a \<le> 0"
  using cmp_swap [of a b] by linarith

lemma cmp_less_imp: "cmp a b < 0 \<Longrightarrow> cmp a b \<le> 0"
  by simp

lemma cmp_mono: "cmp a b \<le> 0 \<Longrightarrow> (cmp p a < 0 \<longrightarrow> cmp p b < 0) \<and> (cmp p b > 0 \<longrightarrow> cmp p a > 0)"
  using cmp_trans [of b p a] cmp_trans [of p a b] cmp_swap [of p a] cmp_swap [of p b] cmp_swap [of b p]
    cmp_swap [of a p] cmp_swap [of a b] cmp_swap [of b a]
  by (metis cmp_trans linorder_not_le)

definition heap_at :: "'a list \<Rightarrow> nat \<Rightarrow> nat \<Rightarrow> bool" where
  "heap_at xs num p \<longleftrightarrow> (\<forall>c. (c = 2 * p + 1 \<or> c = 2 * p + 2) \<and> c < num \<longrightarrow> cmp (xs ! c) (xs ! p) \<le> 0)"

text \<open>Every node from \<open>r\<close> on dominates its children, except perhaps node \<open>i\<close>, whose children are
  dominated by its parent.\<close>

definition heap_but :: "'a list \<Rightarrow> nat \<Rightarrow> nat \<Rightarrow> nat \<Rightarrow> bool" where
  "heap_but xs num r i \<longleftrightarrow> (\<forall>p \<ge> r. p \<noteq> i \<longrightarrow> heap_at xs num p) \<and>
     (\<forall>q c. r \<le> q \<and> (i = 2 * q + 1 \<or> i = 2 * q + 2) \<and> (c = 2 * i + 1 \<or> c = 2 * i + 2) \<and> c < num \<longrightarrow>
        cmp (xs ! c) (xs ! q) \<le> 0)"

lemma next_idx_max:
  assumes "left_idx i < num" "c = i \<or> c = 2 * i + 1 \<or> c = 2 * i + 2" "c < num"
  shows "cmp (xs ! c) (xs ! next_idx cmp xs i num) \<le> 0"
proof -
  let ?l = "2 * i + 1"
  have il: "cmp (xs ! i) (xs ! ?l) < 0 \<or> cmp (xs ! ?l) (xs ! i) \<le> 0"
    using cmp_not_less by blast
  show ?thesis
  proof (cases "cmp (xs ! i) (xs ! ?l) < 0")
    case True
    then show ?thesis
      using assms cmp_refl cmp_not_less [of "xs ! ?l" "xs ! Suc ?l"]
        cmp_trans [of "xs ! i" "xs ! ?l" "xs ! Suc ?l"]
      by (auto simp: next_idx_def left_idx_def Let_def)
  next
    case False
    then show ?thesis
      using assms il cmp_refl cmp_not_less [of "xs ! i" "xs ! Suc ?l"]
        cmp_trans [of "xs ! ?l" "xs ! i" "xs ! Suc ?l"]
      by (auto simp: next_idx_def left_idx_def Let_def)
  qed
qed

text \<open>Swapping \<open>i\<close> with its largest child moves the hole to that child.\<close>

lemma heap_but_swap:
  assumes hb: "heap_but xs num r i" and i: "r \<le> i" "left_idx i < num" and len: "num \<le> length xs"
    and n: "n = next_idx cmp xs i num" "n \<noteq> i"
  shows "heap_but (swap_at xs i n) num r n"
proof -
  have n': "n < num" "n = 2 * i + 1 \<or> n = 2 * i + 2" "i < n"
    using next_idx_cases [OF i(2), of cmp xs] n by auto
  have nth: "swap_at xs i n ! k = (if k = n then xs ! i else if k = i then xs ! n else xs ! k)" for k
    using len n' by (simp add: swap_at_nth)
  have max: "cmp (xs ! c) (xs ! n) \<le> 0" if "c = i \<or> c = 2 * i + 1 \<or> c = 2 * i + 2" "c < num" for c
    using next_idx_max [OF i(2) that] n by simp
  have up: "cmp (xs ! n) (xs ! q) \<le> 0" if "r \<le> q" "i = 2 * q + 1 \<or> i = 2 * q + 2" for q
    using hb that n' by (auto simp: heap_but_def)
  have "heap_at (swap_at xs i n) num p" if p: "r \<le> p" "p \<noteq> n" for p
  proof (cases "p = i")
    case True
    then show ?thesis using n' max by (auto simp: heap_at_def nth)
  next
    case False
    then have "heap_at xs num p" using hb p by (simp add: heap_but_def)
    then show ?thesis using False p up n' by (auto simp: heap_at_def nth)
  qed
  moreover have "cmp (swap_at xs i n ! c) (swap_at xs i n ! q) \<le> 0"
    if "n = 2 * q + 1 \<or> n = 2 * q + 2" "c = 2 * n + 1 \<or> c = 2 * n + 2" "c < num" for q c
  proof -
    have "q = i" using that(1) n'(2) by auto
    moreover have "cmp (xs ! c) (xs ! n) \<le> 0"
      using hb that i(1) n' by (auto simp: heap_but_def heap_at_def)
    ultimately show ?thesis using that n' by (auto simp: nth)
  qed
  ultimately show ?thesis by (auto simp: heap_but_def)
qed

lemma heap_but_done:
  assumes "heap_but xs num r i" "num \<le> left_idx i \<or> next_idx cmp xs i num = i"
  shows "\<forall>p \<ge> r. heap_at xs num p"
proof (intro allI impI)
  fix p
  assume "r \<le> p"
  show "heap_at xs num p"
  proof (cases "p = i")
    case True
    then show ?thesis
      using assms(2) next_idx_max [of i num "2 * i + 1" xs] next_idx_max [of i num "2 * i + 2" xs]
      by (auto simp: heap_at_def left_idx_def)
  qed (use assms(1) \<open>r \<le> p\<close> in \<open>simp add: heap_but_def\<close>)
qed

lemma down_heap_heap:
  "heap_but xs num r i \<Longrightarrow> r \<le> i \<Longrightarrow> num \<le> length xs \<Longrightarrow>
   \<forall>p \<ge> r. heap_at (down_heap cmp xs i num) num p"
proof (induction "num - i" arbitrary: xs i rule: less_induct)
  case less
  let ?n = "next_idx cmp xs i num"
  show ?case
  proof (cases "left_idx i < num \<and> ?n \<noteq> i")
    case True
    then have "heap_but (swap_at xs i ?n) num r ?n" "r \<le> ?n"
      using less.prems heap_but_swap next_idx_less [of i num cmp xs] by auto
    moreover have "i < ?n" "?n < num"
      using True next_idx_less by blast+
    ultimately show ?thesis
      using True less.hyps [of ?n "swap_at xs i ?n"] less.prems
      by (simp add: down_heap.simps [of cmp xs i num] Let_def)
  next
    case False
    then have "down_heap cmp xs i num = xs"
      by (auto simp: down_heap.simps [of cmp xs i num] Let_def)
    with False less.prems heap_but_done [of xs num r i] show ?thesis by auto
  qed
qed

lemma build_heap_heap:
  "\<forall>p > i. heap_at xs num p \<Longrightarrow> num \<le> length xs \<Longrightarrow> \<forall>p. heap_at (build_heap cmp xs num i) num p"
proof (induction i arbitrary: xs)
  case 0
  then have "heap_but xs num 0 0" by (auto simp: heap_but_def)
  with 0 down_heap_heap show ?case by auto
next
  case (Suc i)
  have "heap_but xs num (Suc i) (Suc i)" using Suc.prems by (auto simp: heap_but_def)
  then have "\<forall>p \<ge> Suc i. heap_at (down_heap cmp xs (Suc i) num) num p"
    using Suc.prems by (intro down_heap_heap) auto
  with Suc show ?case by auto
qed

lemma heap_root_max:
  "\<forall>p. heap_at xs num p \<Longrightarrow> k < num \<Longrightarrow> cmp (xs ! k) (xs ! 0) \<le> 0"
proof (induction k rule: less_induct)
  case (less k)
  show ?case
  proof (cases "k = 0")
    case False
    let ?p = "(k - 1) div 2"
    have k: "k = 2 * ?p + 1 \<or> k = 2 * ?p + 2" "?p < k" using False by presburger+
    then have "cmp (xs ! k) (xs ! ?p) \<le> 0"
      using less.prems by (auto simp: heap_at_def)
    moreover have "cmp (xs ! ?p) (xs ! 0) \<le> 0"
      using less k by auto
    ultimately show ?thesis by (rule cmp_trans)
  qed (simp add: cmp_refl)
qed

text \<open>The invariant of the second loop: a heap of \<open>i + 1\<close> elements below a sorted tail.\<close>

definition sort_inv :: "'a list \<Rightarrow> nat \<Rightarrow> nat \<Rightarrow> bool" where
  "sort_inv xs num i \<longleftrightarrow> (\<forall>p. heap_at xs (Suc i) p) \<and>
     (\<forall>j k. j < k \<and> i < k \<and> k < num \<longrightarrow> cmp (xs ! j) (xs ! k) \<le> 0)"

lemma down_heap_set:
  assumes "num \<le> length xs" "k < num"
  shows "\<exists>j < num. down_heap cmp xs i num ! k = xs ! j"
proof -
  let ?ys = "down_heap cmp xs i num"
  have "drop num ?ys = drop num xs"
    using assms by (intro nth_equalityI) (auto simp: down_heap_outside)
  moreover have "mset (take num ?ys) + mset (drop num ?ys) = mset (take num xs) + mset (drop num xs)"
    using assms by (simp flip: mset_append)
  ultimately have "set (take num ?ys) = set (take num xs)"
    by (metis add_right_cancel mset_eq_setD)
  moreover have "?ys ! k \<in> set (take num ?ys)"
    using assms by (auto simp: in_set_conv_nth)
  ultimately show ?thesis
    using assms by (auto simp: in_set_conv_nth)
qed

lemma sort_inv_step:
  assumes inv: "sort_inv xs num (Suc i)" and len: "num \<le> length xs" "Suc i < num"
  shows "sort_inv (down_heap cmp (swap_at xs 0 (Suc i)) 0 (Suc i)) num i"
proof -
  let ?ys = "swap_at xs 0 (Suc i)"
  let ?zs = "down_heap cmp ?ys 0 (Suc i)"
  have nz: "xs \<noteq> []" using len by auto
  have ys: "?ys ! k = (if k = Suc i then xs ! 0 else if k = 0 then xs ! Suc i else xs ! k)" for k
    using len nz by (simp add: swap_at_nth)
  have "heap_but ?ys (Suc i) 0 0"
    using inv by (auto simp: heap_but_def heap_at_def sort_inv_def ys)
  then have heap: "\<forall>p. heap_at ?zs (Suc i) p"
    using len down_heap_heap [of ?ys "Suc i" 0 0] by auto
  have below: "cmp (?ys ! a) (xs ! k) \<le> 0" if "a < Suc i" "Suc i < k" "k < num" for a k
    using inv that by (auto simp: sort_inv_def ys)
  have root: "cmp (?ys ! a) (xs ! 0) \<le> 0" if "a < Suc i" for a
    using heap_root_max [of xs "Suc (Suc i)"] inv that by (auto simp: sort_inv_def ys)
  have "cmp (?zs ! j) (?zs ! k) \<le> 0" if jk: "j < k" "i < k" "k < num" for j k
  proof (cases "j < Suc i")
    case True
    then obtain a where "a < Suc i" "?zs ! j = ?ys ! a"
      using down_heap_set [of "Suc i" ?ys j 0] len by auto
    moreover have "?zs ! k = (if k = Suc i then xs ! 0 else xs ! k)"
      using jk len by (simp add: down_heap_outside ys)
    ultimately show ?thesis using below root jk by auto
  next
    case False
    then have "?zs ! j = ?ys ! j" "?zs ! k = xs ! k"
      using jk len by (simp_all add: down_heap_outside ys)
    with False jk inv show ?thesis by (auto simp: sort_inv_def ys)
  qed
  with heap show ?thesis by (auto simp: sort_inv_def)
qed

lemma extract_max_sorted:
  "sort_inv xs num i \<Longrightarrow> num \<le> length xs \<Longrightarrow> i < num \<Longrightarrow> sort_inv (extract_max cmp xs i) num 0"
proof (induction i arbitrary: xs)
  case (Suc i)
  let ?ys = "down_heap cmp (swap_at xs 0 (Suc i)) 0 (Suc i)"
  have "sort_inv ?ys num i" using Suc.prems by (rule sort_inv_step)
  then show ?case using Suc by simp
qed simp

lemma heap_sort_sorted:
  assumes "num \<le> length xs"
  shows "sorted_cmp cmp (take num (heap_sort cmp xs num))"
proof (cases "num \<ge> 2")
  case True
  let ?h = "build_heap cmp xs num (parent_idx (num - 1))"
  have "\<forall>p > parent_idx (num - 1). heap_at xs num p"
    using True by (auto simp: heap_at_def parent_idx_def)
  then have "\<forall>p. heap_at ?h num p"
    using assms by (rule build_heap_heap)
  then have "sort_inv ?h num (num - 1)"
    using True by (auto simp: sort_inv_def)
  then have "sort_inv (extract_max cmp ?h (num - 1)) num 0"
    using True assms build_heap_frame [of num xs cmp "parent_idx (num - 1)"]
    by (intro extract_max_sorted) auto
  then show ?thesis
    using True by (auto simp: heap_sort_def sorted_cmp_def sort_inv_def)
next
  case False
  then show ?thesis using assms by (auto simp: heap_sort_def sorted_cmp_def)
qed

end

end
