(* ===== verification/Stack.thy ===== *)
theory Stack
  imports Prelude Heap_Sort
begin

text \<open>
  BoringSSL's \<^verbatim>\<open>OPENSSL_STACK\<close> (\<^verbatim>\<open>crypto/stack/stack.c\<close>): a growable array of pointers with
  an optional comparison function and a "sorted" flag.

  A pointer is \<open>'a option\<close>, \<open>None\<close> being \<^verbatim>\<open>NULL\<close>; a possibly null stack argument is an \<open>option\<close>
  too.  The comparison function is an opaque value of type \<open>'c\<close>, as in the code, and
  \<^verbatim>\<open>call_cmp_func\<close> is an argument.  An operation that allocates takes a function \<open>alloc\<close> that says
  whether an allocation of a given number of bytes succeeds, and \<open>junk\<close>, the unspecified contents
  of memory fresh from \<^verbatim>\<open>OPENSSL_realloc\<close>.
\<close>

section \<open>The code\<close>

record ('c, 'a) stack_st =
  num :: nat
  data :: "'a option list"
  sorted :: bool
  num_alloc :: nat
  comp :: "'c option"

definition kMinSize :: nat where
  "kMinSize = 4"

definition INT_MAX :: nat where
  "INT_MAX = 2 ^ 31 - 1"

definition sizeof_ptr :: nat where
  "sizeof_ptr = 8"

definition sizeof_stack :: nat where
  "sizeof_stack = 40"

definition OPENSSL_sk_new :: "(nat \<Rightarrow> bool) \<Rightarrow> 'c option \<Rightarrow> ('c, 'a) stack_st option" where
  "OPENSSL_sk_new alloc cmp =
     (if \<not> alloc sizeof_stack then None
      else if \<not> alloc (kMinSize * sizeof_ptr) then None
      else Some \<lparr>num = 0, data = replicate kMinSize None, sorted = False, num_alloc = kMinSize,
                 comp = cmp\<rparr>)"

definition OPENSSL_sk_new_null :: "(nat \<Rightarrow> bool) \<Rightarrow> ('c, 'a) stack_st option" where
  "OPENSSL_sk_new_null alloc = OPENSSL_sk_new alloc None"

definition OPENSSL_sk_num :: "('c, 'a) stack_st option \<Rightarrow> nat" where
  "OPENSSL_sk_num sk = (case sk of None \<Rightarrow> 0 | Some sk \<Rightarrow> num sk)"

definition OPENSSL_sk_zero :: "('c, 'a) stack_st option \<Rightarrow> ('c, 'a) stack_st option" where
  "OPENSSL_sk_zero sk =
     (case sk of
        None \<Rightarrow> None
      | Some sk \<Rightarrow>
          if num sk = 0 then Some sk
          else Some (sk\<lparr>data := replicate (num sk) None @ drop (num sk) (data sk), num := 0,
                        sorted := False\<rparr>))"

definition OPENSSL_sk_value :: "('c, 'a) stack_st option \<Rightarrow> nat \<Rightarrow> 'a option" where
  "OPENSSL_sk_value sk i =
     (case sk of None \<Rightarrow> None | Some sk \<Rightarrow> if i \<ge> num sk then None else data sk ! i)"

definition OPENSSL_sk_set ::
  "('c, 'a) stack_st option \<Rightarrow> nat \<Rightarrow> 'a option \<Rightarrow> 'a option \<times> ('c, 'a) stack_st option" where
  "OPENSSL_sk_set sk i v =
     (case sk of
        None \<Rightarrow> (None, None)
      | Some sk \<Rightarrow>
          if i \<ge> num sk then (None, Some sk) else (v, Some (sk\<lparr>data := (data sk)[i := v]\<rparr>)))"

text \<open>The elements handed to the free function, in order.\<close>

definition OPENSSL_sk_pop_free_ex :: "('c, 'a) stack_st option \<Rightarrow> 'a list" where
  "OPENSSL_sk_pop_free_ex sk =
     (case sk of None \<Rightarrow> [] | Some sk \<Rightarrow> List.map_filter (\<lambda>p. p) (take (num sk) (data sk)))"

text \<open>\<^verbatim>\<open>memmove\<close> of \<open>n\<close> elements inside an array, from index \<open>from\<close> to index \<open>to\<close>.\<close>

definition memmove :: "'x list \<Rightarrow> nat \<Rightarrow> nat \<Rightarrow> nat \<Rightarrow> 'x list" where
  "memmove xs to from n = take to xs @ take n (drop from xs) @ drop (to + n) xs"

text \<open>The reallocation step of \<open>OPENSSL_sk_insert\<close>: \<open>None\<close> when it returns 0.\<close>

definition sk_grow ::
  "(nat \<Rightarrow> bool) \<Rightarrow> (nat \<Rightarrow> 'a option) \<Rightarrow> ('c, 'a) stack_st \<Rightarrow> ('c, 'a) stack_st option" where
  "sk_grow alloc junk sk =
     (if num_alloc sk \<le> num sk + 1 then
        (let new_alloc = (num_alloc sk * 2) mod size_max;
             alloc_size = (new_alloc * sizeof_ptr) mod size_max;
             overflow = (new_alloc < num_alloc sk \<or> alloc_size div sizeof_ptr \<noteq> new_alloc);
             new_alloc = (if overflow then size_add (num_alloc sk) 1 else new_alloc);
             alloc_size = (if overflow then (new_alloc * sizeof_ptr) mod size_max else alloc_size)
         in if new_alloc < num_alloc sk \<or> alloc_size div sizeof_ptr \<noteq> new_alloc then None
            else if \<not> alloc alloc_size then None
            else Some (sk\<lparr>data := data sk @ map junk [num_alloc sk..<new_alloc],
                          num_alloc := new_alloc\<rparr>))
      else Some sk)"

definition OPENSSL_sk_insert ::
  "(nat \<Rightarrow> bool) \<Rightarrow> (nat \<Rightarrow> 'a option) \<Rightarrow> ('c, 'a) stack_st option \<Rightarrow> 'a option \<Rightarrow> nat \<Rightarrow>
   nat \<times> ('c, 'a) stack_st option" where
  "OPENSSL_sk_insert alloc junk sk p at =
     (case sk of
        None \<Rightarrow> (0, None)
      | Some sk \<Rightarrow>
          if num sk \<ge> INT_MAX then (0, Some sk)
          else
            (case sk_grow alloc junk sk of
               None \<Rightarrow> (0, Some sk)
             | Some sk \<Rightarrow>
                 (let data' = (if at \<ge> num sk then (data sk)[num sk := p]
                               else (memmove (data sk) (at + 1) at (num sk - at))
                                      [at := p])
                  in (num sk + 1,
                      Some (sk\<lparr>data := data', num := num sk + 1, sorted := False\<rparr>)))))"

definition OPENSSL_sk_delete ::
  "('c, 'a) stack_st option \<Rightarrow> nat \<Rightarrow> 'a option \<times> ('c, 'a) stack_st option" where
  "OPENSSL_sk_delete sk at =
     (case sk of
        None \<Rightarrow> (None, None)
      | Some sk \<Rightarrow>
          if at \<ge> num sk then (None, Some sk)
          else
            (let ret = data sk ! at;
                 data' = (if at \<noteq> num sk - 1
                          then memmove (data sk) at (at + 1) (num sk - at - 1)
                          else data sk)
             in (ret, Some (sk\<lparr>data := data', num := num sk - 1\<rparr>))))"

text \<open>The search loops: the first index from \<open>i\<close> on where \<open>P\<close> holds.\<close>

function scan_from :: "('x \<Rightarrow> bool) \<Rightarrow> 'x list \<Rightarrow> nat \<Rightarrow> nat \<Rightarrow> nat option" where
  "scan_from P xs i n =
     (if i < n then if P (xs ! i) then Some i else scan_from P xs (i + 1) n else None)"
  by pat_completeness auto
termination
  by (relation "measure (\<lambda>(P, xs, i, n). n - i)") auto

declare scan_from.simps [simp del]

definition OPENSSL_sk_delete_ptr ::
  "('c, 'a) stack_st option \<Rightarrow> 'a option \<Rightarrow> 'a option \<times> ('c, 'a) stack_st option" where
  "OPENSSL_sk_delete_ptr sk p =
     (case sk of
        None \<Rightarrow> (None, None)
      | Some st \<Rightarrow>
          (case scan_from (\<lambda>x. x = p) (data st) 0 (num st) of
             None \<Rightarrow> (None, Some st)
           | Some i \<Rightarrow> OPENSSL_sk_delete (Some st) i))"

text \<open>The loop of \<open>OPENSSL_sk_delete_if\<close>: \<open>todo\<close> iterations remain, starting at index \<open>i\<close>.\<close>

fun delete_if_loop ::
  "('a option \<Rightarrow> bool) \<Rightarrow> 'a option list \<Rightarrow> nat \<Rightarrow> nat \<Rightarrow> nat \<Rightarrow> 'a option list \<times> nat" where
  "delete_if_loop f xs i new_num 0 = (xs, new_num)"
| "delete_if_loop f xs i new_num (Suc todo) =
     (if \<not> f (xs ! i) then delete_if_loop f (xs[new_num := xs ! i]) (i + 1) (new_num + 1) todo
      else delete_if_loop f xs (i + 1) new_num todo)"

definition OPENSSL_sk_delete_if ::
  "('a option \<Rightarrow> bool) \<Rightarrow> ('c, 'a) stack_st option \<Rightarrow> ('c, 'a) stack_st option" where
  "OPENSSL_sk_delete_if f sk =
     (case sk of
        None \<Rightarrow> None
      | Some sk \<Rightarrow>
          (case delete_if_loop f (data sk) 0 0 (num sk) of
             (xs, n) \<Rightarrow> Some (sk\<lparr>data := xs, num := n\<rparr>)))"

definition OPENSSL_sk_is_sorted :: "('c, 'a) stack_st option \<Rightarrow> bool" where
  "OPENSSL_sk_is_sorted sk =
     (case sk of None \<Rightarrow> True | Some sk \<Rightarrow> sorted sk \<or> (comp sk \<noteq> None \<and> num sk < 2))"

text \<open>The binary search of \<open>OPENSSL_sk_find\<close> over the half-open interval from \<open>lo\<close> to \<open>hi\<close>.\<close>

function bsearch :: "('x \<Rightarrow> int) \<Rightarrow> 'x list \<Rightarrow> nat \<Rightarrow> nat \<Rightarrow> nat option" where
  "bsearch r xs lo hi =
     (if lo < hi then
        (let mid = lo + (hi - lo - 1) div 2
         in if r (xs ! mid) > 0 then bsearch r xs (mid + 1) hi
            else if r (xs ! mid) < 0 then bsearch r xs lo mid
            else if hi - lo = 1 then Some mid
            else bsearch r xs lo (mid + 1))
      else None)"
  by pat_completeness auto
termination
  by (relation "measure (\<lambda>(r, xs, lo, hi). hi - lo)") auto

declare bsearch.simps [simp del]

definition OPENSSL_sk_find ::
  "('c \<Rightarrow> 'a option \<Rightarrow> 'a option \<Rightarrow> int) \<Rightarrow> ('c, 'a) stack_st option \<Rightarrow> 'a option \<Rightarrow> nat option" where
  "OPENSSL_sk_find call_cmp_func sk p =
     (case sk of
        None \<Rightarrow> None
      | Some st \<Rightarrow>
          (case comp st of
             None \<Rightarrow> scan_from (\<lambda>x. x = p) (data st) 0 (num st)
           | Some c \<Rightarrow>
               if p = None then None
               else if \<not> OPENSSL_sk_is_sorted sk
               then scan_from (\<lambda>x. call_cmp_func c p x = 0) (data st) 0 (num st)
               else bsearch (call_cmp_func c p) (data st) 0 (num st)))"

definition OPENSSL_sk_shift :: "('c, 'a) stack_st option \<Rightarrow> 'a option \<times> ('c, 'a) stack_st option" where
  "OPENSSL_sk_shift sk =
     (case sk of
        None \<Rightarrow> (None, None)
      | Some st \<Rightarrow> if num st = 0 then (None, Some st) else OPENSSL_sk_delete sk 0)"

text \<open>\<open>OPENSSL_sk_push\<close> reads \<^verbatim>\<open>sk->num\<close> before any check, so its stack is not null.\<close>

definition OPENSSL_sk_push ::
  "(nat \<Rightarrow> bool) \<Rightarrow> (nat \<Rightarrow> 'a option) \<Rightarrow> ('c, 'a) stack_st \<Rightarrow> 'a option \<Rightarrow>
   nat \<times> ('c, 'a) stack_st option" where
  "OPENSSL_sk_push alloc junk sk p = OPENSSL_sk_insert alloc junk (Some sk) p (num sk)"

definition OPENSSL_sk_pop :: "('c, 'a) stack_st option \<Rightarrow> 'a option \<times> ('c, 'a) stack_st option" where
  "OPENSSL_sk_pop sk =
     (case sk of
        None \<Rightarrow> (None, None)
      | Some st \<Rightarrow> if num st = 0 then (None, Some st) else OPENSSL_sk_delete sk (num st - 1))"

definition OPENSSL_sk_dup ::
  "(nat \<Rightarrow> bool) \<Rightarrow> ('c, 'a) stack_st option \<Rightarrow> ('c, 'a) stack_st option" where
  "OPENSSL_sk_dup alloc sk =
     (case sk of
        None \<Rightarrow> None
      | Some sk \<Rightarrow>
          if \<not> alloc sizeof_stack then None
          else if \<not> alloc (sizeof_ptr * num_alloc sk) then None
          else Some \<lparr>num = num sk, data = data sk, sorted = sorted sk, num_alloc = num_alloc sk,
                     comp = comp sk\<rparr>)"

definition OPENSSL_sk_sort ::
  "('c \<Rightarrow> 'a option \<Rightarrow> 'a option \<Rightarrow> int) \<Rightarrow> ('c, 'a) stack_st option \<Rightarrow> ('c, 'a) stack_st option" where
  "OPENSSL_sk_sort call_cmp_func sk =
     (case sk of
        None \<Rightarrow> None
      | Some sk \<Rightarrow>
          (case comp sk of
             None \<Rightarrow> Some sk
           | Some c \<Rightarrow>
               if sorted sk then Some sk
               else Some (sk\<lparr>data := heap_sort (call_cmp_func c) (data sk) (num sk),
                             sorted := True\<rparr>)))"

definition OPENSSL_sk_set_cmp_func ::
  "('c, 'a) stack_st \<Rightarrow> 'c option \<Rightarrow> 'c option \<times> ('c, 'a) stack_st" where
  "OPENSSL_sk_set_cmp_func sk c =
     (comp sk, sk\<lparr>sorted := (if comp sk \<noteq> c then False else sorted sk), comp := c\<rparr>)"

text \<open>The loop of \<open>OPENSSL_sk_deep_copy\<close>: \<open>Inr\<close> of the array with every element copied, or \<open>Inl\<close> of
  the elements freed when a copy fails at index \<open>i\<close>.\<close>

fun copy_loop ::
  "('a \<Rightarrow> 'a option) \<Rightarrow> 'a option list \<Rightarrow> nat \<Rightarrow> nat \<Rightarrow> 'a list + 'a option list" where
  "copy_loop copy xs i 0 = Inr xs"
| "copy_loop copy xs i (Suc todo) =
     (case xs ! i of
        None \<Rightarrow> copy_loop copy xs (i + 1) todo
      | Some a \<Rightarrow>
          (case copy a of
             None \<Rightarrow> Inl (List.map_filter (\<lambda>p. p) (take i xs))
           | Some b \<Rightarrow> copy_loop copy (xs[i := Some b]) (i + 1) todo))"

definition OPENSSL_sk_deep_copy ::
  "(nat \<Rightarrow> bool) \<Rightarrow> ('a \<Rightarrow> 'a option) \<Rightarrow> ('c, 'a) stack_st option \<Rightarrow>
   'a list \<times> ('c, 'a) stack_st option" where
  "OPENSSL_sk_deep_copy alloc copy sk =
     (case OPENSSL_sk_dup alloc sk of
        None \<Rightarrow> ([], None)
      | Some ret \<Rightarrow>
          (case copy_loop copy (data ret) 0 (num ret) of
             Inl freed \<Rightarrow> (freed, None)
           | Inr xs \<Rightarrow> ([], Some (ret\<lparr>data := xs\<rparr>))))"

section \<open>The array as a list\<close>

definition elems :: "('c, 'a) stack_st \<Rightarrow> 'a option list" where
  "elems sk = take (num sk) (data sk)"

text \<open>The buffer has the recorded size, there is always a free slot, and no size computation
  can wrap around.\<close>

definition stack_inv :: "('c, 'a) stack_st \<Rightarrow> bool" where
  "stack_inv sk \<longleftrightarrow> length (data sk) = num_alloc sk \<and> num sk < num_alloc sk \<and> num sk \<le> INT_MAX \<and>
     num_alloc sk \<le> 2 ^ 32"

lemma length_elems [simp]: "stack_inv sk \<Longrightarrow> length (elems sk) = num sk"
  by (simp add: elems_def stack_inv_def)

lemma nth_elems: "i < num sk \<Longrightarrow> elems sk ! i = data sk ! i"
  by (simp add: elems_def)

lemma stack_inv_new: "OPENSSL_sk_new alloc c = Some sk \<Longrightarrow>
   stack_inv sk \<and> elems sk = [] \<and> comp sk = c \<and> \<not> sorted sk"
  by (auto simp: OPENSSL_sk_new_def stack_inv_def elems_def kMinSize_def INT_MAX_def split: if_splits)

lemma sk_grow_inv:
  assumes inv: "stack_inv sk" and n: "num sk < INT_MAX"
  shows "(sk_grow alloc junk sk = None \<and> num_alloc sk = num sk + 1 \<and> \<not> alloc (num_alloc sk * 16)) \<or>
    (\<exists>sk'. sk_grow alloc junk sk = Some sk' \<and> stack_inv sk' \<and> elems sk' = elems sk \<and>
      num sk' = num sk \<and> comp sk' = comp sk \<and> sorted sk' = sorted sk \<and> num sk + 1 < num_alloc sk')"
proof (cases "num_alloc sk \<le> num sk + 1")
  case True
  have a: "num_alloc sk = num sk + 1" "num_alloc sk \<le> 2 ^ 31"
    using True inv n by (auto simp: stack_inv_def INT_MAX_def)
  then have "(num_alloc sk * 2) mod size_max = num_alloc sk * 2"
    "(num_alloc sk * 2 * sizeof_ptr) mod size_max = num_alloc sk * 16"
    by (auto simp: size_max_def sizeof_ptr_def)
  then have "sk_grow alloc junk sk = (if \<not> alloc (num_alloc sk * 16) then None
      else Some (sk\<lparr>data := data sk @ map junk [num_alloc sk..<num_alloc sk * 2], num_alloc := num_alloc sk * 2\<rparr>))"
    using True by (simp add: sk_grow_def Let_def sizeof_ptr_def)
  with a inv show ?thesis
    by (auto simp: stack_inv_def elems_def)
qed (use inv in \<open>auto simp: sk_grow_def\<close>)

lemma take_Suc_update: "i < length xs \<Longrightarrow> take (Suc i) (xs[i := p]) = take i xs @ [p]"
  by (simp add: take_Suc_conv_app_nth)

lemma insert_in_place:
  assumes "n < length xs"
  shows "take (n + 1) (if i \<ge> n then xs[n := p] else (memmove xs (i + 1) i (n - i))[i := p]) =
    take i (take n xs) @ p # drop i (take n xs)"
proof (cases "i \<ge> n")
  case True
  with assms show ?thesis
    by (simp add: take_Suc_conv_app_nth)
next
  case False
  let ?m = "memmove xs (i + 1) i (n - i)"
  have "take (Suc n) (?m[i := p]) = take (Suc i) (xs[i := p]) @ take (n - i) (drop i xs)"
    using False assms by (simp add: memmove_def min_def list_update_append take_update_swap)
  with False assms show ?thesis
    by (simp add: take_Suc_update take_drop min_def)
qed

lemma length_memmove: "to + n \<le> length xs \<Longrightarrow> from + n \<le> length xs \<Longrightarrow> length (memmove xs to from n) = length xs"
  by (simp add: memmove_def)

lemma sk_insert_grown:
  assumes inv: "stack_inv sk" and n: "num sk < INT_MAX" and g: "sk_grow alloc junk sk = Some sk'"
    and run: "OPENSSL_sk_insert alloc junk (Some sk) p i = (r, t)"
  shows "\<exists>st. t = Some st \<and> r = num sk + 1 \<and> stack_inv st \<and> \<not> sorted st \<and> comp st = comp sk \<and>
    elems st = take i (elems sk) @ p # drop i (elems sk)"
proof -
  have sk': "stack_inv sk'" "elems sk' = elems sk" "num sk' = num sk" "comp sk' = comp sk"
    "num sk + 1 < num_alloc sk'"
    using sk_grow_inv [OF inv n, of alloc junk] g by auto
  let ?d = "if i \<ge> num sk' then (data sk')[num sk' := p]
     else (memmove (data sk') (i + 1) i (num sk' - i))[i := p]"
  let ?st = "sk'\<lparr>data := ?d, num := num sk' + 1, sorted := False\<rparr>"
  have len: "length ?d = num_alloc sk'"
    using sk' by (auto simp: length_memmove stack_inv_def)
  have "elems ?st = take i (elems sk') @ p # drop i (elems sk')"
    using insert_in_place [of "num sk'" "data sk'" i p] sk'(1) by (simp add: elems_def stack_inv_def)
  moreover have "stack_inv ?st"
    using sk' n len by (simp add: stack_inv_def)
  moreover have "OPENSSL_sk_insert alloc junk (Some sk) p i = (num sk + 1, Some ?st)"
    using n g sk'(3) by (simp add: OPENSSL_sk_insert_def Let_def)
  ultimately show ?thesis
    using run sk'(2,4) by (intro exI [of _ ?st]) simp
qed

lemma sk_insert_refused:
  assumes "stack_inv sk" "num sk \<ge> INT_MAX \<or> sk_grow alloc junk sk = None"
  shows "OPENSSL_sk_insert alloc junk (Some sk) p i = (0, Some sk)"
  using assms by (auto simp: OPENSSL_sk_insert_def)

lemma sk_delete_elems:
  assumes inv: "stack_inv sk" and i: "i < num sk"
  shows "\<exists>st. OPENSSL_sk_delete (Some sk) i = (elems sk ! i, Some st) \<and> stack_inv st \<and>
    elems st = take i (elems sk) @ drop (Suc i) (elems sk) \<and> sorted st = sorted sk \<and>
    comp st = comp sk \<and> num st = num sk - 1"
proof -
  let ?d = "if i \<noteq> num sk - 1 then memmove (data sk) i (i + 1) (num sk - i - 1) else data sk"
  let ?st = "sk\<lparr>data := ?d, num := num sk - 1\<rparr>"
  have "OPENSSL_sk_delete (Some sk) i = (elems sk ! i, Some ?st)"
    using i by (simp add: OPENSSL_sk_delete_def Let_def nth_elems)
  moreover have "stack_inv ?st"
    using inv i by (auto simp: stack_inv_def length_memmove)
  moreover have "elems ?st = take i (elems sk) @ drop (Suc i) (elems sk)"
    using inv i by (auto simp: elems_def stack_inv_def memmove_def min_def take_drop)
  ultimately show ?thesis by simp
qed

text \<open>The interface the clients of a stack rely on: a sequence with insertion, which may be
  refused, and deletion by position.\<close>

locale sequence =
  fixes inv :: "'s \<Rightarrow> bool"
    and items :: "'s \<Rightarrow> 'e list"
    and insert_at :: "'s \<Rightarrow> 'e \<Rightarrow> nat \<Rightarrow> 's option"
    and delete_at :: "'s \<Rightarrow> nat \<Rightarrow> 'e \<times> 's"
  assumes insert_at_inv: "inv s \<Longrightarrow> insert_at s x i = Some s' \<Longrightarrow> inv s'"
    and insert_at_items:
      "inv s \<Longrightarrow> insert_at s x i = Some s' \<Longrightarrow> items s' = take i (items s) @ x # drop i (items s)"
    and delete_at_inv: "inv s \<Longrightarrow> i < length (items s) \<Longrightarrow> inv (snd (delete_at s i))"
    and delete_at_items: "inv s \<Longrightarrow> i < length (items s) \<Longrightarrow>
      fst (delete_at s i) = items s ! i \<and>
      items (snd (delete_at s i)) = take i (items s) @ drop (Suc i) (items s)"
begin

fun push_all :: "'s \<Rightarrow> 'e list \<Rightarrow> 's option" where
  "push_all s [] = Some s"
| "push_all s (x # xs) =
     (case insert_at s x (length (items s)) of None \<Rightarrow> None | Some s' \<Rightarrow> push_all s' xs)"

lemma push_all_items: "inv s \<Longrightarrow> push_all s xs = Some s' \<Longrightarrow> inv s' \<and> items s' = items s @ xs"
proof (induction xs arbitrary: s)
  case (Cons x xs)
  then obtain t where "insert_at s x (length (items s)) = Some t" "push_all t xs = Some s'"
    by (auto split: option.splits)
  with Cons insert_at_inv insert_at_items show ?case by fastforce
qed simp

lemma push_pop:
  assumes "inv s" "insert_at s x (length (items s)) = Some t"
  shows "fst (delete_at t (length (items t) - 1)) = x \<and>
    items (snd (delete_at t (length (items t) - 1))) = items s"
  using assms insert_at_inv [OF assms] insert_at_items [OF assms]
    delete_at_items [of t "length (items s)"] by simp

lemma insert_delete:
  assumes "inv s" "insert_at s x i = Some t" "i \<le> length (items s)"
  shows "fst (delete_at t i) = x \<and> items (snd (delete_at t i)) = items s"
  using assms insert_at_inv [OF assms(1,2)] insert_at_items [OF assms(1,2)] delete_at_items [of t i]
  by (auto simp: nth_append)

end

definition sk_insert_at ::
  "(nat \<Rightarrow> bool) \<Rightarrow> (nat \<Rightarrow> 'a option) \<Rightarrow> ('c, 'a) stack_st \<Rightarrow> 'a option \<Rightarrow> nat \<Rightarrow> ('c, 'a) stack_st option" where
  "sk_insert_at alloc junk sk p i =
     (case OPENSSL_sk_insert alloc junk (Some sk) p i of (r, sk') \<Rightarrow> if r = 0 then None else sk')"

definition sk_delete_at :: "('c, 'a) stack_st \<Rightarrow> nat \<Rightarrow> 'a option \<times> ('c, 'a) stack_st" where
  "sk_delete_at sk i = (case OPENSSL_sk_delete (Some sk) i of (r, sk') \<Rightarrow> (r, the sk'))"

lemma sk_insert_at_Some:
  assumes "stack_inv sk" "sk_insert_at alloc junk sk p i = Some st"
  shows "stack_inv st \<and> elems st = take i (elems sk) @ p # drop i (elems sk)"
proof -
  obtain r t where run: "OPENSSL_sk_insert alloc junk (Some sk) p i = (r, t)" by fastforce
  with assms(2) have "r \<noteq> 0" "t = Some st" by (auto simp: sk_insert_at_def split: if_splits)
  then obtain sk' where "num sk < INT_MAX" "sk_grow alloc junk sk = Some sk'"
    using run sk_insert_refused [OF assms(1), of alloc junk p i] by fastforce
  with sk_insert_grown [OF assms(1) this run] \<open>t = Some st\<close> show ?thesis by simp
qed

interpretation sk: sequence stack_inv elems "sk_insert_at alloc junk" sk_delete_at
  for alloc :: "nat \<Rightarrow> bool" and junk :: "nat \<Rightarrow> 'a option"
proof
  fix s :: "('c, 'a) stack_st" and i
  assume "stack_inv s" "i < length (elems s)"
  then show "stack_inv (snd (sk_delete_at s i))"
    "fst (sk_delete_at s i) = elems s ! i \<and>
     elems (snd (sk_delete_at s i)) = take i (elems s) @ drop (Suc i) (elems s)"
    using sk_delete_elems [of s i] by (auto simp: sk_delete_at_def)
qed (auto dest: sk_insert_at_Some)

section \<open>Searching, filtering and copying\<close>

text \<open>The first index of a list where a predicate holds: what every search of a stack returns.\<close>

definition first_match :: "('x \<Rightarrow> bool) \<Rightarrow> 'x list \<Rightarrow> nat option" where
  "first_match P xs = (if \<exists>i < length xs. P (xs ! i) then Some (LEAST i. i < length xs \<and> P (xs ! i)) else None)"

lemma first_match_SomeI:
  "i < length xs \<Longrightarrow> P (xs ! i) \<Longrightarrow> (\<And>j. j < i \<Longrightarrow> \<not> P (xs ! j)) \<Longrightarrow> first_match P xs = Some i"
  unfolding first_match_def by (auto intro!: Least_equality leI)

lemma first_match_SomeD:
  assumes "first_match P xs = Some i"
  shows "i < length xs \<and> P (xs ! i) \<and> (\<forall>j < i. \<not> P (xs ! j))"
proof -
  have ex: "\<exists>i. i < length xs \<and> P (xs ! i)" and i: "i = (LEAST i. i < length xs \<and> P (xs ! i))"
    using assms by (auto simp: first_match_def split: if_splits)
  show ?thesis
    using LeastI_ex [OF ex] not_less_Least [of _ "\<lambda>i. i < length xs \<and> P (xs ! i)"] i
    by (metis order.strict_trans)
qed

text \<open>The binary search is correct for any test that is positive, then zero, then negative along
  the array.\<close>

definition search_ok :: "('x \<Rightarrow> bool) \<Rightarrow> 'x list \<Rightarrow> nat \<Rightarrow> nat \<Rightarrow> nat option \<Rightarrow> bool" where
  "search_ok P xs lo hi res =
     (case res of
        None \<Rightarrow> \<forall>k. lo \<le> k \<and> k < hi \<longrightarrow> \<not> P (xs ! k)
      | Some k \<Rightarrow> lo \<le> k \<and> k < hi \<and> P (xs ! k) \<and> (\<forall>j. lo \<le> j \<and> j < k \<longrightarrow> \<not> P (xs ! j)))"

lemma search_ok_first_match:
  assumes "search_ok P xs 0 n res" "n \<le> length xs"
  shows "res = first_match P (take n xs)"
proof (cases res)
  case None
  with assms show ?thesis by (auto simp: search_ok_def first_match_def)
next
  case (Some k)
  with assms have "first_match P (take n xs) = Some k"
    by (intro first_match_SomeI) (auto simp: search_ok_def)
  with Some show ?thesis by simp
qed

lemma search_ok_widen:
  assumes "search_ok P xs lo' hi' res" "lo \<le> lo'" "hi' \<le> hi"
    and "\<And>k. lo \<le> k \<Longrightarrow> k < lo' \<Longrightarrow> \<not> P (xs ! k)"
    and "(\<exists>k. lo' \<le> k \<and> k < hi' \<and> P (xs ! k)) \<or> (\<forall>k. hi' \<le> k \<and> k < hi \<longrightarrow> \<not> P (xs ! k))"
  shows "search_ok P xs lo hi res"
proof (cases res)
  case None
  then have in': "\<not> P (xs ! k)" if "lo' \<le> k" "k < hi'" for k
    using assms(1) that by (auto simp: search_ok_def)
  then have "\<not> P (xs ! k)" if "hi' \<le> k" "k < hi" for k
    using assms(5) that by blast
  with in' assms(4) have "\<not> P (xs ! k)" if "lo \<le> k" "k < hi" for k
    using that by (meson not_le)
  with None show ?thesis by (auto simp: search_ok_def)
next
  case (Some k)
  then have "lo \<le> j \<Longrightarrow> j < k \<Longrightarrow> \<not> P (xs ! j)" for j
    using assms(1,4) by (cases "j < lo'") (auto simp: search_ok_def)
  then show ?thesis using Some assms(1-3) by (auto simp: search_ok_def)
qed

lemma scan_from_ok: "search_ok P xs i n (scan_from P xs i n)"
proof (induction P xs i n rule: scan_from.induct)
  case (1 P xs i n)
  show ?case
  proof (cases "i < n \<and> \<not> P (xs ! i)")
    case True
    with 1 have "search_ok P xs (i + 1) n (scan_from P xs (i + 1) n)" by blast
    then have "search_ok P xs i n (scan_from P xs (i + 1) n)"
      by (rule search_ok_widen) (use True in \<open>auto simp: le_Suc_eq less_Suc_eq\<close>)
    with True show ?thesis by (simp add: scan_from.simps [of P xs i n])
  qed (auto simp: scan_from.simps [of P xs i n] search_ok_def)
qed

lemma bsearch_ok:
  assumes "\<And>i j. i < j \<Longrightarrow> j < n \<Longrightarrow> (r (xs ! i) < 0 \<longrightarrow> r (xs ! j) < 0) \<and> (r (xs ! j) > 0 \<longrightarrow> r (xs ! i) > 0)"
    and "hi \<le> n"
  shows "search_ok (\<lambda>x. r x = 0) xs lo hi (bsearch r xs lo hi)"
  using assms
proof (induction r xs lo hi rule: bsearch.induct)
  case (1 r xs lo hi)
  define mid where "mid = lo + (hi - lo - 1) div 2"
  note mono = "1.prems"(1) and step = bsearch.simps [of r xs lo hi, folded mid_def]
  show ?case
  proof (cases "lo < hi")
    case True
    then have mid: "lo \<le> mid" "mid < hi" "mid < n" using "1.prems" by (auto simp: mid_def)
    consider "r (xs ! mid) > 0" | "r (xs ! mid) < 0" | "r (xs ! mid) = 0" "hi - lo = 1"
      | "r (xs ! mid) = 0" "hi - lo \<noteq> 1" by linarith
    then show ?thesis
    proof cases
      case 1
      then have "search_ok (\<lambda>x. r x = 0) xs (mid + 1) hi (bsearch r xs (mid + 1) hi)"
        using "1.IH"(1) [OF True mid_def] "1.prems" by blast
      moreover have "r (xs ! k) \<noteq> 0" if "k < mid + 1" for k
        using mono [of k mid] 1 mid that by (cases "k = mid") auto
      ultimately show ?thesis using 1 True mid step by (auto intro: search_ok_widen simp: Let_def)
    next
      case 2
      then have "search_ok (\<lambda>x. r x = 0) xs lo mid (bsearch r xs lo mid)"
        using "1.IH"(2) [OF True mid_def] "1.prems" mid by simp
      moreover have "r (xs ! k) \<noteq> 0" if "mid \<le> k" "k < hi" for k
        using mono [of mid k] 2 "1.prems"(2) that by (cases "k = mid") auto
      ultimately show ?thesis using 2 True mid step by (auto intro: search_ok_widen simp: Let_def)
    next
      case 3
      then show ?thesis using True step by (auto simp: search_ok_def mid_def Let_def)
    next
      case 4
      then have "search_ok (\<lambda>x. r x = 0) xs lo (mid + 1) (bsearch r xs lo (mid + 1))"
        using "1.IH"(3) [OF True mid_def] "1.prems" mid by simp
      then have "search_ok (\<lambda>x. r x = 0) xs lo hi (bsearch r xs lo (mid + 1))"
        by (rule search_ok_widen) (use 4 mid in auto)
      then show ?thesis using 4 True step by (simp add: Let_def)
    qed
  qed (simp add: step search_ok_def)
qed

lemma delete_if_loop_filter:
  assumes "i + todo \<le> length xs" "n \<le> i"
  shows "\<exists>ys m. delete_if_loop f xs i n todo = (ys, m) \<and> length ys = length xs \<and> m \<le> n + todo \<and>
    take m ys = take n xs @ filter (\<lambda>x. \<not> f x) (take todo (drop i xs))"
  using assms
proof (induction todo arbitrary: xs i n)
  case (Suc todo)
  have split: "take (Suc todo) (drop i xs) = xs ! i # take todo (drop (Suc i) xs)"
    using Suc.prems by (simp add: Cons_nth_drop_Suc [symmetric])
  show ?case
  proof (cases "f (xs ! i)")
    case True
    with Suc.IH [of "i + 1" xs n] Suc.prems split show ?thesis by fastforce
  next
    case False
    let ?xs = "xs[n := xs ! i]"
    have "drop (Suc i) ?xs = drop (Suc i) xs" "take (Suc n) ?xs = take n xs @ [xs ! i]"
      using Suc.prems by (simp_all add: take_Suc_update)
    with Suc.IH [of "i + 1" ?xs "n + 1"] Suc.prems split False show ?thesis by fastforce
  qed
qed auto

lemma sk_delete_if_elems:
  assumes "stack_inv sk"
  shows "\<exists>st. OPENSSL_sk_delete_if f (Some sk) = Some st \<and> stack_inv st \<and>
    elems st = filter (\<lambda>x. \<not> f x) (elems sk) \<and> sorted st = sorted sk \<and> comp st = comp sk"
proof -
  obtain ys m where "delete_if_loop f (data sk) 0 0 (num sk) = (ys, m)" "length ys = length (data sk)"
    "m \<le> num sk" "take m ys = filter (\<lambda>x. \<not> f x) (elems sk)"
    using delete_if_loop_filter [of 0 "num sk" "data sk" 0 f] assms
    by (auto simp: stack_inv_def elems_def)
  then show ?thesis
    using assms by (simp add: OPENSSL_sk_delete_if_def stack_inv_def elems_def)
qed

text \<open>What \<open>OPENSSL_sk_deep_copy\<close> stores for a pointer, and whether copying it can go on.\<close>

definition copied :: "('a \<Rightarrow> 'a option) \<Rightarrow> 'a option \<Rightarrow> 'a option" where
  "copied copy p = Option.bind p copy"

definition copyable :: "('a \<Rightarrow> 'a option) \<Rightarrow> 'a option \<Rightarrow> bool" where
  "copyable copy p \<longleftrightarrow> (p = None \<or> copied copy p \<noteq> None)"

lemma copy_loop_eq:
  "copy_loop copy (ys @ xs @ zs) (length ys) (length xs) =
     (if \<forall>p \<in> set xs. copyable copy p then Inr (ys @ map (copied copy) xs @ zs)
      else Inl (List.map_filter (\<lambda>p. p) (ys @ map (copied copy) (takeWhile (copyable copy) xs))))"
proof (induction xs arbitrary: ys)
  case (Cons p xs)
  note IH = Cons.IH [of "ys @ [copied copy p]", simplified length_append_singleton append_assoc append_Cons append_Nil]
  show ?case
  proof (cases "copyable copy p")
    case True
    then have "copy_loop copy (ys @ (p # xs) @ zs) (length ys) (length (p # xs)) =
        copy_loop copy (ys @ copied copy p # xs @ zs) (Suc (length ys)) (length xs)"
      by (cases p) (auto simp: copyable_def copied_def)
    with IH True show ?thesis by simp
  next
    case False
    then obtain a where "p = Some a" "copy a = None" by (auto simp: copyable_def copied_def)
    with False show ?thesis by simp
  qed
qed simp

section \<open>Stacks as state machines\<close>

datatype ('c, 'a) sk_op =
    Insert "'a option" nat
  | Push "'a option"
  | Delete nat
  | Pop
  | Shift
  | DeletePtr "'a option"
  | DeleteIf "'a option \<Rightarrow> bool"
  | Zero
  | Sort
  | SetCmp "'c option"

text \<open>One call of the interface on a stack that exists.\<close>

fun sk_run ::
  "('c \<Rightarrow> 'a option \<Rightarrow> 'a option \<Rightarrow> int) \<Rightarrow> (nat \<Rightarrow> bool) \<Rightarrow> (nat \<Rightarrow> 'a option) \<Rightarrow> ('c, 'a) sk_op \<Rightarrow>
   ('c, 'a) stack_st \<Rightarrow> ('c, 'a) stack_st" where
  "sk_run call_cmp alloc junk (Insert p i) sk = the (snd (OPENSSL_sk_insert alloc junk (Some sk) p i))"
| "sk_run call_cmp alloc junk (Push p) sk = the (snd (OPENSSL_sk_push alloc junk sk p))"
| "sk_run call_cmp alloc junk (Delete i) sk = the (snd (OPENSSL_sk_delete (Some sk) i))"
| "sk_run call_cmp alloc junk Pop sk = the (snd (OPENSSL_sk_pop (Some sk)))"
| "sk_run call_cmp alloc junk Shift sk = the (snd (OPENSSL_sk_shift (Some sk)))"
| "sk_run call_cmp alloc junk (DeletePtr p) sk = the (snd (OPENSSL_sk_delete_ptr (Some sk) p))"
| "sk_run call_cmp alloc junk (DeleteIf f) sk = the (OPENSSL_sk_delete_if f (Some sk))"
| "sk_run call_cmp alloc junk Zero sk = the (OPENSSL_sk_zero (Some sk))"
| "sk_run call_cmp alloc junk Sort sk = the (OPENSSL_sk_sort call_cmp (Some sk))"
| "sk_run call_cmp alloc junk (SetCmp c) sk = snd (OPENSSL_sk_set_cmp_func sk c)"

definition delete_nth :: "nat \<Rightarrow> 'x list \<Rightarrow> 'x list" where
  "delete_nth i xs = take i xs @ drop (Suc i) xs"

definition insert_nth :: "'x \<Rightarrow> nat \<Rightarrow> 'x list \<Rightarrow> 'x list" where
  "insert_nth x i xs = take i xs @ x # drop i xs"

text \<open>The specification: what each call may do to the sequence.  An insertion may be refused.\<close>

fun sk_spec :: "('c, 'a) sk_op \<Rightarrow> 'a option list \<Rightarrow> 'a option list \<Rightarrow> bool" where
  "sk_spec (Insert p i) xs ys \<longleftrightarrow> ys = xs \<or> ys = insert_nth p i xs"
| "sk_spec (Push p) xs ys \<longleftrightarrow> ys = xs \<or> ys = xs @ [p]"
| "sk_spec (Delete i) xs ys \<longleftrightarrow> ys = delete_nth i xs"
| "sk_spec Pop xs ys \<longleftrightarrow> ys = butlast xs"
| "sk_spec Shift xs ys \<longleftrightarrow> ys = tl xs"
| "sk_spec (DeletePtr p) xs ys \<longleftrightarrow> ys = remove1 p xs"
| "sk_spec (DeleteIf f) xs ys \<longleftrightarrow> ys = filter (\<lambda>x. \<not> f x) xs"
| "sk_spec Zero xs ys \<longleftrightarrow> ys = []"
| "sk_spec Sort xs ys \<longleftrightarrow> mset ys = mset xs"
| "sk_spec (SetCmp c) xs ys \<longleftrightarrow> ys = xs"

lemma remove1_first_match:
  "remove1 p xs = (case first_match (\<lambda>x. x = p) xs of None \<Rightarrow> xs | Some i \<Rightarrow> delete_nth i xs)"
proof (cases "first_match (\<lambda>x. x = p) xs")
  case None
  then show ?thesis by (auto simp: first_match_def in_set_conv_nth remove1_idem split: if_splits)
next
  case (Some i)
  note m = first_match_SomeD [OF Some]
  then have "xs = take i xs @ p # drop (Suc i) xs" using id_take_nth_drop by blast
  moreover have "p \<notin> set (take i xs)" using m by (auto simp: in_set_conv_nth)
  ultimately have "remove1 p xs = delete_nth i xs"
    by (metis delete_nth_def remove1.simps(2) remove1_append)
  with Some show ?thesis by simp
qed

text \<open>The meaning of the \<open>sorted\<close> flag: there is a comparison function and the elements ascend.\<close>

definition stack_ok :: "('c \<Rightarrow> 'a option \<Rightarrow> 'a option \<Rightarrow> int) \<Rightarrow> ('c, 'a) stack_st \<Rightarrow> bool" where
  "stack_ok call_cmp sk \<longleftrightarrow> stack_inv sk \<and>
     (sorted sk \<longrightarrow> (\<exists>c. comp sk = Some c \<and> sorted_cmp (call_cmp c) (elems sk)))"

lemma sorted_cmp_sorted_wrt: "sorted_cmp cmp xs \<longleftrightarrow> sorted_wrt (\<lambda>x y. cmp x y \<le> 0) xs"
  by (auto simp: sorted_cmp_def sorted_wrt_iff_nth_less)

lemma sorted_cmp_delete_nth: "sorted_cmp cmp xs \<Longrightarrow> sorted_cmp cmp (delete_nth i xs)"
  using append_take_drop_id [of i xs]
  by (cases "drop i xs") (auto simp: sorted_cmp_sorted_wrt delete_nth_def drop_Suc tl_drop [symmetric]
      dest: arg_cong [of _ _ "sorted_wrt (\<lambda>x y. cmp x y \<le> 0)"] simp: sorted_wrt_append)

lemma stack_ok_shrink:
  assumes "stack_ok call_cmp sk" "stack_inv st" "sorted st = sorted sk" "comp st = comp sk"
    and "\<And>cmp. sorted_cmp cmp (elems sk) \<Longrightarrow> sorted_cmp cmp (elems st)"
  shows "stack_ok call_cmp st"
  using assms by (auto simp: stack_ok_def)

lemma sk_insert_step:
  assumes "stack_ok call_cmp sk"
  shows "stack_ok call_cmp (the (snd (OPENSSL_sk_insert alloc junk (Some sk) p i))) \<and>
    (elems (the (snd (OPENSSL_sk_insert alloc junk (Some sk) p i))) = elems sk \<or>
     elems (the (snd (OPENSSL_sk_insert alloc junk (Some sk) p i))) = insert_nth p i (elems sk))"
proof -
  have inv: "stack_inv sk" using assms by (simp add: stack_ok_def)
  obtain r t where run: "OPENSSL_sk_insert alloc junk (Some sk) p i = (r, t)" by fastforce
  show ?thesis
  proof (cases "num sk \<ge> INT_MAX \<or> sk_grow alloc junk sk = None")
    case True
    then show ?thesis using assms sk_insert_refused [OF inv True] by simp
  next
    case False
    then obtain sk' where "num sk < INT_MAX" "sk_grow alloc junk sk = Some sk'" by auto
    from sk_insert_grown [OF inv this run] run show ?thesis
      by (auto simp: stack_ok_def insert_nth_def)
  qed
qed

lemma sk_delete_step:
  assumes "stack_ok call_cmp sk"
  shows "stack_ok call_cmp (the (snd (OPENSSL_sk_delete (Some sk) i))) \<and>
    elems (the (snd (OPENSSL_sk_delete (Some sk) i))) = delete_nth i (elems sk)"
proof (cases "i < num sk")
  case True
  have inv: "stack_inv sk" using assms by (simp add: stack_ok_def)
  obtain st where st: "OPENSSL_sk_delete (Some sk) i = (elems sk ! i, Some st)" "stack_inv st"
    "elems st = delete_nth i (elems sk)" "sorted st = sorted sk" "comp st = comp sk"
    using sk_delete_elems [OF inv True] by (auto simp: delete_nth_def)
  have "stack_ok call_cmp st"
    by (rule stack_ok_shrink [OF assms]) (use st sorted_cmp_delete_nth in auto)
  with st show ?thesis by simp
next
  case False
  then show ?thesis using assms by (auto simp: OPENSSL_sk_delete_def delete_nth_def stack_ok_def)
qed

lemma sk_zero_step:
  assumes "stack_ok call_cmp sk"
  shows "stack_ok call_cmp (the (OPENSSL_sk_zero (Some sk))) \<and> elems (the (OPENSSL_sk_zero (Some sk))) = []"
  using assms by (auto simp: OPENSSL_sk_zero_def stack_ok_def stack_inv_def elems_def)

lemma sk_sort_step:
  assumes ok: "stack_ok call_cmp sk" and cmp: "\<And>c. comparator (call_cmp c)"
  shows "stack_ok call_cmp (the (OPENSSL_sk_sort call_cmp (Some sk))) \<and>
    mset (elems (the (OPENSSL_sk_sort call_cmp (Some sk)))) = mset (elems sk)"
proof (cases "comp sk")
  case (Some c)
  show ?thesis
  proof (cases "sorted sk")
    case False
    let ?d = "heap_sort (call_cmp c) (data sk) (num sk)"
    have n: "num sk \<le> length (data sk)" using ok by (simp add: stack_ok_def stack_inv_def)
    note frame = heap_sort_frame [OF n, of "call_cmp c"]
    then have "drop (num sk) ?d = drop (num sk) (data sk)"
      using n by (intro nth_equalityI) auto
    moreover have "mset (take (num sk) ?d) + mset (drop (num sk) ?d) =
        mset (take (num sk) (data sk)) + mset (drop (num sk) (data sk))"
      using frame by (simp flip: mset_append)
    ultimately have "mset (take (num sk) ?d) = mset (take (num sk) (data sk))" by simp
    with Some False ok frame comparator.heap_sort_sorted [OF cmp n, of c] show ?thesis
      by (simp add: OPENSSL_sk_sort_def stack_ok_def stack_inv_def elems_def)
  qed (use ok Some in \<open>simp add: OPENSSL_sk_sort_def\<close>)
qed (use ok in \<open>simp add: OPENSSL_sk_sort_def\<close>)

lemma sk_push_step:
  assumes "stack_ok call_cmp sk"
  shows "stack_ok call_cmp (the (snd (OPENSSL_sk_push alloc junk sk p))) \<and>
    (elems (the (snd (OPENSSL_sk_push alloc junk sk p))) = elems sk \<or>
     elems (the (snd (OPENSSL_sk_push alloc junk sk p))) = elems sk @ [p])"
  using sk_insert_step [OF assms, of alloc junk p "num sk"] assms
  by (auto simp: OPENSSL_sk_push_def insert_nth_def stack_ok_def)

lemma sk_pop_step:
  assumes "stack_ok call_cmp sk"
  shows "stack_ok call_cmp (the (snd (OPENSSL_sk_pop (Some sk)))) \<and>
    elems (the (snd (OPENSSL_sk_pop (Some sk)))) = butlast (elems sk)"
proof -
  have "length (elems sk) = num sk" using assms by (simp add: stack_ok_def)
  then show ?thesis
    using assms sk_delete_step [OF assms, of "num sk - 1"]
    by (auto simp: OPENSSL_sk_pop_def delete_nth_def butlast_conv_take)
qed

lemma sk_shift_step:
  assumes "stack_ok call_cmp sk"
  shows "stack_ok call_cmp (the (snd (OPENSSL_sk_shift (Some sk)))) \<and>
    elems (the (snd (OPENSSL_sk_shift (Some sk)))) = tl (elems sk)"
proof -
  have "length (elems sk) = num sk" using assms by (simp add: stack_ok_def)
  then show ?thesis
    using assms sk_delete_step [OF assms, of 0]
    by (auto simp: OPENSSL_sk_shift_def delete_nth_def drop_Suc)
qed

lemma sk_delete_ptr_step:
  assumes "stack_ok call_cmp sk"
  shows "stack_ok call_cmp (the (snd (OPENSSL_sk_delete_ptr (Some sk) p))) \<and>
    elems (the (snd (OPENSSL_sk_delete_ptr (Some sk) p))) = remove1 p (elems sk)"
proof -
  have "scan_from (\<lambda>x. x = p) (data sk) 0 (num sk) = first_match (\<lambda>x. x = p) (elems sk)"
    unfolding elems_def
    by (rule search_ok_first_match [OF scan_from_ok]) (use assms in \<open>simp add: stack_ok_def stack_inv_def\<close>)
  then show ?thesis
    using assms sk_delete_step [OF assms]
    by (simp add: OPENSSL_sk_delete_ptr_def remove1_first_match split: option.split)
qed

lemma sk_delete_if_step:
  assumes "stack_ok call_cmp sk"
  shows "stack_ok call_cmp (the (OPENSSL_sk_delete_if f (Some sk))) \<and>
    elems (the (OPENSSL_sk_delete_if f (Some sk))) = filter (\<lambda>x. \<not> f x) (elems sk)"
proof -
  obtain st where st: "OPENSSL_sk_delete_if f (Some sk) = Some st" "stack_inv st"
    "elems st = filter (\<lambda>x. \<not> f x) (elems sk)" "sorted st = sorted sk" "comp st = comp sk"
    using sk_delete_if_elems [of sk f] assms by (auto simp: stack_ok_def)
  have "stack_ok call_cmp st"
    by (rule stack_ok_shrink [OF assms]) (use st in \<open>auto simp: sorted_cmp_sorted_wrt sorted_wrt_filter\<close>)
  with st show ?thesis by simp
qed

lemmas sk_step_lemmas = sk_insert_step sk_push_step sk_delete_step sk_pop_step sk_shift_step
  sk_delete_ptr_step sk_delete_if_step sk_zero_step sk_sort_step

text \<open>Stacks made by the interface: a fresh one, then any calls, each with its own outcome of the
  allocator.\<close>

inductive sk_reach :: "('c \<Rightarrow> 'a option \<Rightarrow> 'a option \<Rightarrow> int) \<Rightarrow> ('c, 'a) stack_st \<Rightarrow> bool"
  for call_cmp :: "'c \<Rightarrow> 'a option \<Rightarrow> 'a option \<Rightarrow> int" where
  sk_fresh: "OPENSSL_sk_new alloc c = Some sk \<Longrightarrow> sk_reach call_cmp sk"
| sk_call: "sk_reach call_cmp sk \<Longrightarrow> sk_reach call_cmp (sk_run call_cmp alloc junk f sk)"

lemma sk_run_step:
  assumes "stack_ok call_cmp sk" "\<And>c. comparator (call_cmp c)"
  shows "stack_ok call_cmp (sk_run call_cmp alloc junk f sk) \<and>
    sk_spec f (elems sk) (elems (sk_run call_cmp alloc junk f sk))"
proof (cases f)
  case (SetCmp c)
  then show ?thesis
    using assms(1) by (auto simp: OPENSSL_sk_set_cmp_func_def stack_ok_def stack_inv_def elems_def)
qed (use assms sk_step_lemmas [OF assms(1)] in simp_all)

lemma sk_reach_ok:
  assumes "\<And>c. comparator (call_cmp c)"
  shows "sk_reach call_cmp sk \<Longrightarrow> stack_ok call_cmp sk"
proof (induction rule: sk_reach.induct)
  case (sk_fresh alloc c sk)
  then show ?case
    using stack_inv_new [OF sk_fresh] by (auto simp: stack_ok_def)
next
  case (sk_call sk alloc junk f)
  then show ?case using sk_run_step [OF sk_call.IH assms] by blast
qed

text \<open>What \<open>OPENSSL_sk_find\<close> looks for.\<close>

definition sk_matches ::
  "('c \<Rightarrow> 'a option \<Rightarrow> 'a option \<Rightarrow> int) \<Rightarrow> 'c option \<Rightarrow> 'a option \<Rightarrow> 'a option \<Rightarrow> bool" where
  "sk_matches call_cmp c p x =
     (case c of None \<Rightarrow> x = p | Some c \<Rightarrow> p \<noteq> None \<and> call_cmp c p x = 0)"

lemma sk_find_ok:
  assumes ok: "stack_ok call_cmp sk" and cmp: "\<And>c. comparator (call_cmp c)"
  shows "OPENSSL_sk_find call_cmp (Some sk) p = first_match (sk_matches call_cmp (comp sk) p) (elems sk)"
proof -
  have n: "num sk \<le> length (data sk)" using ok by (simp add: stack_ok_def stack_inv_def)
  have scan: "scan_from P (data sk) 0 (num sk) = first_match P (elems sk)" for P
    unfolding elems_def by (rule search_ok_first_match [OF scan_from_ok n])
  show ?thesis
  proof (cases "\<exists>c. comp sk = Some c \<and> p \<noteq> None \<and> OPENSSL_sk_is_sorted (Some sk)")
    case True
    then obtain c where c: "comp sk = Some c" "p \<noteq> None" and s: "OPENSSL_sk_is_sorted (Some sk)" by blast
    have "sorted_cmp (call_cmp c) (elems sk)"
    proof (cases "sorted sk")
      case False
      then have "num sk < 2" using s by (simp add: OPENSSL_sk_is_sorted_def)
      then show ?thesis using ok by (simp add: sorted_cmp_def stack_ok_def)
    qed (use ok c in \<open>auto simp: stack_ok_def\<close>)
    then have le: "call_cmp c (data sk ! i) (data sk ! j) \<le> 0" if "i < j" "j < num sk" for i j
      using that n by (auto simp: sorted_cmp_def elems_def)
    have "search_ok (\<lambda>x. call_cmp c p x = 0) (data sk) 0 (num sk) (bsearch (call_cmp c p) (data sk) 0 (num sk))"
      by (rule bsearch_ok [where n = "num sk", OF comparator.cmp_mono [OF cmp]]) (use le in auto)
    then have "bsearch (call_cmp c p) (data sk) 0 (num sk) = first_match (\<lambda>x. call_cmp c p x = 0) (elems sk)"
      unfolding elems_def by (rule search_ok_first_match [OF _ n])
    moreover have "sk_matches call_cmp (comp sk) p = (\<lambda>x. call_cmp c p x = 0)"
      using c by (auto simp: sk_matches_def)
    ultimately show ?thesis using c s by (auto simp: OPENSSL_sk_find_def)
  next
    case False
    then show ?thesis
      by (auto simp: OPENSSL_sk_find_def scan sk_matches_def first_match_def split: option.split)
  qed
qed

section \<open>Properties\<close>

text \<open>\<open>OPENSSL_sk_insert\<close> either stores the pointer at the position asked for (at the end when that
  is past it), shifting the rest, and returns the new number of elements, or returns 0 and leaves the
  stack as it was; it refuses only when the stack has \<^verbatim>\<open>INT_MAX\<close> elements or when it is full and the
  allocator fails to double it.\<close>

theorem sk_insert_outcome:
  assumes "stack_inv sk" "OPENSSL_sk_insert alloc junk (Some sk) p i = (r, t)"
  shows "(r = 0 \<and> t = Some sk \<and>
      (num sk = INT_MAX \<or> (num_alloc sk = num sk + 1 \<and> \<not> alloc (num_alloc sk * 16)))) \<or>
    (r = num sk + 1 \<and> (\<exists>st. t = Some st \<and> stack_inv st \<and> elems st = insert_nth p i (elems sk) \<and>
      \<not> sorted st \<and> comp st = comp sk))"
proof (cases "num sk < INT_MAX")
  case True
  show ?thesis
  proof (cases "sk_grow alloc junk sk")
    case None
    then show ?thesis
      using assms sk_insert_refused [of sk alloc junk p i] sk_grow_inv [OF assms(1) True, of alloc junk] by auto
  next
    case (Some sk')
    then show ?thesis using sk_insert_grown [OF assms(1) True Some assms(2)] by (auto simp: insert_nth_def)
  qed
next
  case False
  then show ?thesis
    using assms sk_insert_refused [of sk alloc junk p i] by (auto simp: stack_inv_def)
qed

definition demo_stack :: "(unit, nat) stack_st" where
  "demo_stack = \<lparr>num = 3, data = [Some 1, Some 3, Some 5, None], sorted = True, num_alloc = 4, comp = Some ()\<rparr>"

theorem sk_insert_outcome_witness:
  "OPENSSL_sk_insert (\<lambda>_. True) (\<lambda>_. None) (Some demo_stack) (Some 2) 1 =
     (4, Some \<lparr>num = 4, data = [Some 1, Some 2, Some 3, Some 5, None, None, None, None], sorted = False,
                num_alloc = 8, comp = Some ()\<rparr>) \<and>
   insert_nth (Some 2) 1 (elems demo_stack) = [Some 1, Some 2, Some 3, Some (5 :: nat)]"
proof -
  let ?st = "\<lparr>num = 4, data = [Some 1, Some 2, Some 3, Some (5 :: nat), None, None, None, None], sorted = False,
                num_alloc = 8, comp = Some ()\<rparr>"
  have run: "OPENSSL_sk_insert (\<lambda>_. True) (\<lambda>_. None) (Some demo_stack) (Some 2) 1 = (4, Some ?st)"
    by (simp add: OPENSSL_sk_insert_def sk_grow_def demo_stack_def INT_MAX_def size_max_def sizeof_ptr_def
        memmove_def)
  have "stack_inv demo_stack" by (simp add: stack_inv_def demo_stack_def INT_MAX_def)
  from sk_insert_outcome [OF this run] run show ?thesis by (auto simp: elems_def)
qed


text \<open>A comparison function for stacks of numbers.\<close>

definition cmp_num :: "nat option \<Rightarrow> nat option \<Rightarrow> int" where
  "cmp_num a b = (case a of None \<Rightarrow> 0 | Some n \<Rightarrow> int n + 1) - (case b of None \<Rightarrow> 0 | Some n \<Rightarrow> int n + 1)"

lemma comparator_cmp_num: "comparator cmp_num"
  by unfold_locales (auto simp: cmp_num_def)

definition fresh_stack :: "(unit, nat) stack_st" where
  "fresh_stack = \<lparr>num = 0, data = [None, None, None, None], sorted = False, num_alloc = 4, comp = Some ()\<rparr>"

lemma fresh_stack_reach: "sk_reach (\<lambda>_. cmp_num) fresh_stack"
  by (rule sk_fresh [where alloc = "\<lambda>_. True" and c = "Some ()"])
     (simp add: OPENSSL_sk_new_def fresh_stack_def kMinSize_def eval_nat_numeral)



definition demo_reach :: "(unit, nat) stack_st" where
  "demo_reach =
     (let run = sk_run (\<lambda>_. cmp_num) (\<lambda>_. True) (\<lambda>_. None)
      in run Sort (run (Push (Some 1)) (run (Push (Some 4)) fresh_stack)))"

lemma push_demo:
  "OPENSSL_sk_push (\<lambda>_. True) (\<lambda>_. None)
     \<lparr>num = 1, data = [Some 4, None, None, None], sorted = False, num_alloc = 4, comp = Some ()\<rparr> (Some (1 :: nat)) =
   (2, Some \<lparr>num = 2, data = [Some 4, Some 1, None, None], sorted = False, num_alloc = 4, comp = Some ()\<rparr>)"
  "OPENSSL_sk_push (\<lambda>_. True) (\<lambda>_. None) fresh_stack (Some 4) =
   (1, Some \<lparr>num = 1, data = [Some 4, None, None, None], sorted = False, num_alloc = 4, comp = Some ()\<rparr>)"
  by (simp_all add: OPENSSL_sk_push_def OPENSSL_sk_insert_def sk_grow_def INT_MAX_def fresh_stack_def)

lemma demo_reach_eq:
  "demo_reach = \<lparr>num = 2, data = [Some 1, Some 4, None, None], sorted = True, num_alloc = 4, comp = Some ()\<rparr>"
  by (simp add: demo_reach_def push_demo [unfolded One_nat_def] OPENSSL_sk_sort_def heap_sort_def parent_idx_def left_idx_def next_idx_def down_heap.simps cmp_num_def
      swap_at_def numeral_2_eq_2)




text \<open>(C26) \<open>OPENSSL_sk_deep_copy\<close> returns a stack with every element copied (null elements stay null) and
  everything else as in the original; when the copy function fails on an element it returns no stack
  and has freed the copies made before that element, each once and nothing else.\<close>

theorem sk_deep_copy_outcome:
  fixes sk :: "('c, 'a) stack_st"
  assumes "stack_inv sk" "alloc sizeof_stack" "alloc (sizeof_ptr * num_alloc sk)"
  shows "OPENSSL_sk_deep_copy alloc copy (Some sk) =
    (if \<forall>p \<in> set (elems sk). copyable copy p
     then ([], Some (sk\<lparr>data := map (copied copy) (elems sk) @ drop (num sk) (data sk)\<rparr>))
     else (List.map_filter (copied copy) (takeWhile (copyable copy) (elems sk)), None))"
proof -
  have "copy_loop copy (data sk) 0 (num sk) =
      copy_loop copy ([] @ elems sk @ drop (num sk) (data sk)) (length ([] :: 'a option list)) (length (elems sk))"
    using assms(1) by (simp add: elems_def stack_inv_def)
  also have "\<dots> = (if \<forall>p \<in> set (elems sk). copyable copy p
      then Inr (map (copied copy) (elems sk) @ drop (num sk) (data sk))
      else Inl (List.map_filter (copied copy) (takeWhile (copyable copy) (elems sk))))"
    by (rule trans [OF copy_loop_eq]) (simp add: List.map_filter_def o_def filter_map)
  finally show ?thesis
    using assms(2,3) by (auto simp: OPENSSL_sk_deep_copy_def OPENSSL_sk_dup_def)
qed

theorem sk_deep_copy_outcome_witness:
  "OPENSSL_sk_deep_copy (\<lambda>_. True) (\<lambda>n. if n < 5 then Some (n + 10) else None) (Some demo_stack) = ([11, 13], None)"
proof -
  have "stack_inv demo_stack" by (simp add: stack_inv_def demo_stack_def INT_MAX_def)
  from sk_deep_copy_outcome [OF this, of "\<lambda>_. True"] show ?thesis
    by (simp add: demo_stack_def elems_def copyable_def copied_def List.map_filter_def)
qed

text \<open>\<open>OPENSSL_sk_set\<close> overwrites an element without clearing the \<open>sorted\<close> flag.  After it, the flag
  may hold of elements that are not in ascending order, and \<open>OPENSSL_sk_find\<close>, which then does a binary
  search, reports an element of the stack as not found, although the elements in the stack match and
  \<open>OPENSSL_sk_is_sorted\<close> holds.\<close>

theorem sk_set_stale_sorted:
  "\<exists>(sk :: (unit, nat) stack_st) st. sk_reach (\<lambda>_. cmp_num) sk \<and> OPENSSL_sk_set (Some sk) 0 (Some 9) = (Some 9, Some st) \<and>
     OPENSSL_sk_is_sorted (Some st) \<and> elems st = [Some 9, Some 4] \<and>
     OPENSSL_sk_find (\<lambda>_. cmp_num) (Some st) (Some 4) = None"
proof -
  have "sk_reach (\<lambda>_. cmp_num) demo_reach"
    unfolding demo_reach_def Let_def by (intro sk_call fresh_stack_reach)
  then show ?thesis
    by (intro exI [of _ demo_reach] exI [of _ "demo_reach\<lparr>data := [Some 9, Some 4, None, None]\<rparr>"])
       (simp add: demo_reach_eq OPENSSL_sk_set_def OPENSSL_sk_is_sorted_def OPENSSL_sk_find_def elems_def
        bsearch.simps cmp_num_def)
qed

end
