(* ===== verification/Const_Time.thy ===== *)
theory Const_Time
  imports Prelude
begin

text \<open>
  The branch-free comparisons and selections of BoringSSL's \<^verbatim>\<open>crypto/internal.h\<close>, which the base64 code uses on
  secret data.  \<^verbatim>\<open>crypto_word_t\<close> is a 64-bit word and \<^verbatim>\<open>value_barrier_w\<close> the identity.
\<close>

section \<open>The code\<close>

definition value_barrier_w :: "u64 \<Rightarrow> u64" where
  "value_barrier_w a = a"

definition constant_time_msb_w :: "u64 \<Rightarrow> u64" where
  "constant_time_msb_w a = 0 - drop_bit (8 * 8 - 1) a"

definition constant_time_lt_w :: "u64 \<Rightarrow> u64 \<Rightarrow> u64" where
  "constant_time_lt_w a b = constant_time_msb_w (a XOR ((a XOR b) OR ((a - b) XOR a)))"

definition constant_time_lt_8 :: "u64 \<Rightarrow> u64 \<Rightarrow> byte" where
  "constant_time_lt_8 a b = ucast (constant_time_lt_w a b)"

definition constant_time_ge_w :: "u64 \<Rightarrow> u64 \<Rightarrow> u64" where
  "constant_time_ge_w a b = NOT (constant_time_lt_w a b)"

definition constant_time_ge_8 :: "u64 \<Rightarrow> u64 \<Rightarrow> byte" where
  "constant_time_ge_8 a b = ucast (constant_time_ge_w a b)"

definition constant_time_is_zero_w :: "u64 \<Rightarrow> u64" where
  "constant_time_is_zero_w a = constant_time_msb_w (NOT a AND (a - 1))"

definition constant_time_is_zero_8 :: "u64 \<Rightarrow> byte" where
  "constant_time_is_zero_8 a = ucast (constant_time_is_zero_w a)"

definition constant_time_eq_w :: "u64 \<Rightarrow> u64 \<Rightarrow> u64" where
  "constant_time_eq_w a b = constant_time_is_zero_w (a XOR b)"

definition constant_time_eq_8 :: "u64 \<Rightarrow> u64 \<Rightarrow> byte" where
  "constant_time_eq_8 a b = ucast (constant_time_eq_w a b)"

text \<open>The \<^verbatim>\<open>int\<close> arguments are 32-bit patterns, sign-extended by the conversion to \<^verbatim>\<open>crypto_word_t\<close>.\<close>

definition constant_time_eq_int :: "u32 \<Rightarrow> u32 \<Rightarrow> u64" where
  "constant_time_eq_int a b = constant_time_eq_w (scast a) (scast b)"

definition constant_time_eq_int_8 :: "u32 \<Rightarrow> u32 \<Rightarrow> byte" where
  "constant_time_eq_int_8 a b = constant_time_eq_8 (scast a) (scast b)"

definition constant_time_select_w :: "u64 \<Rightarrow> u64 \<Rightarrow> u64 \<Rightarrow> u64" where
  "constant_time_select_w msk a b =
     (let m = value_barrier_w msk in (m AND a) OR (NOT m AND b))"

definition constant_time_select_8 :: "u64 \<Rightarrow> byte \<Rightarrow> byte \<Rightarrow> byte" where
  "constant_time_select_8 msk a b =
     (let m = (ucast (value_barrier_w msk) :: byte) in (m AND a) OR (NOT m AND b))"

definition constant_time_select_int :: "u64 \<Rightarrow> u32 \<Rightarrow> u32 \<Rightarrow> u32" where
  "constant_time_select_int msk a b = ucast (constant_time_select_w msk (scast a) (scast b))"

section \<open>Masks\<close>

lemma bit_63: "bit (w :: u64) 63 \<longleftrightarrow> 2 ^ 63 \<le> unat w"
proof -
  have "bit w 63 \<longleftrightarrow> odd (unat w div 2 ^ 63)" using bit_unsigned_iff [where ?'a = nat, of w 63] by (simp add: bit_iff_odd)
  moreover have "unat w div 2 ^ 63 = (if 2 ^ 63 \<le> unat w then 1 else 0)"
    using unat_bound [of w] by (auto simp: div_eq_0_iff intro!: div_nat_eqI)
  ultimately show ?thesis by auto
qed

lemma msb_mask: "constant_time_msb_w a = (if bit a 63 then - 1 else 0)"
proof -
  have "unat (drop_bit 63 a) = (if bit a 63 then 1 else 0)"
    using unat_bound [of a] by (auto simp: unat_drop_bit bit_63 div_eq_0_iff intro!: div_nat_eqI)
  then have "drop_bit 63 a = (if bit a 63 then 1 else 0)" by (auto simp: word_eq_iff_unat split: if_splits)
  then show ?thesis by (simp add: constant_time_msb_w_def)
qed

lemma msb_minus:
  assumes "bit a 63 = bit (b :: u64) 63"
  shows "bit (a - b) 63 \<longleftrightarrow> a < b"
proof (cases "a < b")
  case True
  then have "unat (a - b) = 2 ^ 64 + unat a - unat b"
    using unat_bound [of a] unat_bound [of b] by (simp add: word_less_nat_alt unat_sub_if_size word_size)
  then show ?thesis using True assms unat_bound [of a] unat_bound [of b] by (auto simp: bit_63 word_less_nat_alt)
next
  case False
  then have "unat (a - b) = unat a - unat b" by (simp add: word_less_nat_alt unat_sub_if_size)
  then show ?thesis using False assms unat_bound [of a] unat_bound [of b] by (auto simp: bit_63 word_less_nat_alt)
qed

lemma lt_w_mask: "constant_time_lt_w a b = (if a < b then - 1 else 0)"
proof (cases "bit a 63 = bit b 63")
  case True
  then show ?thesis using msb_minus [OF True] by (auto simp: constant_time_lt_w_def msb_mask bit_simps)
next
  case False
  then have "a < b \<longleftrightarrow> bit b 63" by (auto simp: bit_63 word_less_nat_alt)
  with False show ?thesis by (auto simp: constant_time_lt_w_def msb_mask bit_simps)
qed

lemma is_zero_w_mask: "constant_time_is_zero_w a = (if a = 0 then - 1 else 0)"
proof (cases "a = 0")
  case False
  then have "unat (a - 1) = unat a - 1" using unat_bound [of a] by (simp add: unat_minus_one)
  then have "\<not> (\<not> bit a 63 \<and> bit (a - 1) 63)" by (auto simp: bit_63)
  with False show ?thesis by (auto simp: constant_time_is_zero_w_def msb_mask bit_simps)
qed (simp add: constant_time_is_zero_w_def msb_mask)

lemma xor_eq_0: "(a :: u64) XOR b = 0 \<longleftrightarrow> a = b"
proof
  assume "a XOR b = 0"
  then have "(a XOR b) XOR b = 0 XOR b" by (rule arg_cong)
  then show "a = b" by (simp add: xor.assoc)
qed simp

lemma eq_w_mask: "constant_time_eq_w a b = (if a = b then - 1 else 0)"
  by (simp add: constant_time_eq_w_def is_zero_w_mask xor_eq_0)

lemma select_w_mask: "constant_time_select_w (if c then - 1 else 0) a b = (if c then a else b)"
  by (simp add: constant_time_select_w_def value_barrier_w_def)

lemma ucast_mask [simp]: "(ucast (- 1 :: u64) :: byte) = - 1"
  by (simp add: word_eq_iff_unat unat_ucast_down unsigned_minus_1_eq_mask mask_eq_exp_minus_1)

lemma eq_8_mask: "constant_time_eq_8 a b = (if a = b then - 1 else 0)"
  by (simp add: constant_time_eq_8_def eq_w_mask)

text \<open>A mask that has been cast to a byte on the way is extended with zeros, which the cast in the selection
  removes.\<close>

lemma ucast_mask_8: "(ucast (ucast (- 1 :: byte) :: u64) :: byte) = - 1"
  by (simp add: word_eq_iff_unat unat_ucast_down unsigned_minus_1_eq_mask mask_eq_exp_minus_1)

lemma select_8_mask:
  "constant_time_select_8 (if c then - 1 else 0) a b = (if c then a else b)"
  "constant_time_select_8 (ucast (if c then - 1 else 0 :: byte)) a b = (if c then a else b)"
  by (simp_all add: constant_time_select_8_def value_barrier_w_def ucast_mask_8)

section \<open>Properties\<close>

text \<open>(C37) The branch-free helpers compute the comparisons they are named after, as masks of all ones or all zeros
  in both widths, for all 64-bit words, and selecting with such a mask returns one of the two arguments.\<close>

theorem constant_time_masks:
  "constant_time_lt_w a b = (if a < b then - 1 else 0) \<and> constant_time_lt_8 a b = (if a < b then - 1 else 0) \<and>
   constant_time_ge_w a b = (if b \<le> a then - 1 else 0) \<and> constant_time_ge_8 a b = (if b \<le> a then - 1 else 0) \<and>
   constant_time_is_zero_w a = (if a = 0 then - 1 else 0) \<and> constant_time_is_zero_8 a = (if a = 0 then - 1 else 0) \<and>
   constant_time_eq_w a b = (if a = b then - 1 else 0) \<and> constant_time_eq_8 a b = (if a = b then - 1 else 0) \<and>
   constant_time_select_w (constant_time_lt_w a b) x y = (if a < b then x else y) \<and>
   constant_time_select_8 (constant_time_eq_w a b) u v = (if a = b then u else v)"
  by (auto simp: lt_w_mask eq_w_mask eq_8_mask is_zero_w_mask select_w_mask select_8_mask constant_time_lt_8_def
      constant_time_ge_w_def constant_time_ge_8_def constant_time_is_zero_8_def not_less)

end
