(* ===== verification/Base64.thy ===== *)
theory Base64
  imports Const_Time
begin

text \<open>
  BoringSSL's \<^verbatim>\<open>crypto/base64/base64.c\<close>: block and streaming encoding and decoding.

  A call that writes to \<^verbatim>\<open>out\<close> returns the bytes it wrote, without the terminating zero that comes after them, and
  the number it reports in \<^verbatim>\<open>*out_len\<close> or as its result.
\<close>

section \<open>The code\<close>

definition constant_time_lt_args_8 :: "byte \<Rightarrow> byte \<Rightarrow> byte" where
  "constant_time_lt_args_8 a b = (let aw = ucast a; bw = ucast b in ucast (constant_time_msb_w (aw - bw)))"

definition constant_time_in_range_8 :: "byte \<Rightarrow> byte \<Rightarrow> byte \<Rightarrow> byte" where
  "constant_time_in_range_8 a lo hi = (let a = a - lo in constant_time_lt_args_8 a (hi - lo + 1))"

definition conv_bin2ascii :: "byte \<Rightarrow> byte" where
  "conv_bin2ascii a0 =
     (let a = a0 AND 0x3f;
          ret = constant_time_select_8 (ucast (constant_time_eq_8 (ucast a) 62)) 0x2b 0x2f;
          ret = constant_time_select_8 (ucast (constant_time_lt_args_8 a 62)) (a - 52 + 0x30) ret;
          ret = constant_time_select_8 (ucast (constant_time_lt_args_8 a 52)) (a - 26 + 0x61) ret;
          ret = constant_time_select_8 (ucast (constant_time_lt_args_8 a 26)) (a + 0x41) ret
      in ret)"

definition EVP_EncodedLength :: "nat \<Rightarrow> nat option" where
  "EVP_EncodedLength len =
     (if size_add len 2 < len then None
      else
        (let len = size_add len 2 div 3
         in if (len * 4) mod size_max div 4 \<noteq> len then None
            else
              (let len = (len * 4) mod size_max
               in if size_add len 1 < len then None else Some (size_add len 1))))"

record evp_encode_ctx =
  data_used :: nat
  data :: "byte list"
  eof_seen :: bool
  error_encountered :: bool

definition ctx_data_size :: nat where
  "ctx_data_size = 48"

definition EVP_EncodeInit :: evp_encode_ctx where
  "EVP_EncodeInit = \<lparr>data_used = 0, data = replicate ctx_data_size 0, eof_seen = False, error_encountered = False\<rparr>"

definition EVP_DecodeInit :: evp_encode_ctx where
  "EVP_DecodeInit = \<lparr>data_used = 0, data = replicate ctx_data_size 0, eof_seen = False, error_encountered = False\<rparr>"

definition sextet :: "u32 \<Rightarrow> nat \<Rightarrow> byte" where
  "sextet l n = conv_bin2ascii (ucast (drop_bit n l))"

fun EVP_EncodeBlock :: "byte list \<Rightarrow> byte list" where
  "EVP_EncodeBlock (a # b # c # src) =
     (let l = (push_bit 16 (ucast a) OR push_bit 8 (ucast b)) OR ucast c
      in [sextet l 18, sextet l 12, sextet l 6, sextet l 0] @ EVP_EncodeBlock src)"
| "EVP_EncodeBlock [a, b] =
     (let l = push_bit 16 (ucast a) OR push_bit 8 (ucast b) in [sextet l 18, sextet l 12, sextet l 6, 0x3d])"
| "EVP_EncodeBlock [a] = (let l = push_bit 16 (ucast a) in [sextet l 18, sextet l 12, 0x3d, 0x3d])"
| "EVP_EncodeBlock [] = []"

text \<open>The loop of \<open>EVP_EncodeUpdate\<close> over whole lines: the rest of the input, the output so far and \<^verbatim>\<open>total\<close>, or
  \<open>None\<close> in its place when \<^verbatim>\<open>total\<close> overflows.\<close>

function encode_lines :: "byte list \<Rightarrow> byte list \<Rightarrow> nat \<Rightarrow> byte list \<times> byte list \<times> nat option" where
  "encode_lines inp out total_len =
     (if length inp \<ge> ctx_data_size then
        (let encoded = EVP_EncodeBlock (take ctx_data_size inp);
             inp' = drop ctx_data_size inp;
             out' = out @ encoded @ [0x0a];
             total_len' = size_add (size_add total_len (length encoded)) 1
         in if total_len' < total_len then (inp', out', None) else encode_lines inp' out' total_len')
      else (inp, out, Some total_len))"
  by pat_completeness auto
termination
  by (relation "measure (\<lambda>(inp, out, total_len). length inp)") (auto simp: ctx_data_size_def)

declare encode_lines.simps [simp del]

definition INT_MAX :: nat where
  "INT_MAX = 2 ^ 31 - 1"

definition put :: "byte list \<Rightarrow> nat \<Rightarrow> byte list \<Rightarrow> byte list" where
  "put xs i bs = take i xs @ bs @ drop (i + length bs) xs"

definition EVP_EncodeUpdate :: "evp_encode_ctx \<Rightarrow> byte list \<Rightarrow> evp_encode_ctx \<times> byte list \<times> nat" where
  "EVP_EncodeUpdate ctx inp =
     (if length inp = 0 then (ctx, [], 0)
      else if ctx_data_size - data_used ctx > length inp then
        (ctx\<lparr>data := put (data ctx) (data_used ctx) inp, data_used := data_used ctx + length inp\<rparr>, [], 0)
      else
        (let (ctx, inp, out, total_len) =
           (if data_used ctx \<noteq> 0 then
              (let todo = ctx_data_size - data_used ctx;
                   buffer = put (data ctx) (data_used ctx) (take todo inp);
                   encoded = EVP_EncodeBlock buffer
               in (ctx\<lparr>data := buffer, data_used := 0\<rparr>, drop todo inp, encoded @ [0x0a], length encoded + 1))
            else (ctx, inp, [], 0))
         in case encode_lines inp out total_len of
              (inp, out, None) \<Rightarrow> (ctx, out, 0)
            | (inp, out, Some total_len) \<Rightarrow>
                (ctx\<lparr>data := put (data ctx) 0 inp, data_used := length inp\<rparr>, out,
                 if total_len > INT_MAX then 0 else total_len)))"

definition EVP_EncodeFinal :: "evp_encode_ctx \<Rightarrow> evp_encode_ctx \<times> byte list \<times> nat" where
  "EVP_EncodeFinal ctx =
     (if data_used ctx = 0 then (ctx, [], 0)
      else
        (let encoded = EVP_EncodeBlock (take (data_used ctx) (data ctx)) @ [0x0a]
         in (ctx\<lparr>data_used := 0\<rparr>, encoded, length encoded)))"

definition EVP_DecodedLength :: "nat \<Rightarrow> nat option" where
  "EVP_DecodedLength len = (if len mod 4 \<noteq> 0 then None else Some (len div 4 * 3))"

definition base64_ascii_to_bin :: "byte \<Rightarrow> byte" where
  "base64_ascii_to_bin a =
     (let is_upper = constant_time_in_range_8 a 0x41 0x5a;
          is_lower = constant_time_in_range_8 a 0x61 0x7a;
          is_digit = constant_time_in_range_8 a 0x30 0x39;
          is_plus = constant_time_eq_8 (ucast a) 0x2b;
          is_slash = constant_time_eq_8 (ucast a) 0x2f;
          is_equals = constant_time_eq_8 (ucast a) 0x3d;
          ret = is_upper AND (a - 0x41);
          ret = ret OR (is_lower AND (a - 0x61 + 26));
          ret = ret OR (is_digit AND (a - 0x30 + 52));
          ret = ret OR (is_plus AND 62);
          ret = ret OR (is_slash AND 63);
          is_valid = is_upper OR is_lower OR is_digit OR is_plus OR is_slash OR is_equals
      in ret OR NOT is_valid)"

text \<open>The bytes of a quad; their number is \<^verbatim>\<open>*out_num_bytes\<close>.\<close>

definition base64_decode_quad :: "byte \<Rightarrow> byte \<Rightarrow> byte \<Rightarrow> byte \<Rightarrow> byte list option" where
  "base64_decode_quad in0 in1 in2 in3 =
     (let a = base64_ascii_to_bin in0; b = base64_ascii_to_bin in1;
          c = base64_ascii_to_bin in2; d = base64_ascii_to_bin in3
      in if a = 0xff \<or> b = 0xff \<or> c = 0xff \<or> d = 0xff then None
         else
           (let v = ((push_bit 18 (ucast a) OR push_bit 12 (ucast b)) OR push_bit 6 (ucast c)) OR (ucast d :: u32);
                padding_pattern = 8 * of_bool (in0 = 0x3d) + 4 * of_bool (in1 = 0x3d) +
                  2 * of_bool (in2 = 0x3d) + (of_bool (in3 = 0x3d) :: nat)
            in if padding_pattern = 0 then
                 Some [ucast (drop_bit 16 v), ucast (drop_bit 8 v), ucast v]
               else if padding_pattern = 1 then Some [ucast (drop_bit 16 v), ucast (drop_bit 8 v)]
               else if padding_pattern = 3 then Some [ucast (drop_bit 16 v)]
               else None))"

text \<open>The loop of \<open>EVP_DecodeUpdate\<close>: the context, the bytes written so far, and whether it reached the end of the
  input.\<close>

fun decode_loop :: "evp_encode_ctx \<Rightarrow> byte list \<Rightarrow> byte list \<Rightarrow> evp_encode_ctx \<times> byte list \<times> bool" where
  "decode_loop ctx out [] = (ctx, out, True)"
| "decode_loop ctx out (c # inp) =
     (if c = 0x20 \<or> c = 0x09 \<or> c = 0x0d \<or> c = 0x0a then decode_loop ctx out inp
      else if eof_seen ctx then (ctx\<lparr>error_encountered := True\<rparr>, out, False)
      else
        (let ctx = ctx\<lparr>data := (data ctx)[data_used ctx := c], data_used := data_used ctx + 1\<rparr>
         in if data_used ctx = 4 then
              (case base64_decode_quad (data ctx ! 0) (data ctx ! 1) (data ctx ! 2) (data ctx ! 3) of
                 None \<Rightarrow> (ctx\<lparr>error_encountered := True\<rparr>, out, False)
               | Some bs \<Rightarrow>
                   decode_loop (ctx\<lparr>data_used := 0, eof_seen := (if length bs < 3 then True else eof_seen ctx)\<rparr>)
                     (out @ bs) inp)
            else decode_loop ctx out inp))"

text \<open>The result is the context, the bytes written, \<^verbatim>\<open>*out_len\<close> and the value returned.\<close>

definition EVP_DecodeUpdate :: "evp_encode_ctx \<Rightarrow> byte list \<Rightarrow> evp_encode_ctx \<times> byte list \<times> nat \<times> int" where
  "EVP_DecodeUpdate ctx inp =
     (if error_encountered ctx then (ctx, [], 0, - 1)
      else
        (case decode_loop ctx [] inp of
           (ctx, out, False) \<Rightarrow> (ctx, out, 0, - 1)
         | (ctx, out, True) \<Rightarrow>
             if length out > INT_MAX then (ctx\<lparr>error_encountered := True\<rparr>, out, 0, - 1)
             else (ctx, out, length out, if eof_seen ctx then 0 else 1)))"

definition EVP_DecodeFinal :: "evp_encode_ctx \<Rightarrow> int" where
  "EVP_DecodeFinal ctx = (if error_encountered ctx \<or> data_used ctx \<noteq> 0 then - 1 else 1)"

fun decode_quads :: "byte list \<Rightarrow> byte list option" where
  "decode_quads (a # b # c # d # inp) =
     (case base64_decode_quad a b c d of
        None \<Rightarrow> None
      | Some bs \<Rightarrow>
          if length bs \<noteq> 3 \<and> inp \<noteq> [] then None
          else map_option (\<lambda>out. bs @ out) (decode_quads inp))"
| "decode_quads _ = Some []"

definition EVP_DecodeBase64 :: "nat \<Rightarrow> byte list \<Rightarrow> byte list option" where
  "EVP_DecodeBase64 max_out inp =
     (if length inp mod 4 \<noteq> 0 then None
      else
        (case EVP_DecodedLength (length inp) of
           None \<Rightarrow> None
         | Some max_len \<Rightarrow> if max_out < max_len then None else decode_quads inp))"

definition is_blank :: "byte \<Rightarrow> bool" where
  "is_blank c \<longleftrightarrow> c = 0x20 \<or> c = 0x09"

definition is_space :: "byte \<Rightarrow> bool" where
  "is_space c \<longleftrightarrow> c = 0x20 \<or> c = 0x09 \<or> c = 0x0d \<or> c = 0x0a"

text \<open>The two trimming loops, the decoding and the loop that pads the result with zeros.\<close>

definition EVP_DecodeBlock :: "byte list \<Rightarrow> byte list option" where
  "EVP_DecodeBlock src =
     (let src = rev (dropWhile is_space (rev (dropWhile is_blank src)))
      in case EVP_DecodedLength (length src) of
           None \<Rightarrow> None
         | Some dst_len \<Rightarrow>
             if dst_len > INT_MAX then None
             else
               (case EVP_DecodeBase64 dst_len src of
                  None \<Rightarrow> None
                | Some dst \<Rightarrow> Some (dst @ replicate ((3 - length dst mod 3) mod 3) 0)))"

section \<open>Characters\<close>

lemma bytes_msb: "\<not> bit (ucast (a :: byte) :: u64) 63"
  by (auto simp: bit_63 unat_ucast_up) (use unat_bound [of a] in \<open>simp add: unat_ucast_up\<close>)

lemma lt_args_8_mask: "constant_time_lt_args_8 a b = (if a < b then - 1 else 0)"
  using msb_minus [of "ucast a" "ucast b"] bytes_msb [of a] bytes_msb [of b]
  by (auto simp: constant_time_lt_args_8_def Let_def msb_mask word_less_nat_alt unat_ucast_up)

text \<open>The character of a six-bit number.\<close>

definition b64char :: "nat \<Rightarrow> byte" where
  "b64char n = conv_bin2ascii (word_of_nat n)"

lemma in_range_mask:
  assumes "lo \<le> hi" "unat (hi - lo) < 255"
  shows "constant_time_in_range_8 a lo hi = (if lo \<le> a \<and> a \<le> hi then - 1 else 0)"
proof -
  have w: "unat (hi - lo) = unat hi - unat lo" using assms(1) by (simp add: unat_sub word_le_nat_alt)
  have s: "unat (hi - lo + 1) = unat hi - unat lo + 1" using assms(2) w by (simp add: unat_word_ariths)
  have "a - lo < hi - lo + 1 \<longleftrightarrow> lo \<le> a \<and> a \<le> hi"
  proof (cases "lo \<le> a")
    case True
    then have "unat (a - lo) = unat a - unat lo" by (simp add: unat_sub word_le_nat_alt)
    with True assms(1) s show ?thesis by (auto simp: word_less_nat_alt word_le_nat_alt)
  next
    case False
    then have "unat (a - lo) = 256 + unat a - unat lo"
      using unat_bound [of lo] by (simp add: unat_sub_if_size word_size word_le_nat_alt)
    with False assms(1) s unat_bound [of hi] show ?thesis by (auto simp: word_less_nat_alt word_le_nat_alt)
  qed
  then show ?thesis by (simp add: constant_time_in_range_8_def lt_args_8_mask)
qed

lemma eq_8_bytes: "constant_time_eq_8 (ucast (a :: byte)) (numeral k) = (if unat a = unat (numeral k :: u64) then - 1 else 0)"
  by (simp add: eq_8_mask word_eq_iff_unat unat_ucast_up)

lemma ascii_to_bin_eq:
  "base64_ascii_to_bin a =
     (if 65 \<le> unat a \<and> unat a \<le> 90 then a - 65
      else if 97 \<le> unat a \<and> unat a \<le> 122 then a - 97 + 26
      else if 48 \<le> unat a \<and> unat a \<le> 57 then a - 48 + 52
      else if unat a = 43 then 62 else if unat a = 47 then 63 else if unat a = 61 then 0 else - 1)"
  by (simp add: base64_ascii_to_bin_def Let_def in_range_mask eq_8_bytes word_le_nat_alt)

lemma b64char_eq:
  assumes "n < 64"
  shows "unat (b64char n) =
    (if n < 26 then n + 65 else if n < 52 then n + 71 else if n < 62 then n - 4 else if n = 62 then 43 else 47)"
proof -
  define a where "a = (word_of_nat n :: byte)"
  have a: "unat a = n" "a AND 0x3f = a"
    using assms unat_and_mask [of a 6] by (simp_all add: a_def unat_of_nat_small word_eq_iff_unat mask_eq_exp_minus_1)
  have "b64char n = (if n < 26 then a + 65 else if n < 52 then a - 26 + 97 else if n < 62 then a - 52 + 48
      else if n = 62 then 43 else 47)"
    unfolding b64char_def conv_bin2ascii_def a_def [symmetric] a(2) Let_def lt_args_8_mask select_8_mask eq_8_bytes
    using a(1) by (simp add: word_less_nat_alt)
  moreover have "unat (a + 65) = n + 65" using a(1) assms by (simp add: unat_word_ariths)
  moreover have "unat (a - 26 + 97) = n + 71" if "26 \<le> n"
    using a(1) assms that by (simp add: unat_word_ariths unat_sub word_le_nat_alt)
  moreover have "unat (a - 52 + 48) = n - 4" if "52 \<le> n"
    using a(1) assms that by (simp add: unat_word_ariths unat_sub word_le_nat_alt)
  ultimately show ?thesis by auto
qed

lemma b64char:
  assumes "n < 64"
  shows "base64_ascii_to_bin (b64char n) = word_of_nat n" "b64char n \<noteq> 0x3d" "\<not> is_space (b64char n)"
proof -
  have "unat (base64_ascii_to_bin (b64char n)) = n"
    using assms b64char_eq [OF assms] by (auto simp: ascii_to_bin_eq unat_word_ariths unat_sub word_le_nat_alt split: if_splits)
  then show "base64_ascii_to_bin (b64char n) = word_of_nat n" by (rule unat_eq_imp)
  show "b64char n \<noteq> 0x3d" "\<not> is_space (b64char n)"
    using assms b64char_eq [OF assms] by (auto simp: is_space_def word_eq_iff_unat split: if_splits)
qed

lemma b64_equals: "base64_ascii_to_bin 0x3d = 0" "\<not> is_space 0x3d"
  by (simp_all add: ascii_to_bin_eq is_space_def)

lemma sextet_eq: "sextet l n = b64char (unat l div 2 ^ n mod 64)"
proof -
  have m: "(0x3f :: byte) = mask 6" by (simp add: mask_eq_exp_minus_1)
  have "unat (ucast (drop_bit n l) AND 0x3f :: byte) = unat l div 2 ^ n mod 256 mod 64"
    unfolding m unat_and_mask by (simp add: unat_ucast_down unat_drop_bit)
  also have "\<dots> = unat l div 2 ^ n mod 64" by (rule mod_mod_cancel) simp
  finally have "ucast (drop_bit n l) AND 0x3f = (word_of_nat (unat l div 2 ^ n mod 64) :: byte)" by (rule unat_eq_imp)
  moreover have "(word_of_nat (unat l div 2 ^ n mod 64) :: byte) AND 0x3f = word_of_nat (unat l div 2 ^ n mod 64)"
    unfolding calculation [symmetric] by (simp add: and.assoc)
  ultimately show ?thesis by (simp add: sextet_def b64char_def conv_bin2ascii_def)
qed

section \<open>Quads\<close>

lemma unat_triple:
  "unat ((push_bit 16 (ucast (a :: byte)) OR push_bit 8 (ucast (b :: byte))) OR ucast (c :: byte) :: u32) =
   unat a * 65536 + unat b * 256 + unat c"
proof -
  have ab: "unat (ucast a :: u32) = unat a" "unat (ucast b :: u32) = unat b" "unat (ucast c :: u32) = unat c"
    by (simp_all add: unat_ucast_up)
  have lt: "unat a < 256" "unat b < 256" "unat c < 256" using unat_bound [of a] unat_bound [of b] unat_bound [of c] by simp_all
  have bc: "unat (push_bit 8 (ucast b) OR ucast c :: u32) = unat b * 256 + unat c"
    using unat_shift_or [of "ucast c :: u32" 8 "ucast b"] ab lt by simp
  show ?thesis
    using unat_shift_or [of "push_bit 8 (ucast b) OR ucast c :: u32" 16 "ucast a"] bc ab lt by (simp add: or.assoc)
qed

lemma unat_quad:
  assumes "a < 64" "b < 64" "c < 64" "d < 64"
  shows "unat (((push_bit 18 (ucast (word_of_nat a :: byte)) OR push_bit 12 (ucast (word_of_nat b :: byte))) OR
      push_bit 6 (ucast (word_of_nat c :: byte))) OR ucast (word_of_nat d :: byte) :: u32) =
    ((a * 64 + b) * 64 + c) * 64 + d"
proof -
  define aw bw cw dw where "aw = (ucast (word_of_nat a :: byte) :: u32)" and "bw = (ucast (word_of_nat b :: byte) :: u32)"
    and "cw = (ucast (word_of_nat c :: byte) :: u32)" and "dw = (ucast (word_of_nat d :: byte) :: u32)"
  have u: "unat aw = a" "unat bw = b" "unat cw = c" "unat dw = d"
    using assms by (simp_all add: aw_def bw_def cw_def dw_def unat_ucast_up unat_of_nat_small)
  have cd: "unat (push_bit 6 cw OR dw) = c * 64 + d" using unat_shift_or [of dw 6 cw] u assms by simp
  have bcd: "unat (push_bit 12 bw OR (push_bit 6 cw OR dw)) = b * 4096 + (c * 64 + d)"
    using unat_shift_or [of "push_bit 6 cw OR dw" 12 bw] u cd assms by simp
  have "unat (push_bit 18 aw OR (push_bit 12 bw OR (push_bit 6 cw OR dw))) = a * 262144 + (b * 4096 + (c * 64 + d))"
    using unat_shift_or [of "push_bit 12 bw OR (push_bit 6 cw OR dw)" 18 aw] u bcd assms by simp
  then show ?thesis unfolding aw_def bw_def cw_def dw_def by (simp add: or.assoc algebra_simps)
qed

lemma sextets_join:
  fixes l :: nat
  assumes "l < 2 ^ 24"
  shows "((l div 2 ^ 18 mod 64 * 64 + l div 2 ^ 12 mod 64) * 64 + l div 2 ^ 6 mod 64) * 64 + l div 2 ^ 0 mod 64 = l"
proof -
  have a: "l div 2 ^ 12 = l div 64 div 64" "l div 2 ^ 18 = l div 64 div 64 div 64" by (simp_all add: div_mult2_eq [symmetric])
  have "l div 64 div 64 div 64 < 64" using assms by (simp add: div_mult2_eq [symmetric] div_less_iff_less_mult)
  then show ?thesis unfolding a by (simp add: div_mult_mod_eq)
qed

text \<open>The bytes of a 24-bit number.\<close>

definition three :: "nat \<Rightarrow> byte list" where
  "three v = [word_of_nat (v div 65536), word_of_nat (v div 256), word_of_nat v]"

lemma ucast_drop: "(ucast (drop_bit k (v :: u32)) :: byte) = word_of_nat (unat v div 2 ^ k)"
  by (simp add: word_eq_iff_unat unat_ucast_down unat_drop_bit unat_of_nat)

lemma quad_not_ff: "n < 64 \<Longrightarrow> (word_of_nat n :: byte) \<noteq> 0xff"
  by (simp add: word_eq_iff_unat unat_of_nat_small)

lemma decode_quad_value:
  assumes "base64_ascii_to_bin i0 = word_of_nat a" "base64_ascii_to_bin i1 = word_of_nat b"
    "base64_ascii_to_bin i2 = word_of_nat c" "base64_ascii_to_bin i3 = word_of_nat d"
    and lt: "a < 64" "b < 64" "c < 64" "d < 64" and no: "i0 \<noteq> 0x3d" "i1 \<noteq> 0x3d"
  shows "base64_decode_quad i0 i1 i2 i3 =
    (let vs = three (((a * 64 + b) * 64 + c) * 64 + d)
     in if i2 \<noteq> 0x3d \<and> i3 \<noteq> 0x3d then Some vs
        else if i2 \<noteq> 0x3d then Some (take 2 vs) else if i3 = 0x3d then Some (take 1 vs) else None)"
proof -
  define v where "v = (((push_bit 18 (ucast (word_of_nat a :: byte)) OR push_bit 12 (ucast (word_of_nat b :: byte))) OR
      push_bit 6 (ucast (word_of_nat c :: byte))) OR ucast (word_of_nat d :: byte) :: u32)"
  have u: "unat v = ((a * 64 + b) * 64 + c) * 64 + d" unfolding v_def by (rule unat_quad [OF lt])
  have low: "(ucast v :: byte) = word_of_nat (unat v)" using ucast_drop [of 0 v] by simp
  have "three (unat v) = [ucast (drop_bit 16 v), ucast (drop_bit 8 v), ucast v]" unfolding three_def ucast_drop low by simp
  then have t: "three (unat v) = [ucast (drop_bit 16 v), ucast (drop_bit 8 v), ucast v]"
    "take 2 (three (unat v)) = [ucast (drop_bit 16 v), ucast (drop_bit 8 v)]"
    "take 1 (three (unat v)) = [ucast (drop_bit 16 v)]" by (simp_all add: numeral_2_eq_2)
  have ff: "\<not> ((word_of_nat a :: byte) = 0xff \<or> (word_of_nat b :: byte) = 0xff \<or> (word_of_nat c :: byte) = 0xff \<or>
      (word_of_nat d :: byte) = 0xff)" using lt by (simp only: quad_not_ff) simp
  show ?thesis
    unfolding base64_decode_quad_def Let_def assms(1-4) v_def [symmetric] u [symmetric] t if_not_P [OF ff]
    by (cases "i2 = 0x3d"; cases "i3 = 0x3d") (simp_all only: no of_bool_eq if_True if_False simp_thms, simp_all)
qed

lemma three_bytes:
  "three (unat a * 65536 + unat b * 256 + unat c) = [a, b, c]"
proof -
  have lt: "unat b < 256" "unat c < 256" using unat_bound [of b] unat_bound [of c] by simp_all
  have d: "(unat a * 65536 + unat b * 256 + unat c) div 65536 = unat a" using lt by (intro div_nat_eqI) simp_all
  have e: "(unat a * 65536 + unat b * 256 + unat c) div 256 = unat a * 256 + unat b" using lt by (intro div_nat_eqI) simp_all
  have m: "(word_of_nat (k * 256 + unat x) :: byte) = x" for k and x :: byte
  proof -
    have "unat (word_of_nat n :: byte) = n mod 256" for n by (simp add: unat_of_nat)
    then have "unat (word_of_nat (k * 256 + unat x) :: byte) = unat x" using unat_bound [of x] by (simp only:) simp
    then show ?thesis by (simp only: word_eq_iff_unat)
  qed
  show ?thesis
    unfolding three_def d e using m [of "unat a" b] m [of "unat a * 256 + unat b" c] by (simp add: algebra_simps)
qed

lemma encoded_quad:
  assumes "unat l < 2 ^ 24"
  shows "base64_decode_quad (sextet l 18) (sextet l 12) (sextet l 6) (sextet l 0) = Some (three (unat l))"
    and "unat l mod 64 = 0 \<Longrightarrow> base64_decode_quad (sextet l 18) (sextet l 12) (sextet l 6) 0x3d = Some (take 2 (three (unat l)))"
    and "unat l mod 4096 = 0 \<Longrightarrow> base64_decode_quad (sextet l 18) (sextet l 12) 0x3d 0x3d = Some (take 1 (three (unat l)))"
proof -
  define a b c d where "a = unat l div 2 ^ 18 mod 64" and "b = unat l div 2 ^ 12 mod 64" and "c = unat l div 2 ^ 6 mod 64"
    and "d = unat l div 2 ^ 0 mod 64"
  have lt: "a < 64" "b < 64" "c < 64" "d < 64" by (simp_all add: a_def b_def c_def d_def)
  have j: "((a * 64 + b) * 64 + c) * 64 + d = unat l" unfolding a_def b_def c_def d_def by (rule sextets_join [OF assms])
  have z: "base64_ascii_to_bin 0x3d = word_of_nat 0" by (simp add: b64_equals)
  note ch = b64char(1) [OF lt(1)] b64char(1) [OF lt(2)]
  have sx: "sextet l 18 = b64char a" "sextet l 12 = b64char b" "sextet l 6 = b64char c" "sextet l 0 = b64char d"
    unfolding sextet_eq a_def b_def c_def d_def by simp_all
  have no: "b64char a \<noteq> 0x3d" "b64char b \<noteq> 0x3d" "b64char c \<noteq> 0x3d" "b64char d \<noteq> 0x3d" using b64char(2) lt by simp_all
  show "base64_decode_quad (sextet l 18) (sextet l 12) (sextet l 6) (sextet l 0) = Some (three (unat l))"
    unfolding sx decode_quad_value [OF ch b64char(1) [OF lt(3)] b64char(1) [OF lt(4)] lt no(1,2)] j using no by simp
  show "base64_decode_quad (sextet l 18) (sextet l 12) (sextet l 6) 0x3d = Some (take 2 (three (unat l)))" if "unat l mod 64 = 0"
  proof -
    have "d = 0" using that by (simp add: d_def)
    then show ?thesis
      unfolding sx decode_quad_value [OF ch b64char(1) [OF lt(3)] z lt(1-3) _ no(1,2), simplified] using no j by simp
  qed
  show "base64_decode_quad (sextet l 18) (sextet l 12) 0x3d 0x3d = Some (take 1 (three (unat l)))" if "unat l mod 4096 = 0"
  proof -
    have "unat l mod 64 = 0" "unat l div 64 mod 64 = 0" using that mod_mult2_eq [of "unat l" 64 64] by simp_all
    then have "d = 0" "c = 0" by (simp_all add: d_def c_def)
    then show ?thesis
      unfolding sx decode_quad_value [OF ch z z lt(1,2) _ _ no(1,2), simplified] using no j by simp
  qed
qed

section \<open>Blocks\<close>

lemma quad_3:
  fixes a b c :: byte
  defines "l \<equiv> (push_bit 16 (ucast a) OR push_bit 8 (ucast b)) OR ucast c :: u32"
  shows "base64_decode_quad (sextet l 18) (sextet l 12) (sextet l 6) (sextet l 0) = Some [a, b, c]"
proof -
  have u: "unat l = unat a * 65536 + unat b * 256 + unat c" unfolding l_def by (rule unat_triple)
  have "unat l < 2 ^ 24" using u unat_bound [of a] unat_bound [of b] unat_bound [of c] by simp
  from encoded_quad(1) [OF this] show ?thesis unfolding u three_bytes .
qed

lemma quad_2:
  fixes a b :: byte
  defines "l \<equiv> push_bit 16 (ucast a) OR push_bit 8 (ucast b) :: u32"
  shows "base64_decode_quad (sextet l 18) (sextet l 12) (sextet l 6) 0x3d = Some [a, b]"
proof -
  have u: "unat l = unat a * 65536 + unat b * 256 + unat (0 :: byte)" unfolding l_def using unat_triple [of a b 0] by simp
  have "unat l < 2 ^ 24" "unat l mod 64 = 0" using u unat_bound [of a] unat_bound [of b] by (simp_all add: mod_eq_0_iff_dvd)
  from encoded_quad(2) [OF this] show ?thesis unfolding u three_bytes by (simp add: numeral_2_eq_2)
qed

lemma quad_1:
  fixes a :: byte
  defines "l \<equiv> push_bit 16 (ucast a) :: u32"
  shows "base64_decode_quad (sextet l 18) (sextet l 12) 0x3d 0x3d = Some [a]"
proof -
  have u: "unat l = unat a * 65536 + unat (0 :: byte) * 256 + unat (0 :: byte)" unfolding l_def using unat_triple [of a 0 0] by simp
  have "unat l < 2 ^ 24" "unat l mod 4096 = 0" using u unat_bound [of a] by (simp_all add: mod_eq_0_iff_dvd)
  from encoded_quad(3) [OF this] show ?thesis unfolding u three_bytes by simp
qed

lemma encode_decode_quads: "decode_quads (EVP_EncodeBlock xs) = Some xs"
  by (induction xs rule: EVP_EncodeBlock.induct) (simp_all add: Let_def quad_3 quad_2 quad_1)

lemma length_EncodeBlock: "length (EVP_EncodeBlock xs) = 4 * ((length xs + 2) div 3)"
proof (induction xs rule: EVP_EncodeBlock.induct)
  case (1 a b c src)
  have "(length (a # b # c # src) + 2) div 3 = Suc ((length src + 2) div 3)" by simp
  with 1 show ?case by (simp add: Let_def)
qed (simp_all add: Let_def)

section \<open>The streaming encoder\<close>

text \<open>The lines a sequence of bytes is broken into, and what is left over.\<close>

function lines_of :: "byte list \<Rightarrow> byte list" where
  "lines_of xs = (if length xs \<ge> ctx_data_size
     then EVP_EncodeBlock (take ctx_data_size xs) @ [0x0a] @ lines_of (drop ctx_data_size xs) else [])"
  by pat_completeness auto
termination
  by (relation "measure length") (auto simp: ctx_data_size_def)

function left_over :: "byte list \<Rightarrow> byte list" where
  "left_over xs = (if length xs \<ge> ctx_data_size then left_over (drop ctx_data_size xs) else xs)"
  by pat_completeness auto
termination
  by (relation "measure length") (auto simp: ctx_data_size_def)

declare lines_of.simps [simp del] left_over.simps [simp del]

definition pem_text :: "byte list \<Rightarrow> byte list" where
  "pem_text xs = lines_of xs @ (if left_over xs = [] then [] else EVP_EncodeBlock (left_over xs) @ [0x0a])"

lemma lines_step:
  assumes "length p = ctx_data_size"
  shows "lines_of (p @ xs) = EVP_EncodeBlock p @ [0x0a] @ lines_of xs" "left_over (p @ xs) = left_over xs"
  using assms by (simp_all add: lines_of.simps [of "p @ xs"] left_over.simps [of "p @ xs"])

lemma lines_short: "length xs < ctx_data_size \<Longrightarrow> lines_of xs = []" "length xs < ctx_data_size \<Longrightarrow> left_over xs = xs"
  by (simp_all add: lines_of.simps [of xs] left_over.simps [of xs])

lemma length_left_over: "length (left_over xs) < ctx_data_size"
  by (induction xs rule: left_over.induct) (subst left_over.simps, simp)

text \<open>Encoding in two steps: what is left over of the first part goes before the second.\<close>

lemma lines_append: "lines_of (xs @ ys) = lines_of xs @ lines_of (left_over xs @ ys)"
  and left_append: "left_over (xs @ ys) = left_over (left_over xs @ ys)"
proof (induction xs rule: left_over.induct)
  case (1 xs)
  have "lines_of (xs @ ys) = lines_of xs @ lines_of (left_over xs @ ys) \<and> left_over (xs @ ys) = left_over (left_over xs @ ys)"
  proof (cases "ctx_data_size \<le> length xs")
    case True
    define p q where "p = take ctx_data_size xs" and "q = drop ctx_data_size xs"
    have p: "xs = p @ q" "length p = ctx_data_size" using True by (simp_all add: p_def q_def)
    have "lines_of (q @ ys) = lines_of q @ lines_of (left_over q @ ys)" "left_over (q @ ys) = left_over (left_over q @ ys)"
      using 1 [OF True] by (simp_all add: q_def)
    then show ?thesis unfolding p(1) append.assoc lines_step [OF p(2)] by simp
  next
    case False
    then show ?thesis using lines_short [of xs] by simp
  qed
  then show "lines_of (xs @ ys) = lines_of xs @ lines_of (left_over xs @ ys)"
    "left_over (xs @ ys) = left_over (left_over xs @ ys)" by simp_all
qed

lemma length_lines: "48 * length (lines_of xs) \<le> 65 * length xs"
proof (induction xs rule: lines_of.induct)
  case (1 xs)
  show ?case
  proof (cases "ctx_data_size \<le> length xs")
    case True
    have "length (lines_of xs) = 65 + length (lines_of (drop ctx_data_size xs))"
      using True by (subst lines_of.simps) (simp add: length_EncodeBlock ctx_data_size_def)
    with 1 [OF True] True show ?thesis by (simp add: ctx_data_size_def)
  qed (simp add: lines_short)
qed

lemma encode_lines_eq:
  "t + length (lines_of inp) < size_max \<Longrightarrow>
   encode_lines inp out t = (left_over inp, out @ lines_of inp, Some (t + length (lines_of inp)))"
proof (induction inp out t rule: encode_lines.induct)
  case (1 inp out t)
  show ?case
  proof (cases "ctx_data_size \<le> length inp")
    case True
    define e where "e = EVP_EncodeBlock (take ctx_data_size inp)"
    have l: "lines_of inp = e @ [0x0a] @ lines_of (drop ctx_data_size inp)" "left_over inp = left_over (drop ctx_data_size inp)"
      using True by (simp_all add: lines_of.simps [of inp] left_over.simps [of inp] e_def)
    have t: "size_add (size_add t (length e)) 1 = t + length e + 1" using "1.prems" l by simp
    have "encode_lines inp out t = encode_lines (drop ctx_data_size inp) (out @ e @ [0x0a]) (t + length e + 1)"
      using True t by (subst encode_lines.simps) (simp add: e_def Let_def)
    also have "\<dots> = (left_over (drop ctx_data_size inp), (out @ e @ [0x0a]) @ lines_of (drop ctx_data_size inp),
        Some (t + length e + 1 + length (lines_of (drop ctx_data_size inp))))"
      using "1.IH" [OF True e_def refl refl refl] t "1.prems" l by simp
    finally show ?thesis using l by simp
  next
    case False
    then show ?thesis using lines_short [of inp] by (subst encode_lines.simps) simp
  qed
qed

definition ctx_ok :: "evp_encode_ctx \<Rightarrow> bool" where
  "ctx_ok ctx \<longleftrightarrow> length (data ctx) = ctx_data_size \<and> data_used ctx < ctx_data_size"

definition buffered :: "evp_encode_ctx \<Rightarrow> byte list" where
  "buffered ctx = take (data_used ctx) (data ctx)"

lemma length_put: "i + length bs \<le> length xs \<Longrightarrow> length (put xs i bs) = length xs"
  by (simp add: put_def)

lemma take_put: "i + length bs \<le> length xs \<Longrightarrow> take (i + length bs) (put xs i bs) = take i xs @ bs"
  by (simp add: put_def)

lemma EncodeUpdate_step:
  assumes ok: "ctx_ok ctx" and small: "length inp < 2 ^ 62"
  shows "case EVP_EncodeUpdate ctx inp of (ctx', out, n) \<Rightarrow>
    ctx_ok ctx' \<and> out = lines_of (buffered ctx @ inp) \<and> buffered ctx' = left_over (buffered ctx @ inp) \<and>
    n = (if length out > INT_MAX then 0 else length out)"
proof -
  define u where "u = data_used ctx"
  have u: "u < ctx_data_size" "length (data ctx) = ctx_data_size" "length (buffered ctx) = u" "buffered ctx = take u (data ctx)"
    using ok by (simp_all add: ctx_ok_def u_def buffered_def)
  consider (empty) "inp = []" | (short) "inp \<noteq> []" "u + length inp < ctx_data_size" | (long) "ctx_data_size \<le> u + length inp" "inp \<noteq> []"
    by linarith
  then show ?thesis
  proof cases
    case empty
    then show ?thesis using ok u lines_short [of "buffered ctx"] by (simp add: EVP_EncodeUpdate_def INT_MAX_def)
  next
    case short
    then have "ctx_data_size - u > length inp" by simp
    with short u lines_short [of "buffered ctx @ inp"] length_put [of u inp "data ctx"] take_put [of u inp "data ctx"]
    show ?thesis by (simp add: EVP_EncodeUpdate_def u_def [symmetric] ctx_ok_def buffered_def [of "ctx\<lparr>data := _, data_used := _\<rparr>"] INT_MAX_def)
  next
    case long
    define ctx1 inp1 out1 where "ctx1 = (if u \<noteq> 0 then ctx\<lparr>data := put (data ctx) u (take (ctx_data_size - u) inp), data_used := 0\<rparr> else ctx)"
      and "inp1 = (if u \<noteq> 0 then drop (ctx_data_size - u) inp else inp)"
      and "out1 = (if u \<noteq> 0 then EVP_EncodeBlock (buffered ctx @ take (ctx_data_size - u) inp) @ [0x0a] else [])"
    have put: "put (data ctx) u (take (ctx_data_size - u) inp) = buffered ctx @ take (ctx_data_size - u) inp"
      using long u by (simp add: put_def)
    have d1: "length (data ctx1) = ctx_data_size" using put long u by (simp add: ctx1_def)
    have split: "lines_of (buffered ctx @ inp) = out1 @ lines_of inp1" "left_over (buffered ctx @ inp) = left_over inp1"
    proof -
      have len: "length (buffered ctx @ take (ctx_data_size - u) inp) = ctx_data_size" using long u by simp
      have "buffered ctx @ inp = (buffered ctx @ take (ctx_data_size - u) inp) @ drop (ctx_data_size - u) inp" by simp
      then show "lines_of (buffered ctx @ inp) = out1 @ lines_of inp1" "left_over (buffered ctx @ inp) = left_over inp1"
        using lines_step [OF len, of "drop (ctx_data_size - u) inp"] u by (auto simp: out1_def inp1_def)
    qed
    have "length (lines_of inp1) < 2 ^ 63" using length_lines [of inp1] small by (simp add: inp1_def split: if_splits)
    moreover have "length out1 \<le> 65" using long u by (simp add: out1_def length_EncodeBlock ctx_data_size_def)
    ultimately have enc: "encode_lines inp1 out1 (length out1) = (left_over inp1, out1 @ lines_of inp1, Some (length out1 + length (lines_of inp1)))"
      by (intro encode_lines_eq) (simp add: size_max_def)
    have "EVP_EncodeUpdate ctx inp =
        (ctx1\<lparr>data := put (data ctx1) 0 (left_over inp1), data_used := length (left_over inp1)\<rparr>, out1 @ lines_of inp1,
         if length out1 + length (lines_of inp1) > INT_MAX then 0 else length out1 + length (lines_of inp1))"
      using long put enc le_diff_conv [of ctx_data_size u "length inp"] by (cases "u = 0")
        (simp_all add: EVP_EncodeUpdate_def u_def [symmetric] ctx1_def inp1_def out1_def Let_def not_less add.commute)
    then show ?thesis
      using split d1 length_left_over [of inp1] length_put [of 0 "left_over inp1" "data ctx1"] take_put [of 0 "left_over inp1" "data ctx1"]
      by (simp add: ctx_ok_def buffered_def [of "ctx1\<lparr>data := _, data_used := _\<rparr>"])
  qed
qed

text \<open>A whole run of the encoder: the bytes written by all calls, and the sum of the lengths reported.\<close>

fun encode_chunks :: "evp_encode_ctx \<Rightarrow> byte list list \<Rightarrow> byte list \<times> nat" where
  "encode_chunks ctx [] = (case EVP_EncodeFinal ctx of (_, out, n) \<Rightarrow> (out, n))"
| "encode_chunks ctx (c # cs) =
     (case EVP_EncodeUpdate ctx c of (ctx', out, n) \<Rightarrow>
        (case encode_chunks ctx' cs of (out', n') \<Rightarrow> (out @ out', n + n')))"

lemma pem_append: "pem_text (xs @ ys) = lines_of xs @ pem_text (left_over xs @ ys)"
  by (simp add: pem_text_def lines_append [of xs] left_append [of xs])

lemma encode_chunks_text:
  assumes "ctx_ok ctx" "\<forall>c \<in> set cs. length c < 2 ^ 30"
  shows "encode_chunks ctx cs = (pem_text (buffered ctx @ concat cs), length (pem_text (buffered ctx @ concat cs)))"
  using assms
proof (induction cs arbitrary: ctx)
  case Nil
  then have b: "length (buffered ctx) = data_used ctx" "length (buffered ctx) < ctx_data_size"
    by (simp_all add: ctx_ok_def buffered_def)
  then show ?case
    using lines_short [OF b(2)] by (auto simp: EVP_EncodeFinal_def pem_text_def buffered_def Let_def)
next
  case (Cons c cs)
  have small: "length c < 2 ^ 62" using Cons.prems(2) by (auto intro: less_trans)
  obtain ctx' out n where r: "EVP_EncodeUpdate ctx c = (ctx', out, n)" using prod_cases3 by blast
  have s: "ctx_ok ctx'" "out = lines_of (buffered ctx @ c)" "buffered ctx' = left_over (buffered ctx @ c)"
      "n = (if length out > INT_MAX then 0 else length out)"
    using EncodeUpdate_step [OF Cons.prems(1) small] r by simp_all
  have "length (buffered ctx) < ctx_data_size" using Cons.prems(1) by (simp add: ctx_ok_def buffered_def)
  then have "length (buffered ctx @ c) < 48 + 2 ^ 30" using Cons.prems(2) by (simp add: ctx_data_size_def)
  then have "length out \<le> INT_MAX" using length_lines [of "buffered ctx @ c"] by (simp add: s(2) INT_MAX_def)
  then show ?case using Cons.IH [OF s(1)] Cons.prems(2) r s pem_append [of "buffered ctx @ c" "concat cs"] by simp
qed

section \<open>The streaming decoder\<close>

lemma decode_loop_append:
  "decode_loop ctx out (xs @ ys) =
     (case decode_loop ctx out xs of (ctx', out', False) \<Rightarrow> (ctx', out', False) | (ctx', out', True) \<Rightarrow> decode_loop ctx' out' ys)"
  by (induction ctx out xs rule: decode_loop.induct) (auto simp: Let_def split: option.splits)

definition dec_ok :: "evp_encode_ctx \<Rightarrow> bool" where
  "dec_ok ctx \<longleftrightarrow> length (data ctx) = ctx_data_size \<and> data_used ctx = 0 \<and> \<not> eof_seen ctx \<and> \<not> error_encountered ctx"

lemma decode_quad_step:
  assumes "dec_ok ctx" "\<not> is_space a" "\<not> is_space b" "\<not> is_space c" "\<not> is_space d" "base64_decode_quad a b c d = Some bs"
  shows "\<exists>ctx'. decode_loop ctx out ([a, b, c, d] @ rest) = decode_loop ctx' (out @ bs) rest \<and>
    length (data ctx') = ctx_data_size \<and> data_used ctx' = 0 \<and> eof_seen ctx' = (length bs < 3) \<and> \<not> error_encountered ctx'"
proof -
  obtain x0 x1 x2 x3 xs where x: "data ctx = x0 # x1 # x2 # x3 # xs"
    using assms(1) by (auto simp: dec_ok_def ctx_data_size_def length_Suc_conv numeral_eq_Suc)
  have "decode_loop ctx out ([a, b, c, d] @ rest) =
      decode_loop (ctx\<lparr>data := a # b # c # d # xs, data_used := 0, eof_seen := length bs < 3\<rparr>) (out @ bs) rest"
    using assms x by (simp add: dec_ok_def is_space_def Let_def)
  moreover have "length (data ctx) = length (a # b # c # d # xs)" using x by simp
  ultimately show ?thesis
    using assms(1) by (intro exI [of _ "ctx\<lparr>data := a # b # c # d # xs, data_used := 0, eof_seen := length bs < 3\<rparr>"])
      (simp add: dec_ok_def)
qed

lemma sextet_no_space: "\<not> is_space (sextet l n)"
  by (simp add: sextet_eq b64char)

lemma decode_block:
  "dec_ok ctx \<Longrightarrow> \<exists>ctx'. decode_loop ctx out (EVP_EncodeBlock xs @ rest) = decode_loop ctx' (out @ xs) rest \<and>
     length (data ctx') = ctx_data_size \<and> data_used ctx' = 0 \<and> eof_seen ctx' = (length xs mod 3 \<noteq> 0) \<and> \<not> error_encountered ctx'"
proof (induction xs arbitrary: ctx out rule: EVP_EncodeBlock.induct)
  case (1 a b c src)
  define l where "l = ((push_bit 16 (ucast a) OR push_bit 8 (ucast b)) OR ucast c :: u32)"
  have t: "EVP_EncodeBlock (a # b # c # src) @ rest =
      [sextet l 18, sextet l 12, sextet l 6, sextet l 0] @ (EVP_EncodeBlock src @ rest)" by (simp add: Let_def l_def)
  obtain ctx1 where c1: "decode_loop ctx out (EVP_EncodeBlock (a # b # c # src) @ rest) =
      decode_loop ctx1 (out @ [a, b, c]) (EVP_EncodeBlock src @ rest)" "dec_ok ctx1"
    using decode_quad_step [OF "1.prems" sextet_no_space sextet_no_space sextet_no_space sextet_no_space
        quad_3 [of a b c, folded l_def], of out "EVP_EncodeBlock src @ rest"]
    unfolding t dec_ok_def by auto
  moreover have "length (a # b # c # src) mod 3 = length src mod 3" by simp
  ultimately show ?case using "1.IH" [OF l_def c1(2), of "out @ [a, b, c]"] by simp
next
  case (2 a b)
  define l where "l = (push_bit 16 (ucast a) OR push_bit 8 (ucast b) :: u32)"
  have t: "EVP_EncodeBlock [a, b] @ rest = [sextet l 18, sextet l 12, sextet l 6, 0x3d] @ rest" by (simp add: Let_def l_def)
  show ?case
    using decode_quad_step [OF "2.prems" sextet_no_space sextet_no_space sextet_no_space b64_equals(2)
        quad_2 [of a b, folded l_def], of out rest] unfolding t by simp
next
  case (3 a)
  define l where "l = (push_bit 16 (ucast a) :: u32)"
  have t: "EVP_EncodeBlock [a] @ rest = [sextet l 18, sextet l 12, 0x3d, 0x3d] @ rest" by (simp add: Let_def l_def)
  show ?case
    using decode_quad_step [OF "3.prems" sextet_no_space sextet_no_space b64_equals(2) b64_equals(2)
        quad_1 [of a, folded l_def], of out rest] unfolding t by simp
next
  case 4
  then show ?case by (auto simp: dec_ok_def)
qed

lemma decode_lines:
  "dec_ok ctx \<Longrightarrow> \<exists>ctx'. decode_loop ctx out (pem_text xs) = (ctx', out @ xs, True) \<and> data_used ctx' = 0 \<and>
     eof_seen ctx' = (length xs mod 3 \<noteq> 0) \<and> \<not> error_encountered ctx'"
proof (induction xs arbitrary: ctx out rule: lines_of.induct)
  case (1 xs)
  show ?case
  proof (cases "ctx_data_size \<le> length xs")
    case True
    define p q where "p = take ctx_data_size xs" and "q = drop ctx_data_size xs"
    have p: "xs = p @ q" "length p = ctx_data_size" using True by (simp_all add: p_def q_def)
    have t: "pem_text xs = EVP_EncodeBlock p @ 0x0a # pem_text q"
      unfolding p(1) pem_text_def lines_step [OF p(2)] by simp
    obtain ctx1 where c1: "decode_loop ctx out (pem_text xs) = decode_loop ctx1 (out @ p) (pem_text q)" "dec_ok ctx1"
      using decode_block [OF "1.prems", of out p "0x0a # pem_text q"] t p(2) by (auto simp: dec_ok_def ctx_data_size_def)
    have m: "length q mod 3 = length xs mod 3" 
    proof -
      have "length xs = length q + 3 * 16" using True by (simp add: q_def ctx_data_size_def)
      then show ?thesis by (simp only: mod_mult_self2)
    qed
    have o: "(out @ p) @ q = out @ xs" using p(1) by simp
    show ?thesis using "1.IH" [OF True c1(2), of "out @ p"] unfolding q_def [symmetric] c1(1) o m .
  next
    case False
    then have l: "lines_of xs = []" "left_over xs = xs" by (simp_all add: lines_short)
    show ?thesis
    proof (cases "xs = []")
      case True
      with l "1.prems" show ?thesis by (simp add: pem_text_def dec_ok_def)
    next
      case ne: False
      then have t: "pem_text xs = EVP_EncodeBlock xs @ [0x0a]" using l by (simp add: pem_text_def)
      from decode_block [OF "1.prems", of out xs "[0x0a]"] show ?thesis unfolding t by auto
    qed
  qed
qed

text \<open>A whole run of the decoder: the bytes written, or \<open>None\<close> when a call reports an error.\<close>

fun decode_chunks :: "evp_encode_ctx \<Rightarrow> byte list list \<Rightarrow> byte list option" where
  "decode_chunks ctx [] = (if EVP_DecodeFinal ctx = - 1 then None else Some [])"
| "decode_chunks ctx (c # cs) =
     (case EVP_DecodeUpdate ctx c of (ctx', out, n, r) \<Rightarrow>
        if r = - 1 then None else map_option (\<lambda>out'. take n out @ out') (decode_chunks ctx' cs))"

lemma decode_loop_out:
  "decode_loop ctx (pre @ out) xs = (case decode_loop ctx out xs of (ctx', out', ok) \<Rightarrow> (ctx', pre @ out', ok))"
  by (induction ctx out xs rule: decode_loop.induct) (auto simp: Let_def split: option.splits)

lemma decode_loop_error: "decode_loop ctx out xs = (ctx', out', True) \<Longrightarrow> error_encountered ctx' = error_encountered ctx"
  by (induction ctx out xs rule: decode_loop.induct) (auto simp: Let_def split: if_splits option.splits)

lemma decode_chunks_loop:
  assumes "\<not> error_encountered ctx" "decode_loop ctx [] (concat cs) = (ctx', out, True)" "data_used ctx' = 0" "length out \<le> INT_MAX"
  shows "decode_chunks ctx cs = Some out"
  using assms
proof (induction cs arbitrary: ctx out)
  case Nil
  then show ?case by (auto simp: EVP_DecodeFinal_def)
next
  case (Cons c cs)
  obtain ctx1 o1 where c1: "decode_loop ctx [] c = (ctx1, o1, True)" "decode_loop ctx1 o1 (concat cs) = (ctx', out, True)"
    using Cons.prems(2) by (auto simp: decode_loop_append split: prod.splits bool.splits)
  obtain o2 where o2: "decode_loop ctx1 [] (concat cs) = (ctx', o2, True)" "out = o1 @ o2"
    using c1(2) decode_loop_out [of ctx1 o1 "[]" "concat cs"] by (auto split: prod.splits)
  have err: "\<not> error_encountered ctx1" using decode_loop_error [OF c1(1)] Cons.prems(1) by simp
  have "EVP_DecodeUpdate ctx c = (ctx1, o1, length o1, if eof_seen ctx1 then 0 else 1)"
    using c1(1) Cons.prems(1,4) o2(2) by (simp add: EVP_DecodeUpdate_def)
  moreover have "decode_chunks ctx1 cs = Some o2" using Cons.IH [OF err o2(1) Cons.prems(3)] Cons.prems(4) o2(2) by simp
  ultimately show ?case using o2(2) by simp
qed

section \<open>Properties\<close>

text \<open>Decoding inverts encoding: for every byte sequence, \<open>EVP_DecodeBase64\<close> with enough room reads the text of
  \<open>EVP_EncodeBlock\<close> back, and the text has the length \<open>EVP_EncodedLength\<close> announces, less the terminator.\<close>

theorem base64_block_roundtrip:
  assumes "length xs < 2 ^ 62"
  shows "EVP_DecodeBase64 (length (EVP_EncodeBlock xs)) (EVP_EncodeBlock xs) = Some xs \<and>
    EVP_EncodedLength (length xs) = Some (length (EVP_EncodeBlock xs) + 1)"
proof -
  define k where "k = (length xs + 2) div 3"
  have l: "length (EVP_EncodeBlock xs) = 4 * k" by (simp add: length_EncodeBlock k_def)
  have k: "k < 2 ^ 61" using assms by (simp add: k_def)
  have s: "size_add (length xs) 2 = length xs + 2" using assms by (simp add: size_max_def)
  have "EVP_EncodedLength (length xs) = Some (4 * k + 1)"
    unfolding EVP_EncodedLength_def Let_def s k_def [symmetric] using k by (simp add: size_max_def)
  moreover have "EVP_DecodeBase64 (4 * k) (EVP_EncodeBlock xs) = Some xs"
    using l by (simp add: EVP_DecodeBase64_def EVP_DecodedLength_def encode_decode_quads)
  ultimately show ?thesis using l by simp
qed

theorem base64_block_roundtrip_witness:
  "EVP_DecodeBase64 (length (EVP_EncodeBlock [1, 2, 3, 4])) (EVP_EncodeBlock [1, 2, 3, 4]) = Some [1, 2, 3, 4]"
  using base64_block_roundtrip [of "[1, 2, 3, 4]"] by simp

text \<open>(C13) The streaming encoder does not depend on how the input is cut up: whatever the chunks, the updates and the
  final call together write the lines of the whole input and report exactly the number of bytes written.  The
  streaming decoder inverts it, again however the text is cut up, and reports no error.\<close>

theorem base64_stream_roundtrip:
  assumes "\<forall>c \<in> set cs. length c < 2 ^ 30" "concat ds = fst (encode_chunks EVP_EncodeInit cs)" "length (concat cs) \<le> INT_MAX"
  shows "encode_chunks EVP_EncodeInit cs = (pem_text (concat cs), length (pem_text (concat cs))) \<and>
    decode_chunks EVP_DecodeInit ds = Some (concat cs)"
proof -
  have "ctx_ok EVP_EncodeInit" "buffered EVP_EncodeInit = []" by (simp_all add: ctx_ok_def EVP_EncodeInit_def ctx_data_size_def buffered_def)
  with encode_chunks_text [OF _ assms(1)]
  have e: "encode_chunks EVP_EncodeInit cs = (pem_text (concat cs), length (pem_text (concat cs)))" by fastforce
  have "dec_ok EVP_DecodeInit" by (simp add: dec_ok_def EVP_DecodeInit_def)
  from decode_lines [OF this, of "[]" "concat cs"] obtain ctx' where
    "decode_loop EVP_DecodeInit [] (concat ds) = (ctx', concat cs, True)" "data_used ctx' = 0"
    using assms(2) e by auto
  then have "decode_chunks EVP_DecodeInit ds = Some (concat cs)"
    using assms(3) by (intro decode_chunks_loop) (simp_all add: EVP_DecodeInit_def)
  with e show ?thesis by blast
qed

theorem base64_stream_roundtrip_witness:
  "decode_chunks EVP_DecodeInit [fst (encode_chunks EVP_EncodeInit [[1, 2], [3], [], [4, 5]])] = Some [1, 2, 3, 4, 5]"
  using base64_stream_roundtrip [of "[[1, 2], [3], [], [4, 5]]" "[fst (encode_chunks EVP_EncodeInit [[1, 2], [3], [], [4, 5]])]",
    THEN conjunct2]
  by (simp add: INT_MAX_def del: encode_chunks.simps decode_chunks.simps)


end
