(* ===== verification/Posix_Time.thy ===== *)
theory Posix_Time
  imports Main "HOL-Library.Signed_Division"
begin

text \<open>
  Calendar arithmetic of BoringSSL (\<^verbatim>\<open>crypto/asn1/posix_time.c\<close>): the conversions between POSIX
  time and a broken-down UTC time.  \<^verbatim>\<open>int64_t\<close> values are integers: the range checks the code makes
  first keep every intermediate result far from the limits, and the two additions that could overflow
  are guarded by explicit tests, which are modelled.  C's truncating division is \<open>sdiv\<close> and \<open>smod\<close>.
\<close>

section \<open>The code\<close>

record tm =
  tm_year :: int
  tm_mon :: int
  tm_mday :: int
  tm_hour :: int
  tm_min :: int
  tm_sec :: int

definition SECS_PER_HOUR :: int where
  "SECS_PER_HOUR = 60 * 60"

definition SECS_PER_DAY :: int where
  "SECS_PER_DAY = 24 * SECS_PER_HOUR"

definition INT64_MAX :: int where
  "INT64_MAX = 2 ^ 63 - 1"

definition INT64_MIN :: int where
  "INT64_MIN = - (2 ^ 63)"

text \<open>The test for a leap year that \<open>is_valid_date\<close> spells out.\<close>

definition leap_year :: "int \<Rightarrow> bool" where
  "leap_year year \<longleftrightarrow> (year smod 4 = 0 \<and> year smod 100 \<noteq> 0) \<or> year smod 400 = 0"

definition is_valid_date :: "int \<Rightarrow> int \<Rightarrow> int \<Rightarrow> bool" where
  "is_valid_date year month day =
     (if day < 1 \<or> month < 1 \<or> year < 0 \<or> year > 9999 then False
      else if month \<in> {1, 3, 5, 7, 8, 10, 12} then day > 0 \<and> day \<le> 31
      else if month \<in> {4, 6, 9, 11} then day > 0 \<and> day \<le> 30
      else if month = 2 then
        if leap_year year then day > 0 \<and> day \<le> 29 else day > 0 \<and> day \<le> 28
      else False)"

definition is_valid_time :: "int \<Rightarrow> int \<Rightarrow> int \<Rightarrow> bool" where
  "is_valid_time hours minutes seconds \<longleftrightarrow>
     \<not> (hours < 0 \<or> minutes < 0 \<or> seconds < 0 \<or> hours > 23 \<or> minutes > 59 \<or> seconds > 59)"

definition MIN_POSIX_TIME :: int where
  "MIN_POSIX_TIME = - 62167219200"

definition MAX_POSIX_TIME :: int where
  "MAX_POSIX_TIME = 253402300799"

definition is_valid_posix_time :: "int \<Rightarrow> bool" where
  "is_valid_posix_time time \<longleftrightarrow> MIN_POSIX_TIME \<le> time \<and> time \<le> MAX_POSIX_TIME"

definition posix_time_from_utc :: "int \<Rightarrow> int \<Rightarrow> int \<Rightarrow> int \<Rightarrow> int \<Rightarrow> int \<Rightarrow> int option" where
  "posix_time_from_utc year month day hours minutes seconds =
     (if \<not> is_valid_date year month day \<or> \<not> is_valid_time hours minutes seconds then None
      else
        (let year = (if month \<le> 2 then year - 1 else year);
             era = (if year \<ge> 0 then year else year - 399) sdiv 400;
             year_of_era = year - era * 400;
             day_of_year = (153 * (if month > 2 then month - 3 else month + 9) + 2) sdiv 5 + day - 1;
             day_of_era = year_of_era * 365 + year_of_era sdiv 4 - year_of_era sdiv 100 + day_of_year;
             posix_days = era * 146097 + day_of_era - 719468
         in Some (posix_days * SECS_PER_DAY + hours * SECS_PER_HOUR + minutes * 60 + seconds)))"

definition utc_from_posix_time :: "int \<Rightarrow> (int \<times> int \<times> int \<times> int \<times> int \<times> int) option" where
  "utc_from_posix_time time =
     (if \<not> is_valid_posix_time time then None
      else
        (let days0 = time sdiv SECS_PER_DAY;
             leftover0 = time smod SECS_PER_DAY;
             days1 = (if leftover0 < 0 then days0 - 1 else days0);
             leftover_seconds = (if leftover0 < 0 then leftover0 + SECS_PER_DAY else leftover0);
             days = days1 + 719468;
             era = (if days > 0 then days else days - 146096) sdiv 146097;
             day_of_era = days - era * 146097;
             year_of_era = (day_of_era - day_of_era sdiv 1460 + day_of_era sdiv 36524 -
                            day_of_era sdiv 146096) sdiv 365;
             year0 = year_of_era + era * 400;
             day_of_year = day_of_era - (365 * year_of_era + year_of_era sdiv 4 - year_of_era sdiv 100);
             month_of_year = (5 * day_of_year + 2) sdiv 153;
             month = (if month_of_year < 10 then month_of_year + 3 else month_of_year - 9);
             year = (if month \<le> 2 then year0 + 1 else year0);
             day = day_of_year - (153 * month_of_year + 2) sdiv 5 + 1;
             hours = leftover_seconds sdiv SECS_PER_HOUR;
             leftover_seconds = leftover_seconds smod SECS_PER_HOUR
         in Some (year, month, day, hours, leftover_seconds sdiv 60, leftover_seconds smod 60)))"

definition OPENSSL_tm_to_posix :: "tm \<Rightarrow> int option" where
  "OPENSSL_tm_to_posix t =
     posix_time_from_utc (tm_year t + 1900) (tm_mon t + 1) (tm_mday t) (tm_hour t) (tm_min t) (tm_sec t)"

definition OPENSSL_posix_to_tm :: "int \<Rightarrow> tm option" where
  "OPENSSL_posix_to_tm time =
     (case utc_from_posix_time time of
        None \<Rightarrow> None
      | Some (y, m, d, hh, mm, ss) \<Rightarrow>
          Some \<lparr>tm_year = y - 1900, tm_mon = m - 1, tm_mday = d, tm_hour = hh, tm_min = mm, tm_sec = ss\<rparr>)"

text \<open>\<^verbatim>\<open>time_t\<close> is 64 bits wide on the target, so its range check never fires.\<close>

definition OPENSSL_timegm :: "tm \<Rightarrow> int option" where
  "OPENSSL_timegm t = OPENSSL_tm_to_posix t"

definition OPENSSL_gmtime :: "int \<Rightarrow> tm option" where
  "OPENSSL_gmtime time = OPENSSL_posix_to_tm time"

definition OPENSSL_gmtime_adj :: "tm \<Rightarrow> int \<Rightarrow> int \<Rightarrow> tm option" where
  "OPENSSL_gmtime_adj t offset_day offset_sec =
     (case OPENSSL_tm_to_posix t of
        None \<Rightarrow> None
      | Some posix_time0 \<Rightarrow>
          (let posix_time = posix_time0 + offset_day * SECS_PER_DAY
           in if posix_time > 0 \<and> offset_sec > INT64_MAX - posix_time then None
              else if posix_time < 0 \<and> offset_sec < INT64_MIN - posix_time then None
              else OPENSSL_posix_to_tm (posix_time + offset_sec)))"

definition OPENSSL_gmtime_diff :: "tm \<Rightarrow> tm \<Rightarrow> (int \<times> int) option" where
  "OPENSSL_gmtime_diff from to =
     (case OPENSSL_tm_to_posix to of
        None \<Rightarrow> None
      | Some time_to \<Rightarrow>
          (case OPENSSL_tm_to_posix from of
             None \<Rightarrow> None
           | Some time_from \<Rightarrow>
               (let timediff = time_to - time_from
                in Some (timediff sdiv SECS_PER_DAY, timediff smod SECS_PER_DAY))))"

section \<open>The calendar\<close>

lemma sdiv_nonneg: "0 \<le> a \<Longrightarrow> 0 < b \<Longrightarrow> a sdiv b = a div (b :: int)"
  by (cases "a = 0") (auto simp: signed_divide_int_def)

lemma smod_nonneg: "0 \<le> a \<Longrightarrow> 0 < b \<Longrightarrow> a smod b = a mod (b :: int)"
  by (cases "a = 0") (auto simp: signed_modulo_int_def)

text \<open>\<open>q\<close> is the quotient: the form linear arithmetic can use.\<close>

lemma div_eqI: "0 < b \<Longrightarrow> b * q \<le> a \<Longrightarrow> a < b * (q + 1) \<Longrightarrow> a div b = (q :: int)"
  by (rule int_div_pos_eq [where r = "a - b * q"]) (auto simp: algebra_simps)

text \<open>A year of an era starts on March 1: \<open>c\<close>, \<open>q\<close> and \<open>r\<close> are its century, its four-year cycle
  and its place in that; the leap day, if there is one, is its last day.\<close>

definition era_year :: "int \<Rightarrow> int \<Rightarrow> int \<Rightarrow> int \<Rightarrow> bool" where
  "era_year c q r doy \<longleftrightarrow> 0 \<le> c \<and> c \<le> 3 \<and> 0 \<le> q \<and> q \<le> 24 \<and> 0 \<le> r \<and> r \<le> 3 \<and> 0 \<le> doy \<and>
     (doy \<le> 364 \<or> (doy = 365 \<and> r = 3 \<and> (q < 24 \<or> c = 3)))"

lemma year_of_era_formula:
  assumes e: "era_year c q r doy" and doe: "doe = 36524 * c + 1461 * q + 365 * r + doy"
  shows "0 \<le> doe \<and> doe \<le> 146096 \<and>
    (doe - doe div 1460 + doe div 36524 - doe div 146096) div 365 = 100 * c + 4 * q + r"
proof -
  note b = e [unfolded era_year_def]
  have range: "0 \<le> doe" "doe \<le> 146096" using b doe by auto
  have century: "doe div 36524 - doe div 146096 = c"
  proof (cases "doe = 146096")
    case True
    with b doe have "c = 3" by linarith
    with True show ?thesis by simp
  next
    case False
    then have "doe div 146096 = 0" using range by (intro div_pos_pos_trivial) auto
    moreover have "doe div 36524 = c"
      using b doe False by (intro div_eqI) auto
    ultimately show ?thesis by simp
  qed
  define m where "m = (24 * c + q + 365 * r + doy) div 1460"
  have m: "0 \<le> m" "m \<le> doy" "doy - m < 365"
  proof -
    have "m = (if 24 * c + q + 365 * r + doy \<ge> 1460 then 1 else 0)"
      unfolding m_def using b by (intro div_eqI) auto
    then show "0 \<le> m" "m \<le> doy" "doy - m < 365" using b by auto
  qed
  have "doe div 1460 = 25 * c + q + m"
  proof -
    have "doe = 24 * c + q + 365 * r + doy + 1460 * (25 * c + q)" using doe by simp
    then show ?thesis unfolding m_def by (simp add: div_mult_self2)
  qed
  with century have "doe - doe div 1460 + (doe div 36524 - doe div 146096) =
      36524 * c + 1461 * q + 365 * r + doy - (25 * c + q + m) + c"
    by (simp add: doe)
  then have eq: "doe - doe div 1460 + doe div 36524 - doe div 146096 =
      365 * (100 * c + 4 * q + r) + (doy - m)"
    by (simp add: algebra_simps)
  have "(365 * (100 * c + 4 * q + r) + (doy - m)) div 365 = 100 * c + 4 * q + r"
    using m by (intro div_eqI) auto
  with eq range show ?thesis by simp
qed

lemma era_decompose:
  assumes "0 \<le> doe" "doe \<le> 146096"
  obtains c q r doy where "era_year c q r doy" "doe = 36524 * c + 1461 * q + 365 * r + doy"
proof -
  define c where "c = min 3 (doe div 36524)"
  define x where "x = doe - 36524 * c"
  define q where "q = x div 1461"
  define y where "y = x - 1461 * q"
  define r where "r = min 3 (y div 365)"
  define doy where "doy = y - 365 * r"
  have c: "0 \<le> c" "c \<le> 3" "0 \<le> x" "x < 36524 \<or> (c = 3 \<and> x = 36524)"
    using assms unfolding c_def x_def by (auto simp: min_def)
  then have q: "0 \<le> q" "q \<le> 24" "0 \<le> y" "y \<le> 1460" "q = 24 \<and> c < 3 \<longrightarrow> y < 1460"
    unfolding q_def y_def by auto
  then have r: "0 \<le> r" "r \<le> 3" "0 \<le> doy" "doy \<le> 364 \<or> (doy = 365 \<and> r = 3 \<and> y = 1460)"
    unfolding r_def doy_def by (auto simp: min_def)
  show thesis
    by (rule that [of c q r doy]) (use c q r in \<open>auto simp: era_year_def doy_def y_def x_def\<close>)
qed

text \<open>The month of a day of such a year: months from March on, with the lengths the calendar has.\<close>

definition march_len :: "int \<Rightarrow> int" where
  "march_len mp = (if mp \<in> {1, 3, 6, 8} then 30 else if mp = 11 then 29 else 31)"

lemma month_cases: "0 \<le> mp \<Longrightarrow> mp \<le> 11 \<Longrightarrow>
    mp = 0 \<or> mp = 1 \<or> mp = 2 \<or> mp = 3 \<or> mp = 4 \<or> mp = 5 \<or> mp = 6 \<or> mp = 7 \<or> mp = 8 \<or> mp = 9 \<or> mp = 10 \<or> mp = (11 :: int)"
  by presburger

lemma month_of_year_formula:
  assumes "0 \<le> mp" "mp \<le> 11" "1 \<le> d" "d \<le> march_len mp"
  shows "(5 * ((153 * mp + 2) div 5 + d - 1) + 2) div 153 = mp \<and>
    0 \<le> (153 * mp + 2) div 5 + d - 1 \<and> (153 * mp + 2) div 5 + d - 1 \<le> 365 \<and>
    ((153 * mp + 2) div 5 + d - 1 = 365 \<longleftrightarrow> mp = 11 \<and> d = 29)"
  using month_cases [OF assms(1,2)] assms(3,4)
  by (elim disjE) (auto simp: march_len_def intro!: div_eqI)

lemma day_of_year_formula:
  assumes "0 \<le> doy" "doy \<le> 365"
  shows "0 \<le> (5 * doy + 2) div 153 \<and> (5 * doy + 2) div 153 \<le> 11 \<and>
    1 \<le> doy - (153 * ((5 * doy + 2) div 153) + 2) div 5 + 1 \<and>
    doy - (153 * ((5 * doy + 2) div 153) + 2) div 5 + 1 \<le> march_len ((5 * doy + 2) div 153)"
proof -
  define mp where "mp = (5 * doy + 2) div 153"
  have mp: "153 * mp \<le> 5 * doy + 2" "5 * doy + 2 < 153 * mp + 153" unfolding mp_def by linarith+
  with assms have "0 \<le> mp" "mp \<le> 11" by auto
  from month_cases [OF this] mp assms show ?thesis
    unfolding mp_def [symmetric] by (elim disjE) (auto simp: march_len_def)
qed

text \<open>The conversions of the code at the level of days counted from March 1 of year 0, with flooring
  division.\<close>

definition civil_to_days :: "int \<Rightarrow> int \<Rightarrow> int \<Rightarrow> int" where
  "civil_to_days year month day =
     (let y = (if month \<le> 2 then year - 1 else year);
          yoe = y mod 400;
          doy = (153 * (if month > 2 then month - 3 else month + 9) + 2) div 5 + day - 1
      in y div 400 * 146097 + (365 * yoe + yoe div 4 - yoe div 100 + doy))"

definition days_to_civil :: "int \<Rightarrow> int \<times> int \<times> int" where
  "days_to_civil z =
     (let doe = z mod 146097;
          yoe = (doe - doe div 1460 + doe div 36524 - doe div 146096) div 365;
          doy = doe - (365 * yoe + yoe div 4 - yoe div 100);
          mp = (5 * doy + 2) div 153;
          month = (if mp < 10 then mp + 3 else mp - 9);
          y = yoe + z div 146097 * 400
      in (if month \<le> 2 then y + 1 else y, month, doy - (153 * mp + 2) div 5 + 1))"

lemma era_year_parts:
  assumes "era_year c q r doy"
  shows "(100 * c + 4 * q + r) div 4 = 25 * c + q" "(100 * c + 4 * q + r) div 100 = c"
    "0 \<le> 100 * c + 4 * q + r" "100 * c + 4 * q + r \<le> 399"
  using assms unfolding era_year_def by (auto intro!: div_eqI)

lemma mod_top: "0 < a \<Longrightarrow> a \<le> n \<Longrightarrow> a mod n = 0 \<longleftrightarrow> a = (n :: int)"
  by (cases "a = n") auto

lemma leap_year_era:
  assumes "era_year c q r doy" "y = 400 * e + (100 * c + 4 * q + r) + 1" "0 \<le> y"
  shows "leap_year y \<longleftrightarrow> r = 3 \<and> (q < 24 \<or> c = 3)"
proof -
  note b = assms(1) [unfolded era_year_def]
  have "y mod 4 = (r + 1) mod 4"
    using assms(2) mod_mult_self2 [of "r + 1" 4 "100 * e + 25 * c + q"] by (simp add: algebra_simps)
  moreover have "y mod 100 = (4 * q + r + 1) mod 100"
    using assms(2) mod_mult_self2 [of "4 * q + r + 1" 100 "4 * e + c"] by (simp add: algebra_simps)
  moreover have "y mod 400 = (100 * c + 4 * q + r + 1) mod 400"
    using assms(2) mod_mult_self2 [of "100 * c + 4 * q + r + 1" 400 e] by (simp add: algebra_simps)
  moreover have "(r + 1) mod 4 = 0 \<longleftrightarrow> r = 3"
    using mod_top [of "r + 1" 4] b by auto
  moreover have "(4 * q + r + 1) mod 100 = 0 \<longleftrightarrow> 4 * q + r = 99"
    using mod_top [of "4 * q + r + 1" 100] b by auto
  moreover have "(100 * c + 4 * q + r + 1) mod 400 = 0 \<longleftrightarrow> 100 * c + 4 * q + r = 399"
    using mod_top [of "100 * c + 4 * q + r + 1" 400] b by auto
  moreover have "4 * q + r = 99 \<longleftrightarrow> \<not> q < 24 \<and> r = 3"
    using b by (intro iffI conjI) linarith+
  moreover have "100 * c + 4 * q + r = 399 \<longleftrightarrow> c = 3 \<and> \<not> q < 24 \<and> r = 3"
    using b by (intro iffI conjI) linarith+
  ultimately show ?thesis
    using b assms(3) by (auto simp: leap_year_def smod_nonneg)
qed

lemma days_to_civil_era:
  assumes e: "era_year c q r doy" and z: "z = 146097 * e + (36524 * c + 1461 * q + 365 * r + doy)"
  shows "days_to_civil z =
    (let mp = (5 * doy + 2) div 153;
         month = (if mp < 10 then mp + 3 else mp - 9);
         y = 400 * e + (100 * c + 4 * q + r)
     in (if month \<le> 2 then y + 1 else y, month, doy - (153 * mp + 2) div 5 + 1))"
proof -
  let ?doe = "36524 * c + 1461 * q + 365 * r + doy"
  note f = year_of_era_formula [OF e refl]
  have "z div 146097 = e" using z f by (intro div_eqI) auto
  moreover from this have "z mod 146097 = ?doe" using z by (simp add: minus_mult_div_eq_mod [symmetric])
  ultimately have "days_to_civil z =
    (let yoe = 100 * c + 4 * q + r;
         doy = ?doe - (365 * yoe + yoe div 4 - yoe div 100);
         mp = (5 * doy + 2) div 153;
         month = (if mp < 10 then mp + 3 else mp - 9);
         y = yoe + e * 400
     in (if month \<le> 2 then y + 1 else y, month, doy - (153 * mp + 2) div 5 + 1))"
    using f by (simp only: days_to_civil_def Let_def)
  moreover have "?doe - (365 * (100 * c + 4 * q + r) + (25 * c + q) - c) = doy" by simp
  ultimately show ?thesis
    by (simp only: era_year_parts [OF e] Let_def mult.commute [of e 400] add.commute [of _ "400 * e"])
qed

lemma civil_to_days_era:
  assumes e: "era_year c q r doy"
    and y: "(if month \<le> 2 then year - 1 else year) = 400 * e + (100 * c + 4 * q + r)"
    and doy: "(153 * (if month > 2 then month - 3 else month + 9) + 2) div 5 + day - 1 = doy"
  shows "civil_to_days year month day = 146097 * e + (36524 * c + 1461 * q + 365 * r + doy)"
proof -
  note p = era_year_parts [OF e]
  have d: "(400 * e + (100 * c + 4 * q + r)) div 400 = e"
    using p by (intro div_eqI) auto
  then have m: "(400 * e + (100 * c + 4 * q + r)) mod 400 = 100 * c + 4 * q + r"
    by (simp add: minus_mult_div_eq_mod [symmetric])
  show ?thesis
    unfolding civil_to_days_def Let_def y d m doy p(1,2) by simp
qed

lemma year_decompose:
  assumes "0 \<le> doy" "doy \<le> 365"
  obtains e c q r where "(y :: int) = 400 * e + (100 * c + 4 * q + r)"
    "doy \<le> 364 \<or> (r = 3 \<and> (q < 24 \<or> c = 3)) \<Longrightarrow> era_year c q r doy" "era_year c q r 0"
proof -
  define e where "e = y div 400"
  define a where "a = y mod 400"
  define c where "c = a div 100"
  define b where "b = a mod 100"
  define q where "q = b div 4"
  define r where "r = b mod 4"
  have "y = 400 * e + a" "a = 100 * c + b" "b = 4 * q + r" "0 \<le> a" "a < 400" "0 \<le> b" "b < 100" "0 \<le> r" "r < 4"
    by (auto simp: e_def a_def c_def b_def q_def r_def)
  then have "y = 400 * e + (100 * c + 4 * q + r)" "0 \<le> c" "c \<le> 3" "0 \<le> q" "q \<le> 24" "0 \<le> r" "r \<le> 3"
    by linarith+
  then show thesis using assms by (intro that [of e c q r]) (auto simp: era_year_def)
qed

text \<open>From a date to days and back.\<close>

lemma days_to_civil_inverse:
  assumes v: "is_valid_date year month day"
  shows "days_to_civil (civil_to_days year month day) = (year, month, day)"
    and "- 60 \<le> civil_to_days year month day" "civil_to_days year month day \<le> 3652364"
proof -
  define mp where "mp = (if month > 2 then month - 3 else month + 9)"
  define y where "y = (if month \<le> 2 then year - 1 else year)"
  define doy where "doy = (153 * mp + 2) div 5 + day - 1"
  have month: "1 \<le> month" "month \<le> 12" "0 \<le> year" "year \<le> 9999" "1 \<le> day"
    using v by (auto simp: is_valid_date_def split: if_splits)
  have len: "day \<le> march_len mp"
    using v by (auto simp: is_valid_date_def mp_def march_len_def split: if_splits)
  have mp: "0 \<le> mp" "mp \<le> 11" using month by (auto simp: mp_def)
  note f = month_of_year_formula [OF mp month(5) len, folded doy_def]
  obtain e c q r where y': "y = 400 * e + (100 * c + 4 * q + r)"
    and last: "doy \<le> 364 \<or> (r = 3 \<and> (q < 24 \<or> c = 3)) \<Longrightarrow> era_year c q r doy" and z: "era_year c q r 0"
    using year_decompose [of doy y] f by blast
  have e: "era_year c q r doy"
  proof (cases "doy = 365")
    case True
    then have m: "month = 2" "day = 29" using f month by (auto simp: mp_def split: if_splits)
    then have "leap_year year" using v by (auto simp: is_valid_date_def split: if_splits)
    moreover have "year = 400 * e + (100 * c + 4 * q + r) + 1" using y' m by (simp add: y_def)
    ultimately show ?thesis using leap_year_era [OF z] month last by blast
  qed (use f last in auto)
  have days: "civil_to_days year month day = 146097 * e + (36524 * c + 1461 * q + 365 * r + doy)"
    by (rule civil_to_days_era [OF e y' [unfolded y_def] doy_def [unfolded mp_def, symmetric]])
  have "(5 * doy + 2) div 153 = mp" using f by simp
  moreover have "doy - (153 * mp + 2) div 5 + 1 = day" by (simp add: doy_def)
  moreover have "(if mp < 10 then mp + 3 else mp - 9) = month" using month by (auto simp: mp_def)
  moreover have "(if month \<le> 2 then y + 1 else y) = year" by (simp add: y_def)
  ultimately show "days_to_civil (civil_to_days year month day) = (year, month, day)"
    by (simp only: days_to_civil_era [OF e days] Let_def y' [symmetric])
  have doy: "mp \<ge> 10 \<longrightarrow> doy \<ge> 306" "mp \<le> 9 \<longrightarrow> doy \<le> 305"
    using month_cases [OF mp] month(5) len by (auto simp: doy_def march_len_def)
  note p = era_year_parts [OF e] and b = e [unfolded era_year_def]
  have ylow: "- 1 \<le> y" "y = - 1 \<longrightarrow> 10 \<le> mp" "y \<le> 9999" "y = 9999 \<longrightarrow> mp \<le> 9"
    using month by (auto simp: y_def mp_def)
  have "- 1 \<le> e" "e \<le> 24" using y' p(3,4) ylow by linarith+
  show "- 60 \<le> civil_to_days year month day"
  proof (cases "e = - 1")
    case True
    then have "100 * c + 4 * q + r = 399" "doy \<ge> 306" using y' p(4) ylow doy by auto
    with True b show ?thesis unfolding days by linarith
  next
    case False
    with \<open>- 1 \<le> e\<close> b show ?thesis unfolding days by linarith
  qed
  have "100 * c + 4 * q + r \<le> 398 \<or> e < 24 \<or> doy \<le> 305" using y' ylow doy by linarith
  then show "civil_to_days year month day \<le> 3652364"
    using \<open>e \<le> 24\<close> b p(4) unfolding days by linarith
qed

text \<open>From days to a date and back.\<close>

lemma civil_to_days_inverse:
  assumes z: "- 60 \<le> z" "z \<le> 3652364" and c: "days_to_civil z = (year, month, day)"
  shows "is_valid_date year month day \<and> civil_to_days year month day = z"
proof -
  define e where "e = z div 146097"
  have doe: "z = 146097 * e + z mod 146097" "0 \<le> z mod 146097" "z mod 146097 \<le> 146096"
    using pos_mod_bound [of 146097 z] by (auto simp: e_def)
  then obtain c q r doy where ey: "era_year c q r doy"
    and zm: "z mod 146097 = 36524 * c + 1461 * q + 365 * r + doy"
    using era_decompose by metis
  define y where "y = 400 * e + (100 * c + 4 * q + r)"
  define mp where "mp = (5 * doy + 2) div 153"
  note b = ey [unfolded era_year_def]
  have civ: "month = (if mp < 10 then mp + 3 else mp - 9)" "year = (if month \<le> 2 then y + 1 else y)"
    "day = doy - (153 * mp + 2) div 5 + 1"
    using days_to_civil_era [OF ey doe(1) [unfolded zm]] c by (auto simp: Let_def y_def mp_def)
  have mp: "0 \<le> mp" "mp \<le> 11" "1 \<le> day" "day \<le> march_len mp"
    using day_of_year_formula [of doy] b by (auto simp: mp_def civ(3))
  then have m: "month > 2 \<longleftrightarrow> mp \<le> 9" "(if month > 2 then month - 3 else month + 9) = mp"
    by (auto simp: civ(1))
  have "(if month \<le> 2 then year - 1 else year) = y" by (simp add: civ(2))
  then have "civil_to_days year month day = 146097 * e + (36524 * c + 1461 * q + 365 * r + doy)"
    by (intro civil_to_days_era [OF ey]) (auto simp: m(2) y_def civ(3))
  then have z_back: "civil_to_days year month day = z" using doe(1) zm by simp
  have dm: "doy = (153 * mp + 2) div 5 + day - 1" by (simp add: civ(3))
  have doy: "mp \<ge> 10 \<longleftrightarrow> doy \<ge> 306"
    using month_cases [OF mp(1,2)] mp(3,4) by (auto simp: dm march_len_def)
  have e: "- 1 \<le> e" "e \<le> 24" using z by (auto simp: e_def)
  have low: "e = - 1 \<longrightarrow> y = - 1 \<and> doy \<ge> 306" "e = 24 \<longrightarrow> y \<le> 9998 \<or> doy \<le> 305"
    using z doe(1) zm b by (auto simp: y_def)
  note p = era_year_parts(3,4) [OF ey]
  have "- 1 \<le> y" "y = - 1 \<longrightarrow> month \<le> 2" "y \<le> 9999" "y = 9999 \<longrightarrow> month > 2"
    using e low p doy m(1) unfolding y_def by linarith+
  then have year: "0 \<le> year" "year \<le> 9999" by (auto simp: civ(2))
  have leap: "leap_year year" if "mp = 11" "\<not> day \<le> 28"
  proof -
    have "doy = 365" "month = 2" using that mp by (auto simp: dm march_len_def civ(1))
    then show ?thesis using leap_year_era [OF ey, of year e] year b by (auto simp: civ(2) y_def)
  qed
  have "is_valid_date year month day"
    using month_cases [OF mp(1,2)]
  proof (elim disjE)
    assume "mp = 11"
    then show ?thesis using leap mp(3,4) year by (auto simp: is_valid_date_def march_len_def civ(1))
  qed (use mp(3,4) year in \<open>simp_all add: is_valid_date_def march_len_def civ(1)\<close>)
  with z_back show ?thesis by simp
qed

section \<open>The conversions\<close>

lemma posix_time_from_utc_eq:
  "posix_time_from_utc year month day hours minutes seconds =
     (if is_valid_date year month day \<and> is_valid_time hours minutes seconds
      then Some ((civil_to_days year month day - 719468) * 86400 + hours * 3600 + minutes * 60 + seconds)
      else None)"
proof (cases "is_valid_date year month day")
  case True
  define y where "y = (if month \<le> 2 then year - 1 else year)"
  have v: "1 \<le> month" "- 1 \<le> y"
    using True by (auto simp: is_valid_date_def y_def split: if_splits)
  have era: "(if y \<ge> 0 then y else y - 399) sdiv 400 = y div 400"
  proof (cases "y = - 1")
    case False
    with v(2) show ?thesis by (simp add: sdiv_nonneg)
  qed (simp add: signed_divide_int_def)
  have yoe: "y - y div 400 * 400 = y mod 400" by (simp add: minus_div_mult_eq_mod)
  have "(153 * (if month > 2 then month - 3 else month + 9) + 2) sdiv 5 =
      (153 * (if month > 2 then month - 3 else month + 9) + 2) div 5"
    using v by (intro sdiv_nonneg) auto
  moreover have "(y mod 400) sdiv 4 = y mod 400 div 4" "(y mod 400) sdiv 100 = y mod 400 div 100"
    by (simp_all add: sdiv_nonneg)
  moreover have "SECS_PER_DAY = 86400" "SECS_PER_HOUR = 3600"
    by (simp_all add: SECS_PER_DAY_def SECS_PER_HOUR_def)
  ultimately show ?thesis
    using True unfolding posix_time_from_utc_def civil_to_days_def Let_def
    by (simp only: y_def [symmetric] era yoe mult.commute [of _ 365]) auto
qed (simp add: posix_time_from_utc_def)

lemma euclid_from_trunc:
  fixes a b :: int
  assumes "0 < b"
  shows "(if a smod b < 0 then a sdiv b - 1 else a sdiv b) = a div b"
    and "(if a smod b < 0 then a smod b + b else a smod b) = a mod b"
proof -
  define q where "q = a sdiv b"
  define r where "r = a smod b"
  have qr: "a = q * b + r" by (simp add: q_def r_def sdiv_mult_smod_eq)
  have "\<bar>r\<bar> < b"
    using assms by (auto simp: r_def signed_modulo_int_def abs_mult sgn_if)
  then have b: "- b < r" "r < b" by auto
  have d: "(if r < 0 then q - 1 else q) = a div b"
  proof (cases "r < 0")
    case True
    have "a div b = q - 1" by (rule div_eqI) (use qr b assms True in \<open>auto simp: algebra_simps\<close>)
    with True show ?thesis by simp
  next
    case False
    have "a div b = q" by (rule div_eqI) (use qr b assms False in \<open>auto simp: algebra_simps\<close>)
    with False show ?thesis by simp
  qed
  show "(if a smod b < 0 then a sdiv b - 1 else a sdiv b) = a div b"
    using d unfolding q_def r_def .
  show "(if a smod b < 0 then a smod b + b else a smod b) = a mod b"
  proof -
    have "a mod b = a - (if r < 0 then q - 1 else q) * b" unfolding d by (simp add: minus_div_mult_eq_mod)
    also have "\<dots> = (if r < 0 then r + b else r)" unfolding qr by (simp add: algebra_simps)
    finally show ?thesis unfolding r_def by simp
  qed
qed

lemma utc_from_posix_time_eq:
  "utc_from_posix_time t =
     (if is_valid_posix_time t
      then case days_to_civil (t div 86400 + 719468) of
             (year, month, day) \<Rightarrow>
               Some (year, month, day, t mod 86400 div 3600, t mod 3600 div 60, t mod 60)
      else None)"
proof (cases "is_valid_posix_time t")
  case True
  define z where "z = t div 86400 + 719468"
  have z: "- 60 \<le> z" "z \<le> 3652364"
    using True by (auto simp: is_valid_posix_time_def MIN_POSIX_TIME_def MAX_POSIX_TIME_def z_def)
  have day: "SECS_PER_DAY = 86400" "SECS_PER_HOUR = 3600"
    by (simp_all add: SECS_PER_DAY_def SECS_PER_HOUR_def)
  have era: "(if z > 0 then z else z - 146096) sdiv 146097 = z div 146097"
  proof (cases "z > 0")
    case False
    then have "(z - 146096) sdiv 146097 = - ((146096 - z) div 146097)"
      by (simp add: signed_divide_int_def sgn_if)
    moreover have "z div 146097 = (if z = 0 then 0 else - 1)" "(146096 - z) div 146097 = (if z = 0 then 0 else 1)"
      using z(1) False by (auto intro!: div_eqI)
    ultimately show ?thesis using False by simp
  qed (simp add: sdiv_nonneg)
  have doe: "z - z div 146097 * 146097 = z mod 146097" by (simp add: minus_div_mult_eq_mod)
  define d where "d = z mod 146097"
  obtain c q r doy where e: "era_year c q r doy" "d = 36524 * c + 1461 * q + 365 * r + doy"
  proof -
    have "0 \<le> d" "d \<le> 146096" using pos_mod_bound [of 146097 z] by (auto simp: d_def)
    then show thesis using that by (rule era_decompose)
  qed
  define n where "n = d - d div 1460 + d div 36524 - d div 146096"
  note f = year_of_era_formula [OF e, folded n_def] and p = era_year_parts [OF e(1)]
  have n: "0 \<le> n" "0 \<le> d" using f p by linarith+
  have doy: "d - (365 * (n div 365) + n div 365 div 4 - n div 365 div 100) = doy" "0 \<le> doy"
    using f p e by (simp_all add: era_year_def)
  have nn: "0 \<le> 5 * doy + 2" "0 \<le> 153 * ((5 * doy + 2) div 153) + 2" "0 \<le> n div 365"
    using doy(2) n(1) by simp_all
  have sd: "d sdiv 1460 = d div 1460" "d sdiv 36524 = d div 36524" "d sdiv 146096 = d div 146096"
    "n sdiv 365 = n div 365" "(n div 365) sdiv 4 = n div 365 div 4" "(n div 365) sdiv 100 = n div 365 div 100"
    "(5 * doy + 2) sdiv 153 = (5 * doy + 2) div 153"
    "(153 * ((5 * doy + 2) div 153) + 2) sdiv 5 = (153 * ((5 * doy + 2) div 153) + 2) div 5"
    using sdiv_nonneg [OF n(2)] sdiv_nonneg [OF n(1)] sdiv_nonneg [OF nn(1)] sdiv_nonneg [OF nn(2)]
      sdiv_nonneg [OF nn(3)] by simp_all
  have time: "(t mod 86400) sdiv 3600 = t mod 86400 div 3600" "(t mod 86400) smod 3600 = t mod 3600"
    "(t mod 3600) sdiv 60 = t mod 3600 div 60" "(t mod 3600) smod 60 = t mod 60"
    by (simp_all add: sdiv_nonneg smod_nonneg mod_mod_cancel)
  show ?thesis
    using True
    unfolding utc_from_posix_time_def days_to_civil_def Let_def day
    by (simp only: euclid_from_trunc [of 86400 t, simplified] z_def [symmetric] era doe d_def [symmetric]
        n_def [symmetric] sd doy time if_True not_True_eq_False if_False prod.case refl mult.commute [of _ 400] simp_thms)
qed (simp add: utc_from_posix_time_def)

definition tm_valid :: "tm \<Rightarrow> bool" where
  "tm_valid t \<longleftrightarrow> is_valid_date (tm_year t + 1900) (tm_mon t + 1) (tm_mday t) \<and>
     is_valid_time (tm_hour t) (tm_min t) (tm_sec t)"

lemma seconds_split:
  fixes h m s :: int
  assumes "0 \<le> h" "h \<le> 23" "0 \<le> m" "m \<le> 59" "0 \<le> s" "s \<le> 59"
    and t: "t = d * 86400 + h * 3600 + m * 60 + s"
  shows "t div 86400 = d \<and> t mod 86400 div 3600 = h \<and> t mod 3600 div 60 = m \<and> t mod 60 = s"
proof -
  have 1: "t div 86400 = d" using assms by (intro div_eqI) auto
  then have "t mod 86400 = h * 3600 + m * 60 + s" using t by (simp add: minus_div_mult_eq_mod [symmetric])
  then have 2: "t mod 86400 div 3600 = h" using assms by (intro div_eqI) auto
  have "t div 3600 = d * 24 + h" using assms by (intro div_eqI) auto
  then have "t mod 3600 = m * 60 + s" using t by (simp add: minus_div_mult_eq_mod [symmetric])
  then have 3: "t mod 3600 div 60 = m" using assms by (intro div_eqI) auto
  have "t div 60 = d * 1440 + h * 60 + m" using assms by (intro div_eqI) auto
  then have "t mod 60 = s" using t by (simp add: minus_div_mult_eq_mod [symmetric])
  with 1 2 3 show ?thesis by simp
qed

lemma seconds_join:
  "(t :: int) = t div 86400 * 86400 + t mod 86400 div 3600 * 3600 + t mod 3600 div 60 * 60 + t mod 60"
proof -
  have "t mod 86400 mod 3600 = t mod 3600" "t mod 3600 mod 60 = t mod 60"
    by (simp_all add: mod_mod_cancel)
  then show ?thesis
    using div_mult_mod_eq [of t 86400] div_mult_mod_eq [of "t mod 86400" 3600] div_mult_mod_eq [of "t mod 3600" 60]
    by linarith
qed

lemma tm_to_posix_valid:
  assumes "tm_valid t"
  obtains p where "OPENSSL_tm_to_posix t = Some p" "is_valid_posix_time p" "OPENSSL_posix_to_tm p = Some t"
proof -
  define n where "n = civil_to_days (tm_year t + 1900) (tm_mon t + 1) (tm_mday t)"
  define p where "p = (n - 719468) * 86400 + tm_hour t * 3600 + tm_min t * 60 + tm_sec t"
  note v = assms [unfolded tm_valid_def] and inv = days_to_civil_inverse [OF conjunct1 [OF v], folded n_def]
  have time: "0 \<le> tm_hour t" "tm_hour t \<le> 23" "0 \<le> tm_min t" "tm_min t \<le> 59" "0 \<le> tm_sec t" "tm_sec t \<le> 59"
    using v by (auto simp: is_valid_time_def)
  have "OPENSSL_tm_to_posix t = Some p"
    using v by (simp add: OPENSSL_tm_to_posix_def posix_time_from_utc_eq p_def n_def)
  moreover have ok: "is_valid_posix_time p"
    using inv(2,3) time by (simp add: is_valid_posix_time_def MIN_POSIX_TIME_def MAX_POSIX_TIME_def p_def)
  moreover have "OPENSSL_posix_to_tm p = Some t"
    using seconds_split [OF time p_def] inv(1) ok
    by (simp add: OPENSSL_posix_to_tm_def utc_from_posix_time_eq)
  ultimately show thesis by (rule that)
qed

lemma posix_to_tm_valid:
  assumes "is_valid_posix_time p"
  obtains t where "OPENSSL_posix_to_tm p = Some t" "tm_valid t" "OPENSSL_tm_to_posix t = Some p"
proof -
  define z where "z = p div 86400 + 719468"
  have z: "- 60 \<le> z" "z \<le> 3652364"
    using assms by (auto simp: is_valid_posix_time_def MIN_POSIX_TIME_def MAX_POSIX_TIME_def z_def)
  obtain y m d where c: "days_to_civil z = (y, m, d)" by (cases "days_to_civil z")
  note inv = civil_to_days_inverse [OF z c]
  let ?t = "\<lparr>tm_year = y - 1900, tm_mon = m - 1, tm_mday = d, tm_hour = p mod 86400 div 3600,
    tm_min = p mod 3600 div 60, tm_sec = p mod 60\<rparr>"
  have "is_valid_time (p mod 86400 div 3600) (p mod 3600 div 60) (p mod 60)"
  proof -
    have "0 \<le> p mod 86400 div 3600" "0 \<le> p mod 3600 div 60"
      by (simp_all add: pos_imp_zdiv_nonneg_iff)
    moreover have "p mod 86400 div 3600 \<le> 23" using pos_mod_bound [of 86400 p] by linarith
    moreover have "p mod 3600 div 60 \<le> 59" using pos_mod_bound [of 3600 p] by linarith
    moreover have "p mod 60 \<le> 59" using pos_mod_bound [of 60 p] by linarith
    ultimately show ?thesis by (simp add: is_valid_time_def not_less)
  qed
  then have "tm_valid ?t" using inv by (simp add: tm_valid_def)
  moreover have "OPENSSL_tm_to_posix ?t = Some p"
    using \<open>tm_valid ?t\<close> inv seconds_join [of p, symmetric]
    by (simp add: tm_valid_def OPENSSL_tm_to_posix_def posix_time_from_utc_eq) (simp add: z_def)
  moreover have "OPENSSL_posix_to_tm p = Some ?t"
    using assms c by (simp add: OPENSSL_posix_to_tm_def utc_from_posix_time_eq z_def)
  ultimately show thesis using that by blast
qed

text \<open>A date of the years up to 2049 is far from the end of the range.\<close>

lemma civil_to_days_upper:
  assumes "0 \<le> y" "y \<le> 2049" "1 \<le> m" "m \<le> 12" "d \<le> 31"
  shows "civil_to_days y m d \<le> 800000"
proof -
  define y' where "y' = (if m \<le> 2 then y - 1 else y)"
  define q where "q = y' div 400"
  define r where "r = y' mod 400"
  define doy where "doy = (153 * (if m > 2 then m - 3 else m + 9) + 2) div 5 + d - 1"
  have "doy \<le> 400" using assms by (auto simp: doy_def)
  moreover have "y' = 400 * q + r" "0 \<le> r" "r < 400" by (simp_all add: q_def r_def)
  moreover have "y' \<le> 2049" using assms by (simp add: y'_def)
  moreover have "r div 4 \<le> 100" "0 \<le> r div 100" unfolding r_def by auto
  moreover have "civil_to_days y m d = q * 146097 + (365 * r + r div 4 - r div 100 + doy)"
    by (simp add: civil_to_days_def Let_def y'_def q_def r_def doy_def)
  ultimately show ?thesis by linarith
qed

lemma tm_to_posix_upper:
  assumes "tm_valid t" "tm_year t < 150" "OPENSSL_tm_to_posix t = Some p"
  shows "p + 86400 \<le> MAX_POSIX_TIME"
proof -
  have v: "0 \<le> tm_year t + 1900" "tm_year t + 1900 \<le> 2049" "1 \<le> tm_mon t + 1" "tm_mon t + 1 \<le> 12" "tm_mday t \<le> 31"
    and time: "tm_hour t \<le> 23" "tm_min t \<le> 59" "tm_sec t \<le> 59"
    using assms(1,2) by (auto simp: tm_valid_def is_valid_date_def is_valid_time_def split: if_splits)
  have "p = (civil_to_days (tm_year t + 1900) (tm_mon t + 1) (tm_mday t) - 719468) * 86400 + tm_hour t * 3600 +
      tm_min t * 60 + tm_sec t"
    using assms(3) by (simp add: OPENSSL_tm_to_posix_def posix_time_from_utc_eq split: if_splits)
  with civil_to_days_upper [OF v] time show ?thesis by (simp add: MAX_POSIX_TIME_def)
qed

section \<open>Properties\<close>

text \<open>(C32) Every valid broken-down time (year 0 to 9999 of the Gregorian calendar, no leap second) has a
  POSIX time in range, and converting that back gives the same fields; an invalid one is rejected.\<close>

theorem tm_posix_roundtrip:
  "if tm_valid t
   then \<exists>p. OPENSSL_tm_to_posix t = Some p \<and> is_valid_posix_time p \<and> OPENSSL_posix_to_tm p = Some t
   else OPENSSL_tm_to_posix t = None"
proof (cases "tm_valid t")
  case True
  then show ?thesis by (metis tm_to_posix_valid)
qed (auto simp: tm_valid_def OPENSSL_tm_to_posix_def posix_time_from_utc_eq)

text \<open>(C6) Every POSIX time in range converts to a valid broken-down time that converts back to it; a time
  out of range is rejected.\<close>

theorem posix_tm_roundtrip:
  "if is_valid_posix_time p
   then \<exists>t. OPENSSL_posix_to_tm p = Some t \<and> tm_valid t \<and> OPENSSL_tm_to_posix t = Some p
   else OPENSSL_posix_to_tm p = None"
proof (cases "is_valid_posix_time p")
  case True
  then show ?thesis by (metis posix_to_tm_valid)
qed (simp add: OPENSSL_posix_to_tm_def utc_from_posix_time_eq)

text \<open>\<open>OPENSSL_gmtime_diff\<close> and \<open>OPENSSL_gmtime_adj\<close> are inverse: between any two valid times
  the difference in days and seconds exists, its two parts do not have opposite signs, the seconds
  are less than a day, and adjusting the first time by it gives the second; no overflow check refuses
  it.\<close>

theorem gmtime_diff_adj:
  assumes "tm_valid a" "tm_valid b"
  shows "\<exists>d s. OPENSSL_gmtime_diff a b = Some (d, s) \<and> \<bar>s\<bar> < SECS_PER_DAY \<and> 0 \<le> d * s \<and>
    OPENSSL_gmtime_adj a d s = Some b"
proof -
  obtain p where p: "OPENSSL_tm_to_posix a = Some p" "is_valid_posix_time p"
    using tm_to_posix_valid [OF assms(1)] by blast
  obtain q where q: "OPENSSL_tm_to_posix b = Some q" "is_valid_posix_time q" "OPENSSL_posix_to_tm q = Some b"
    using tm_to_posix_valid [OF assms(2)] by blast
  have day: "SECS_PER_DAY = 86400" by (simp add: SECS_PER_DAY_def SECS_PER_HOUR_def)
  define d where "d = (q - p) sdiv 86400"
  define s where "s = (q - p) smod 86400"
  have qp: "q = p + d * 86400 + s" using sdiv_mult_smod_eq [of "q - p" 86400] by (simp add: d_def s_def)
  have s: "\<bar>s\<bar> < 86400" by (simp add: s_def signed_modulo_int_def abs_mult sgn_if)
  have sign: "0 \<le> d * s"
    by (simp add: d_def s_def signed_modulo_int_def signed_divide_int_def sgn_if zero_le_mult_iff
        pos_imp_zdiv_nonneg_iff)
  have "OPENSSL_gmtime_diff a b = Some (d, s)"
    using p q by (simp add: OPENSSL_gmtime_diff_def day d_def s_def Let_def)
  moreover have "OPENSSL_gmtime_adj a d s = Some b"
    using p q s qp
    by (auto simp: OPENSSL_gmtime_adj_def day is_valid_posix_time_def MIN_POSIX_TIME_def MAX_POSIX_TIME_def
        INT64_MAX_def INT64_MIN_def Let_def)
  ultimately show ?thesis using s sign day by auto
qed

theorem gmtime_diff_adj_witness:
  "\<exists>d s. OPENSSL_gmtime_diff
      \<lparr>tm_year = 100, tm_mon = 1, tm_mday = 29, tm_hour = 23, tm_min = 59, tm_sec = 59\<rparr>
      \<lparr>tm_year = 70, tm_mon = 0, tm_mday = 1, tm_hour = 0, tm_min = 0, tm_sec = 0\<rparr> = Some (d, s) \<and>
    OPENSSL_gmtime_adj
      \<lparr>tm_year = 100, tm_mon = 1, tm_mday = 29, tm_hour = 23, tm_min = 59, tm_sec = 59\<rparr> d s =
      Some \<lparr>tm_year = 70, tm_mon = 0, tm_mday = 1, tm_hour = 0, tm_min = 0, tm_sec = 0\<rparr>"
proof -
  have "tm_valid \<lparr>tm_year = 100, tm_mon = 1, tm_mday = 29, tm_hour = 23, tm_min = 59, tm_sec = 59\<rparr>"
    "tm_valid \<lparr>tm_year = 70, tm_mon = 0, tm_mday = 1, tm_hour = 0, tm_min = 0, tm_sec = 0\<rparr>"
    by (simp_all add: tm_valid_def is_valid_date_def is_valid_time_def leap_year_def smod_nonneg)
  from gmtime_diff_adj [OF this] show ?thesis by blast
qed

end
