(* ===== verification/Cbs.thy ===== *)
theory Cbs
  imports Codec Posix_Time "HOL-Library.Sublist"
begin

text \<open>
  The parser side of BoringSSL's byte strings: \<^verbatim>\<open>crypto/bytestring/cbs.c\<close>.

  A \<^verbatim>\<open>CBS\<close> is a pointer and a length into memory it does not change; here it is the list of the bytes it
  covers.  A function that takes a \<^verbatim>\<open>CBS *\<close> and may fail is a \<open>parser\<close>: it returns its outputs, or
  \<open>None\<close> for a return value of zero, with the \<^verbatim>\<open>CBS\<close> as the call leaves it (a failing call may have
  consumed bytes, and the model keeps which).  Functions on a \<^verbatim>\<open>const CBS *\<close> are plain functions.  A
  \<^verbatim>\<open>CBS_ASN1_TAG\<close> is a 32-bit word.
\<close>

section \<open>Parsers\<close>

type_synonym cbs = "byte list"
type_synonym 'a parser = "cbs \<Rightarrow> 'a option \<times> cbs"

text \<open>Running one parser after another, the second depending on what the first returns.\<close>

definition bindp :: "'a parser \<Rightarrow> ('a \<Rightarrow> 'b parser) \<Rightarrow> 'b parser" where
  "bindp p f s = (case p s of (None, s') \<Rightarrow> (None, s') | (Some a, s') \<Rightarrow> f a s')"

definition retp :: "'a \<Rightarrow> 'a parser" where
  "retp a s = (Some a, s)"

definition failp :: "'a parser" where
  "failp s = (None, s)"

section \<open>Memory helpers (\<^verbatim>\<open>crypto/mem.c\<close>)\<close>

fun CRYPTO_memcmp_from :: "byte \<Rightarrow> byte list \<Rightarrow> byte list \<Rightarrow> byte" where
  "CRYPTO_memcmp_from x (a # as) (b # bs) = CRYPTO_memcmp_from (x OR (a XOR b)) as bs"
| "CRYPTO_memcmp_from x _ _ = x"

definition CRYPTO_memcmp :: "byte list \<Rightarrow> byte list \<Rightarrow> nat \<Rightarrow> byte" where
  "CRYPTO_memcmp as bs len = CRYPTO_memcmp_from 0 (take len as) (take len bs)"

fun OPENSSL_strnlen :: "byte list \<Rightarrow> nat" where
  "OPENSSL_strnlen [] = 0"
| "OPENSSL_strnlen (b # s) = (if b = 0 then 0 else Suc (OPENSSL_strnlen s))"

definition OPENSSL_isdigit :: "byte \<Rightarrow> bool" where
  "OPENSSL_isdigit c \<longleftrightarrow> 0x30 \<le> c \<and> c \<le> 0x39"

definition OPENSSL_memdup :: "(nat \<Rightarrow> bool) \<Rightarrow> byte list \<Rightarrow> byte list option" where
  "OPENSSL_memdup alloc bs = (if bs = [] then None else if \<not> alloc (length bs) then None else Some bs)"

definition OPENSSL_strndup :: "(nat \<Rightarrow> bool) \<Rightarrow> byte list \<Rightarrow> byte list option" where
  "OPENSSL_strndup alloc str =
     (let len = OPENSSL_strnlen str;
          alloc_size = size_add len 1
      in if alloc_size < len then None
         else if \<not> alloc alloc_size then None
         else Some (take len str @ [0]))"

text \<open>The index of the first byte equal to \<open>c\<close>: \<^verbatim>\<open>memchr\<close>.\<close>

fun OPENSSL_memchr :: "byte list \<Rightarrow> byte \<Rightarrow> nat option" where
  "OPENSSL_memchr [] c = None"
| "OPENSSL_memchr (b # s) c =
     (if b = c then Some 0 else case OPENSSL_memchr s c of None \<Rightarrow> None | Some i \<Rightarrow> Some (Suc i))"

section \<open>Fixed-width values\<close>

definition cbs_get :: "nat \<Rightarrow> byte list parser" where
  "cbs_get n s = (if length s < n then (None, s) else (Some (take n s), drop n s))"

definition CBS_skip :: "nat \<Rightarrow> unit parser" where
  "CBS_skip n = bindp (cbs_get n) (\<lambda>_. retp ())"

text \<open>\<open>CBS_stow\<close> and \<open>CBS_strdup\<close>: the success flag and the new buffer, \<open>None\<close> for a null pointer.\<close>

definition CBS_stow :: "(nat \<Rightarrow> bool) \<Rightarrow> cbs \<Rightarrow> bool \<times> byte list option \<times> nat" where
  "CBS_stow alloc cbs =
     (if length cbs = 0 then (True, None, 0)
      else (case OPENSSL_memdup alloc cbs of
              None \<Rightarrow> (False, None, 0)
            | Some p \<Rightarrow> (True, Some p, length cbs)))"

definition CBS_strdup :: "(nat \<Rightarrow> bool) \<Rightarrow> cbs \<Rightarrow> bool \<times> byte list option" where
  "CBS_strdup alloc cbs = (let p = OPENSSL_strndup alloc cbs in (p \<noteq> None, p))"

definition CBS_contains_zero_byte :: "cbs \<Rightarrow> bool" where
  "CBS_contains_zero_byte cbs \<longleftrightarrow> OPENSSL_memchr cbs 0 \<noteq> None"

definition CBS_mem_equal :: "cbs \<Rightarrow> byte list \<Rightarrow> nat \<Rightarrow> bool" where
  "CBS_mem_equal cbs data len = (if len \<noteq> length cbs then False else CRYPTO_memcmp cbs data len = 0)"

text \<open>The loop that assembles a big-endian number.\<close>

definition be_loop :: "u64 \<Rightarrow> byte list \<Rightarrow> u64" where
  "be_loop = foldl (\<lambda>result b. push_bit 8 result OR ucast b)"

definition cbs_get_u :: "nat \<Rightarrow> u64 parser" where
  "cbs_get_u len = bindp (cbs_get len) (\<lambda>data. retp (be_loop 0 data))"

definition CBS_get_u8 :: "byte parser" where
  "CBS_get_u8 = bindp (cbs_get 1) (\<lambda>v. retp (v ! 0))"

definition CBS_get_u16 :: "u16 parser" where
  "CBS_get_u16 = bindp (cbs_get_u 2) (\<lambda>v. retp (ucast v))"

text \<open>\<^verbatim>\<open>CRYPTO_bswap2\<close>, \<^verbatim>\<open>CRYPTO_bswap4\<close> and \<^verbatim>\<open>CRYPTO_bswap8\<close> (\<^verbatim>\<open>crypto/internal.h\<close>).\<close>

definition CRYPTO_bswap2 :: "u16 \<Rightarrow> u16" where
  "CRYPTO_bswap2 x = (drop_bit 8 x) OR (push_bit 8 x)"

definition CRYPTO_bswap4 :: "u32 \<Rightarrow> u32" where
  "CRYPTO_bswap4 x0 =
     (let x = (drop_bit 16 x0) OR (push_bit 16 x0);
          x = (drop_bit 8 (x AND 0xff00ff00)) OR (push_bit 8 (x AND 0x00ff00ff))
      in x)"

definition CRYPTO_bswap8 :: "u64 \<Rightarrow> u64" where
  "CRYPTO_bswap8 x =
     (push_bit 32 (ucast (CRYPTO_bswap4 (ucast x)))) OR (ucast (CRYPTO_bswap4 (ucast (drop_bit 32 x))))"

definition CBS_get_u16le :: "u16 parser" where
  "CBS_get_u16le = bindp CBS_get_u16 (\<lambda>v. retp (CRYPTO_bswap2 v))"

definition CBS_get_u24 :: "u32 parser" where
  "CBS_get_u24 = bindp (cbs_get_u 3) (\<lambda>v. retp (ucast v))"

definition CBS_get_u32 :: "u32 parser" where
  "CBS_get_u32 = bindp (cbs_get_u 4) (\<lambda>v. retp (ucast v))"

definition CBS_get_u32le :: "u32 parser" where
  "CBS_get_u32le = bindp CBS_get_u32 (\<lambda>v. retp (CRYPTO_bswap4 v))"

definition CBS_get_u64 :: "u64 parser" where
  "CBS_get_u64 = cbs_get_u 8"

definition CBS_get_u64le :: "u64 parser" where
  "CBS_get_u64le = bindp (cbs_get_u 8) (\<lambda>v. retp (CRYPTO_bswap8 v))"

definition CBS_get_last_u8 :: "byte parser" where
  "CBS_get_last_u8 s = (if length s = 0 then (None, s) else (Some (s ! (length s - 1)), take (length s - 1) s))"

definition CBS_get_bytes :: "nat \<Rightarrow> cbs parser" where
  "CBS_get_bytes len = cbs_get len"

definition CBS_copy_bytes :: "nat \<Rightarrow> byte list parser" where
  "CBS_copy_bytes len = cbs_get len"

definition cbs_get_length_prefixed :: "nat \<Rightarrow> cbs parser" where
  "cbs_get_length_prefixed len_len = bindp (cbs_get_u len_len) (\<lambda>len. CBS_get_bytes (unat len))"

definition CBS_get_u8_length_prefixed :: "cbs parser" where
  "CBS_get_u8_length_prefixed = cbs_get_length_prefixed 1"

definition CBS_get_u16_length_prefixed :: "cbs parser" where
  "CBS_get_u16_length_prefixed = cbs_get_length_prefixed 2"

definition CBS_get_u24_length_prefixed :: "cbs parser" where
  "CBS_get_u24_length_prefixed = cbs_get_length_prefixed 3"

definition CBS_get_until_first :: "byte \<Rightarrow> cbs parser" where
  "CBS_get_until_first c s =
     (case OPENSSL_memchr s c of None \<Rightarrow> (None, s) | Some i \<Rightarrow> CBS_get_bytes i s)"

definition UINT64_MAX :: u64 where
  "UINT64_MAX = - 1"

text \<open>The loop of \<open>CBS_get_u64_decimal\<close>.\<close>

fun decimal_loop :: "u64 \<Rightarrow> bool \<Rightarrow> u64 parser" where
  "decimal_loop v seen_digit [] = (if seen_digit then Some v else None, [])"
| "decimal_loop v seen_digit (c # s) =
     (if \<not> OPENSSL_isdigit c then (if seen_digit then Some v else None, c # s)
      else if (v = 0 \<and> seen_digit) \<or> v > UINT64_MAX div 10 \<or> v * 10 > UINT64_MAX - ucast (c - 0x30)
      then (None, s)
      else decimal_loop (v * 10 + ucast (c - 0x30)) True s)"

definition CBS_get_u64_decimal :: "u64 parser" where
  "CBS_get_u64_decimal = decimal_loop 0 False"

section \<open>DER and BER elements\<close>

fun base128_loop :: "u64 \<Rightarrow> u64 parser" where
  "base128_loop v [] = (None, [])"
| "base128_loop v (b # s) =
     (if drop_bit 57 v \<noteq> 0 then (None, s)
      else if v = 0 \<and> b = 0x80 then (None, s)
      else
        (let v' = push_bit 7 v OR ucast (b AND 0x7f)
         in if b AND 0x80 \<noteq> 0 then base128_loop v' s else (Some v', s)))"

definition parse_base128_integer :: "u64 parser" where
  "parse_base128_integer = base128_loop 0"

definition CBS_ASN1_TAG_SHIFT :: nat where
  "CBS_ASN1_TAG_SHIFT = 24"

definition CBS_ASN1_CONSTRUCTED :: u32 where
  "CBS_ASN1_CONSTRUCTED = push_bit CBS_ASN1_TAG_SHIFT 0x20"

definition CBS_ASN1_TAG_NUMBER_MASK :: u32 where
  "CBS_ASN1_TAG_NUMBER_MASK = push_bit (5 + CBS_ASN1_TAG_SHIFT) 1 - 1"

definition CBS_ASN1_BOOLEAN :: u32 where "CBS_ASN1_BOOLEAN = 0x1"
definition CBS_ASN1_INTEGER :: u32 where "CBS_ASN1_INTEGER = 0x2"
definition CBS_ASN1_BITSTRING :: u32 where "CBS_ASN1_BITSTRING = 0x3"
definition CBS_ASN1_OCTETSTRING :: u32 where "CBS_ASN1_OCTETSTRING = 0x4"
definition CBS_ASN1_OBJECT :: u32 where "CBS_ASN1_OBJECT = 0x6"

definition parse_asn1_tag :: "u32 parser" where
  "parse_asn1_tag =
     bindp CBS_get_u8 (\<lambda>tag_byte.
       let tag = push_bit CBS_ASN1_TAG_SHIFT ((ucast tag_byte :: u32) AND 0xe0);
           tag_number = (ucast (tag_byte AND 0x1f) :: u32);
           finish = (\<lambda>tag_number.
             let tag = tag OR tag_number
             in if tag AND NOT CBS_ASN1_CONSTRUCTED = 0 then failp else retp tag)
       in if tag_number = 0x1f
          then bindp parse_base128_integer (\<lambda>v.
                 if v > ucast CBS_ASN1_TAG_NUMBER_MASK \<or> v < 0x1f then failp else finish (ucast v))
          else finish tag_number)"

record element =
  el_out :: cbs
  el_tag :: u32
  el_header_len :: nat
  el_ber_found :: bool
  el_indefinite :: bool

definition cbs_get_any_asn1_element :: "bool \<Rightarrow> element parser" where
  "cbs_get_any_asn1_element ber_ok cbs =
     (case parse_asn1_tag cbs of
        (None, _) \<Rightarrow> (None, cbs)
      | (Some tag, header) \<Rightarrow>
          (case CBS_get_u8 header of
             (None, _) \<Rightarrow> (None, cbs)
           | (Some length_byte, header) \<Rightarrow>
               (let header_len = length cbs - length header;
                    finish = (\<lambda>len hlen ber indef.
                      bindp (CBS_get_bytes len) (\<lambda>out.
                        retp \<lparr>el_out = out, el_tag = tag, el_header_len = hlen, el_ber_found = ber,
                              el_indefinite = indef\<rparr>) cbs)
                in if length_byte AND 0x80 = 0
                   then finish (unat length_byte + header_len) header_len False False
                   else
                     (let num_bytes = unat (length_byte AND 0x7f)
                      in if ber_ok \<and> tag AND CBS_ASN1_CONSTRUCTED \<noteq> 0 \<and> num_bytes = 0
                         then finish header_len header_len True True
                         else if num_bytes = 0 \<or> num_bytes > 4 then (None, cbs)
                         else
                           (case cbs_get_u num_bytes header of
                              (None, _) \<Rightarrow> (None, cbs)
                            | (Some len64, _) \<Rightarrow>
                                (let long = len64 < 128;
                                     padded = drop_bit ((num_bytes - 1) * 8) len64 = 0;
                                     len = unat len64
                                 in if (long \<or> padded) \<and> \<not> ber_ok then (None, cbs)
                                    else if size_add (size_add len header_len) num_bytes < len then (None, cbs)
                                    else finish (size_add len (header_len + num_bytes)) (header_len + num_bytes)
                                           (long \<or> padded) False))))))"

definition CBS_get_any_asn1_element :: "element parser" where
  "CBS_get_any_asn1_element = cbs_get_any_asn1_element False"

definition CBS_get_any_asn1 :: "(cbs \<times> u32) parser" where
  "CBS_get_any_asn1 =
     bindp CBS_get_any_asn1_element (\<lambda>e s.
       case CBS_skip (el_header_len e) (el_out e) of
         (None, _) \<Rightarrow> (None, s)
       | (Some _, out) \<Rightarrow> (Some (out, el_tag e), s))"

definition CBS_get_any_ber_asn1_element :: "element parser" where
  "CBS_get_any_ber_asn1_element = cbs_get_any_asn1_element True"

definition cbs_get_asn1 :: "u32 \<Rightarrow> bool \<Rightarrow> cbs parser" where
  "cbs_get_asn1 tag_value skip_header =
     bindp CBS_get_any_asn1_element (\<lambda>e s.
       if el_tag e \<noteq> tag_value then (None, s)
       else if skip_header then
         (case CBS_skip (el_header_len e) (el_out e) of
            (None, _) \<Rightarrow> (None, s)
          | (Some _, out) \<Rightarrow> (Some out, s))
       else (Some (el_out e), s))"

definition CBS_get_asn1 :: "u32 \<Rightarrow> cbs parser" where
  "CBS_get_asn1 tag_value = cbs_get_asn1 tag_value True"

definition CBS_get_asn1_element :: "u32 \<Rightarrow> cbs parser" where
  "CBS_get_asn1_element tag_value = cbs_get_asn1 tag_value False"

definition CBS_peek_asn1_tag :: "cbs \<Rightarrow> u32 \<Rightarrow> bool" where
  "CBS_peek_asn1_tag cbs tag_value = (fst (parse_asn1_tag cbs) = Some tag_value)"

section \<open>ASN.1 values\<close>

text \<open>\<open>CBS_is_valid_asn1_integer\<close>: \<open>None\<close> when it returns zero, otherwise \<^verbatim>\<open>*out_is_negative\<close>.\<close>

definition CBS_is_valid_asn1_integer :: "cbs \<Rightarrow> bool option" where
  "CBS_is_valid_asn1_integer cbs =
     (case CBS_get_u8 cbs of
        (None, _) \<Rightarrow> None
      | (Some first_byte, copy) \<Rightarrow>
          (let is_negative = (first_byte AND 0x80 \<noteq> 0)
           in case CBS_get_u8 copy of
                (None, _) \<Rightarrow> Some is_negative
              | (Some second_byte, _) \<Rightarrow>
                  if (first_byte = 0x00 \<and> second_byte AND 0x80 = 0) \<or>
                     (first_byte = 0xff \<and> second_byte AND 0x80 \<noteq> 0)
                  then None else Some is_negative))"

definition CBS_is_unsigned_asn1_integer :: "cbs \<Rightarrow> bool" where
  "CBS_is_unsigned_asn1_integer cbs \<longleftrightarrow> CBS_is_valid_asn1_integer cbs = Some False"

text \<open>The loop of \<open>CBS_get_asn1_uint64\<close>.\<close>

fun uint64_loop :: "u64 \<Rightarrow> byte list \<Rightarrow> u64 option" where
  "uint64_loop out [] = Some out"
| "uint64_loop out (b # data) =
     (if drop_bit 56 out \<noteq> 0 then None else uint64_loop (push_bit 8 out OR ucast b) data)"

definition CBS_get_asn1_uint64 :: "u64 parser" where
  "CBS_get_asn1_uint64 =
     bindp (CBS_get_asn1 CBS_ASN1_INTEGER) (\<lambda>bytes.
       if \<not> CBS_is_unsigned_asn1_integer bytes then failp
       else (case uint64_loop 0 bytes of None \<Rightarrow> failp | Some v \<Rightarrow> retp v))"

text \<open>The \<^verbatim>\<open>int64_t\<close> result is the 64-bit word whose signed value (\<open>sint\<close>) it is;
  \<^verbatim>\<open>CRYPTO_load_u64_be\<close> is \<open>be_loop\<close>.\<close>

definition CBS_get_asn1_int64 :: "u64 parser" where
  "CBS_get_asn1_int64 =
     bindp (CBS_get_asn1 CBS_ASN1_INTEGER) (\<lambda>bytes.
       case CBS_is_valid_asn1_integer bytes of
         None \<Rightarrow> failp
       | Some is_negative \<Rightarrow>
           if length bytes > 8 then failp
           else retp (be_loop 0 (replicate (8 - length bytes) (if is_negative then 0xff else 0) @ bytes)))"

definition CBS_get_asn1_bool :: "bool parser" where
  "CBS_get_asn1_bool =
     bindp (CBS_get_asn1 CBS_ASN1_BOOLEAN) (\<lambda>bytes.
       if length bytes \<noteq> 1 then failp
       else (let v = bytes ! 0 in if v \<noteq> 0 \<and> v \<noteq> 0xff then failp else retp (v \<noteq> 0)))"

text \<open>\<open>CBS_get_optional_asn1\<close>: the outer \<open>option\<close> is success, the inner one \<^verbatim>\<open>*out_present\<close>.\<close>

definition CBS_get_optional_asn1 :: "u32 \<Rightarrow> cbs option parser" where
  "CBS_get_optional_asn1 tag cbs =
     (if CBS_peek_asn1_tag cbs tag then bindp (CBS_get_asn1 tag) (\<lambda>out. retp (Some out)) cbs
      else (Some None, cbs))"

definition CBS_get_optional_asn1_octet_string :: "u32 \<Rightarrow> (cbs \<times> bool) parser" where
  "CBS_get_optional_asn1_octet_string tag =
     bindp (CBS_get_optional_asn1 tag) (\<lambda>child.
       case child of
         None \<Rightarrow> retp ([], False)
       | Some child \<Rightarrow>
           (case CBS_get_asn1 CBS_ASN1_OCTETSTRING child of
              (None, _) \<Rightarrow> failp
            | (Some out, child) \<Rightarrow> if length child \<noteq> 0 then failp else retp (out, True)))"

definition CBS_get_optional_asn1_uint64 :: "u32 \<Rightarrow> u64 \<Rightarrow> u64 parser" where
  "CBS_get_optional_asn1_uint64 tag default_value =
     bindp (CBS_get_optional_asn1 tag) (\<lambda>child.
       case child of
         None \<Rightarrow> retp default_value
       | Some child \<Rightarrow>
           (case CBS_get_asn1_uint64 child of
              (None, _) \<Rightarrow> failp
            | (Some out, child) \<Rightarrow> if length child \<noteq> 0 then failp else retp out))"

definition CBS_get_optional_asn1_bool :: "u32 \<Rightarrow> bool \<Rightarrow> bool parser" where
  "CBS_get_optional_asn1_bool tag default_value =
     bindp (CBS_get_optional_asn1 tag) (\<lambda>child.
       case child of
         None \<Rightarrow> retp default_value
       | Some child \<Rightarrow>
           (case CBS_get_asn1 CBS_ASN1_BOOLEAN child of
              (None, _) \<Rightarrow> failp
            | (Some child2, child) \<Rightarrow>
                if length child2 \<noteq> 1 \<or> length child \<noteq> 0 then failp
                else
                  (let boolean = child2 ! 0
                   in if boolean = 0 then retp False
                      else if boolean = 0xff then retp True
                      else failp)))"

definition CBS_is_valid_asn1_bitstring :: "cbs \<Rightarrow> bool" where
  "CBS_is_valid_asn1_bitstring cbs =
     (case CBS_get_u8 cbs of
        (None, _) \<Rightarrow> False
      | (Some num_unused_bits, inn) \<Rightarrow>
          if num_unused_bits > 7 then False
          else if num_unused_bits = 0 then True
          else
            (case CBS_get_last_u8 inn of
               (None, _) \<Rightarrow> False
             | (Some last_byte, _) \<Rightarrow> (last_byte AND (push_bit (unat num_unused_bits) 1 - 1)) = 0))"

text \<open>\<open>bit\<close> is a C \<^verbatim>\<open>unsigned\<close>; the comparison with the length is made in \<^verbatim>\<open>size_t\<close>.\<close>

definition CBS_asn1_bitstring_has_bit :: "cbs \<Rightarrow> u32 \<Rightarrow> bool" where
  "CBS_asn1_bitstring_has_bit cbs bit_index =
     (if \<not> CBS_is_valid_asn1_bitstring cbs then False
      else
        (let byte_num = drop_bit 3 bit_index + 1;
             bit_num = 7 - (bit_index AND 7)
         in unat byte_num < length cbs \<and>
            (ucast (cbs ! unat byte_num) :: u32) AND push_bit (unat bit_num) 1 \<noteq> 0))"

text \<open>The loop of \<open>CBS_is_valid_asn1_oid\<close>.\<close>

fun oid_loop :: "byte \<Rightarrow> cbs \<Rightarrow> bool" where
  "oid_loop prev [] = (prev AND 0x80 = 0)"
| "oid_loop prev (v # copy) = (if prev AND 0x80 = 0 \<and> v = 0x80 then False else oid_loop v copy)"

definition CBS_is_valid_asn1_oid :: "cbs \<Rightarrow> bool" where
  "CBS_is_valid_asn1_oid cbs = (if length cbs = 0 then False else oid_loop 0 cbs)"

section \<open>Times\<close>

definition cbs_get_two_digits :: "int parser" where
  "cbs_get_two_digits =
     bindp CBS_get_u8 (\<lambda>first_digit.
       if \<not> OPENSSL_isdigit first_digit then failp
       else bindp CBS_get_u8 (\<lambda>second_digit.
         if \<not> OPENSSL_isdigit second_digit then failp
         else retp ((uint first_digit - 0x30) * 10 + (uint second_digit - 0x30))))"

definition is_valid_day :: "int \<Rightarrow> int \<Rightarrow> int \<Rightarrow> bool" where
  "is_valid_day year month day =
     (if day < 1 then False
      else if month \<in> {1, 3, 5, 7, 8, 10, 12} then day \<le> 31
      else if month \<in> {4, 6, 9, 11} then day \<le> 30
      else if month = 2 then if leap_year year then day \<le> 29 else day \<le> 28
      else False)"

text \<open>The year: four digits, or two digits of a UTCTime.\<close>

definition rfc5280_year :: "bool \<Rightarrow> int parser" where
  "rfc5280_year is_gentime =
     (if is_gentime then
        bindp cbs_get_two_digits (\<lambda>a. bindp cbs_get_two_digits (\<lambda>b. retp (a * 100 + b)))
      else
        bindp cbs_get_two_digits (\<lambda>tmp.
          let year = 1900 + tmp;
              year = (if year < 1950 then year + 100 else year)
          in if year \<ge> 2050 then failp else retp year))"

text \<open>The time zone: its offset in seconds.\<close>

definition rfc5280_offset :: "bool \<Rightarrow> byte \<Rightarrow> int parser" where
  "rfc5280_offset allow_timezone_offset tz =
     (if tz \<noteq> 0x5a \<and> tz \<noteq> 0x2b \<and> tz \<noteq> 0x2d then failp
      else
        (let offset_sign = (if tz = 0x5a then 0 else if tz = 0x2b then 1 else - 1)
         in if offset_sign \<noteq> 0 then
              if \<not> allow_timezone_offset then failp
              else bindp cbs_get_two_digits (\<lambda>offset_hours.
                if offset_hours > 23 then failp
                else bindp cbs_get_two_digits (\<lambda>offset_minutes.
                  if offset_minutes > 59 then failp
                  else retp (offset_sign * (offset_hours * 3600 + offset_minutes * 60))))
            else retp 0))"

text \<open>The date and time, up to the seconds, as the fields written to \<^verbatim>\<open>out_tm\<close>.\<close>

definition rfc5280_fields :: "bool \<Rightarrow> tm parser" where
  "rfc5280_fields is_gentime =
     bindp (rfc5280_year is_gentime) (\<lambda>year.
     bindp cbs_get_two_digits (\<lambda>month.
       if month < 1 \<or> month > 12 then failp
       else bindp cbs_get_two_digits (\<lambda>day.
         if \<not> is_valid_day year month day then failp
         else bindp cbs_get_two_digits (\<lambda>hour.
           if hour > 23 then failp
           else bindp cbs_get_two_digits (\<lambda>min.
             if min > 59 then failp
             else bindp cbs_get_two_digits (\<lambda>sec.
               if sec > 59 then failp
               else retp \<lparr>tm_year = year - 1900, tm_mon = month - 1, tm_mday = day,
                          tm_hour = hour, tm_min = min, tm_sec = sec\<rparr>))))))"

text \<open>\<open>want_tm\<close> says whether \<^verbatim>\<open>out_tm\<close> is not null; the result is the time written there.\<close>

definition CBS_parse_rfc5280_time_internal :: "cbs \<Rightarrow> bool \<Rightarrow> bool \<Rightarrow> bool \<Rightarrow> tm option option" where
  "CBS_parse_rfc5280_time_internal cbs is_gentime allow_timezone_offset want_tm =
     fst (bindp (rfc5280_fields is_gentime) (\<lambda>t.
          bindp CBS_get_u8 (\<lambda>tz.
            bindp (rfc5280_offset allow_timezone_offset tz) (\<lambda>offset_seconds copy.
              if length copy \<noteq> 0 then (None, copy)
              else if \<not> want_tm then (Some None, copy)
              else if offset_seconds \<noteq> 0 then
                (case OPENSSL_gmtime_adj t 0 offset_seconds of
                   None \<Rightarrow> (None, copy)
                 | Some t' \<Rightarrow> (Some (Some t'), copy))
              else (Some (Some t), copy)))) cbs)"

definition CBS_parse_generalized_time :: "cbs \<Rightarrow> bool \<Rightarrow> bool \<Rightarrow> tm option option" where
  "CBS_parse_generalized_time cbs want_tm allow_timezone_offset =
     CBS_parse_rfc5280_time_internal cbs True allow_timezone_offset want_tm"

definition CBS_parse_utc_time :: "cbs \<Rightarrow> bool \<Rightarrow> bool \<Rightarrow> tm option option" where
  "CBS_parse_utc_time cbs want_tm allow_timezone_offset =
     CBS_parse_rfc5280_time_internal cbs False allow_timezone_offset want_tm"

section \<open>Parsers never leave the input\<close>

definition suffix_parser :: "'a parser \<Rightarrow> bool" where
  "suffix_parser p \<longleftrightarrow> (\<forall>s. suffix (snd (p s)) s)"

named_theorems suffix_intros \<open>introduction rules for parsers that stay inside their input\<close>

lemma suffix_bindp [suffix_intros]:
  assumes "suffix_parser p" "\<And>a. suffix_parser (f a)"
  shows "suffix_parser (bindp p f)"
  unfolding suffix_parser_def
proof
  fix s
  show "suffix (snd (bindp p f s)) s"
  proof (cases "p s")
    case (Pair r s')
    moreover have "suffix s' s" using assms(1) Pair by (metis snd_conv suffix_parser_def)
    moreover have "suffix (snd (f a s')) s'" for a using assms(2) by (simp add: suffix_parser_def)
    ultimately show ?thesis
      by (auto simp: bindp_def split: option.split dest: suffix_order.order_trans)
  qed
qed

lemma suffix_basic [suffix_intros]:
  "suffix_parser (retp a)" "suffix_parser failp" "suffix_parser (cbs_get n)"
  by (auto simp: suffix_parser_def retp_def failp_def cbs_get_def suffix_drop)

lemma suffix_if [suffix_intros]:
  "(b \<Longrightarrow> suffix_parser p) \<Longrightarrow> (\<not> b \<Longrightarrow> suffix_parser q) \<Longrightarrow> suffix_parser (if b then p else q)"
  by simp

lemma suffix_option [suffix_intros]:
  "suffix_parser p \<Longrightarrow> (\<And>a. suffix_parser (q a)) \<Longrightarrow> suffix_parser (case x of None \<Rightarrow> p | Some a \<Rightarrow> q a)"
  by (cases x) auto

lemma suffix_here [suffix_intros]:
  "suffix_parser (\<lambda>s. (r s, s))"
  by (simp add: suffix_parser_def)

lemma suffix_fun_if [suffix_intros]:
  "suffix_parser p \<Longrightarrow> suffix_parser q \<Longrightarrow> suffix_parser (\<lambda>s. if b s then p s else q s)"
  by (simp add: suffix_parser_def)

lemma suffix_fun_option [suffix_intros]:
  "suffix_parser p \<Longrightarrow> (\<And>a. suffix_parser (q a)) \<Longrightarrow>
   suffix_parser (\<lambda>s. case x s of None \<Rightarrow> p s | Some a \<Rightarrow> q a s)"
  by (auto simp: suffix_parser_def split: option.split)

lemma suffix_decimal [suffix_intros]: "suffix_parser (decimal_loop v d)"
proof -
  have "suffix (snd (decimal_loop v d s)) s" for s
    by (induction v d s rule: decimal_loop.induct) (auto intro: suffix_ConsI)
  then show ?thesis by (simp add: suffix_parser_def)
qed

lemma suffix_base128 [suffix_intros]: "suffix_parser (base128_loop v)"
proof -
  have "suffix (snd (base128_loop v s)) s" for s
    by (induction v s rule: base128_loop.induct) (auto simp: Let_def intro: suffix_ConsI)
  then show ?thesis by (simp add: suffix_parser_def)
qed

lemma suffix_element [suffix_intros]: "suffix_parser (cbs_get_any_asn1_element ber_ok)"
proof -
  have get: "suffix (snd (bindp (CBS_get_bytes n) (\<lambda>out. retp (g out)) s)) s" for n s and g :: "cbs \<Rightarrow> element"
    using suffix_bindp [OF suffix_basic(3) suffix_basic(1)]
    by (auto simp: suffix_parser_def CBS_get_bytes_def)
  show ?thesis
    unfolding suffix_parser_def cbs_get_any_asn1_element_def
    by (auto simp: get Let_def split: option.split prod.split)
qed

lemma suffix_parse_tag [suffix_intros]: "suffix_parser parse_asn1_tag"
  unfolding parse_asn1_tag_def Let_def CBS_get_u8_def parse_base128_integer_def by (intro suffix_intros)

lemma suffix_cbs_get_asn1 [suffix_intros]: "suffix_parser (cbs_get_asn1 t skip_header)"
  unfolding cbs_get_asn1_def CBS_get_any_asn1_element_def
  by (intro suffix_intros) (auto simp: suffix_parser_def split: option.split prod.split)

lemma suffix_optional [suffix_intros]: "suffix_parser (CBS_get_optional_asn1 tag)"
  unfolding CBS_get_optional_asn1_def CBS_get_asn1_def by (intro suffix_intros)

lemmas CBS_get_defs = CBS_skip_def cbs_get_u_def CBS_get_u8_def CBS_get_u16_def CBS_get_u16le_def CBS_get_u24_def
  CBS_get_u32_def CBS_get_u32le_def CBS_get_u64_def CBS_get_u64le_def CBS_get_bytes_def CBS_copy_bytes_def
  cbs_get_length_prefixed_def CBS_get_u8_length_prefixed_def CBS_get_u16_length_prefixed_def
  CBS_get_u24_length_prefixed_def CBS_get_until_first_def CBS_get_u64_decimal_def parse_base128_integer_def
  CBS_get_any_asn1_element_def CBS_get_any_ber_asn1_element_def CBS_get_asn1_def
  CBS_get_asn1_element_def CBS_get_asn1_uint64_def CBS_get_asn1_int64_def CBS_get_asn1_bool_def

end
