(* ===== verification/Der.thy ===== *)
theory Der
  imports Cbs
begin

text \<open>
  What the DER parsers of \<^verbatim>\<open>cbs.c\<close> accept: the canonical encodings of base-128 integers, tags, lengths and
  elements, as functions from values to bytes, and the proofs that each parser accepts exactly
  those, with the value they encode.
\<close>

section \<open>Base-128 integers\<close>

fun b128_hi :: "nat \<Rightarrow> byte list" where
  "b128_hi n = (if n = 0 then [] else b128_hi (n div 128) @ [word_of_nat (128 + n mod 128)])"

declare b128_hi.simps [simp del]

definition b128 :: "nat \<Rightarrow> byte list" where
  "b128 n = b128_hi (n div 128) @ [word_of_nat (n mod 128)]"

lemma b128_hi_0 [simp]: "b128_hi 0 = []"
  by (simp add: b128_hi.simps)

lemma b128_hi_step: "v \<noteq> 0 \<or> d \<noteq> 0 \<Longrightarrow> d < 128 \<Longrightarrow> b128_hi (128 * v + d) = b128_hi v @ [word_of_nat (128 + d)]"
  by (subst b128_hi.simps) auto

lemma b128_step: "d < 128 \<Longrightarrow> b128 (128 * v + d) = b128_hi v @ [word_of_nat d]"
  by (simp add: b128_def)

lemma byte_high: "\<not> unat (b :: byte) < 128 \<Longrightarrow> word_of_nat (128 + unat b mod 128) = b"
proof -
  assume "\<not> unat b < 128"
  then have "unat b mod 128 = unat b - 128" using unat_bound [of b] by (simp add: le_mod_geq)
  with \<open>\<not> unat b < 128\<close> have "128 + unat b mod 128 = unat b" by simp
  then show ?thesis by simp
qed

lemma u64_append7:
  fixes v :: u64
  assumes "unat v < 2 ^ 57"
  shows "unat (push_bit 7 v OR ucast (b AND 0x7f :: byte)) = 128 * unat v + unat b mod 128"
proof -
  have "unat (ucast (b AND 0x7f) :: u64) = unat b mod 128"
    unfolding unat_and_0x7f [symmetric] by (rule unat_ucast_up) simp
  then show ?thesis using assms by (subst unat_shift_or) auto
qed

lemma base128_more:
  assumes "unat v < 2 ^ 57" "v \<noteq> 0 \<or> unat b \<noteq> 128" "\<not> unat b < 128"
  shows "base128_loop v (b # s) = base128_loop (word_of_nat (128 * unat v + unat b mod 128)) s"
  using assms unat_eq_imp [OF u64_append7 [OF assms(1), of b]]
  by (auto simp: drop_bit_eq_0_iff byte_and_0x80 Let_def)

lemma base128_last:
  assumes "unat v < 2 ^ 57" "unat b < 128"
  shows "base128_loop v (b # s) = (Some (word_of_nat (128 * unat v + unat b mod 128)), s)"
  using assms unat_eq_imp [OF u64_append7 [OF assms(1), of b]]
  by (auto simp: drop_bit_eq_0_iff byte_and_0x80 Let_def)

text \<open>The parser accepts exactly the minimal encodings.\<close>

lemma base128_loop_enc:
  assumes "n < 2 ^ 57"
  shows "base128_loop 0 (b128_hi n @ s) = base128_loop (word_of_nat n) s"
  using assms
proof (induction n arbitrary: s rule: b128_hi.induct)
  case (1 n)
  show ?case
  proof (cases "n = 0")
    case False
    define d where "d = n mod 128"
    define m where "m = n div 128"
    have n: "n = 128 * m + d" "d < 128" "m < 2 ^ 57" using "1.prems" by (auto simp: d_def m_def)
    define b where "b = (word_of_nat (128 + d) :: byte)"
    define v where "v = (word_of_nat m :: u64)"
    have b: "unat b = 128 + d" unfolding b_def by (rule unat_of_nat_small) (use n in simp)
    have v: "unat v = m" unfolding v_def by (rule unat_of_nat_small) (use n in simp)
    have "base128_loop 0 (b128_hi n @ s) = base128_loop v (b # s)"
      using False "1.IH" [OF False, of "b # s"] "1.prems"
      by (simp add: b128_hi.simps [of n] d_def m_def b_def v_def)
    also have "\<dots> = base128_loop (word_of_nat (128 * unat v + unat b mod 128)) s"
      by (rule base128_more) (use n b v False in \<open>auto simp: word_eq_iff_unat\<close>)
    also have "128 * unat v + unat b mod 128 = n" using n b v by simp
    finally show ?thesis .
  qed simp
qed

lemma parse_base128_enc:
  assumes "n < 2 ^ 64"
  shows "parse_base128_integer (b128 n @ s) = (Some (word_of_nat n), s)"
proof -
  define d where "d = n mod 128"
  define m where "m = n div 128"
  have n: "n = 128 * m + d" "d < 128" "m < 2 ^ 57" using assms by (auto simp: d_def m_def)
  define b where "b = (word_of_nat d :: byte)"
  define v where "v = (word_of_nat m :: u64)"
  have b: "unat b = d" unfolding b_def by (rule unat_of_nat_small) (use n in simp)
  have v: "unat v = m" unfolding v_def by (rule unat_of_nat_small) (use n in simp)
  have "parse_base128_integer (b128 n @ s) = base128_loop v (b # s)"
    using base128_loop_enc [OF n(3)] by (simp add: parse_base128_integer_def b128_def d_def m_def b_def v_def)
  also have "\<dots> = (Some (word_of_nat (128 * unat v + unat b mod 128)), s)"
    by (rule base128_last) (use n b v in auto)
  also have "128 * unat v + unat b mod 128 = n" using n b v by simp
  finally show ?thesis .
qed

lemma base128_loop_dec:
  "base128_loop v s = (Some w, s') \<Longrightarrow> \<exists>bs. s = bs @ s' \<and> b128 (unat w) = b128_hi (unat v) @ bs"
proof (induction v s rule: base128_loop.induct)
  case (2 v b s)
  let ?v = "push_bit 7 v OR ucast (b AND 0x7f)"
  have v: "unat v < 2 ^ 57" "\<not> (v = 0 \<and> b = 0x80)"
    using "2.prems" by (auto simp: drop_bit_eq_0_iff split: if_splits)
  have v': "unat ?v = 128 * unat v + unat b mod 128" by (rule u64_append7 [OF v(1)])
  show ?case
  proof (cases "unat b < 128")
    case True
    then have "b128 (unat ?v) = b128_hi (unat v) @ [b]" unfolding v' by (simp add: b128_step)
    then show ?thesis
      using "2.prems" v True by (auto simp: byte_and_0x80 drop_bit_eq_0_iff Let_def split: if_splits)
  next
    case False
    then have run: "base128_loop ?v s = (Some w, s')"
      using "2.prems" v by (auto simp: byte_and_0x80 drop_bit_eq_0_iff Let_def split: if_splits)
    then obtain bs where bs: "s = bs @ s'" "b128 (unat w) = b128_hi (unat ?v) @ bs"
      using "2.IH" [OF _ v(2) refl] v False by (auto simp: byte_and_0x80 drop_bit_eq_0_iff)
    have "unat v \<noteq> 0 \<or> unat b mod 128 \<noteq> 0"
      using v(2) False byte_high [OF False] by (auto simp: word_eq_iff_unat)
    then have "b128_hi (unat ?v) = b128_hi (unat v) @ [b]"
      unfolding v' using byte_high [OF False] by (simp add: b128_hi_step)
    with bs show ?thesis by simp
  qed
qed simp

lemma parse_base128_iff:
  "parse_base128_integer s = (Some w, s') \<longleftrightarrow> s = b128 (unat w) @ s'"
proof
  assume "parse_base128_integer s = (Some w, s')"
  then show "s = b128 (unat w) @ s'"
    using base128_loop_dec [of 0 s w s'] by (auto simp: parse_base128_integer_def)
next
  assume "s = b128 (unat w) @ s'"
  then show "parse_base128_integer s = (Some w, s')"
    using parse_base128_enc [of "unat w" s'] unat_bound [of w] by simp
qed

section \<open>Tags\<close>

definition tag_valid :: "u32 \<Rightarrow> bool" where
  "tag_valid t \<longleftrightarrow> t AND NOT CBS_ASN1_CONSTRUCTED \<noteq> 0"

definition tag_number :: "u32 \<Rightarrow> nat" where
  "tag_number t = unat t mod 2 ^ 29"

definition tag_class :: "u32 \<Rightarrow> nat" where
  "tag_class t = unat t div 2 ^ 29"

definition der_tag :: "u32 \<Rightarrow> byte list" where
  "der_tag t =
     (if tag_number t < 31 then [word_of_nat (32 * tag_class t + tag_number t)]
      else word_of_nat (32 * tag_class t + 31) # b128 (tag_number t))"

lemma bit_0xe0: "bit (0xe0 :: int) n \<longleftrightarrow> 5 \<le> n \<and> n < 8"
proof -
  have "(0xe0 :: int) = push_bit 5 (mask 3)" by (simp add: mask_eq_exp_minus_1 push_bit_eq_mult)
  then show ?thesis by (simp only: bit_push_bit_iff bit_mask_iff) auto
qed

lemma and_0xe0: "(ucast (b :: byte) :: u32) AND 0xe0 = push_bit 5 (ucast (drop_bit 5 b))"
  by (rule bit_word_eqI) (auto simp: bit_simps bit_0xe0 dest: bit_imp_le_length)

lemma tag_word:
  fixes b :: byte and n :: u32
  assumes "unat n < 2 ^ 29"
  shows "unat (push_bit CBS_ASN1_TAG_SHIFT ((ucast b :: u32) AND 0xe0) OR n) = (unat b div 32) * 2 ^ 29 + unat n"
proof -
  have u: "unat (ucast (drop_bit 5 b) :: u32) = unat b div 32"
    by (subst unat_ucast_up) (simp_all add: unat_drop_bit)
  have "push_bit CBS_ASN1_TAG_SHIFT ((ucast b :: u32) AND 0xe0) = push_bit 29 (ucast (drop_bit 5 b))"
    unfolding and_0xe0 by (simp add: CBS_ASN1_TAG_SHIFT_def push_bit_push_bit)
  then show ?thesis
    using assms unat_bound [of b] u by (simp only:) (subst unat_shift_or; simp)
qed

lemma tag_mask: "unat (ucast CBS_ASN1_TAG_NUMBER_MASK :: u64) = 2 ^ 29 - 1"
  by (simp add: CBS_ASN1_TAG_NUMBER_MASK_def CBS_ASN1_TAG_SHIFT_def)

definition tag_of :: "nat \<Rightarrow> nat \<Rightarrow> u32 option" where
  "tag_of c n = (let t = word_of_nat (c * 2 ^ 29 + n) in if tag_valid t then Some t else None)"

text \<open>What \<open>parse_asn1_tag\<close> does after the first byte.\<close>

lemma get_u8_simps [simp]: "CBS_get_u8 [] = (None, [])" "CBS_get_u8 (b # s) = (Some b, s)"
  by (simp_all add: CBS_get_u8_def bindp_def cbs_get_def retp_def)

lemma parse_asn1_tag_Nil: "parse_asn1_tag [] = (None, [])"
  by (simp add: parse_asn1_tag_def bindp_def)

lemma parse_asn1_tag_short:
  assumes "unat b mod 32 \<noteq> 31"
  shows "parse_asn1_tag (b # s) = (tag_of (unat b div 32) (unat b mod 32), s)"
proof -
  have "unat (b AND 0x1f) = unat b mod 32"
    using unat_and_mask [of b 5] by (simp add: mask_eq_exp_minus_1)
  then have low: "unat (ucast (b AND 0x1f) :: u32) = unat b mod 32"
    by (subst unat_ucast_up) simp_all
  then have ne: "(ucast (b AND 0x1f) :: u32) \<noteq> 0x1f" using assms by auto
  have "unat (ucast (b AND 0x1f) :: u32) < 2 ^ 29" unfolding low by (rule less_trans [of _ 32]) auto
  note t = unat_eq_imp [OF tag_word [OF this, of b], unfolded low]
  from ne show ?thesis
    unfolding parse_asn1_tag_def bindp_def Let_def get_u8_simps
    by (simp only: t prod.case option.case if_False) (simp add: tag_of_def tag_valid_def retp_def failp_def Let_def)
qed

lemma parse_asn1_tag_long:
  assumes "unat b mod 32 = 31"
  shows "parse_asn1_tag (b # s) =
    (case parse_base128_integer s of
       (None, s') \<Rightarrow> (None, s')
     | (Some v, s') \<Rightarrow>
         (if unat v < 31 \<or> 2 ^ 29 \<le> unat v then None else tag_of (unat b div 32) (unat v), s'))"
proof -
  have "unat (b AND 0x1f) = unat b mod 32"
    using unat_and_mask [of b 5] by (simp add: mask_eq_exp_minus_1)
  then have "unat (ucast (b AND 0x1f) :: u32) = 31"
    using assms by (subst unat_ucast_up) simp_all
  then have eq: "(ucast (b AND 0x1f) :: u32) = 0x1f" by (simp add: word_eq_iff_unat)
  have bounds: "v > ucast CBS_ASN1_TAG_NUMBER_MASK \<or> v < 0x1f \<longleftrightarrow> unat v < 31 \<or> 2 ^ 29 \<le> unat v" for v :: u64
    unfolding word_less_nat_alt tag_mask by auto
  have t: "push_bit CBS_ASN1_TAG_SHIFT ((ucast b :: u32) AND 0xe0) OR ucast (v :: u64) =
      word_of_nat ((unat b div 32) * 2 ^ 29 + unat v)" if "\<not> (unat v < 31 \<or> 2 ^ 29 \<le> unat v)" for v
  proof -
    have u: "unat (ucast v :: u32) = unat v"
      using that by (simp add: unsigned_ucast_eq take_bit_nat_eq_self)
    have "unat (ucast v :: u32) < 2 ^ 29" using u that by simp
    from unat_eq_imp [OF tag_word [OF this, of b]] show ?thesis unfolding u .
  qed
  obtain r s' where p: "parse_base128_integer s = (r, s')" by fastforce
  have run: "parse_asn1_tag (b # s) = (case (r, s') of (None, s') \<Rightarrow> (None, s') | (Some v, s') \<Rightarrow>
      (if v > ucast CBS_ASN1_TAG_NUMBER_MASK \<or> v < 0x1f then failp
       else if (push_bit CBS_ASN1_TAG_SHIFT ((ucast b :: u32) AND 0xe0) OR ucast v) AND NOT CBS_ASN1_CONSTRUCTED = 0
       then failp else retp (push_bit CBS_ASN1_TAG_SHIFT ((ucast b :: u32) AND 0xe0) OR ucast v)) s')"
    unfolding parse_asn1_tag_def bindp_def Let_def get_u8_simps
    by (simp only: eq p prod.case option.case simp_thms if_True)
  show ?thesis
  proof (cases r)
    case None
    with run p show ?thesis by simp
  next
    case (Some v)
    show ?thesis
    proof (cases "unat v < 31 \<or> 2 ^ 29 \<le> unat v")
      case True
      then show ?thesis using run p Some by (simp add: bounds failp_def)
    next
      case False
      then show ?thesis
        using run p Some t [OF False] by (simp add: bounds tag_of_def tag_valid_def retp_def failp_def Let_def)
    qed
  qed
qed

lemma tag_split: "c < 8 \<Longrightarrow> n < 2 ^ 29 \<Longrightarrow>
    unat (word_of_nat (c * 2 ^ 29 + n) :: u32) = c * 2 ^ 29 + n \<and>
    tag_number (word_of_nat (c * 2 ^ 29 + n)) = n \<and> tag_class (word_of_nat (c * 2 ^ 29 + n)) = c"
proof -
  assume a: "c < 8" "n < 2 ^ 29"
  have "unat (word_of_nat (c * 2 ^ 29 + n) :: u32) = c * 2 ^ 29 + n"
    by (rule unat_of_nat_small) (use a in simp)
  then show ?thesis using a by (simp add: tag_number_def tag_class_def)
qed

lemma tag_join: "word_of_nat (tag_class t * 2 ^ 29 + tag_number t) = t"
  by (metis div_mult_mod_eq tag_class_def tag_number_def unat_eq_imp)

lemma tag_of_iff:
  assumes "c < 8" "n < 2 ^ 29"
  shows "tag_of c n = Some t \<longleftrightarrow> tag_valid t \<and> tag_class t = c \<and> tag_number t = n"
  using tag_split [OF assms] tag_join [of t] by (auto simp: tag_of_def Let_def)

lemma tag_bounds: "tag_class t < 8" "tag_number t < 2 ^ 29"
  using unat_bound [of t] by (auto simp: tag_class_def tag_number_def)

lemma der_tag_byte: "c < 8 \<Longrightarrow> k < 32 \<Longrightarrow> unat (word_of_nat (32 * c + k) :: byte) = 32 * c + k"
  by (rule unat_of_nat_small) simp

text \<open>A tag is accepted exactly when it is not the reserved tag 0 and in its shortest form.\<close>

lemma parse_asn1_tag_iff:
  "parse_asn1_tag s = (Some t, s') \<longleftrightarrow> tag_valid t \<and> s = der_tag t @ s'"
proof (cases s)
  case Nil
  then show ?thesis by (auto simp: parse_asn1_tag_Nil der_tag_def split: if_splits)
next
  case (Cons b r)
  define c where "c = unat b div 32"
  define k where "k = unat b mod 32"
  have b: "unat b = 32 * c + k" "c < 8" "k < 32"
    using unat_bound [of b] by (auto simp: c_def k_def)
  note tb = tag_bounds [of t]
  have byte: "b = word_of_nat (32 * c' + k') \<longleftrightarrow> c' = c \<and> k' = k" if "c' < 8" "k' < 32" for c' k'
    unfolding word_eq_iff_unat der_tag_byte [OF that] b(1) digit_eq_iff [OF b(3) that(2)] by auto
  show ?thesis
  proof (cases "k = 31")
    case False
    have "parse_asn1_tag s = (tag_of c k, r)"
      using parse_asn1_tag_short [of b r] False Cons by (simp add: c_def k_def)
    moreover have "tag_of c k = Some t \<longleftrightarrow> tag_valid t \<and> tag_class t = c \<and> tag_number t = k"
      using b by (intro tag_of_iff) auto
    moreover have "s = der_tag t @ s' \<longleftrightarrow> tag_class t = c \<and> tag_number t = k \<and> r = s'"
      using byte [of "tag_class t" "tag_number t"] byte [of "tag_class t" 31] tb False b Cons
      by (auto simp: der_tag_def)
    ultimately show ?thesis by auto
  next
    case True
    have "s = der_tag t @ s' \<longleftrightarrow> tag_class t = c \<and> 31 \<le> tag_number t \<and> r = b128 (tag_number t) @ s'"
      using byte [of "tag_class t" "tag_number t"] byte [of "tag_class t" 31] tb True b Cons
      by (auto simp: der_tag_def)
    moreover have "parse_asn1_tag s = (Some t, s') \<longleftrightarrow>
        tag_valid t \<and> tag_class t = c \<and> 31 \<le> tag_number t \<and> r = b128 (tag_number t) @ s'"
    proof (cases "parse_base128_integer r")
      case (Pair x r')
      have run: "parse_asn1_tag s = (case x of None \<Rightarrow> (None, r') | Some v \<Rightarrow>
          (if unat v < 31 \<or> 2 ^ 29 \<le> unat v then None else tag_of c (unat v), r'))"
        using parse_asn1_tag_long [of b r] True Cons Pair unfolding c_def k_def by simp
      have n: "r = b128 (tag_number t) @ s' \<longleftrightarrow> x = Some (word_of_nat (tag_number t)) \<and> r' = s'"
        using parse_base128_iff [of r "word_of_nat (tag_number t)" s'] tb Pair
        by (simp add: unat_of_nat_small)
      show ?thesis
      proof (cases x)
        case (Some v)
        have "v = word_of_nat (tag_number t) \<longleftrightarrow> unat v = tag_number t"
          using tb by (auto simp: word_eq_iff_unat unat_of_nat_small)
        then show ?thesis
          using run n Some tb b tag_of_iff [of c "unat v" t] by auto
      qed (use run n in auto)
    qed
    ultimately show ?thesis by blast
  qed
qed

section \<open>Big-endian numbers\<close>

definition be_nat :: "byte list \<Rightarrow> nat" where
  "be_nat = foldl (\<lambda>r b. 256 * r + unat b) 0"

fun be_bytes :: "nat \<Rightarrow> nat \<Rightarrow> byte list" where
  "be_bytes 0 n = []"
| "be_bytes (Suc k) n = be_bytes k (n div 256) @ [word_of_nat (n mod 256)]"

lemma be_nat_simps [simp]: "be_nat [] = 0" "be_nat (bs @ [b]) = 256 * be_nat bs + unat b"
  by (simp_all add: be_nat_def)

lemma length_be_bytes [simp]: "length (be_bytes k n) = k"
  by (induction k n rule: be_bytes.induct) auto

lemma be_nat_bound: "be_nat bs < 256 ^ length bs"
proof (induction bs rule: rev_induct)
  case (snoc b bs)
  have "256 * be_nat bs + unat b < 256 * (be_nat bs + 1)" using unat_bound [of b] by simp
  also have "\<dots> \<le> 256 * 256 ^ length bs" using snoc by simp
  finally show ?case by simp
qed simp

lemma unat_byte_mod: "unat (word_of_nat (n mod 256) :: byte) = n mod 256"
  by (rule unat_of_nat_small) simp

lemma be_nat_be_bytes: "n < 256 ^ k \<Longrightarrow> be_nat (be_bytes k n) = n"
  by (induction k n rule: be_bytes.induct) (auto simp: unat_byte_mod less_mult_imp_div_less mult.commute)

lemma be_bytes_be_nat: "be_bytes (length bs) (be_nat bs) = bs"
proof (induction bs rule: rev_induct)
  case (snoc b bs)
  have "(256 * be_nat bs + unat b) div 256 = be_nat bs" "(256 * be_nat bs + unat b) mod 256 = unat b"
    using unat_bound [of b] by auto
  with snoc show ?case by (simp only: length_append_singleton be_bytes.simps be_nat_simps) simp
qed simp

lemma be_loop_snoc: "be_loop v (bs @ [b]) = push_bit 8 (be_loop v bs) OR ucast b"
  by (simp add: be_loop_def)

lemma unat_be_loop: "length bs \<le> 8 \<Longrightarrow> unat (be_loop 0 bs) = be_nat bs"
proof (induction bs rule: rev_induct)
  case (snoc b bs)
  then have IH: "unat (be_loop 0 bs) = be_nat bs" by simp
  have "be_nat bs * 2 ^ 8 < 2 ^ 64"
  proof -
    have "be_nat bs < 256 ^ 7"
      by (rule less_le_trans [OF be_nat_bound power_increasing]) (use snoc.prems in auto)
    then show ?thesis by simp
  qed
  moreover have "unat (ucast b :: u64) = unat b" by (rule unat_ucast_up) simp
  moreover have "unat b < 2 ^ 8" using unat_bound [of b] by simp
  ultimately show ?case
    unfolding be_loop_snoc by (subst unat_shift_or) (simp_all add: IH)
qed (simp add: be_loop_def)

lemma cbs_get_u_eq:
  "cbs_get_u n s = (if length s < n then (None, s) else (Some (be_loop 0 (take n s)), drop n s))"
  by (simp add: cbs_get_u_def bindp_def cbs_get_def retp_def)

section \<open>Lengths\<close>

definition len_octets :: "nat \<Rightarrow> nat" where
  "len_octets n = (if n < 256 then 1 else if n < 256 ^ 2 then 2 else if n < 256 ^ 3 then 3 else 4)"

definition der_length :: "nat \<Rightarrow> byte list" where
  "der_length n =
     (if n < 128 then [word_of_nat n] else word_of_nat (128 + len_octets n) # be_bytes (len_octets n) n)"

lemma len_octets_eq:
  "1 \<le> k \<Longrightarrow> k \<le> 4 \<Longrightarrow> n < 256 ^ k \<Longrightarrow> 256 ^ (k - 1) \<le> n \<Longrightarrow> len_octets n = k"
  by (cases "k = 1"; cases "k = 2"; cases "k = 3"; cases "k = 4") (auto simp: len_octets_def)

lemma len_octets_bounds:
  "n < 256 ^ 4 \<Longrightarrow> 1 \<le> len_octets n \<and> len_octets n \<le> 4 \<and> n < 256 ^ len_octets n"
  "128 \<le> n \<Longrightarrow> 256 ^ (len_octets n - 1) \<le> n"
  by (auto simp: len_octets_def)

lemma der_length_iff:
  assumes "n < 2 ^ 32"
  shows "lb # r = der_length n @ r' \<longleftrightarrow>
    (if unat lb < 128 then n = unat lb \<and> r' = r
     else 1 \<le> unat lb - 128 \<and> unat lb - 128 \<le> 4 \<and> unat lb - 128 \<le> length r \<and>
       n = be_nat (take (unat lb - 128) r) \<and> 128 \<le> n \<and> 256 ^ (unat lb - 128 - 1) \<le> n \<and>
       r' = drop (unat lb - 128) r)"
proof (cases "n < 128")
  case True
  have "lb = word_of_nat n \<longleftrightarrow> unat lb = n"
    using True by (auto simp: word_eq_iff_unat unat_of_nat_small)
  with True show ?thesis by (auto simp: der_length_def)
next
  case False
  define k where "k = len_octets n"
  have k: "1 \<le> k" "k \<le> 4" "n < 256 ^ k" "256 ^ (k - 1) \<le> n"
    using len_octets_bounds [of n] assms False by (auto simp: k_def)
  have "unat (word_of_nat (128 + k) :: byte) = 128 + k" by (rule unat_of_nat_small) (use k in simp)
  then have lb: "lb = word_of_nat (128 + k) \<longleftrightarrow> unat lb = 128 + k" by (metis unat_eq_imp)
  have eq: "r = be_bytes k n @ r' \<longleftrightarrow> k \<le> length r \<and> n = be_nat (take k r) \<and> r' = drop k r"
  proof
    assume "r = be_bytes k n @ r'"
    then show "k \<le> length r \<and> n = be_nat (take k r) \<and> r' = drop k r"
      using k by (simp add: be_nat_be_bytes)
  next
    assume a: "k \<le> length r \<and> n = be_nat (take k r) \<and> r' = drop k r"
    then have "be_bytes k n = take k r" using be_bytes_be_nat [of "take k r"] by (simp add: min_absorb2)
    with a show "r = be_bytes k n @ r'" by simp
  qed
  have "lb # r = der_length n @ r' \<longleftrightarrow> unat lb = 128 + k \<and> r = be_bytes k n @ r'"
    using False unfolding der_length_def k_def [symmetric] lb [symmetric] by auto
  also have "\<dots> \<longleftrightarrow> unat lb = 128 + k \<and> k \<le> length r \<and> n = be_nat (take k r) \<and> r' = drop k r"
    unfolding eq ..
  also have "\<dots> \<longleftrightarrow> (if unat lb < 128 then n = unat lb \<and> r' = r
     else 1 \<le> unat lb - 128 \<and> unat lb - 128 \<le> 4 \<and> unat lb - 128 \<le> length r \<and>
       n = be_nat (take (unat lb - 128) r) \<and> 128 \<le> n \<and> 256 ^ (unat lb - 128 - 1) \<le> n \<and>
       r' = drop (unat lb - 128) r)"
    (is "?L \<longleftrightarrow> ?R")
  proof
    assume ?L
    then show ?R using k False by auto
  next
    assume R: ?R
    define j where "j = unat lb - 128"
    from R False have j: "unat lb = 128 + j" "1 \<le> j" "j \<le> 4" "j \<le> length r" "n = be_nat (take j r)"
      "256 ^ (j - 1) \<le> n" "r' = drop j r"
      by (auto simp: j_def split: if_splits)
    have "n < 256 ^ j" using be_nat_bound [of "take j r"] j by simp
    then have "k = j" unfolding k_def using j by (intro len_octets_eq) auto
    with j show ?L by simp
  qed
  finally show ?thesis .
qed
section \<open>Elements\<close>

lemma length_b128_hi: "n < 128 ^ k \<Longrightarrow> length (b128_hi n) \<le> k"
proof (induction k arbitrary: n)
  case (Suc k)
  then have "length (b128_hi (n div 128)) \<le> k" by (intro Suc.IH) (simp add: less_mult_imp_div_less mult.commute)
  then show ?case by (subst b128_hi.simps) simp
qed simp

lemma length_der_tag: "length (der_tag t) \<le> 6"
  using length_b128_hi [of "tag_number t div 128" 4] tag_bounds [of t]
  by (auto simp: der_tag_def b128_def)

definition der_header :: "u32 \<Rightarrow> nat \<Rightarrow> byte list" where
  "der_header t n = der_tag t @ der_length n"

definition der_element :: "u32 \<Rightarrow> byte list \<Rightarrow> element" where
  "der_element t body =
     \<lparr>el_out = der_header t (length body) @ body, el_tag = t, el_header_len = length (der_header t (length body)),
      el_ber_found = False, el_indefinite = False\<rparr>"

text \<open>The element that ends the given number of bytes into the input.\<close>

lemma finish_eq:
  "bindp (CBS_get_bytes len) (\<lambda>out. retp (g out)) s = (Some e, s') \<longleftrightarrow>
   len \<le> length s \<and> s' = drop len s \<and> e = g (take len s)"
  by (auto simp: bindp_def CBS_get_bytes_def cbs_get_def retp_def)

definition restores :: "cbs \<Rightarrow> 'a option \<times> cbs \<Rightarrow> bool" where
  "restores s x \<longleftrightarrow> (fst x = None \<longrightarrow> snd x = s)"

lemma restoresI:
  "restores s (None, s)"
  "restores s (bindp (CBS_get_bytes len) (\<lambda>out. retp (g out)) s)"
  "restores s x \<Longrightarrow> restores s y \<Longrightarrow> restores s (if b then x else y)"
  "restores s x \<Longrightarrow> (\<And>a. restores s (z a)) \<Longrightarrow> restores s (case m of None \<Rightarrow> x | Some a \<Rightarrow> z a)"
  "(\<And>a r. restores s (w a r)) \<Longrightarrow> restores s (case p of (a, r) \<Rightarrow> w a r)"
  by (auto simp: restores_def bindp_def CBS_get_bytes_def cbs_get_def retp_def split: option.split prod.split)

lemma element_restores: "restores s (cbs_get_any_asn1_element ber_ok s)"
  unfolding cbs_get_any_asn1_element_def Let_def by (intro restoresI)

text \<open>The whole parser on a header that has been recognised up to its first length byte.\<close>

lemma element_run:
  assumes t: "tag_valid t" "s = der_tag t @ lb # r"
  defines "h \<equiv> length (der_tag t) + 1" and "k \<equiv> unat lb - 128"
  shows "cbs_get_any_asn1_element ber_ok s = (Some e, s') \<longleftrightarrow>
    (if unat lb < 128
     then unat lb + h \<le> length s \<and> s' = drop (unat lb + h) s \<and>
          e = \<lparr>el_out = take (unat lb + h) s, el_tag = t, el_header_len = h, el_ber_found = False, el_indefinite = False\<rparr>
     else if ber_ok \<and> t AND CBS_ASN1_CONSTRUCTED \<noteq> 0 \<and> k = 0
     then s' = r \<and> e = \<lparr>el_out = take h s, el_tag = t, el_header_len = h, el_ber_found = True, el_indefinite = True\<rparr>
     else 1 \<le> k \<and> k \<le> 4 \<and> k \<le> length r \<and>
          (ber_ok \<or> 128 \<le> be_nat (take k r) \<and> 256 ^ (k - 1) \<le> be_nat (take k r)) \<and>
          be_nat (take k r) + h + k \<le> length s \<and> s' = drop (be_nat (take k r) + h + k) s \<and>
          e = \<lparr>el_out = take (be_nat (take k r) + h + k) s, el_tag = t, el_header_len = h + k,
               el_ber_found = (\<not> (128 \<le> be_nat (take k r) \<and> 256 ^ (k - 1) \<le> be_nat (take k r))), el_indefinite = False\<rparr>)"
proof -
  have tag: "parse_asn1_tag s = (Some t, lb # r)" using t by (simp add: parse_asn1_tag_iff)
  have hl: "length s - length r = h" using t by (simp add: h_def)
  have hs: "drop h s = r" "h \<le> length s" using t by (simp_all add: h_def)
  have k7: "unat (lb AND 0x7f) = k" if "\<not> unat lb < 128"
    using that unat_bound [of lb] by (simp add: unat_and_0x7f k_def le_mod_geq)
  let ?n = "be_nat (take k r)" and ?v = "be_loop 0 (take k r)"
  consider (short) "unat lb < 128"
    | (indefinite) "\<not> unat lb < 128" "ber_ok \<and> t AND CBS_ASN1_CONSTRUCTED \<noteq> 0 \<and> k = 0"
    | (malformed) "\<not> unat lb < 128" "\<not> (ber_ok \<and> t AND CBS_ASN1_CONSTRUCTED \<noteq> 0 \<and> k = 0)" "k = 0 \<or> k > 4 \<or> length r < k"
    | (long) "\<not> unat lb < 128" "\<not> (ber_ok \<and> t AND CBS_ASN1_CONSTRUCTED \<noteq> 0 \<and> k = 0)" "k \<noteq> 0" "k \<le> 4" "k \<le> length r"
    by linarith
  then show ?thesis
  proof cases
    case short
    then show ?thesis
      unfolding cbs_get_any_asn1_element_def tag by (simp add: byte_and_0x80 hl finish_eq Let_def)
  next
    case indefinite
    then show ?thesis
      unfolding cbs_get_any_asn1_element_def tag
      using k7 hs by (auto simp: byte_and_0x80 hl finish_eq Let_def)
  next
    case malformed
    then show ?thesis
      unfolding cbs_get_any_asn1_element_def tag
      using k7 by (auto simp: byte_and_0x80 hl Let_def cbs_get_u_eq)
  next
    case long
    have "?n < 256 ^ 4" by (rule less_le_trans [OF be_nat_bound power_increasing]) (use long in auto)
    then have small: "?n < 2 ^ 32" by simp
    have L: "unat ?v = ?n" using long by (intro unat_be_loop) auto
    have wrap: "size_add (size_add ?n h) k = ?n + h + k" "size_add ?n (h + k) = ?n + h + k"
      using small long length_der_tag [of t] by (simp_all add: size_add_def size_max_def h_def)
    have p: "(2 :: nat) ^ ((k - 1) * 8) = 256 ^ (k - 1)"
      using power_mult [of "2 :: nat" 8 "k - 1"] by (simp add: mult.commute)
    have minimal: "(?v < 128 \<or> drop_bit ((k - 1) * 8) ?v = 0) \<longleftrightarrow> \<not> (128 \<le> ?n \<and> 256 ^ (k - 1) \<le> ?n)"
      unfolding word_less_nat_alt drop_bit_eq_0_iff L p by auto
    have run: "cbs_get_any_asn1_element ber_ok s =
      (if (?v < 128 \<or> drop_bit ((k - 1) * 8) ?v = 0) \<and> \<not> ber_ok then (None, s)
       else if size_add (size_add (unat ?v) h) k < unat ?v then (None, s)
       else bindp (CBS_get_bytes (size_add (unat ?v) (h + k)))
         (\<lambda>out. retp \<lparr>el_out = out, el_tag = t, el_header_len = h + k,
            el_ber_found = (?v < 128 \<or> drop_bit ((k - 1) * 8) ?v = 0), el_indefinite = False\<rparr>) s)"
      unfolding cbs_get_any_asn1_element_def tag
      using long k7 by (simp add: byte_and_0x80 hl Let_def cbs_get_u_eq)
    show ?thesis
      unfolding run minimal using long wrap L by (auto simp: finish_eq)
  qed
qed
text \<open>For DER.\<close>

lemma element_step:
  assumes t: "tag_valid t" "s = der_tag t @ lb # r"
  defines "h \<equiv> length (der_tag t) + 1" and "k \<equiv> unat lb - 128"
  shows "cbs_get_any_asn1_element False s = (Some e, s') \<longleftrightarrow>
    (if unat lb < 128
     then unat lb + h \<le> length s \<and> s' = drop (unat lb + h) s \<and>
          e = \<lparr>el_out = take (unat lb + h) s, el_tag = t, el_header_len = h, el_ber_found = False, el_indefinite = False\<rparr>
     else 1 \<le> k \<and> k \<le> 4 \<and> k \<le> length r \<and> 128 \<le> be_nat (take k r) \<and> 256 ^ (k - 1) \<le> be_nat (take k r) \<and>
          be_nat (take k r) + h + k \<le> length s \<and> s' = drop (be_nat (take k r) + h + k) s \<and>
          e = \<lparr>el_out = take (be_nat (take k r) + h + k) s, el_tag = t, el_header_len = h + k,
               el_ber_found = False, el_indefinite = False\<rparr>)"
  unfolding element_run [OF t] h_def k_def by auto

lemma element_length:
  assumes t: "tag_valid t" "s = der_tag t @ lb # r"
    and n: "n < 2 ^ 32" "lb # r = der_length n @ r'"
  shows "cbs_get_any_asn1_element False s = (Some e, s') \<longleftrightarrow>
    n \<le> length r' \<and> s' = drop n r' \<and> e = der_element t (take n r')"
proof -
  note iff = n(2) [unfolded der_length_iff [OF n(1)]]
  have s: "s = der_header t n @ r'" using t n(2) by (simp add: der_header_def)
  let ?h = "length (der_header t n)"
  have el: "n \<le> length r' \<Longrightarrow> take (n + ?h) s = el_out (der_element t (take n r'))"
    "n + ?h \<le> length s \<longleftrightarrow> n \<le> length r'" "drop (n + ?h) s = drop n r'"
    by (simp_all add: s der_element_def)
  have h: "length (der_tag t) + 1 + (if unat lb < 128 then 0 else unat lb - 128) = ?h"
  proof -
    have "length (lb # r) = length (der_length n) + length r'" using n(2) by (metis length_append)
    moreover have "length r' = length r - (if unat lb < 128 then 0 else unat lb - 128)"
      "(if unat lb < 128 then 0 else unat lb - 128) \<le> length r"
      using iff by (auto split: if_splits)
    ultimately show ?thesis by (simp add: der_header_def)
  qed
  have tot: "n + ?h = n + (length (der_tag t) + 1) + (if unat lb < 128 then 0 else unat lb - 128)"
    using h by linarith
  have e: "e = der_element t (take n r') \<longleftrightarrow> e = \<lparr>el_out = take (n + ?h) s, el_tag = t, el_header_len = ?h,
      el_ber_found = False, el_indefinite = False\<rparr>" if "n \<le> length r'"
    using el(1) [OF that] that by (simp add: der_element_def)
  show ?thesis
    unfolding element_step [OF t]
    using iff e el(2,3) h tot by (cases "unat lb < 128") auto
qed

text \<open>The DER parser accepts exactly the canonical encodings.\<close>

lemma element_iff:
  "cbs_get_any_asn1_element False s = (Some e, s') \<longleftrightarrow>
   (\<exists>t body. tag_valid t \<and> length body < 2 ^ 32 \<and> e = der_element t body \<and>
     s = der_header t (length body) @ body @ s')" (is "?L \<longleftrightarrow> ?R")
proof
  assume L: ?L
  then obtain t r1 where tag: "parse_asn1_tag s = (Some t, r1)"
    unfolding cbs_get_any_asn1_element_def by (auto split: prod.splits option.splits)
  with L obtain lb r where lb: "r1 = lb # r"
    unfolding cbs_get_any_asn1_element_def by (cases r1) auto
  have t: "tag_valid t" "s = der_tag t @ lb # r" using tag lb by (simp_all add: parse_asn1_tag_iff)
  define k where "k = (if unat lb < 128 then 0 else unat lb - 128)"
  define n where "n = (if unat lb < 128 then unat lb else be_nat (take k r))"
  have k: "k \<le> 4" using L unfolding element_step [OF t] k_def by (simp split: if_splits)
  have "be_nat (take k r) < 256 ^ 4"
    by (rule less_le_trans [OF be_nat_bound power_increasing]) (use k in auto)
  then have n: "n < 2 ^ 32" by (auto simp: n_def)
  have "lb # r = der_length n @ drop k r"
    unfolding der_length_iff [OF n] using L [unfolded element_step [OF t]]
    by (auto simp: n_def k_def split: if_splits)
  from L [unfolded element_length [OF t n this]] n t this show ?R
    by (intro exI [of _ t] exI [of _ "take n (drop k r)"]) (auto simp: der_header_def simp del: drop_drop)
next
  assume ?R
  then obtain t body where t: "tag_valid t" and len: "length body < 2 ^ 32" and e: "e = der_element t body"
    and s: "s = der_header t (length body) @ body @ s'" by blast
  obtain lb r where lb: "der_length (length body) @ body @ s' = lb # r"
    by (cases "der_length (length body) @ body @ s'") (auto simp: der_length_def split: if_splits)
  have s': "s = der_tag t @ lb # r" using s lb by (simp add: der_header_def)
  show ?L
    unfolding element_length [OF t s' len lb [symmetric]] using e by simp
qed
section \<open>Contents of an element\<close>

lemma skip_header: "CBS_skip (el_header_len (der_element t body)) (el_out (der_element t body)) = (Some (), body)"
  by (simp add: der_element_def CBS_skip_def bindp_def cbs_get_def retp_def)

lemma element_None: "CBS_get_any_asn1_element s = (None, s') \<Longrightarrow> s' = s"
  using element_restores [of s False] by (simp add: restores_def CBS_get_any_asn1_element_def)

lemma any_asn1_element_iff:
  "CBS_get_any_asn1_element s = (Some e, s') \<longleftrightarrow>
   (\<exists>t body. tag_valid t \<and> length body < 2 ^ 32 \<and> e = der_element t body \<and>
     s = der_header t (length body) @ body @ s')"
  unfolding CBS_get_any_asn1_element_def by (rule element_iff)

lemma get_any_asn1_iff:
  "CBS_get_any_asn1 s = (Some (body, t), s') \<longleftrightarrow>
   tag_valid t \<and> length body < 2 ^ 32 \<and> s = der_header t (length body) @ body @ s'"
proof (cases "CBS_get_any_asn1_element s")
  case (Pair x r)
  show ?thesis
  proof (cases x)
    case None
    then show ?thesis
      using Pair any_asn1_element_iff [of s "der_element t body" s'] by (auto simp: CBS_get_any_asn1_def bindp_def)
  next
    case (Some e)
    then obtain t0 b0 where e: "tag_valid t0" "length b0 < 2 ^ 32" "e = der_element t0 b0"
      "s = der_header t0 (length b0) @ b0 @ r"
      using Pair any_asn1_element_iff [of s e r] by auto
    have run: "CBS_get_any_asn1 s = (Some (b0, t0), r)"
      using Some Pair e skip_header [of t0 b0] by (simp add: CBS_get_any_asn1_def bindp_def) (simp add: der_element_def)
    show ?thesis
    proof
      assume "CBS_get_any_asn1 s = (Some (body, t), s')"
      with run e show "tag_valid t \<and> length body < 2 ^ 32 \<and> s = der_header t (length body) @ body @ s'" by simp
    next
      assume a: "tag_valid t \<and> length body < 2 ^ 32 \<and> s = der_header t (length body) @ body @ s'"
      then have "CBS_get_any_asn1_element s = (Some (der_element t body), s')"
        using any_asn1_element_iff by blast
      with Some Pair e(3) skip_header [of t body] show "CBS_get_any_asn1 s = (Some (body, t), s')"
        by (simp add: CBS_get_any_asn1_def bindp_def) (simp add: der_element_def)
    qed
  qed
qed

lemma get_asn1_iff:
  "CBS_get_asn1 t s = (Some body, s') \<longleftrightarrow>
   tag_valid t \<and> length body < 2 ^ 32 \<and> s = der_header t (length body) @ body @ s'"
proof -
  have "CBS_get_asn1 t s = (Some body, s') \<longleftrightarrow> CBS_get_any_asn1 s = (Some (body, t), s')"
    by (auto simp: CBS_get_asn1_def cbs_get_asn1_def CBS_get_any_asn1_def bindp_def split: option.splits prod.splits if_splits)
  then show ?thesis by (simp add: get_any_asn1_iff)
qed
section \<open>Integers\<close>

fun be_min :: "nat \<Rightarrow> byte list" where
  "be_min n = (if n < 256 then [word_of_nat n] else be_min (n div 256) @ [word_of_nat (n mod 256)])"

declare be_min.simps [simp del]

text \<open>The contents of a non-negative INTEGER: the shortest big-endian form with a clear sign bit.\<close>

definition der_uint :: "nat \<Rightarrow> byte list" where
  "der_uint n = (if unat (hd (be_min n)) < 128 then be_min n else 0 # be_min n)"

lemma be_min_nonempty [simp]: "be_min n \<noteq> []"
  by (subst be_min.simps) simp

lemma be_nat_single [simp]: "be_nat [b] = unat b"
  by (simp add: be_nat_def)

lemma be_nat_be_min: "be_nat (be_min n) = n"
proof (induction n rule: be_min.induct)
  case (1 n)
  then show ?case by (subst be_min.simps) (auto simp: unat_of_nat_small unat_byte_mod)
qed

lemma hd_be_min: "256 \<le> n \<Longrightarrow> hd (be_min n) \<noteq> 0"
proof (induction n rule: be_min.induct)
  case (1 n)
  have "hd (be_min (n div 256)) \<noteq> 0"
  proof (cases "n div 256 < 256")
    case True
    then have "unat (word_of_nat (n div 256) :: byte) \<noteq> 0" using "1.prems" by (simp add: unat_of_nat_small)
    then have "(word_of_nat (n div 256) :: byte) \<noteq> 0" by (metis unat_0)
    with True show ?thesis by (simp add: be_min.simps [of "n div 256"])
  qed (use 1 in auto)
  then show ?case using "1.prems" by (subst be_min.simps) (simp add: hd_append)
qed

lemma be_nat_zero: "be_nat (0 # bs) = be_nat bs"
  by (simp add: be_nat_def)

lemma be_nat_pos: "bs \<noteq> [] \<Longrightarrow> hd bs \<noteq> 0 \<Longrightarrow> 0 < be_nat bs"
proof (induction bs rule: rev_induct)
  case (snoc b bs)
  show ?case
  proof (cases "bs = []")
    case True
    with snoc.prems have "unat b \<noteq> 0" by (auto simp: unat_eq_0)
    with True show ?thesis by simp
  qed (use snoc in simp)
qed simp

lemma be_min_be_nat: "bs \<noteq> [] \<Longrightarrow> length bs = 1 \<or> hd bs \<noteq> 0 \<Longrightarrow> be_min (be_nat bs) = bs"
proof (induction bs rule: rev_induct)
  case (snoc b bs)
  show ?case
  proof (cases "bs = []")
    case True
    have "unat b < 256" using unat_bound [of b] by simp
    with True show ?thesis by (subst be_min.simps) simp
  next
    case False
    then have hd: "hd bs \<noteq> 0" using snoc.prems by simp
    have d: "(256 * be_nat bs + unat b) div 256 = be_nat bs" "(256 * be_nat bs + unat b) mod 256 = unat b"
      using unat_bound [of b] by auto
    have "\<not> 256 * be_nat bs + unat b < 256" using be_nat_pos [OF False hd] by simp
    then show ?thesis
      using snoc.IH [OF False] hd unfolding be_nat_simps
      by (subst be_min.simps) (simp only: if_False d, simp)
  qed
qed simp

lemma is_unsigned_iff:
  "CBS_is_unsigned_asn1_integer b \<longleftrightarrow>
   b \<noteq> [] \<and> unat (hd b) < 128 \<and> (1 < length b \<and> hd b = 0 \<longrightarrow> \<not> unat (b ! 1) < 128)"
proof (cases b)
  case (Cons x xs)
  have "x = 0xff \<Longrightarrow> unat x = 255" by simp
  then show ?thesis
    using Cons by (cases xs) (auto simp: CBS_is_unsigned_asn1_integer_def CBS_is_valid_asn1_integer_def byte_and_0x80 Let_def)
qed (simp add: CBS_is_unsigned_asn1_integer_def CBS_is_valid_asn1_integer_def)

lemma be_nat_Cons: "be_nat (b # bs) = unat b * 256 ^ length bs + be_nat bs"
proof (induction bs rule: rev_induct)
  case (snoc x xs)
  have "be_nat (b # xs @ [x]) = 256 * be_nat (b # xs) + unat x" using be_nat_simps(2) [of "b # xs" x] by simp
  with snoc show ?case by (simp add: algebra_simps)
qed simp

lemma u64_append8: "unat (v :: u64) < 2 ^ 56 \<Longrightarrow> unat (push_bit 8 v OR ucast (b :: byte)) = 256 * unat v + unat b"
  using unat_bound [of b] by (subst unat_shift_or) (auto simp: unat_ucast_up)

lemma uint64_loop_iff:
  "uint64_loop v bs = Some w \<longleftrightarrow> unat w = unat v * 256 ^ length bs + be_nat bs"
proof (induction v bs rule: uint64_loop.induct)
  case (1 out)
  then show ?case by (auto simp: word_eq_iff_unat)
next
  case (2 v b bs)
  show ?case
  proof (cases "unat v < 2 ^ 56")
    case True
    then have "drop_bit 56 v = 0" by (simp add: drop_bit_eq_0_iff)
    with 2 u64_append8 [OF True, of b] show ?thesis by (simp add: be_nat_Cons algebra_simps)
  next
    case False
    have "(2 :: nat) ^ 56 * 256 ^ 1 \<le> unat v * 256 ^ length (b # bs)"
      by (intro mult_mono power_increasing) (use False in auto)
    then have "unat w \<noteq> unat v * 256 ^ length (b # bs) + be_nat (b # bs)"
      using unat_bound [of w] by simp
    moreover have "drop_bit 56 v \<noteq> 0" using False by (simp add: drop_bit_eq_0_iff)
    ultimately show ?thesis by simp
  qed
qed

lemma der_uint_iff:
  "CBS_is_unsigned_asn1_integer b \<and> uint64_loop 0 b = Some v \<longleftrightarrow> b = der_uint (unat v)"
proof
  assume a: "CBS_is_unsigned_asn1_integer b \<and> uint64_loop 0 b = Some v"
  then have v: "unat v = be_nat b" by (simp add: uint64_loop_iff)
  have b: "b \<noteq> []" "unat (hd b) < 128" "1 < length b \<and> hd b = 0 \<longrightarrow> \<not> unat (b ! 1) < 128"
    using a by (auto simp: is_unsigned_iff)
  show "b = der_uint (unat v)"
  proof (cases "length b = 1 \<or> hd b \<noteq> 0")
    case True
    then show ?thesis using b(1,2) be_min_be_nat [OF b(1) True] by (simp add: v der_uint_def)
  next
    case False
    then obtain c cs where c: "b = 0 # c # cs" using b(1) by (cases b; cases "tl b") auto
    with b have "\<not> unat c < 128" by simp
    then have "c \<noteq> 0" by auto
    then have "be_min (be_nat (c # cs)) = c # cs" by (intro be_min_be_nat) auto
    with c \<open>\<not> unat c < 128\<close> show ?thesis by (simp add: v der_uint_def be_nat_zero)
  qed
next
  assume b: "b = der_uint (unat v)"
  have "be_nat b = unat v" by (simp add: b der_uint_def be_nat_be_min be_nat_zero)
  moreover have "1 < length (be_min (unat v)) \<Longrightarrow> hd (be_min (unat v)) \<noteq> 0"
    using hd_be_min [of "unat v"] by (cases "unat v < 256") (auto simp: be_min.simps [of "unat v"])
  then have "CBS_is_unsigned_asn1_integer b"
    unfolding is_unsigned_iff b der_uint_def by (auto simp: hd_conv_nth)
  ultimately show "CBS_is_unsigned_asn1_integer b \<and> uint64_loop 0 b = Some v"
    by (simp add: uint64_loop_iff)
qed

lemma length_be_min: "n < 256 ^ Suc k \<Longrightarrow> length (be_min n) \<le> Suc k"
proof (induction k arbitrary: n)
  case (Suc k)
  then have "length (be_min (n div 256)) \<le> Suc k" by (intro Suc.IH) (simp add: less_mult_imp_div_less mult.commute)
  then show ?case by (subst be_min.simps) simp
qed (simp add: be_min.simps)

lemma length_der_uint: "length (der_uint (unat (v :: u64))) \<le> 9"
  using length_be_min [of "unat v" 7] unat_bound [of v] by (simp add: der_uint_def)

lemma get_asn1_uint64_iff:
  "CBS_get_asn1_uint64 s = (Some v, s') \<longleftrightarrow>
   s = der_header CBS_ASN1_INTEGER (length (der_uint (unat v))) @ der_uint (unat v) @ s'"
proof -
  have tag: "tag_valid CBS_ASN1_INTEGER" by (simp add: tag_valid_def CBS_ASN1_INTEGER_def CBS_ASN1_CONSTRUCTED_def CBS_ASN1_TAG_SHIFT_def)
  have "CBS_get_asn1_uint64 s = (Some v, s') \<longleftrightarrow>
      (\<exists>b. CBS_get_asn1 CBS_ASN1_INTEGER s = (Some b, s') \<and> CBS_is_unsigned_asn1_integer b \<and> uint64_loop 0 b = Some v)"
    by (auto simp: CBS_get_asn1_uint64_def bindp_def failp_def retp_def split: prod.splits option.splits if_splits)
  also have "\<dots> \<longleftrightarrow> CBS_get_asn1 CBS_ASN1_INTEGER s = (Some (der_uint (unat v)), s')"
    unfolding der_uint_iff by blast
  also have "\<dots> \<longleftrightarrow> s = der_header CBS_ASN1_INTEGER (length (der_uint (unat v))) @ der_uint (unat v) @ s'"
    using tag length_der_uint [of v] by (simp add: get_asn1_iff)
  finally show ?thesis .
qed
section \<open>Signed integers\<close>

text \<open>The value of the contents of an INTEGER.\<close>

definition be_int :: "byte list \<Rightarrow> int" where
  "be_int bs = int (be_nat bs) - (if bs \<noteq> [] \<and> \<not> unat (hd bs) < 128 then 256 ^ length bs else 0)"

definition int_minimal :: "byte list \<Rightarrow> bool" where
  "int_minimal bs \<longleftrightarrow> bs \<noteq> [] \<and>
     (1 < length bs \<longrightarrow> \<not> (hd bs = 0 \<and> unat (bs ! 1) < 128) \<and> \<not> (hd bs = 0xff \<and> \<not> unat (bs ! 1) < 128))"

lemma is_valid_integer_eq:
  "CBS_is_valid_asn1_integer bs = (if int_minimal bs then Some (\<not> unat (hd bs) < 128) else None)"
proof (cases bs)
  case (Cons x xs)
  then show ?thesis
    by (cases xs) (auto simp: CBS_is_valid_asn1_integer_def int_minimal_def byte_and_0x80 Let_def)
qed (simp add: CBS_is_valid_asn1_integer_def int_minimal_def)

lemma be_nat_append: "be_nat (as @ bs) = be_nat as * 256 ^ length bs + be_nat bs"
  by (induction bs rule: rev_induct) (simp_all add: append_assoc [symmetric] algebra_simps del: append_assoc)

lemma be_nat_replicate_ff: "int (be_nat (replicate n 0xff)) = 256 ^ n - 1"
  by (induction n) (simp_all add: be_nat_Cons)

lemma be_nat_replicate_0: "be_nat (replicate n 0) = 0"
  by (induction n) (simp_all add: be_nat_Cons)

lemma sint_eq: "sint (w :: u64) = int (unat w) - (if unat w < 2 ^ 63 then 0 else 2 ^ 64)"
proof -
  have u: "uint w = int (unat w)" by simp
  have "sint w = take_bit 64 (uint w) - 2 ^ 64 * of_bool (bit (uint w) 63)"
    by (simp add: sint_uint signed_take_bit_eq_take_bit_minus)
  moreover have "take_bit 64 (uint w) = uint w"
    using unsigned_less [of w, where 'a = int] by (simp add: take_bit_int_eq_self_iff)
  moreover have "bit (uint w) 63 \<longleftrightarrow> \<not> unat w < 2 ^ 63"
  proof -
    have "unat w div 2 ^ 63 = (if unat w < 2 ^ 63 then 0 else 1)"
      by (rule div_nat_eqI) (use unat_bound [of w] in auto)
    moreover have "bit (uint w) 63 \<longleftrightarrow> bit (unat w) 63" by (simp add: bit_unsigned_iff)
    ultimately show ?thesis by (simp only: bit_iff_odd [of "unat w"]) auto
  qed
  ultimately have "sint w = int (unat w) - 2 ^ 64 * of_bool (\<not> unat w < 2 ^ 63)" by (simp only: u)
  then show ?thesis by simp
qed

lemma hd_sign:
  assumes "bs \<noteq> []"
  shows "unat (hd bs) < 128 \<longleftrightarrow> 2 * be_nat bs < 256 ^ length bs"
proof (cases bs)
  case (Cons x xs)
  define p where "p = (256 :: nat) ^ length xs"
  have r: "be_nat xs < p" using be_nat_bound [of xs] by (simp add: p_def)
  have "unat x < 128 \<longleftrightarrow> 2 * (unat x * p + be_nat xs) < 256 * p"
  proof
    assume "unat x < 128"
    then have "unat x * p \<le> 127 * p" by (intro mult_right_mono) auto
    with r have "unat x * p + be_nat xs < 128 * p" by linarith
    then show "2 * (unat x * p + be_nat xs) < 256 * p" by simp
  next
    assume a: "2 * (unat x * p + be_nat xs) < 256 * p"
    show "unat x < 128"
    proof (rule ccontr)
      assume "\<not> unat x < 128"
      then have "2 * (128 * p) \<le> 2 * (unat x * p)" by (intro mult_le_mono) auto
      also have "\<dots> \<le> 2 * (unat x * p + be_nat xs)" by simp
      finally show False using a by simp
    qed
  qed
  with Cons show ?thesis by (simp add: be_nat_Cons p_def)
qed (use assms in simp)

lemma sign_extend:
  assumes "bs \<noteq> []" "length bs \<le> 8"
  shows "sint (be_loop 0 (replicate (8 - length bs) (if \<not> unat (hd bs) < 128 then 0xff else 0) @ bs)) = be_int bs"
proof -
  define m where "m = 8 - length bs"
  define p where "p = (256 :: nat) ^ length bs"
  have p8: "256 ^ m * p = (2 :: nat) ^ 64"
    using assms(2) by (simp add: m_def p_def power_add [symmetric])
  have p: "int p = 256 ^ length bs" by (simp add: p_def)
  have lt: "be_nat bs < p" using be_nat_bound by (simp add: p_def)
  note sign = hd_sign [OF assms(1), folded p_def]
  show ?thesis
  proof (cases "unat (hd bs) < 128")
    case True
    have "unat (be_loop 0 (replicate m 0 @ bs)) = be_nat bs"
      using assms(2) by (subst unat_be_loop) (simp_all add: m_def be_nat_append be_nat_replicate_0)
    moreover have "p \<le> 2 ^ 64"
      using power_increasing [OF assms(2), of "256 :: nat"] by (simp add: p_def)
    ultimately show ?thesis
      using True sign by (simp add: sint_eq be_int_def m_def)
  next
    case False
    have v: "int (unat (be_loop 0 (replicate m 0xff @ bs))) = 2 ^ 64 - int p + int (be_nat bs)"
    proof -
      have "unat (be_loop 0 (replicate m 0xff @ bs)) = be_nat (replicate m 0xff) * p + be_nat bs"
        using assms(2) by (subst unat_be_loop) (simp_all add: m_def p_def be_nat_append)
      then have "int (unat (be_loop 0 (replicate m 0xff @ bs))) = (256 ^ m - 1) * int p + int (be_nat bs)"
        by (simp add: be_nat_replicate_ff)
      also have "(256 ^ m - 1) * int p = int (256 ^ m * p) - int p" by (simp add: algebra_simps)
      finally show ?thesis unfolding p8 by simp
    qed
    have "p \<le> 2 ^ 64"
      using power_increasing [OF assms(2), of "256 :: nat"] by (simp add: p_def)
    moreover have "p \<le> 2 * be_nat bs" using False sign by simp
    ultimately have "2 ^ 63 \<le> int (unat (be_loop 0 (replicate m 0xff @ bs)))"
      unfolding v by simp
    then have "\<not> unat (be_loop 0 (replicate m 0xff @ bs)) < 2 ^ 63"
      by (metis not_less of_nat_le_iff of_nat_numeral of_nat_power)
    with False v assms(1) p show ?thesis by (simp add: sint_eq be_int_def m_def)
  qed
qed

lemma bindp_Some_iff:
  "bindp p f s = (Some b, s') \<longleftrightarrow> (\<exists>a r. p s = (Some a, r) \<and> f a r = (Some b, s'))"
  by (cases "p s") (auto simp: bindp_def split: option.split)

lemma bindp_Some_pure:
  assumes "\<And>a r. f a r = (Some b, s') \<longleftrightarrow> r = s' \<and> Q a"
  shows "bindp p f s = (Some b, s') \<longleftrightarrow> (\<exists>a. p s = (Some a, s') \<and> Q a)"
  using assms by (auto simp: bindp_Some_iff)

lemma if_failp_iff: "(if c then failp else p) s = (Some b, s') \<longleftrightarrow> \<not> c \<and> p s = (Some b, s')"
  "(if c then p else failp) s = (Some b, s') \<longleftrightarrow> c \<and> p s = (Some b, s')"
  "retp a s = (Some b, s') \<longleftrightarrow> b = a \<and> s' = s" "failp s \<noteq> (Some b, s')"
  by (auto simp: failp_def retp_def)

lemma get_asn1_int64_iff:
  "CBS_get_asn1_int64 s = (Some v, s') \<longleftrightarrow>
   (\<exists>bs. int_minimal bs \<and> length bs \<le> 8 \<and> sint v = be_int bs \<and>
     s = der_header CBS_ASN1_INTEGER (length bs) @ bs @ s')"
proof -
  have tag: "tag_valid CBS_ASN1_INTEGER" by (simp add: tag_valid_def CBS_ASN1_INTEGER_def CBS_ASN1_CONSTRUCTED_def CBS_ASN1_TAG_SHIFT_def)
  have "CBS_get_asn1_int64 s = (Some v, s') \<longleftrightarrow>
      (\<exists>bs. CBS_get_asn1 CBS_ASN1_INTEGER s = (Some bs, s') \<and> int_minimal bs \<and> length bs \<le> 8 \<and>
        v = be_loop 0 (replicate (8 - length bs) (if \<not> unat (hd bs) < 128 then 0xff else 0) @ bs))"
  proof -
    have "(case CBS_is_valid_asn1_integer bs of None \<Rightarrow> failp | Some is_negative \<Rightarrow>
           if length bs > 8 then failp
           else retp (be_loop 0 (replicate (8 - length bs) (if is_negative then 0xff else 0) @ bs))) r = (Some v, s') \<longleftrightarrow>
        r = s' \<and> int_minimal bs \<and> length bs \<le> 8 \<and>
        v = be_loop 0 (replicate (8 - length bs) (if \<not> unat (hd bs) < 128 then 0xff else 0) @ bs)" for bs r
      unfolding is_valid_integer_eq by (cases "int_minimal bs") (simp_all only: if_True if_False option.case if_failp_iff not_less simp_thms, blast)
    then show ?thesis unfolding CBS_get_asn1_int64_def by (rule bindp_Some_pure)
  qed
  also have "\<dots> \<longleftrightarrow> (\<exists>bs. CBS_get_asn1 CBS_ASN1_INTEGER s = (Some bs, s') \<and> int_minimal bs \<and> length bs \<le> 8 \<and>
        sint v = be_int bs)"
  proof -
    have "v = be_loop 0 (replicate (8 - length bs) (if \<not> unat (hd bs) < 128 then 0xff else 0) @ bs) \<longleftrightarrow>
        sint v = be_int bs" if "int_minimal bs" "length bs \<le> 8" for bs
      using that
      by (subst word_eq_iff_signed, subst sign_extend) (simp_all add: int_minimal_def)
    then show ?thesis by blast
  qed
  also have "\<dots> \<longleftrightarrow> (\<exists>bs. int_minimal bs \<and> length bs \<le> 8 \<and> sint v = be_int bs \<and>
     s = der_header CBS_ASN1_INTEGER (length bs) @ bs @ s')"
  proof -
    have "CBS_get_asn1 CBS_ASN1_INTEGER s = (Some bs, s') \<longleftrightarrow> s = der_header CBS_ASN1_INTEGER (length bs) @ bs @ s'"
      if "length bs \<le> 8" for bs
      using that tag by (simp add: get_asn1_iff)
    then show ?thesis by blast
  qed
  finally show ?thesis .
qed

section \<open>DER and BER\<close>

lemma not_ber_found_finish:
  "bindp (CBS_get_bytes len) (\<lambda>out. retp \<lparr>el_out = out, el_tag = t, el_header_len = h, el_ber_found = b,
     el_indefinite = i\<rparr>) s = (Some e, s') \<Longrightarrow> el_ber_found e = b"
  by (auto simp: finish_eq)

lemma der_ber_iff:
  "cbs_get_any_asn1_element False s = (Some e, s') \<longleftrightarrow>
   cbs_get_any_asn1_element True s = (Some e, s') \<and> \<not> el_ber_found e"
proof (cases "parse_asn1_tag s")
  case (Pair t r)
  show ?thesis
  proof (cases t)
    case None
    with Pair show ?thesis by (simp add: cbs_get_any_asn1_element_def)
  next
    case (Some tag)
    show ?thesis
    proof (cases r)
      case Nil
      with Pair Some show ?thesis by (simp add: cbs_get_any_asn1_element_def)
    next
      case (Cons lb r')
      have fin: "bindp (CBS_get_bytes n) (\<lambda>out. retp \<lparr>el_out = out, el_tag = tag, el_header_len = h,
          el_ber_found = True, el_indefinite = i\<rparr>) s = (Some e, s') \<Longrightarrow> el_ber_found e" for n h i
        by (auto simp: finish_eq)
      have fin': "bindp (CBS_get_bytes n) (\<lambda>out. retp \<lparr>el_out = out, el_tag = tag, el_header_len = h,
          el_ber_found = False, el_indefinite = i\<rparr>) s = (Some e, s') \<Longrightarrow> \<not> el_ber_found e" for n h i
        by (auto simp: finish_eq)
      show ?thesis
        unfolding cbs_get_any_asn1_element_def Pair Some Cons
        by (auto simp: Let_def cbs_get_u_eq dest: fin fin')
    qed
  qed
qed
section \<open>Object identifiers\<close>

text \<open>The shape of a minimal base-128 integer: continuation bytes, then a last byte.\<close>

definition cont :: "byte list \<Rightarrow> bool" where
  "cont bs \<longleftrightarrow> (\<forall>b \<in> set bs. \<not> unat b < 128)"

lemma byte_0x80: "(b :: byte) = 0x80 \<longleftrightarrow> unat b = 128"
  by (simp add: word_eq_iff_unat)

lemma unat_128_plus: "d < 128 \<Longrightarrow> unat (word_of_nat (128 + d) :: byte) = 128 + d"
  by (rule unat_of_nat_small) simp

lemma b128_hi_shape: "cont (b128_hi n) \<and> (b128_hi n \<noteq> [] \<longrightarrow> hd (b128_hi n) \<noteq> 0x80) \<and> (b128_hi n = [] \<longleftrightarrow> n = 0)"
proof (induction n rule: b128_hi.induct)
  case (1 n)
  show ?case
  proof (cases "n = 0")
    case False
    have last: "unat (word_of_nat (128 + n mod 128) :: byte) = 128 + n mod 128" by (rule unat_128_plus) simp
    have eq: "b128_hi n = b128_hi (n div 128) @ [word_of_nat (128 + n mod 128)]"
      using False by (subst b128_hi.simps) simp
    have IH: "cont (b128_hi (n div 128))" "b128_hi (n div 128) \<noteq> [] \<longrightarrow> hd (b128_hi (n div 128)) \<noteq> 0x80"
      "b128_hi (n div 128) = [] \<longleftrightarrow> n div 128 = 0"
      using "1.IH" [OF False] by auto
    have "hd (b128_hi n) \<noteq> 0x80"
    proof (cases "n div 128 = 0")
      case True
      then have "n mod 128 \<noteq> 0" using False by auto
      then have "(word_of_nat (128 + n mod 128) :: byte) \<noteq> 0x80" using last by (simp only: byte_0x80)
      then show ?thesis using True unfolding eq by simp
    qed (use IH in \<open>simp add: eq\<close>)
    moreover have "cont (b128_hi n)" unfolding eq cont_def using IH(1) last by (auto simp: cont_def simp del: of_nat_add)
    ultimately show ?thesis using False by (simp add: eq)
  qed (simp add: cont_def)
qed

lemma b128_hi_onto: "cont bs \<Longrightarrow> bs \<noteq> [] \<longrightarrow> hd bs \<noteq> 0x80 \<Longrightarrow> \<exists>n. b128_hi n = bs"
proof (induction bs rule: rev_induct)
  case (snoc b bs)
  have "cont bs" "bs \<noteq> [] \<longrightarrow> hd bs \<noteq> 0x80" using snoc.prems by (auto simp: cont_def hd_append split: if_splits)
  then obtain m where m: "b128_hi m = bs" using snoc.IH by blast
  have b: "\<not> unat b < 128" using snoc.prems by (simp add: cont_def)
  have "m \<noteq> 0 \<or> unat b mod 128 \<noteq> 0"
  proof (rule ccontr)
    assume "\<not> (m \<noteq> 0 \<or> unat b mod 128 \<noteq> 0)"
    then have "bs = []" "b = word_of_nat 128" using m byte_high [OF b] by auto
    with snoc.prems show False by simp
  qed
  then have "b128_hi (128 * m + unat b mod 128) = bs @ [b]"
    using byte_high [OF b] m by (simp add: b128_hi_step)
  then show ?case by blast
qed (auto intro: exI [of _ 0])

lemma b128_shape:
  "(\<exists>n. g = b128 n) \<longleftrightarrow> (\<exists>bs l. g = bs @ [l] \<and> cont bs \<and> (bs \<noteq> [] \<longrightarrow> hd bs \<noteq> 0x80) \<and> unat l < 128)"
proof
  assume "\<exists>n. g = b128 n"
  then obtain n where n: "g = b128 n" ..
  have "unat (word_of_nat (n mod 128) :: byte) < 128" by (subst unat_of_nat_small) auto
  with n b128_hi_shape [of "n div 128"]
  show "\<exists>bs l. g = bs @ [l] \<and> cont bs \<and> (bs \<noteq> [] \<longrightarrow> hd bs \<noteq> 0x80) \<and> unat l < 128" by (auto simp: b128_def)
next
  assume "\<exists>bs l. g = bs @ [l] \<and> cont bs \<and> (bs \<noteq> [] \<longrightarrow> hd bs \<noteq> 0x80) \<and> unat l < 128"
  then obtain bs l m where g: "g = bs @ [l]" "unat l < 128" "b128_hi m = bs" using b128_hi_onto by blast
  then have "b128 (128 * m + unat l) = g" by (simp add: b128_step)
  then show "\<exists>n. g = b128 n" by blast
qed

definition oid_body :: "byte list \<Rightarrow> bool" where
  "oid_body s \<longleftrightarrow> (\<exists>ns. s = concat (map b128 ns))"

definition oid_tail :: "byte list \<Rightarrow> bool" where
  "oid_tail s \<longleftrightarrow> (\<exists>bs l r. s = bs @ l # r \<and> cont bs \<and> unat l < 128 \<and> oid_body r)"

lemma oid_body_Nil: "oid_body []"
  by (auto simp: oid_body_def intro: exI [of _ "[]"])

lemma oid_tail_Nil: "\<not> oid_tail []"
  by (simp add: oid_tail_def)

lemma oid_body_split: "s \<noteq> [] \<Longrightarrow> oid_body s \<longleftrightarrow> (\<exists>n r. s = b128 n @ r \<and> oid_body r)"
proof
  assume s: "s \<noteq> []" "oid_body s"
  then obtain ns where "s = concat (map b128 ns)" by (auto simp: oid_body_def)
  with s(1) show "\<exists>n r. s = b128 n @ r \<and> oid_body r" by (cases ns) (auto simp: oid_body_def)
next
  assume "\<exists>n r. s = b128 n @ r \<and> oid_body r"
  then show "oid_body s" by (auto simp: oid_body_def intro: exI [of _ "_ # _"])
qed

lemma oid_tail_Cons: "oid_tail (v # c) \<longleftrightarrow> (if unat v < 128 then oid_body c else oid_tail c)"
proof (cases "unat v < 128")
  case True
  then show ?thesis
    by (auto simp: oid_tail_def Cons_eq_append_conv cont_def intro: exI [of _ "[]"])
next
  case False
  have "oid_tail c \<Longrightarrow> oid_tail (v # c)"
  proof -
    assume "oid_tail c"
    then obtain bs l r where "v # c = (v # bs) @ l # r" "cont (v # bs)" "unat l < 128" "oid_body r"
      using False by (auto simp: oid_tail_def cont_def)
    then show ?thesis unfolding oid_tail_def by blast
  qed
  moreover have "oid_tail (v # c) \<Longrightarrow> oid_tail c"
  proof -
    assume "oid_tail (v # c)"
    then obtain bs l r where a: "v # c = bs @ l # r" "cont bs" "unat l < 128" "oid_body r"
      by (auto simp: oid_tail_def)
    then obtain bs' where "bs = v # bs'" using False by (cases bs) auto
    with a have "c = bs' @ l # r" "cont bs'" by (auto simp: cont_def)
    with a show ?thesis unfolding oid_tail_def by blast
  qed
  ultimately show ?thesis using False by auto
qed

lemma oid_body_Cons: "oid_body (v # c) \<longleftrightarrow> v \<noteq> 0x80 \<and> oid_tail (v # c)"
proof -
  have "oid_body (v # c) \<longleftrightarrow> (\<exists>g r. v # c = g @ r \<and> (\<exists>n. g = b128 n) \<and> oid_body r)"
    by (subst oid_body_split) auto
  also have "\<dots> \<longleftrightarrow> v \<noteq> 0x80 \<and> oid_tail (v # c)"
    unfolding b128_shape
  proof
    assume "\<exists>g r. v # c = g @ r \<and>
      (\<exists>bs l. g = bs @ [l] \<and> cont bs \<and> (bs \<noteq> [] \<longrightarrow> hd bs \<noteq> 0x80) \<and> unat l < 128) \<and> oid_body r"
    then obtain g bs l r where "v # c = g @ r" "g = bs @ [l]" and a: "cont bs" "bs \<noteq> [] \<longrightarrow> hd bs \<noteq> 0x80"
      "unat l < 128" "oid_body r" by blast
    then have a': "v # c = bs @ l # r" by simp
    have "v \<noteq> 0x80" using a a' by (cases bs) auto
    with a a' show "v \<noteq> 0x80 \<and> oid_tail (v # c)" by (auto simp: oid_tail_def)
  next
    assume v: "v \<noteq> 0x80 \<and> oid_tail (v # c)"
    then obtain bs l r where a: "v # c = bs @ l # r" "cont bs" "unat l < 128" "oid_body r" by (auto simp: oid_tail_def)
    moreover have "bs \<noteq> [] \<longrightarrow> hd bs \<noteq> 0x80" using a(1) v by (cases bs) auto
    ultimately show "\<exists>g r. v # c = g @ r \<and>
      (\<exists>bs l. g = bs @ [l] \<and> cont bs \<and> (bs \<noteq> [] \<longrightarrow> hd bs \<noteq> 0x80) \<and> unat l < 128) \<and> oid_body r"
      by (intro exI [of _ "bs @ [l]"] exI [of _ r]) auto
  qed
  finally show ?thesis .
qed

lemma oid_loop_iff: "oid_loop prev s \<longleftrightarrow> (if unat prev < 128 then oid_body s else oid_tail s)"
proof (induction prev s rule: oid_loop.induct)
  case (1 prev)
  then show ?case by (simp add: byte_and_0x80 oid_body_Nil oid_tail_Nil)
next
  case (2 prev v copy)
  show ?case
  proof (cases "unat prev < 128 \<and> v = 0x80")
    case True
    then show ?thesis by (simp add: byte_and_0x80 oid_body_Cons)
  next
    case False
    then have "oid_loop prev (v # copy) = oid_loop v copy" by (auto simp: byte_and_0x80)
    with False 2 show ?thesis by (auto simp: byte_and_0x80 oid_body_Cons oid_tail_Cons)
  qed
qed
section \<open>Properties\<close>

text \<open>(C3) The DER element parser is sound and complete for the canonical encoding: it succeeds exactly on
  inputs that start with the shortest encoding of a permitted tag, the shortest encoding of a length
  below \<open>2 ^ 32\<close> and that many bytes, it returns that element and consumes it, and when it fails it
  leaves the input as it was.\<close>

theorem der_element_canonical:
  "(CBS_get_any_asn1_element s = (Some e, s') \<longleftrightarrow>
     (\<exists>t body. tag_valid t \<and> length body < 2 ^ 32 \<and> e = der_element t body \<and>
       s = der_header t (length body) @ body @ s')) \<and>
   (case CBS_get_any_asn1_element s of (None, r) \<Rightarrow> r = s | (Some _, _) \<Rightarrow> True)"
  using any_asn1_element_iff element_None [of s] by (auto split: prod.split option.split)

text \<open>(C28) DER is the strict part of BER as this library parses it: the DER parser accepts an element exactly
  when the BER parser accepts the same element without reporting a BER-only feature.\<close>

theorem der_is_strict_ber:
  "CBS_get_any_asn1_element s = (Some e, s') \<longleftrightarrow>
   CBS_get_any_ber_asn1_element s = (Some e, s') \<and> \<not> el_ber_found e"
  unfolding CBS_get_any_asn1_element_def CBS_get_any_ber_asn1_element_def by (rule der_ber_iff)

text \<open>(C27) \<open>CBS_get_asn1_uint64\<close> returns a value exactly when the input starts with the one DER encoding
  that value has: padded, negative, empty and too large INTEGERs are all rejected.\<close>

theorem asn1_uint64_canonical:
  "CBS_get_asn1_uint64 s = (Some v, s') \<longleftrightarrow>
   s = der_header CBS_ASN1_INTEGER (length (der_uint (unat v))) @ der_uint (unat v) @ s'"
  by (rule get_asn1_uint64_iff)

text \<open>\<open>CBS_get_asn1_int64\<close> returns the two's-complement value of the contents, exactly on the minimal
  INTEGERs of at most eight bytes: the sign extension to eight bytes preserves the value.\<close>

theorem asn1_int64_value:
  "CBS_get_asn1_int64 s = (Some v, s') \<longleftrightarrow>
   (\<exists>bs. int_minimal bs \<and> length bs \<le> 8 \<and> sint v = be_int bs \<and>
     s = der_header CBS_ASN1_INTEGER (length bs) @ bs @ s')"
  by (rule get_asn1_int64_iff)

text \<open>\<open>CBS_is_valid_asn1_oid\<close>, which looks at one byte and the one before it, accepts exactly the
  non-empty sequences of minimally encoded base-128 integers.\<close>

theorem oid_valid_iff:
  "CBS_is_valid_asn1_oid s \<longleftrightarrow> (\<exists>ns. ns \<noteq> [] \<and> s = concat (map b128 ns))"
proof -
  have "CBS_is_valid_asn1_oid s \<longleftrightarrow> s \<noteq> [] \<and> (\<exists>ns. s = concat (map b128 ns))"
    by (simp add: CBS_is_valid_asn1_oid_def oid_loop_iff oid_body_def)
  moreover have "b128 n \<noteq> []" for n by (simp add: b128_def)
  ultimately show ?thesis by (auto simp: concat_eq_Nil_conv)
qed

end
