(* ===== verification/Cbs_Text.thy ===== *)
theory Cbs_Text
  imports Der
begin

text \<open>
  The textual formats \<^verbatim>\<open>cbs.c\<close> parses: decimal numbers and the two ASN.1 time formats.  Each parser accepts
  exactly the canonical text of the value it returns.
\<close>

section \<open>Decimal numbers\<close>

definition digit :: "nat \<Rightarrow> byte" where
  "digit d = word_of_nat (48 + d)"

fun dec_digits :: "nat \<Rightarrow> byte list" where
  "dec_digits n = (if n < 10 then [digit n] else dec_digits (n div 10) @ [digit (n mod 10)])"

declare dec_digits.simps [simp del]

lemma isdigit_iff: "OPENSSL_isdigit c \<longleftrightarrow> 48 \<le> unat c \<and> unat c \<le> 57"
  by (simp add: OPENSSL_isdigit_def word_le_nat_alt)

lemma unat_digit: "d < 10 \<Longrightarrow> unat (digit d) = 48 + d"
  unfolding digit_def by (rule unat_of_nat_small) simp

lemma isdigit_digit: "d < 10 \<Longrightarrow> OPENSSL_isdigit (digit d)"
  by (simp add: isdigit_iff unat_digit)

lemma digit_of: "OPENSSL_isdigit c \<Longrightarrow> digit (unat c - 48) = c"
  by (simp add: isdigit_iff digit_def)

lemma unat_minus_zero: "OPENSSL_isdigit c \<Longrightarrow> unat (ucast (c - 0x30) :: u64) = unat c - 48"
proof -
  assume "OPENSSL_isdigit c"
  then have "unat (c - 0x30) = unat c - 48" by (subst unat_sub) (auto simp: isdigit_iff word_le_nat_alt)
  then show ?thesis by (subst unat_ucast_up) simp_all
qed

lemma dec_digits_step: "v \<noteq> 0 \<Longrightarrow> d < 10 \<Longrightarrow> dec_digits (10 * v + d) = dec_digits v @ [digit d]"
  by (subst dec_digits.simps) auto

lemma dec_digits_single: "d < 10 \<Longrightarrow> dec_digits d = [digit d]"
  by (subst dec_digits.simps) simp

text \<open>The overflow check of \<open>CBS_get_u64_decimal\<close> is exact.\<close>

lemma decimal_overflow:
  assumes "OPENSSL_isdigit c"
  shows "v > UINT64_MAX div 10 \<or> v * 10 > UINT64_MAX - ucast (c - 0x30) \<longleftrightarrow> 2 ^ 64 \<le> 10 * unat v + (unat c - 48)"
    and "\<not> (v > UINT64_MAX div 10 \<or> v * 10 > UINT64_MAX - ucast (c - 0x30)) \<Longrightarrow>
      unat (v * 10 + ucast (c - 0x30)) = 10 * unat v + (unat c - 48)"
proof -
  define d where "d = unat c - 48"
  have d: "unat (ucast (c - 0x30) :: u64) = d" "d < 10"
    using assms unat_minus_zero [OF assms] by (auto simp: d_def isdigit_iff)
  have m: "unat UINT64_MAX = 2 ^ 64 - 1" by (simp add: UINT64_MAX_def unsigned_minus_1_eq_mask mask_eq_exp_minus_1)
  have div10: "v > UINT64_MAX div 10 \<longleftrightarrow> (2 ^ 64 - 1) div 10 < unat v"
    by (simp add: word_less_nat_alt unat_div m)
  have sub: "unat (UINT64_MAX - ucast (c - 0x30)) = 2 ^ 64 - 1 - d"
    using d m by (subst unat_sub) (simp_all add: word_le_nat_alt)
  have mul: "unat (v * 10) = 10 * unat v" if "\<not> v > UINT64_MAX div 10"
    using that div10 by (simp add: unat_mult_lem [THEN iffD1] unat_word_ariths)
  show iff: "v > UINT64_MAX div 10 \<or> v * 10 > UINT64_MAX - ucast (c - 0x30) \<longleftrightarrow> 2 ^ 64 \<le> 10 * unat v + (unat c - 48)"
  proof (cases "v > UINT64_MAX div 10")
    case True
    then show ?thesis using div10 by auto
  next
    case False
    then show ?thesis using mul [OF False] sub d by (auto simp: word_less_nat_alt d_def [symmetric])
  qed
  show "unat (v * 10 + ucast (c - 0x30)) = 10 * unat v + (unat c - 48)"
    if "\<not> (v > UINT64_MAX div 10 \<or> v * 10 > UINT64_MAX - ucast (c - 0x30))"
  proof -
    have "unat (v * 10) + unat (ucast (c - 0x30) :: u64) < 2 ^ 64"
      using that iff mul d by (auto simp: d_def [symmetric])
    then have "unat (v * 10 + ucast (c - 0x30)) = unat (v * 10) + unat (ucast (c - 0x30) :: u64)"
      by (simp add: unat_word_ariths)
    then show ?thesis using that mul d by (simp add: d_def)
  qed
qed

lemma decimal_loop_enc:
  "n < 2 ^ 64 \<Longrightarrow> decimal_loop 0 False (dec_digits n @ s) = decimal_loop (word_of_nat n) True s"
proof (induction n arbitrary: s rule: dec_digits.induct)
  case (1 n)
  show ?case
  proof (cases "n < 10")
    case True
    then have c: "OPENSSL_isdigit (digit n)" "unat (digit n) = 48 + n" by (simp_all add: isdigit_digit unat_digit)
    have "unat (0 * 10 + ucast (digit n - 0x30) :: u64) = n"
      using decimal_overflow(2) [OF c(1), of 0] decimal_overflow(1) [OF c(1), of 0] True c by simp
    then have "(0 * 10 + ucast (digit n - 0x30) :: u64) = word_of_nat n" by (rule unat_eq_imp)
    then show ?thesis
      using True c decimal_overflow(1) [OF c(1), of 0] by (simp add: dec_digits_single)
  next
    case False
    define m where "m = n div 10"
    define c where "c = digit (n mod 10)"
    define v where "v = (word_of_nat m :: u64)"
    have m: "m < 2 ^ 64" "m \<noteq> 0" "n = 10 * m + n mod 10" using False "1.prems" by (auto simp: m_def)
    have v: "unat v = m" unfolding v_def by (rule unat_of_nat_small) (use m in simp)
    have c: "OPENSSL_isdigit c" "unat c = 48 + n mod 10" by (simp_all add: c_def isdigit_digit unat_digit)
    have no: "\<not> (v > UINT64_MAX div 10 \<or> v * 10 > UINT64_MAX - ucast (c - 0x30))"
      unfolding decimal_overflow(1) [OF c(1)] using m "1.prems" v c by simp
    have "decimal_loop 0 False (dec_digits n @ s) = decimal_loop v True (c # s)"
      using "1.IH" [OF False, of "c # s"] m False by (simp add: dec_digits.simps [of n] c_def m_def v_def)
    also have "\<dots> = decimal_loop (v * 10 + ucast (c - 0x30)) True s"
      using c no v m by auto
    also have "v * 10 + ucast (c - 0x30) = word_of_nat n"
      using decimal_overflow(2) [OF c(1) no] v c m by (intro unat_eq_imp) simp
    finally show ?thesis .
  qed
qed

definition no_digit :: "byte list \<Rightarrow> bool" where
  "no_digit s \<longleftrightarrow> (case s of [] \<Rightarrow> True | c # _ \<Rightarrow> \<not> OPENSSL_isdigit c)"

lemma decimal_loop_stop: "no_digit s \<Longrightarrow> decimal_loop v True s = (Some v, s)"
  by (cases s) (auto simp: no_digit_def)

lemma decimal_loop_dec:
  "decimal_loop v seen s = (Some w, s') \<Longrightarrow> seen \<or> v = 0 \<Longrightarrow>
   \<exists>ds. s = ds @ s' \<and> dec_digits (unat w) = (if seen then dec_digits (unat v) else []) @ ds \<and> no_digit s'"
proof (induction v seen s rule: decimal_loop.induct)
  case (1 v seen)
  then show ?case by (auto simp: no_digit_def split: if_splits)
next
  case (2 v seen c s)
  show ?case
  proof (cases "OPENSSL_isdigit c")
    case False
    then show ?thesis using "2.prems" by (auto simp: no_digit_def split: if_splits)
  next
    case True
    define d where "d = unat c - 48"
    have d: "d < 10" "digit d = c" using True digit_of by (auto simp: d_def isdigit_iff)
    have no: "\<not> (v = 0 \<and> seen)" "\<not> (v > UINT64_MAX div 10 \<or> v * 10 > UINT64_MAX - ucast (c - 0x30))"
      using "2.prems"(1) True by (auto split: if_splits)
    then have run: "decimal_loop (v * 10 + ucast (c - 0x30)) True s = (Some w, s')"
      using "2.prems"(1) True by auto
    obtain ds where ds: "s = ds @ s'" "dec_digits (unat w) = dec_digits (10 * unat v + d) @ ds" "no_digit s'"
      using "2.IH" [OF _ _ run] True no decimal_overflow(2) [OF True no(2)] by (auto simp: d_def)
    have "dec_digits (10 * unat v + d) = (if seen then dec_digits (unat v) else []) @ [c]"
      using no(1) "2.prems"(2) d dec_digits_step [of "unat v" d] dec_digits_single [of d] by (auto simp: unat_eq_0)
    with ds show ?thesis by simp
  qed
qed

lemma get_u64_decimal_iff:
  "CBS_get_u64_decimal s = (Some v, s') \<longleftrightarrow> s = dec_digits (unat v) @ s' \<and> no_digit s'"
proof
  assume "CBS_get_u64_decimal s = (Some v, s')"
  then show "s = dec_digits (unat v) @ s' \<and> no_digit s'"
    using decimal_loop_dec [of 0 False s v s'] by (auto simp: CBS_get_u64_decimal_def)
next
  assume "s = dec_digits (unat v) @ s' \<and> no_digit s'"
  then show "CBS_get_u64_decimal s = (Some v, s')"
    using decimal_loop_enc [of "unat v" s'] decimal_loop_stop unat_bound [of v]
    by (simp add: CBS_get_u64_decimal_def)
qed

section \<open>Times\<close>

definition two_digits :: "int \<Rightarrow> byte list" where
  "two_digits n = [digit (nat (n div 10)), digit (nat (n mod 10))]"

lemma get_two_digits_iff:
  "cbs_get_two_digits s = (Some n, s') \<longleftrightarrow> 0 \<le> n \<and> n < 100 \<and> s = two_digits n @ s'"
proof
  assume "cbs_get_two_digits s = (Some n, s')"
  then obtain a b where s: "s = a # b # s'" and a: "OPENSSL_isdigit a" and b: "OPENSSL_isdigit b"
    and n: "n = (uint a - 48) * 10 + (uint b - 48)"
    unfolding cbs_get_two_digits_def bindp_Some_iff if_failp_iff
    by (cases s; cases "tl s") auto
  define x where "x = unat a - 48"
  define y where "y = unat b - 48"
  have xy: "x < 10" "y < 10" "uint a = 48 + int x" "uint b = 48 + int y"
    using a b unfolding isdigit_iff by (auto simp: x_def y_def of_nat_diff)
  then have n': "n = 10 * int x + int y" using n by simp
  then have "nat (n div 10) = x" "nat (n mod 10) = y" using xy by auto
  then have "two_digits n = [a, b]"
    using digit_of [OF a] digit_of [OF b] by (simp add: two_digits_def x_def y_def)
  then show "0 \<le> n \<and> n < 100 \<and> s = two_digits n @ s'" using s n' xy by simp
next
  assume n: "0 \<le> n \<and> n < 100 \<and> s = two_digits n @ s'"
  define x where "x = nat (n div 10)"
  define y where "y = nat (n mod 10)"
  have xy: "x < 10" "y < 10" "int x = n div 10" "int y = n mod 10" using n by (auto simp: x_def y_def)
  have u: "uint (digit x) = 48 + int x" "uint (digit y) = 48 + int y"
    using unat_digit [OF xy(1)] unat_digit [OF xy(2)] by (metis of_nat_add of_nat_numeral uint_nat)+
  have "(uint (digit x) - 0x30) * 10 + (uint (digit y) - 0x30) = n" unfolding u using xy by simp
  moreover have "s = digit x # digit y # s'" using n by (simp add: two_digits_def x_def y_def)
  ultimately show "cbs_get_two_digits s = (Some n, s')"
    using isdigit_digit [OF xy(1)] isdigit_digit [OF xy(2)]
    by (simp add: cbs_get_two_digits_def bindp_def retp_def)
qed

text \<open>Two digits, then the rest of the format.\<close>

lemma two_digits_then:
  "bindp cbs_get_two_digits f s = (Some b, s') \<longleftrightarrow>
   (\<exists>n r. 0 \<le> n \<and> n < 100 \<and> s = two_digits n @ r \<and> f n r = (Some b, s'))"
  by (auto simp: bindp_Some_iff get_two_digits_iff)

lemma two_digits_pure:
  assumes "\<And>n r. 0 \<le> n \<Longrightarrow> n < 100 \<Longrightarrow> f n r = (Some b, s') \<longleftrightarrow> r = s' \<and> Q n"
  shows "bindp cbs_get_two_digits f s = (Some b, s') \<longleftrightarrow> (\<exists>n. 0 \<le> n \<and> n < 100 \<and> s = two_digits n @ s' \<and> Q n)"
  using assms by (auto simp: two_digits_then)

definition rfc5280_body :: "tm \<Rightarrow> byte list" where
  "rfc5280_body t = two_digits (tm_mon t + 1) @ two_digits (tm_mday t) @ two_digits (tm_hour t) @
     two_digits (tm_min t) @ two_digits (tm_sec t)"

definition generalized_time :: "tm \<Rightarrow> byte list" where
  "generalized_time t = two_digits ((tm_year t + 1900) div 100) @ two_digits ((tm_year t + 1900) mod 100) @
     rfc5280_body t @ [0x5a]"

definition utc_time :: "tm \<Rightarrow> byte list" where
  "utc_time t = two_digits ((tm_year t + 1900) mod 100) @ rfc5280_body t @ [0x5a]"

lemma valid_day_date: "0 \<le> y \<Longrightarrow> y \<le> 9999 \<Longrightarrow> 1 \<le> m \<Longrightarrow> m \<le> 12 \<and> is_valid_day y m d \<longleftrightarrow> is_valid_date y m d"
  by (auto simp: is_valid_day_def is_valid_date_def)

lemma year_gen: "rfc5280_year True s = (Some y, r) \<longleftrightarrow>
    0 \<le> y \<and> y \<le> 9999 \<and> s = two_digits (y div 100) @ two_digits (y mod 100) @ r"
proof -
  have "rfc5280_year True s = (Some y, r) \<longleftrightarrow> (\<exists>a b. 0 \<le> a \<and> a < 100 \<and> 0 \<le> b \<and> b < 100 \<and>
      s = two_digits a @ two_digits b @ r \<and> y = a * 100 + b)"
    unfolding rfc5280_year_def if_True two_digits_then if_failp_iff by blast
  also have "\<dots> \<longleftrightarrow> 0 \<le> y \<and> y \<le> 9999 \<and> s = two_digits (y div 100) @ two_digits (y mod 100) @ r"
  proof safe
    fix a b :: int
    assume a: "0 \<le> a" "a < 100" "0 \<le> b" "b < 100"
    then show "0 \<le> a * 100 + b" "a * 100 + b \<le> 9999" by auto
    have "(a * 100 + b) div 100 = a" "(a * 100 + b) mod 100 = b" using a by auto
    then show "two_digits a @ two_digits b @ r =
      two_digits ((a * 100 + b) div 100) @ two_digits ((a * 100 + b) mod 100) @ r" by simp
  next
    assume "0 \<le> y" "y \<le> 9999"
    then show "\<exists>a b. 0 \<le> a \<and> a < 100 \<and> 0 \<le> b \<and> b < 100 \<and>
      two_digits (y div 100) @ two_digits (y mod 100) @ r = two_digits a @ two_digits b @ r \<and> y = a * 100 + b"
      by (intro exI [of _ "y div 100"] exI [of _ "y mod 100"]) auto
  qed
  finally show ?thesis .
qed

lemma year_utc: "rfc5280_year False s = (Some y, r) \<longleftrightarrow>
    1950 \<le> y \<and> y < 2050 \<and> s = two_digits (y mod 100) @ r"
proof -
  have "rfc5280_year False s = (Some y, r) \<longleftrightarrow> (\<exists>n. 0 \<le> n \<and> n < 100 \<and> s = two_digits n @ r \<and>
      y = (if n < 50 then 2000 + n else 1900 + n))"
    unfolding rfc5280_year_def if_False
  proof (rule two_digits_pure)
    fix n :: int and r1 :: cbs
    assume n: "0 \<le> n" "n < 100"
    define y0 where "y0 = (if 1900 + n < 1950 then 1900 + n + 100 else 1900 + n)"
    have y0: "y0 = (if n < 50 then 2000 + n else 1900 + n)" "\<not> y0 \<ge> 2050" using n by (simp_all add: y0_def)
    show "(let year = 1900 + n; year = if year < 1950 then year + 100 else year
       in if 2050 \<le> year then failp else retp year) r1 = (Some y, r) \<longleftrightarrow>
      r1 = r \<and> y = (if n < 50 then 2000 + n else 1900 + n)"
      unfolding Let_def y0_def [symmetric] using y0 by (simp only: if_failp_iff) blast
  qed
  also have "\<dots> \<longleftrightarrow> 1950 \<le> y \<and> y < 2050 \<and> s = two_digits (y mod 100) @ r"
  proof
    assume "\<exists>n. 0 \<le> n \<and> n < 100 \<and> s = two_digits n @ r \<and> y = (if n < 50 then 2000 + n else 1900 + n)"
    then obtain n where n: "0 \<le> n" "n < 100" "s = two_digits n @ r" "y = (if n < 50 then 2000 + n else 1900 + n)"
      by blast
    then have "y mod 100 = n"
      using mod_mult_self2 [of n 100 20] mod_mult_self2 [of n 100 19] by (simp add: add.commute)
    with n show "1950 \<le> y \<and> y < 2050 \<and> s = two_digits (y mod 100) @ r" by auto
  next
    assume y: "1950 \<le> y \<and> y < 2050 \<and> s = two_digits (y mod 100) @ r"
    then have "y div 100 = 19 \<or> y div 100 = 20" by auto
    then have "y = (if y mod 100 < 50 then 2000 + y mod 100 else 1900 + y mod 100)"
      using minus_div_mult_eq_mod [of y 100] y by (auto simp flip: minus_div_mult_eq_mod)
    with y show "\<exists>n. 0 \<le> n \<and> n < 100 \<and> s = two_digits n @ r \<and> y = (if n < 50 then 2000 + n else 1900 + n)"
      by (intro exI [of _ "y mod 100"]) auto
  qed
  finally show ?thesis .
qed

text \<open>The digits after the year.\<close>

lemma fields_iff:
  assumes year: "\<And>s y r. rfc5280_year g s = (Some y, r) \<longleftrightarrow> 0 \<le> y \<and> y \<le> 9999 \<and> Y y \<and> s = ye y @ r"
  shows "rfc5280_fields g s = (Some t, s') \<longleftrightarrow>
    tm_valid t \<and> Y (tm_year t + 1900) \<and> s = ye (tm_year t + 1900) @ rfc5280_body t @ s'"
    (is "?L \<longleftrightarrow> ?R")
proof
  assume ?L
  then obtain y m d h mi sec where
    y: "0 \<le> y" "y \<le> 9999" "Y y" and m: "\<not> (m < 1 \<or> m > 12)" and d: "is_valid_day y m d"
    and h: "0 \<le> h" "\<not> h > 23" and mi: "0 \<le> mi" "\<not> mi > 59" and sec: "0 \<le> sec" "\<not> sec > 59"
    and s: "s = ye y @ two_digits m @ two_digits d @ two_digits h @ two_digits mi @ two_digits sec @ s'"
    and t: "t = \<lparr>tm_year = y - 1900, tm_mon = m - 1, tm_mday = d, tm_hour = h, tm_min = mi, tm_sec = sec\<rparr>"
    unfolding rfc5280_fields_def bindp_Some_iff [of "rfc5280_year g"] year two_digits_then if_failp_iff not_not by blast
  have "is_valid_date y m d" using valid_day_date [of y m d] y m d by auto
  with y h mi sec s t show ?R by (simp add: tm_valid_def is_valid_time_def rfc5280_body_def)
next
  assume R: ?R
  define y where "y = tm_year t + 1900"
  define m where "m = tm_mon t + 1"
  have v: "is_valid_date y m (tm_mday t)" "is_valid_time (tm_hour t) (tm_min t) (tm_sec t)" "Y y"
    using R by (simp_all add: tm_valid_def y_def m_def)
  have ym: "0 \<le> y" "y \<le> 9999" "1 \<le> m" "m \<le> 12" "1 \<le> tm_mday t" "tm_mday t \<le> 31"
    using v(1) by (auto simp: is_valid_date_def split: if_splits)
  have day: "is_valid_day y m (tm_mday t)" using valid_day_date [of y m "tm_mday t"] ym v(1) by blast
  have time: "0 \<le> tm_hour t" "tm_hour t \<le> 23" "0 \<le> tm_min t" "tm_min t \<le> 59" "0 \<le> tm_sec t" "tm_sec t \<le> 59"
    using v(2) by (auto simp: is_valid_time_def)
  have td: "cbs_get_two_digits (two_digits n @ r) = (Some n, r)" if "0 \<le> n" "n \<le> 99" for n r
    using that by (simp add: get_two_digits_iff)
  have yr: "rfc5280_year g (ye y @ r) = (Some y, r)" for r using year ym v(3) by simp
  have s: "s = ye y @ two_digits m @ two_digits (tm_mday t) @ two_digits (tm_hour t) @ two_digits (tm_min t) @
      two_digits (tm_sec t) @ s'"
    using R by (simp add: rfc5280_body_def y_def m_def)
  have t: "\<lparr>tm_year = y - 1900, tm_mon = m - 1, tm_mday = tm_mday t, tm_hour = tm_hour t, tm_min = tm_min t,
      tm_sec = tm_sec t\<rparr> = t" by (simp add: y_def m_def)
  show ?L
    using ym time day
    by (simp add: s rfc5280_fields_def bindp_def yr td retp_def t)
qed

lemma offset_Z: "rfc5280_offset False tz r = (Some off, r') \<longleftrightarrow> tz = 0x5a \<and> off = 0 \<and> r' = r"
  by (auto simp: rfc5280_offset_def failp_def retp_def Let_def)

lemma parse_time_iff:
  assumes year: "\<And>s y r. rfc5280_year g s = (Some y, r) \<longleftrightarrow> 0 \<le> y \<and> y \<le> 9999 \<and> Y y \<and> s = ye y @ r"
  shows "CBS_parse_rfc5280_time_internal s g False True = Some (Some t) \<longleftrightarrow>
    tm_valid t \<and> Y (tm_year t + 1900) \<and> s = ye (tm_year t + 1900) @ rfc5280_body t @ [0x5a]"
proof -
  have fst_iff: "fst x = Some y \<longleftrightarrow> (\<exists>r. x = (Some y, r))" for x :: "'x option \<times> 'y" and y by (cases x) auto
  have u8: "CBS_get_u8 r = (Some b, r') \<longleftrightarrow> r = b # r'" for r b r' by (cases r) auto
  have fin: "(if length r \<noteq> 0 then (None, r) else if \<not> True then (Some None, r)
       else if off \<noteq> 0 then (case OPENSSL_gmtime_adj t0 0 off of None \<Rightarrow> (None, r) | Some t' \<Rightarrow> (Some (Some t'), r))
       else (Some (Some t0), r)) = (Some (Some t), r') \<and> off = 0 \<longleftrightarrow> off = 0 \<and> r = [] \<and> r' = [] \<and> t0 = t" for r off r' t0
    by auto
  have "CBS_parse_rfc5280_time_internal s g False True = Some (Some t) \<longleftrightarrow>
      (\<exists>t0 r. rfc5280_fields g s = (Some t0, r) \<and> r = [0x5a] \<and> t0 = t)"
    unfolding CBS_parse_rfc5280_time_internal_def fst_iff bindp_Some_iff u8 offset_Z
    by (auto split: if_splits)
  then show ?thesis by (simp add: fields_iff [OF year])
qed

section \<open>Properties\<close>

text \<open>(C30) \<open>CBS_get_u64_decimal\<close> returns a value exactly when the input starts with the decimal
  representation of that value without leading zeros, followed by no further digit; in particular its
  overflow check refuses every number that does not fit and no other.\<close>

theorem u64_decimal_canonical:
  "CBS_get_u64_decimal s = (Some v, s') \<longleftrightarrow> s = dec_digits (unat v) @ s' \<and> no_digit s'"
  by (rule get_u64_decimal_iff)


text \<open>Without timezone offsets, \<open>CBS_parse_utc_time\<close> accepts exactly the texts \<open>YYMMDDhhmmssZ\<close> of the
  valid times of the years 1950 to 2049 and returns that time.\<close>

theorem utc_time_canonical:
  "CBS_parse_utc_time s True False = Some (Some t) \<longleftrightarrow>
   tm_valid t \<and> 50 \<le> tm_year t \<and> tm_year t < 150 \<and> s = utc_time t"
proof -
  have year: "rfc5280_year False s = (Some y, r) \<longleftrightarrow>
      0 \<le> y \<and> y \<le> 9999 \<and> (1950 \<le> y \<and> y < 2050) \<and> s = two_digits (y mod 100) @ r" for s y r
    unfolding year_utc by auto
  show ?thesis
    unfolding CBS_parse_utc_time_def utc_time_def
    using parse_time_iff [OF year, of s t] by auto
qed

text \<open>(C40) A timezone offset written with a plus sign is added to the written time: the time returned is
  that many seconds later than the written one, read as UTC.  (A time zone that is ahead of UTC by the
  offset would need it subtracted, so the result is not the corresponding time in UTC.)\<close>

theorem utc_time_plus_offset:
  assumes "tm_valid t" "50 \<le> tm_year t" "tm_year t < 150" "0 \<le> h" "h \<le> 23" "0 \<le> m" "m \<le> 59" "h \<noteq> 0 \<or> m \<noteq> 0"
  shows "\<exists>p t'. OPENSSL_tm_to_posix t = Some p \<and> OPENSSL_tm_to_posix t' = Some (p + (h * 3600 + m * 60)) \<and>
    CBS_parse_utc_time (two_digits ((tm_year t + 1900) mod 100) @ rfc5280_body t @ 0x2b # two_digits h @ two_digits m)
      True True = Some (Some t')"
proof -
  define off where "off = h * 3600 + m * 60"
  have off: "0 < off" "off \<le> 86340" using assms by (auto simp: off_def)
  let ?s = "two_digits ((tm_year t + 1900) mod 100) @ rfc5280_body t @ 0x2b # two_digits h @ two_digits m"
  have year: "rfc5280_year False s = (Some y, r) \<longleftrightarrow>
      0 \<le> y \<and> y \<le> 9999 \<and> (1950 \<le> y \<and> y < 2050) \<and> s = two_digits (y mod 100) @ r" for s y r
    unfolding year_utc by auto
  have fields: "rfc5280_fields False ?s = (Some t, 0x2b # two_digits h @ two_digits m)"
    unfolding fields_iff [OF year] using assms by simp
  have td: "cbs_get_two_digits (two_digits n @ r) = (Some n, r)" if "0 \<le> n" "n \<le> 99" for n r
    using that by (simp add: get_two_digits_iff)
  have o: "rfc5280_offset True 0x2b (two_digits h @ two_digits m) = (Some off, [])"
    using assms td [of h "two_digits m"] td [of m "[]"]
    by (simp add: rfc5280_offset_def bindp_def retp_def off_def)
  obtain p where p: "OPENSSL_tm_to_posix t = Some p" "is_valid_posix_time p"
    using tm_to_posix_valid [OF assms(1)] by blast
  have "is_valid_posix_time (p + off)"
    using tm_to_posix_upper [OF assms(1,3) p(1)] p(2) off by (simp add: is_valid_posix_time_def)
  then obtain t' where t': "OPENSSL_posix_to_tm (p + off) = Some t'" "OPENSSL_tm_to_posix t' = Some (p + off)"
    using posix_to_tm_valid by blast
  have "OPENSSL_gmtime_adj t 0 off = Some t'"
    using p t' off by (auto simp: OPENSSL_gmtime_adj_def Let_def INT64_MAX_def INT64_MIN_def is_valid_posix_time_def
        MIN_POSIX_TIME_def MAX_POSIX_TIME_def)
  then have "CBS_parse_utc_time ?s True True = Some (Some t')"
    using off fields o by (simp add: CBS_parse_utc_time_def CBS_parse_rfc5280_time_internal_def bindp_def)
  with p t' show ?thesis by (auto simp: off_def)
qed
theorem utc_time_plus_offset_witness:
  "\<exists>p t'. OPENSSL_tm_to_posix \<lparr>tm_year = 100, tm_mon = 0, tm_mday = 1, tm_hour = 12, tm_min = 0, tm_sec = 0\<rparr> = Some p \<and>
    OPENSSL_tm_to_posix t' = Some (p + 3600) \<and>
    CBS_parse_utc_time [0x30, 0x30, 0x30, 0x31, 0x30, 0x31, 0x31, 0x32, 0x30, 0x30, 0x30, 0x30, 0x2b, 0x30, 0x31, 0x30, 0x30]
      True True = Some (Some t')"
proof -
  have "tm_valid \<lparr>tm_year = 100, tm_mon = 0, tm_mday = 1, tm_hour = 12, tm_min = 0, tm_sec = 0\<rparr>"
    by (simp add: tm_valid_def is_valid_date_def is_valid_time_def)
  from utc_time_plus_offset [OF this, of 1 0] show ?thesis
    by (simp add: rfc5280_body_def two_digits_def digit_def)
qed

end
