(* ===== verification/Cbb.thy ===== *)
theory Cbb
  imports Cbs_Text Heap_Sort
begin

text \<open>
  The builder side of BoringSSL's byte strings: \<^verbatim>\<open>crypto/bytestring/cbb.c\<close>.

  All \<^verbatim>\<open>CBB\<close> objects that write to one buffer are one value of the model: the shared
  \<^verbatim>\<open>cbb_buffer_st\<close> and the chain of child \<^verbatim>\<open>CBB\<close>s with a pending length prefix, outermost first (every
  \<^verbatim>\<open>CBB\<close> has at most one child).  A \<^verbatim>\<open>CBB *\<close> is its depth in the chain: 0 is the top-level
  \<^verbatim>\<open>CBB\<close>, \<open>d + 1\<close> is the child with index \<open>d\<close> of the chain.  A depth past the end of the chain is a child that
  has been flushed, whose \<^verbatim>\<open>base\<close> is null.  \<open>buf\<close> is the whole allocation, so that its length is
  \<^verbatim>\<open>cap\<close>; \<open>alloc\<close> says whether an allocation of a given size succeeds and \<open>junk\<close> what fresh
  memory holds.
\<close>

section \<open>The code\<close>

record cbb_buffer =
  buf :: "byte list"
  len :: nat
  can_resize :: bool
  error :: bool

record cbb_child =
  offset :: nat
  pending_len_len :: nat
  pending_is_asn1 :: bool

record cbb =
  base :: cbb_buffer
  children :: "cbb_child list"

type_synonym memory = "(nat \<Rightarrow> bool) \<times> (nat \<Rightarrow> byte)"

abbreviation alloc :: "memory \<Rightarrow> nat \<Rightarrow> bool" where
  "alloc m n \<equiv> fst m n"

abbreviation junk :: "memory \<Rightarrow> nat \<Rightarrow> byte" where
  "junk m i \<equiv> snd m i"

definition cap :: "cbb_buffer \<Rightarrow> nat" where
  "cap b = length (buf b)"

definition cbb_init :: "byte list \<Rightarrow> bool \<Rightarrow> cbb" where
  "cbb_init b resize = \<lparr>base = \<lparr>buf = b, len = 0, can_resize = resize, error = False\<rparr>, children = []\<rparr>"

definition CBB_init :: "memory \<Rightarrow> nat \<Rightarrow> cbb option" where
  "CBB_init m initial_capacity =
     (if initial_capacity > 0 \<and> \<not> alloc m initial_capacity then None
      else Some (cbb_init (map (junk m) [0..<initial_capacity]) True))"

definition CBB_init_fixed :: "byte list \<Rightarrow> cbb" where
  "CBB_init_fixed b = cbb_init b False"

definition cbb_buffer_reserve :: "memory \<Rightarrow> cbb_buffer \<Rightarrow> nat \<Rightarrow> bool \<times> cbb_buffer" where
  "cbb_buffer_reserve m b n =
     (let newlen = size_add (len b) n
      in if newlen < len b then (False, b\<lparr>error := True\<rparr>)
         else if newlen > cap b then
           if \<not> can_resize b then (False, b\<lparr>error := True\<rparr>)
           else
             (let newcap = (cap b * 2) mod size_max;
                  newcap = (if newcap < cap b \<or> newcap < newlen then newlen else newcap)
              in if \<not> alloc m newcap then (False, b\<lparr>error := True\<rparr>)
                 else (True, b\<lparr>buf := buf b @ map (junk m) [cap b..<newcap]\<rparr>))
         else (True, b))"

text \<open>The position of the new bytes is the old length.\<close>

definition cbb_buffer_add :: "memory \<Rightarrow> cbb_buffer \<Rightarrow> nat \<Rightarrow> bool \<times> cbb_buffer" where
  "cbb_buffer_add m b n =
     (case cbb_buffer_reserve m b n of
        (False, b') \<Rightarrow> (False, b')
      | (True, b') \<Rightarrow> (True, b'\<lparr>len := len b' + n\<rparr>))"

definition cbb_on_error :: "nat \<Rightarrow> cbb \<Rightarrow> cbb" where
  "cbb_on_error d c = c\<lparr>base := (base c)\<lparr>error := True\<rparr>, children := take d (children c)\<rparr>"

text \<open>Writing bytes into an array.\<close>

definition store :: "byte list \<Rightarrow> nat \<Rightarrow> byte list \<Rightarrow> byte list" where
  "store xs i bs = take i xs @ bs @ drop (i + length bs) xs"

text \<open>The loop that writes a number big-endian into \<open>n\<close> bytes: the bytes and what is left of the number.\<close>

fun store_be :: "nat \<Rightarrow> nat \<Rightarrow> byte list \<times> nat" where
  "store_be 0 v = ([], v)"
| "store_be (Suc n) v = (case store_be n (v div 256) of (bs, v') \<Rightarrow> (bs @ [word_of_nat (v mod 256)], v'))"

text \<open>The end of \<open>CBB_flush\<close>: the length loop and the check that the length fits, at offset \<open>off\<close> for \<open>ll\<close>
  bytes.\<close>

definition flush_length :: "nat \<Rightarrow> cbb \<Rightarrow> nat \<Rightarrow> nat \<Rightarrow> nat \<Rightarrow> bool \<times> cbb" where
  "flush_length d c off ll n =
     (case store_be ll n of
        (bs, rest) \<Rightarrow>
          (let c' = c\<lparr>base := (base c)\<lparr>buf := store (buf (base c)) off bs\<rparr>\<rparr>
           in if rest \<noteq> 0 then (False, cbb_on_error d c')
              else (True, c'\<lparr>children := take d (children c')\<rparr>)))"

text \<open>The ASN.1 branch of \<open>CBB_flush\<close>: the number of bytes of the length and its first byte.\<close>

definition asn1_len_len :: "nat \<Rightarrow> nat" where
  "asn1_len_len n =
     (if n > 0xffffff then 5 else if n > 0xffff then 4 else if n > 0xff then 3 else if n > 0x7f then 2 else 1)"

definition initial_length_byte :: "nat \<Rightarrow> byte" where
  "initial_length_byte n =
     (if n > 0xffffff then 0x80 OR 4 else if n > 0xffff then 0x80 OR 3 else if n > 0xff then 0x80 OR 2
      else if n > 0x7f then 0x80 OR 1 else word_of_nat n)"

definition flush_child :: "memory \<Rightarrow> nat \<Rightarrow> cbb \<Rightarrow> cbb_child \<Rightarrow> nat \<Rightarrow> bool \<times> cbb" where
  "flush_child m d c child child_start =
     (let n = len (base c) - child_start
      in if pending_is_asn1 child then
           if n > 0xfffffffe then (False, cbb_on_error d c)
           else
             (let len_len = asn1_len_len n;
                  extra_bytes = len_len - 1;
                  finish = (\<lambda>b. flush_length d (c\<lparr>base := b\<lparr>buf := store (buf b) (offset child) [initial_length_byte n]\<rparr>\<rparr>)
                             (offset child + 1) (len_len - 1) (if len_len = 1 then 0 else n))
              in if len_len \<noteq> 1 then
                   (case cbb_buffer_add m (base c) extra_bytes of
                      (False, b) \<Rightarrow> (False, cbb_on_error d (c\<lparr>base := b\<rparr>))
                    | (True, b) \<Rightarrow>
                        finish (b\<lparr>buf := store (buf b) (child_start + extra_bytes) (take n (drop child_start (buf b)))\<rparr>))
                 else finish (base c))
         else flush_length d c (offset child) (pending_len_len child) n)"

function CBB_flush :: "memory \<Rightarrow> nat \<Rightarrow> cbb \<Rightarrow> bool \<times> cbb" where
  "CBB_flush m d c =
     (if d > length (children c) \<or> error (base c) then (False, c)
      else if d = length (children c) then (True, c)
      else
        (let child = children c ! d;
             child_start = size_add (offset child) (pending_len_len child)
         in case CBB_flush m (d + 1) c of
              (False, c') \<Rightarrow> (False, cbb_on_error d c')
            | (True, c') \<Rightarrow>
                if child_start < offset child \<or> len (base c') < child_start then (False, cbb_on_error d c')
                else flush_child m d c' child child_start))"
  by pat_completeness auto
termination
  by (relation "measure (\<lambda>(m, d, c). length (children c) - d)") auto

declare CBB_flush.simps [simp del]

definition CBB_finish :: "memory \<Rightarrow> nat \<Rightarrow> bool \<Rightarrow> cbb \<Rightarrow> byte list option \<times> cbb" where
  "CBB_finish m d out_is_null c =
     (if d \<noteq> 0 then (None, c)
      else
        (case CBB_flush m d c of
           (False, c') \<Rightarrow> (None, c')
         | (True, c') \<Rightarrow>
             if can_resize (base c') \<and> out_is_null then (None, c')
             else (Some (take (len (base c')) (buf (base c'))), c'\<lparr>base := (base c')\<lparr>buf := []\<rparr>\<rparr>)))"

text \<open>Where the contents of a \<^verbatim>\<open>CBB\<close> start in the buffer, and the contents themselves.\<close>

definition cbb_start :: "nat \<Rightarrow> cbb \<Rightarrow> nat" where
  "cbb_start d c = (if d = 0 then 0 else offset (children c ! (d - 1)) + pending_len_len (children c ! (d - 1)))"

definition CBB_len :: "nat \<Rightarrow> cbb \<Rightarrow> nat" where
  "CBB_len d c = len (base c) - cbb_start d c"

definition CBB_data :: "nat \<Rightarrow> cbb \<Rightarrow> byte list" where
  "CBB_data d c = drop (cbb_start d c) (buf (base c))"

definition cbb_add_child :: "memory \<Rightarrow> nat \<Rightarrow> cbb \<Rightarrow> nat \<Rightarrow> bool \<Rightarrow> bool \<times> cbb" where
  "cbb_add_child m d c len_len is_asn1 =
     (let off = len (base c)
      in case cbb_buffer_add m (base c) len_len of
           (False, b) \<Rightarrow> (False, c\<lparr>base := b\<rparr>)
         | (True, b) \<Rightarrow>
             (True,
              c\<lparr>base := b\<lparr>buf := store (buf b) off (replicate len_len 0)\<rparr>,
                children := take d (children c) @
                  [\<lparr>offset = off, pending_len_len = len_len, pending_is_asn1 = is_asn1\<rparr>]\<rparr>))"

definition cbb_add_length_prefixed :: "memory \<Rightarrow> nat \<Rightarrow> cbb \<Rightarrow> nat \<Rightarrow> bool \<times> cbb" where
  "cbb_add_length_prefixed m d c len_len =
     (case CBB_flush m d c of (False, c') \<Rightarrow> (False, c') | (True, c') \<Rightarrow> cbb_add_child m d c' len_len False)"

definition CBB_add_u8_length_prefixed :: "memory \<Rightarrow> nat \<Rightarrow> cbb \<Rightarrow> bool \<times> cbb" where
  "CBB_add_u8_length_prefixed m d c = cbb_add_length_prefixed m d c 1"

definition CBB_add_u16_length_prefixed :: "memory \<Rightarrow> nat \<Rightarrow> cbb \<Rightarrow> bool \<times> cbb" where
  "CBB_add_u16_length_prefixed m d c = cbb_add_length_prefixed m d c 2"

definition CBB_add_u24_length_prefixed :: "memory \<Rightarrow> nat \<Rightarrow> cbb \<Rightarrow> bool \<times> cbb" where
  "CBB_add_u24_length_prefixed m d c = cbb_add_length_prefixed m d c 3"

text \<open>\<open>CBB_add_space\<close> returns the position of the new bytes.\<close>

definition CBB_add_space :: "memory \<Rightarrow> nat \<Rightarrow> cbb \<Rightarrow> nat \<Rightarrow> nat option \<times> cbb" where
  "CBB_add_space m d c n =
     (case CBB_flush m d c of
        (False, c') \<Rightarrow> (None, c')
      | (True, c') \<Rightarrow>
          (case cbb_buffer_add m (base c') n of
             (False, b) \<Rightarrow> (None, c'\<lparr>base := b\<rparr>)
           | (True, b) \<Rightarrow> (Some (len (base c')), c'\<lparr>base := b\<rparr>)))"

definition cbb_store :: "nat \<Rightarrow> byte list \<Rightarrow> cbb \<Rightarrow> cbb" where
  "cbb_store out bs c = c\<lparr>base := (base c)\<lparr>buf := store (buf (base c)) out bs\<rparr>\<rparr>"

definition CBB_add_bytes :: "memory \<Rightarrow> nat \<Rightarrow> cbb \<Rightarrow> byte list \<Rightarrow> bool \<times> cbb" where
  "CBB_add_bytes m d c data =
     (case CBB_add_space m d c (length data) of
        (None, c') \<Rightarrow> (False, c')
      | (Some out, c') \<Rightarrow> (True, cbb_store out data c'))"

definition CBB_add_zeros :: "memory \<Rightarrow> nat \<Rightarrow> cbb \<Rightarrow> nat \<Rightarrow> bool \<times> cbb" where
  "CBB_add_zeros m d c n =
     (case CBB_add_space m d c n of
        (None, c') \<Rightarrow> (False, c')
      | (Some out, c') \<Rightarrow> (True, cbb_store out (replicate n 0) c'))"

definition CBB_reserve :: "memory \<Rightarrow> nat \<Rightarrow> cbb \<Rightarrow> nat \<Rightarrow> nat option \<times> cbb" where
  "CBB_reserve m d c n =
     (case CBB_flush m d c of
        (False, c') \<Rightarrow> (None, c')
      | (True, c') \<Rightarrow>
          (case cbb_buffer_reserve m (base c') n of
             (False, b) \<Rightarrow> (None, c'\<lparr>base := b\<rparr>)
           | (True, b) \<Rightarrow> (Some (len (base c')), c'\<lparr>base := b\<rparr>)))"

definition CBB_did_write :: "nat \<Rightarrow> cbb \<Rightarrow> nat \<Rightarrow> bool \<times> cbb" where
  "CBB_did_write d c n =
     (let newlen = size_add (len (base c)) n
      in if d < length (children c) \<or> newlen < len (base c) \<or> newlen > cap (base c) then (False, c)
         else (True, c\<lparr>base := (base c)\<lparr>len := newlen\<rparr>\<rparr>))"

definition cbb_add_u :: "memory \<Rightarrow> nat \<Rightarrow> cbb \<Rightarrow> u64 \<Rightarrow> nat \<Rightarrow> bool \<times> cbb" where
  "cbb_add_u m d c v len_len =
     (case CBB_add_space m d c len_len of
        (None, c') \<Rightarrow> (False, c')
      | (Some out, c') \<Rightarrow>
          (case store_be len_len (unat v) of
             (bs, rest) \<Rightarrow>
               if rest \<noteq> 0 then (False, cbb_on_error d (cbb_store out bs c'))
               else (True, cbb_store out bs c')))"

definition CBB_add_u8 :: "memory \<Rightarrow> nat \<Rightarrow> cbb \<Rightarrow> byte \<Rightarrow> bool \<times> cbb" where
  "CBB_add_u8 m d c v = cbb_add_u m d c (ucast v) 1"

definition CBB_add_u16 :: "memory \<Rightarrow> nat \<Rightarrow> cbb \<Rightarrow> u16 \<Rightarrow> bool \<times> cbb" where
  "CBB_add_u16 m d c v = cbb_add_u m d c (ucast v) 2"

definition CBB_add_u16le :: "memory \<Rightarrow> nat \<Rightarrow> cbb \<Rightarrow> u16 \<Rightarrow> bool \<times> cbb" where
  "CBB_add_u16le m d c v = CBB_add_u16 m d c (CRYPTO_bswap2 v)"

definition CBB_add_u24 :: "memory \<Rightarrow> nat \<Rightarrow> cbb \<Rightarrow> u32 \<Rightarrow> bool \<times> cbb" where
  "CBB_add_u24 m d c v = cbb_add_u m d c (ucast v) 3"

definition CBB_add_u32 :: "memory \<Rightarrow> nat \<Rightarrow> cbb \<Rightarrow> u32 \<Rightarrow> bool \<times> cbb" where
  "CBB_add_u32 m d c v = cbb_add_u m d c (ucast v) 4"

definition CBB_add_u32le :: "memory \<Rightarrow> nat \<Rightarrow> cbb \<Rightarrow> u32 \<Rightarrow> bool \<times> cbb" where
  "CBB_add_u32le m d c v = CBB_add_u32 m d c (CRYPTO_bswap4 v)"

definition CBB_add_u64 :: "memory \<Rightarrow> nat \<Rightarrow> cbb \<Rightarrow> u64 \<Rightarrow> bool \<times> cbb" where
  "CBB_add_u64 m d c v = cbb_add_u m d c v 8"

definition CBB_add_u64le :: "memory \<Rightarrow> nat \<Rightarrow> cbb \<Rightarrow> u64 \<Rightarrow> bool \<times> cbb" where
  "CBB_add_u64le m d c v = CBB_add_u64 m d c (CRYPTO_bswap8 v)"

definition CBB_discard_child :: "nat \<Rightarrow> cbb \<Rightarrow> cbb" where
  "CBB_discard_child d c =
     (if d \<ge> length (children c) then c
      else c\<lparr>base := (base c)\<lparr>len := offset (children c ! d)\<rparr>, children := take d (children c)\<rparr>)"

text \<open>The C idiom \<^verbatim>\<open>w1(...) && w2(...)\<close>: the second write only after the first one succeeded.\<close>

definition and_then ::
  "(memory \<Rightarrow> nat \<Rightarrow> cbb \<Rightarrow> bool \<times> cbb) \<Rightarrow> (memory \<Rightarrow> nat \<Rightarrow> cbb \<Rightarrow> bool \<times> cbb) \<Rightarrow> memory \<Rightarrow> nat \<Rightarrow> cbb \<Rightarrow> bool \<times> cbb" where
  "and_then w1 w2 m d c = (case w1 m d c of (False, c') \<Rightarrow> (False, c') | (True, c') \<Rightarrow> w2 m d c')"

text \<open>Opening a child, writing to it and flushing, with \<open>cbb_on_error\<close> on every failure.\<close>

definition enclose ::
  "(memory \<Rightarrow> nat \<Rightarrow> cbb \<Rightarrow> bool \<times> cbb) \<Rightarrow> (memory \<Rightarrow> nat \<Rightarrow> cbb \<Rightarrow> bool \<times> cbb) \<Rightarrow> memory \<Rightarrow> nat \<Rightarrow> cbb \<Rightarrow> bool \<times> cbb" where
  "enclose op w m d c =
     (case op m d c of
        (False, c') \<Rightarrow> (False, cbb_on_error d c')
      | (True, c1) \<Rightarrow>
          (case w m (d + 1) c1 of
             (False, c') \<Rightarrow> (False, cbb_on_error d c')
           | (True, c2) \<Rightarrow>
               (case CBB_flush m d c2 of
                  (False, c') \<Rightarrow> (False, cbb_on_error d c')
                | (True, c') \<Rightarrow> (True, c'))))"

section \<open>Buffers\<close>

lemma store_split: "length bs = length ys \<Longrightarrow> store (xs @ ys @ zs) (length xs) bs = xs @ bs @ zs"
  by (simp add: store_def)

lemma length_store [simp]: "i + length bs \<le> length xs \<Longrightarrow> length (store xs i bs) = length xs"
  by (simp add: store_def)

lemma take_store_end:
  "i + length bs \<le> length xs \<Longrightarrow> take (i + length bs) (store xs i bs) = take i xs @ bs"
  by (simp add: store_def)

lemma split_at:
  assumes "n \<le> length xs"
  obtains a b where "xs = a @ b" "length a = n"
  using assms by (metis append_take_drop_id length_take min.absorb2)

definition buffer_ok :: "cbb_buffer \<Rightarrow> bool" where
  "buffer_ok b \<longleftrightarrow> len b \<le> cap b \<and> cap b < size_max \<and> \<not> error b"

definition buffer_view :: "cbb_buffer \<Rightarrow> byte list" where
  "buffer_view b = take (len b) (buf b)"

lemma length_buffer_view [simp]: "buffer_ok b \<Longrightarrow> length (buffer_view b) = len b"
  by (simp add: buffer_ok_def buffer_view_def cap_def)

text \<open>A buffer that can always grow.\<close>

definition roomy :: "memory \<Rightarrow> cbb_buffer \<Rightarrow> bool" where
  "roomy m b \<longleftrightarrow> can_resize b \<and> (\<forall>n. alloc m n)"

lemma reserve_True:
  assumes b: "buffer_ok b" and n: "n < size_max" and run: "cbb_buffer_reserve m b n = (True, b')"
  shows "b' = b\<lparr>buf := buf b'\<rparr> \<and> len b + n \<le> cap b' \<and> cap b' < size_max \<and> take (cap b) (buf b') = buf b"
proof -
  have l: "len b < size_max" using b by (simp add: buffer_ok_def)
  have nw: "\<not> size_add (len b) n < len b" using run by (auto simp: cbb_buffer_reserve_def Let_def split: if_splits)
  note new = size_add_no_wrap [OF l n nw]
  show ?thesis
  proof (cases "len b + n > cap b")
    case True
    define c where "c = (let k = (cap b * 2) mod size_max in if k < cap b \<or> k < len b + n then len b + n else k)"
    have "(cap b * 2) mod size_max < size_max" by (simp add: size_max_def)
    then have c: "c < size_max" "len b + n \<le> c" using new by (auto simp: c_def Let_def)
    have "b' = b\<lparr>buf := buf b @ map (junk m) [cap b..<c]\<rparr>"
      using run True new nw by (auto simp: cbb_buffer_reserve_def Let_def c_def split: if_splits)
    with c True show ?thesis by (simp add: cap_def)
  next
    case False
    then have "b' = b" using run new nw by (auto simp: cbb_buffer_reserve_def Let_def split: if_splits)
    with False b show ?thesis by (simp add: cap_def buffer_ok_def)
  qed
qed

lemma reserve_False: "cbb_buffer_reserve m b n = (False, b') \<Longrightarrow> b' = b\<lparr>error := True\<rparr>"
  by (auto simp: cbb_buffer_reserve_def Let_def split: if_splits)

lemma reserve_roomy:
  assumes "roomy m b" "len b + n < size_max"
  shows "fst (cbb_buffer_reserve m b n)"
  using assms by (auto simp: cbb_buffer_reserve_def roomy_def Let_def)

lemma buffer_add_True:
  assumes b: "buffer_ok b" and n: "n < size_max" and run: "cbb_buffer_add m b n = (True, b')"
  shows "buffer_ok b' \<and> len b' = len b + n \<and> can_resize b' = can_resize b \<and>
    take (len b) (buf b') = buffer_view b"
proof -
  obtain b0 where r: "cbb_buffer_reserve m b n = (True, b0)" and b': "b' = b0\<lparr>len := len b0 + n\<rparr>"
    using run by (auto simp: cbb_buffer_add_def split: prod.splits bool.splits)
  note t = reserve_True [OF b n r]
  then obtain xs where xs: "b0 = b\<lparr>buf := xs\<rparr>" by metis
  have "take (len b) (take (cap b) xs) = take (len b) (buf b)" using t xs by simp
  then have "take (len b) xs = take (len b) (buf b)" using b by (simp add: buffer_ok_def)
  with t b b' xs show ?thesis by (simp add: buffer_ok_def buffer_view_def cap_def)
qed

lemma buffer_add_False: "cbb_buffer_add m b n = (False, b') \<Longrightarrow> b' = b\<lparr>error := True\<rparr>"
  by (auto simp: cbb_buffer_add_def dest: reserve_False split: prod.splits bool.splits)

lemma buffer_add_roomy:
  assumes "roomy m b" "len b + n < size_max"
  obtains b' where "cbb_buffer_add m b n = (True, b')"
  using reserve_roomy [OF assms] by (cases "cbb_buffer_reserve m b n") (auto simp: cbb_buffer_add_def)

lemma store_be_eq: "store_be k v = (be_bytes k v, v div 256 ^ k)"
  by (induction k v rule: store_be.induct) (simp_all add: div_mult2_eq)

section \<open>Closing a length prefix\<close>

definition close1 :: "cbb_child \<Rightarrow> byte list \<Rightarrow> byte list option" where
  "close1 f v =
     (let pre = take (offset f) v; body = drop (offset f + pending_len_len f) v; n = length body
      in if pending_is_asn1 f
         then if n > 0xfffffffe then None else Some (pre @ der_length n @ body)
         else if n < 256 ^ pending_len_len f then Some (pre @ be_bytes (pending_len_len f) n @ body) else None)"

fun close_all :: "cbb_child list \<Rightarrow> byte list \<Rightarrow> byte list option" where
  "close_all [] v = Some v"
| "close_all (f # fs) v = Option.bind (close_all fs v) (close1 f)"

definition child_ok :: "cbb_child \<Rightarrow> bool" where
  "child_ok f \<longleftrightarrow> (pending_is_asn1 f \<longrightarrow> pending_len_len f = 1) \<and> pending_len_len f \<le> 8"

fun chain_ok :: "nat \<Rightarrow> cbb_child list \<Rightarrow> nat \<Rightarrow> bool" where
  "chain_ok start [] n \<longleftrightarrow> start \<le> n"
| "chain_ok start (f # fs) n \<longleftrightarrow>
     start \<le> offset f \<and> child_ok f \<and> chain_ok (offset f + pending_len_len f) fs n"

definition cbb_ok :: "cbb \<Rightarrow> bool" where
  "cbb_ok c \<longleftrightarrow> buffer_ok (base c) \<and> chain_ok 0 (children c) (len (base c))"

lemma asn1_header_eq:
  "n \<le> 0xfffffffe \<Longrightarrow>
   initial_length_byte n # be_bytes (asn1_len_len n - 1) (if asn1_len_len n = 1 then 0 else n) = der_length n"
  by (auto simp: initial_length_byte_def asn1_len_len_def der_length_def len_octets_def)

lemma flush_length_eq:
  "flush_length d c off ll n =
     (let c' = cbb_store off (be_bytes ll n) c
      in if n < 256 ^ ll then (True, c'\<lparr>children := take d (children c)\<rparr>) else (False, cbb_on_error d c'))"
  by (simp add: flush_length_def store_be_eq cbb_store_def Let_def div_eq_0_iff)

lemma buffer_ok_store: "buffer_ok b \<Longrightarrow> i + length bs \<le> cap b \<Longrightarrow> buffer_ok (b\<lparr>buf := store (buf b) i bs\<rparr>)"
  by (simp add: buffer_ok_def cap_def)

text \<open>A prefix that has its place already: the contents are untouched.\<close>

lemma view_store_prefix:
  assumes "buffer_ok b" "i + length bs \<le> len b"
  shows "buffer_view (b\<lparr>buf := store (buf b) i bs\<rparr>) = take i (buffer_view b) @ bs @ drop (i + length bs) (buffer_view b)"
  using assms by (cases "len b = i") (auto simp: buffer_view_def store_def buffer_ok_def cap_def min_def take_drop)

text \<open>A prefix that has to be made longer: the contents are moved.\<close>

lemma store_three:
  assumes "length xs \<ge> off + 1 + length bs + length body"
  shows "take (off + 1 + length bs + length body)
    (store (store (store xs (off + 1 + length bs) body) off [i]) (off + 1) bs) = take off xs @ i # bs @ body"
proof -
  obtain a r where a: "xs = a @ r" "length a = off" using assms by (auto intro: split_at [of off xs])
  then have "1 \<le> length r" using assms by simp
  then obtain x r1 where x: "r = [x] @ r1" by (cases r) auto
  have "length bs \<le> length r1" using assms a x by simp
  then obtain b r2 where b: "r1 = b @ r2" "length b = length bs" by (auto intro: split_at [of "length bs" r1])
  have "length body \<le> length r2" using assms a x b by simp
  then obtain c r3 where c: "r2 = c @ r3" "length c = length body" by (auto intro: split_at [of "length body" r2])
  have xs: "xs = (a @ [x] @ b) @ c @ r3" using a x b c by simp
  have "store xs (off + 1 + length bs) body = a @ [x] @ (b @ body @ r3)"
    using store_split [of body c "a @ [x] @ b" r3] a b c by (simp add: xs)
  then have "store (store xs (off + 1 + length bs) body) off [i] = (a @ [i]) @ b @ (body @ r3)"
    using store_split [of "[i]" "[x]" a "b @ body @ r3"] a by simp
  then have "store (store (store xs (off + 1 + length bs) body) off [i]) (off + 1) bs = a @ i # bs @ body @ r3"
    using store_split [of bs b "a @ [i]" "body @ r3"] a b by simp
  with a show ?thesis by simp
qed

lemma flush_child_cases:
  assumes "pending_is_asn1 f" "len (base c) - s = n" "n \<le> 0xfffffffe"
  shows "asn1_len_len n = 1 \<Longrightarrow> flush_child m d c f s =
      flush_length d (cbb_store (offset f) [initial_length_byte n] c) (offset f + 1) 0 0"
    and "asn1_len_len n \<noteq> 1 \<Longrightarrow> cbb_buffer_add m (base c) (asn1_len_len n - 1) = (False, b) \<Longrightarrow>
      flush_child m d c f s = (False, cbb_on_error d (c\<lparr>base := b\<rparr>))"
    and "asn1_len_len n \<noteq> 1 \<Longrightarrow> cbb_buffer_add m (base c) (asn1_len_len n - 1) = (True, b) \<Longrightarrow>
      flush_child m d c f s =
        flush_length d (cbb_store (offset f) [initial_length_byte n]
            (cbb_store (s + (asn1_len_len n - 1)) (take n (drop s (buf b))) (c\<lparr>base := b\<rparr>)))
          (offset f + 1) (asn1_len_len n - 1) n"
  using assms by (simp_all add: flush_child_def cbb_store_def Let_def)

lemma flush_child_moved:
  assumes ok: "buffer_ok (base c)" and f: "pending_is_asn1 f" and off: "offset f + 1 \<le> len (base c)"
    and n: "n = len (base c) - (offset f + 1)" "n \<le> 0xfffffffe" "asn1_len_len n \<noteq> 1"
    and add: "cbb_buffer_add m (base c) (asn1_len_len n - 1) = (True, b)"
    and run: "flush_child m d c f (offset f + 1) = (r, c')"
  shows "r \<and> buffer_view (base c') =
      take (offset f) (buffer_view (base c)) @ der_length n @ drop (offset f + 1) (buffer_view (base c)) \<and>
    buffer_ok (base c') \<and> children c' = take d (children c) \<and> can_resize (base c') = can_resize (base c)"
proof -
  define e where "e = asn1_len_len n - 1"
  define i where "i = initial_length_byte n"
  define body where "body = drop (offset f + 1) (buffer_view (base c))"
  have e: "e < size_max" by (simp add: e_def asn1_len_len_def size_max_def)
  have b: "buffer_ok b" "len b = len (base c) + e" "can_resize b = can_resize (base c)"
    "take (len (base c)) (buf b) = buffer_view (base c)"
    using buffer_add_True [OF ok e add [folded e_def]] by auto
  have lb: "length body = n" using ok n(1) by (simp add: body_def)
  have body: "take n (drop (offset f + 1) (buf b)) = body"
    using off n(1) ok by (simp_all add: body_def b(4) [symmetric] take_drop)
  have fits: "n < 256 ^ e" using n(2,3) by (auto simp: e_def asn1_len_len_def split: if_splits)
  have hd: "der_length n = i # be_bytes e n"
    using asn1_header_eq [OF n(2)] n(3) by (simp add: e_def i_def)
  have lt: "len b = offset f + 1 + length (be_bytes e n) + length body" using b(2) lb n(1) off by simp
  define xs where "xs = store (store (store (buf b) (offset f + 1 + e) body) (offset f) [i]) (offset f + 1) (be_bytes e n)"
  have c': "r \<and> c' = c\<lparr>base := b\<lparr>buf := xs\<rparr>, children := take d (children c)\<rparr>"
    using run fits body flush_child_cases(3) [OF f n(1) [symmetric] n(2,3) add, of d]
    by (simp add: flush_length_eq cbb_store_def i_def e_def xs_def)
  have room: "offset f + 1 + length (be_bytes e n) + length body \<le> length (buf b)"
    using b(1) lt by (simp add: buffer_ok_def cap_def)
  have "take (offset f) (buf b) = take (offset f) (buffer_view (base c))"
    using off by (simp add: b(4) [symmetric])
  then have "take (len b) xs = take (offset f) (buffer_view (base c)) @ der_length n @ body"
    using store_three [OF room, of i] by (simp add: lt xs_def hd)
  moreover have "length xs = length (buf b)" using room by (simp add: xs_def)
  ultimately show ?thesis using c' b(1,3) by (simp add: buffer_view_def buffer_ok_def cap_def body_def)
qed

text \<open>What flushing the children \<open>fs\<close> does to the buffer.\<close>

definition flushed :: "memory \<Rightarrow> cbb_child list \<Rightarrow> cbb_buffer \<Rightarrow> bool \<Rightarrow> cbb_buffer \<Rightarrow> bool" where
  "flushed m fs b r b' \<longleftrightarrow>
     (if r then close_all fs (buffer_view b) = Some (buffer_view b') \<and> buffer_ok b' \<and>
        len b \<le> len b' \<and> len b' \<le> len b + 4 * length fs \<and> can_resize b' = can_resize b
      else error b' \<and> (roomy m b \<and> len b + 4 * length fs < size_max \<longrightarrow> close_all fs (buffer_view b) = None))"

lemma flush_child_short:
  assumes ok: "buffer_ok (base c)" and f: "pending_is_asn1 f" and off: "offset f + 1 \<le> len (base c)"
    and n: "n = len (base c) - (offset f + 1)" "n \<le> 0xfffffffe" "asn1_len_len n = 1"
    and run: "flush_child m d c f (offset f + 1) = (r, c')"
  shows "r \<and> buffer_view (base c') =
      take (offset f) (buffer_view (base c)) @ der_length n @ drop (offset f + 1) (buffer_view (base c)) \<and>
    buffer_ok (base c') \<and> children c' = take d (children c) \<and> can_resize (base c') = can_resize (base c)"
proof -
  have "r \<and> c' = c\<lparr>base := (base c)\<lparr>buf := store (buf (base c)) (offset f) [initial_length_byte n]\<rparr>,
      children := take d (children c)\<rparr>"
    using run flush_child_cases(1) [OF f n(1) [symmetric] n(2,3), of m d]
    by (simp add: flush_length_eq cbb_store_def store_def)
  moreover have "der_length n = [initial_length_byte n]" using asn1_header_eq [OF n(2)] n(3) by simp
  ultimately show ?thesis
    using ok off view_store_prefix [of "base c" "offset f" "[initial_length_byte n]"]
      buffer_ok_store [OF ok, of "offset f" "[initial_length_byte n]"]
    by (simp add: buffer_ok_def)
qed

lemma length_der_length: "n \<le> 0xfffffffe \<Longrightarrow> 1 \<le> length (der_length n) \<and> length (der_length n) \<le> 5"
  by (auto simp: der_length_def len_octets_def)

lemma flushed_asn1I:
  assumes ok: "buffer_ok b" and f: "pending_is_asn1 f" "pending_len_len f = 1" and off: "offset f + 1 \<le> len b"
    and n: "n = len b - (offset f + 1)" "n \<le> 0xfffffffe"
    and b': "buffer_ok b'" "can_resize b' = can_resize b"
      "buffer_view b' = take (offset f) (buffer_view b) @ der_length n @ drop (offset f + 1) (buffer_view b)"
  shows "flushed m [f] b True b'"
proof -
  have "close1 f (buffer_view b) = Some (buffer_view b')" using f n b'(3) ok by (simp add: close1_def Let_def)
  moreover have "len b' = length (buffer_view b')" using b'(1) by simp
  then have "len b' = offset f + length (der_length n) + n" using off ok n by (simp add: b'(3))
  then have "len b \<le> len b' \<and> len b' \<le> len b + 4" using length_der_length [OF n(2)] n(1) off by linarith
  ultimately show ?thesis using b' by (simp add: flushed_def)
qed

lemma flush_child_asn1:
  assumes ok: "buffer_ok (base c)" and f: "pending_is_asn1 f" "pending_len_len f = 1"
    and off: "offset f + 1 \<le> len (base c)"
    and run: "flush_child m d c f (offset f + 1) = (r, c')"
  shows "flushed m [f] (base c) r (base c') \<and> children c' = take d (children c)"
proof -
  define n where "n = len (base c) - (offset f + 1)"
  have n: "length (drop (offset f + 1) (buffer_view (base c))) = n" using ok by (simp add: n_def)
  consider (big) "n > 0xfffffffe"
    | (nomem) b where "n \<le> 0xfffffffe" "asn1_len_len n \<noteq> 1" "cbb_buffer_add m (base c) (asn1_len_len n - 1) = (False, b)"
    | (moved) b where "n \<le> 0xfffffffe" "asn1_len_len n \<noteq> 1" "cbb_buffer_add m (base c) (asn1_len_len n - 1) = (True, b)"
    | (short) "n \<le> 0xfffffffe" "asn1_len_len n = 1"
    by (cases "cbb_buffer_add m (base c) (asn1_len_len n - 1)"; cases "fst (cbb_buffer_add m (base c) (asn1_len_len n - 1))")
      (force simp: not_less)+
  then show ?thesis
  proof cases
    case big
    then have "close1 f (buffer_view (base c)) = None" using f n by (simp add: close1_def Let_def)
    moreover have "r = False" "c' = cbb_on_error d c"
      using run big f(1) by (simp_all add: flush_child_def Let_def n_def)
    ultimately show ?thesis by (simp add: cbb_on_error_def flushed_def)
  next
    case (nomem b)
    then have "r = False" "c' = cbb_on_error d (c\<lparr>base := b\<rparr>)"
      using run flush_child_cases(2) [OF f(1) n_def [symmetric] nomem, of d] by simp_all
    moreover have "\<not> (roomy m (base c) \<and> len (base c) + 4 < size_max)"
    proof
      assume a: "roomy m (base c) \<and> len (base c) + 4 < size_max"
      then have "len (base c) + (asn1_len_len n - 1) < size_max" by (simp add: asn1_len_len_def split: if_splits)
      with a show False using nomem by (auto elim: buffer_add_roomy [of m "base c" "asn1_len_len n - 1"])
    qed
    ultimately show ?thesis by (auto simp: cbb_on_error_def flushed_def)
  next
    case (moved b)
    note * = flush_child_moved [OF ok f(1) off n_def moved run]
    with flushed_asn1I [OF ok f off n_def moved(1), of "base c'" m] show ?thesis by simp
  next
    case short
    note * = flush_child_short [OF ok f(1) off n_def short run]
    with flushed_asn1I [OF ok f off n_def short(1), of "base c'" m] show ?thesis by simp
  qed
qed

lemma flush_child_plain:
  assumes ok: "buffer_ok (base c)" and f: "\<not> pending_is_asn1 f"
    and off: "offset f + pending_len_len f \<le> len (base c)"
    and run: "flush_child m d c f (offset f + pending_len_len f) = (r, c')"
  shows "flushed m [f] (base c) r (base c') \<and> children c' = take d (children c)"
proof -
  define n where "n = len (base c) - (offset f + pending_len_len f)"
  have n: "length (buffer_view (base c)) - (offset f + pending_len_len f) = n" using ok by (simp add: n_def)
  have run: "(r, c') = flush_length d c (offset f) (pending_len_len f) n"
    using run f by (simp add: flush_child_def n_def)
  show ?thesis
  proof (cases "n < 256 ^ pending_len_len f")
    case True
    with run f n ok off view_store_prefix [OF ok, of "offset f" "be_bytes (pending_len_len f) n"]
      buffer_ok_store [OF ok, of "offset f" "be_bytes (pending_len_len f) n"]
    show ?thesis by (simp add: flush_length_eq cbb_store_def flushed_def close1_def buffer_ok_def)
  next
    case False
    with run f n show ?thesis by (simp add: flush_length_eq cbb_store_def flushed_def close1_def cbb_on_error_def)
  qed
qed

lemma flush_child_flushed:
  assumes "buffer_ok (base c)" "child_ok f" "offset f + pending_len_len f \<le> len (base c)"
    "flush_child m d c f (offset f + pending_len_len f) = (r, c')"
  shows "flushed m [f] (base c) r (base c') \<and> children c' = take d (children c)"
  using assms flush_child_asn1 [of c f m d r c'] flush_child_plain [of c f m d r c']
  by (cases "pending_is_asn1 f") (simp_all add: child_ok_def)

section \<open>Flushing\<close>

lemma chain_ok_le: "chain_ok s cs n \<Longrightarrow> s \<le> n"
  by (induction cs arbitrary: s) (auto dest: add_leD1 intro: order_trans)

lemma chain_ok_mono: "chain_ok s cs n \<Longrightarrow> n \<le> n' \<Longrightarrow> chain_ok s cs n'"
  by (induction cs arbitrary: s) auto

lemma chain_ok_take: "chain_ok s cs n \<Longrightarrow> chain_ok s (take d cs) n"
proof (induction cs arbitrary: s d)
  case (Cons f cs)
  then have "s \<le> n" by (blast dest: chain_ok_le)
  with Cons show ?case by (cases d) auto
qed simp

lemma chain_ok_nth:
  "chain_ok s cs n \<Longrightarrow> d < length cs \<Longrightarrow> child_ok (cs ! d) \<and> offset (cs ! d) + pending_len_len (cs ! d) \<le> n"
  by (induction cs arbitrary: s d) (auto simp: nth_Cons dest: chain_ok_le split: nat.splits)

lemma chain_ok_snoc:
  "chain_ok s cs n \<Longrightarrow> n \<le> offset f \<Longrightarrow> child_ok f \<Longrightarrow> offset f + pending_len_len f \<le> n' \<Longrightarrow> chain_ok s (cs @ [f]) n'"
  by (induction cs arbitrary: s) auto

lemma flushed_trans:
  assumes "flushed m fs b r b'" "r \<Longrightarrow> flushed m [f] b' r' b''"
  shows "r \<Longrightarrow> flushed m (f # fs) b r' b''" "\<not> r \<Longrightarrow> error b'' \<Longrightarrow> flushed m (f # fs) b False b''"
  using assms by (auto simp: flushed_def roomy_def split: if_splits)

lemma CBB_flush_flushed:
  assumes "cbb_ok c" "d \<le> length (children c)" "CBB_flush m d c = (r, c')"
  shows "flushed m (drop d (children c)) (base c) r (base c') \<and> children c' = take d (children c)"
  using assms
proof (induction m d c arbitrary: r c' rule: CBB_flush.induct)
  case (1 m d c)
  have ok: "buffer_ok (base c)" and noerr: "\<not> error (base c)" and chain: "chain_ok 0 (children c) (len (base c))"
    using "1.prems"(1) by (simp_all add: cbb_ok_def buffer_ok_def)
  show ?case
  proof (cases "d = length (children c)")
    case True
    with "1.prems"(3) noerr ok show ?thesis by (simp add: CBB_flush.simps flushed_def)
  next
    case False
    define f where "f = children c ! d"
    define fs where "fs = drop (d + 1) (children c)"
    have d: "d < length (children c)" using False "1.prems"(2) by simp
    have drop: "drop d (children c) = f # fs" using d by (simp add: f_def fs_def Cons_nth_drop_Suc)
    have f: "child_ok f" "offset f + pending_len_len f \<le> len (base c)"
      using chain_ok_nth [OF chain d] by (simp_all add: f_def)
    have start: "size_add (offset f) (pending_len_len f) = offset f + pending_len_len f"
      using f(2) ok by (simp add: size_add_def buffer_ok_def)
    obtain r1 c1 where r1: "CBB_flush m (d + 1) c = (r1, c1)" by fastforce
    have IH: "flushed m fs (base c) r1 (base c1) \<and> children c1 = take (d + 1) (children c)"
      using "1.IH" [of f _ r1 c1] r1 d noerr "1.prems"(1) start by (simp add: f_def fs_def)
    show ?thesis
    proof (cases r1)
      case True
      then have c1: "buffer_ok (base c1)" "offset f + pending_len_len f \<le> len (base c1)"
        using IH f(2) by (simp_all add: flushed_def)
      have "flush_child m d c1 f (offset f + pending_len_len f) = (r, c')"
        using "1.prems"(3) r1 True d noerr c1(2) start by (simp add: CBB_flush.simps [of m d c] f_def Let_def)
      from flush_child_flushed [OF c1(1) f(1) c1(2) this] IH True d show ?thesis
        using flushed_trans(1) [of m fs "base c" r1 "base c1" f r "base c'"] by (simp add: drop min_def)
    next
      case nr: False
      then have "r = False" "c' = cbb_on_error d c1"
        using "1.prems"(3) r1 d noerr by (simp_all add: CBB_flush.simps [of m d c] Let_def)
      with IH nr d show ?thesis by (auto simp: drop cbb_on_error_def flushed_def min_def)
    qed
  qed
qed

section \<open>Operations that append bytes\<close>

definition cbb_view :: "cbb \<Rightarrow> byte list" where
  "cbb_view c = buffer_view (base c)"

text \<open>The contents once everything below depth \<open>d\<close> is closed.\<close>

definition closed :: "nat \<Rightarrow> cbb \<Rightarrow> byte list option" where
  "closed d c = close_all (drop d (children c)) (cbb_view c)"

text \<open>
  The contract of an operation that appends \<open>bs\<close> to the \<^verbatim>\<open>CBB\<close> of depth \<open>d\<close>: the children below it are closed,
  the bytes come after them, and it can fail only by leaving the error flag behind, for want of memory or because a
  child is too long.
\<close>

definition adds :: "memory \<Rightarrow> nat \<Rightarrow> byte list \<Rightarrow> cbb \<Rightarrow> bool \<Rightarrow> cbb \<Rightarrow> bool" where
  "adds m d bs c r c' \<longleftrightarrow> children c' = take d (children c) \<and>
     (if r then
        (\<exists>v. closed d c = Some v \<and> cbb_view c' = v @ bs \<and>
          len (base c) \<le> length v \<and> length v \<le> len (base c) + 4 * (length (children c) - d)) \<and>
        cbb_ok c' \<and> can_resize (base c') = can_resize (base c)
      else error (base c') \<and>
        (roomy m (base c) \<and> len (base c) + 4 * (length (children c) - d) + 6 * length bs < size_max \<longrightarrow>
           closed d c = None))"

text \<open>Operations that keep the contract on a \<^verbatim>\<open>CBB\<close> without children, and those that keep it on any.\<close>

locale fresh_writer =
  fixes w :: "memory \<Rightarrow> nat \<Rightarrow> cbb \<Rightarrow> bool \<times> cbb" and bs :: "byte list"
  assumes adds_fresh:
    "cbb_ok c \<Longrightarrow> length (children c) = d \<Longrightarrow> length bs < size_max \<Longrightarrow> w m d c = (r, c') \<Longrightarrow> adds m d bs c r c'"

locale writer =
  fixes w :: "memory \<Rightarrow> nat \<Rightarrow> cbb \<Rightarrow> bool \<times> cbb" and bs :: "byte list"
  assumes adds: "cbb_ok c \<Longrightarrow> d \<le> length (children c) \<Longrightarrow> length bs < size_max \<Longrightarrow> w m d c = (r, c') \<Longrightarrow> adds m d bs c r c'"

sublocale writer \<subseteq> fresh_writer
  by unfold_locales (auto intro: adds)

lemma fresh: "writer w bs \<Longrightarrow> fresh_writer w bs"
  by (auto simp: writer_def fresh_writer_def)

lemma len_cbb_view: "cbb_ok c \<Longrightarrow> length (cbb_view c) = len (base c)"
  by (simp add: cbb_ok_def cbb_view_def)

lemma adds_seq:
  assumes c: "cbb_ok c" "d \<le> length (children c)" and a1: "adds m d bs c r1 c1"
    and a2: "r1 \<Longrightarrow> adds m d bs' c1 r c'" and stop: "\<not> r1 \<Longrightarrow> r = False \<and> c' = c1"
  shows "adds m d (bs @ bs') c r c'"
proof (cases r1)
  case True
  then have c1: "cbb_ok c1" "children c1 = take d (children c)" using a1 by (simp_all add: adds_def)
  have cl: "closed d c1 = Some (cbb_view c1)" "length (children c1) - d = 0" using c1(2) by (simp_all add: closed_def)
  obtain v where v: "closed d c = Some v" "cbb_view c1 = v @ bs" "length v \<le> len (base c) + 4 * (length (children c) - d)"
    "len (base c) \<le> length v"
    using a1 True by (auto simp: adds_def)
  have l1: "len (base c1) = length v + length bs" using len_cbb_view [OF c1(1)] v(2) by simp
  have res: "can_resize (base c1) = can_resize (base c)" using a1 True by (simp add: adds_def)
  show ?thesis using a2 [OF True] cl v res l1 c1(2) c(2) by (auto simp: adds_def roomy_def split: if_splits)
next
  case False
  with a1 stop show ?thesis by (auto simp: adds_def)
qed

context writer
begin

lemma succeeds:
  assumes "cbb_ok c" "d \<le> length (children c)" "roomy m (base c)" "closed d c \<noteq> None"
    "len (base c) + 4 * (length (children c) - d) + 6 * length bs < size_max"
  shows "fst (w m d c)"
  using assms adds [of c d m "fst (w m d c)" "snd (w m d c)"] by (auto simp: adds_def split: if_splits)

lemma appends:
  assumes "cbb_ok c" "d \<le> length (children c)" "length bs < size_max" "w m d c = (True, c')"
  obtains v where "closed d c = Some v" "cbb_view c' = v @ bs" "children c' = take d (children c)" "cbb_ok c'"
  using adds [OF assms] by (auto simp: adds_def)

lemma seq:
  assumes "writer w' bs'"
  shows "writer (and_then w w') (bs @ bs')"
proof
  fix c d m r c'
  assume c: "cbb_ok c" "d \<le> length (children c)" and small: "length (bs @ bs') < size_max"
    and run: "and_then w w' m d c = (r, c')"
  obtain r1 c1 where r1: "w m d c = (r1, c1)" by fastforce
  have a1: "adds m d bs c r1 c1" using adds [OF c _ r1] small by simp
  show "adds m d (bs @ bs') c r c'"
  proof (rule adds_seq [OF c a1])
    assume "r1"
    then have "cbb_ok c1" "d \<le> length (children c1)" "w' m d c1 = (r, c')"
      using a1 run r1 c(2) by (simp_all add: adds_def and_then_def)
    then show "adds m d bs' c1 r c'" using writer.adds [OF assms] small by simp
  qed (use run r1 in \<open>simp add: and_then_def\<close>)
qed

end

text \<open>Writing nothing, and writing one thing after another, on a \<^verbatim>\<open>CBB\<close> without children.\<close>

interpretation nothing: fresh_writer "\<lambda>m d c. (True, c)" "[]"
  by unfold_locales (auto simp: adds_def closed_def cbb_view_def cbb_ok_def)

lemma fresh_seq:
  assumes "fresh_writer w bs" "fresh_writer w' bs'"
  shows "fresh_writer (and_then w w') (bs @ bs')"
proof
  fix c d m r c'
  assume c: "cbb_ok c" "length (children c) = d" and small: "length (bs @ bs') < size_max"
    and run: "and_then w w' m d c = (r, c')"
  obtain r1 c1 where r1: "w m d c = (r1, c1)" by fastforce
  have a1: "adds m d bs c r1 c1" using fresh_writer.adds_fresh [OF assms(1) c _ r1] small by simp
  show "adds m d (bs @ bs') c r c'"
  proof (rule adds_seq [OF c(1) _ a1])
    assume "r1"
    then have "cbb_ok c1" "length (children c1) = d" "w' m d c1 = (r, c')"
      using a1 run r1 c(2) by (simp_all add: adds_def and_then_def)
    then show "adds m d bs' c1 r c'" using fresh_writer.adds_fresh [OF assms(2)] small by simp
  qed (use run r1 c(2) in \<open>simp_all add: and_then_def\<close>)
qed

lemma flush_adds:
  assumes "cbb_ok c" "d \<le> length (children c)" "CBB_flush m d c = (r, c')"
  shows "adds m d [] c r c'"
proof -
  have f: "flushed m (drop d (children c)) (base c) r (base c')" "children c' = take d (children c)"
    using CBB_flush_flushed [OF assms] by simp_all
  have "r \<Longrightarrow> cbb_ok c'"
    using f assms(1) by (auto simp: flushed_def cbb_ok_def intro: chain_ok_take chain_ok_mono)
  with f show ?thesis by (auto simp: adds_def flushed_def closed_def cbb_view_def split: if_splits)
qed

interpretation flush: writer CBB_flush "[]"
  by unfold_locales (rule flush_adds)

text \<open>Room for \<open>n\<close> bytes after the closed contents.\<close>

lemma add_space:
  assumes c: "cbb_ok c" "d \<le> length (children c)" and n: "length bs < size_max"
    and run: "CBB_add_space m d c (length bs) = (r, c')"
  shows "r = None \<Longrightarrow> adds m d bs c False c'"
    and "r = Some out \<Longrightarrow> adds m d bs c True (cbb_store out bs c')"
proof -
  obtain r1 c1 where r1: "CBB_flush m d c = (r1, c1)" by fastforce
  note a1 = flush_adds [OF c r1]
  obtain r2 b where r2: "cbb_buffer_add m (base c1) (length bs) = (r2, b)" by fastforce
  have A: "(r = None \<longrightarrow> adds m d bs c False c') \<and> (r = Some out \<longrightarrow> adds m d bs c True (cbb_store out bs c'))"
  proof (cases r1)
    case False
    with run r1 a1 show ?thesis by (auto simp: CBB_add_space_def adds_def)
  next
    case True
    then obtain v where v: "closed d c = Some v" "cbb_view c1 = v" "length v \<le> len (base c) + 4 * (length (children c) - d)"
      "len (base c) \<le> length v"
      and c1: "cbb_ok c1" "children c1 = take d (children c)" "can_resize (base c1) = can_resize (base c)"
      using a1 by (auto simp: adds_def)
    have ok1: "buffer_ok (base c1)" using c1 by (simp add: cbb_ok_def)
    have l: "len (base c1) = length v" using len_cbb_view [OF c1(1)] v(2) by simp
    show ?thesis
    proof (cases r2)
      case r2F: False
      then have "r = None" "c' = c1\<lparr>base := (base c1)\<lparr>error := True\<rparr>\<rparr>"
        using run r1 r2 True buffer_add_False [of m "base c1" "length bs" b] by (simp_all add: CBB_add_space_def)
      moreover have "\<not> (roomy m (base c) \<and> len (base c) + 4 * (length (children c) - d) + 6 * length bs < size_max)"
      proof
        assume "roomy m (base c) \<and> len (base c) + 4 * (length (children c) - d) + 6 * length bs < size_max"
        then have "roomy m (base c1)" "len (base c1) + length bs < size_max" using c1(3) v(3) l by (auto simp: roomy_def)
        then show False using r2 r2F by (auto elim: buffer_add_roomy [of m "base c1" "length bs"])
      qed
      ultimately show ?thesis using c1(2) by (auto simp: adds_def)
    next
      case r2T: True
      then have rc: "r = Some (len (base c1))" "c' = c1\<lparr>base := b\<rparr>"
        using run r1 r2 True by (simp_all add: CBB_add_space_def)
      note b = buffer_add_True [OF ok1 n r2 [unfolded r2T [THEN eq_True [THEN iffD2]]]]
      have tk: "take (len b) (store (buf b) (length v) bs) = v @ bs"
        using b l v(2) take_store_end [of "length v" bs "buf b"] ok1 by (simp add: buffer_ok_def cap_def cbb_view_def)
      have ok: "buffer_ok (b\<lparr>buf := store (buf b) (length v) bs\<rparr>)"
        using b l by (intro buffer_ok_store) (auto simp: buffer_ok_def)
      have "chain_ok 0 (children c1) (len b)" using c1(1) b by (auto simp: cbb_ok_def intro: chain_ok_mono)
      with tk ok rc v c1 b l show ?thesis
        by (auto simp: adds_def cbb_store_def cbb_ok_def cbb_view_def buffer_view_def)
    qed
  qed
  from A show "r = None \<Longrightarrow> adds m d bs c False c'" "r = Some out \<Longrightarrow> adds m d bs c True (cbb_store out bs c')"
    by blast+
qed

lemmas add_space_None = add_space(1) [OF _ _ _ _ refl]
  and add_space_Some = add_space(2) [OF _ _ _ _ refl]

interpretation bytes: writer "\<lambda>m d c. CBB_add_bytes m d c data" data for data
  by unfold_locales (auto simp: CBB_add_bytes_def dest: add_space_None add_space_Some split: prod.splits option.splits)

interpretation zeros: writer "\<lambda>m d c. CBB_add_zeros m d c n" "replicate n 0" for n
proof
  fix c d m r c'
  assume c: "cbb_ok c" "d \<le> length (children c)" and n: "length (replicate n (0 :: byte)) < size_max"
    and run: "CBB_add_zeros m d c n = (r, c')"
  from run show "adds m d (replicate n 0) c r c'"
    using add_space_None [OF c n, of m] add_space_Some [OF c n, of m] by (auto simp: CBB_add_zeros_def split: prod.splits option.splits)
qed

lemma add_u_writer:
  assumes "unat v < 256 ^ k"
  shows "writer (\<lambda>m d c. cbb_add_u m d c v k) (be_bytes k (unat v))"
proof
  fix c d m r c'
  assume c: "cbb_ok c" "d \<le> length (children c)" and n: "length (be_bytes k (unat v)) < size_max"
    and run: "cbb_add_u m d c v k = (r, c')"
  from run assms show "adds m d (be_bytes k (unat v)) c r c'"
    using add_space_None [OF c n, of m] add_space_Some [OF c n, of m] by (auto simp: cbb_add_u_def store_be_eq div_eq_0_iff split: prod.splits option.splits)
qed


lemma be_bytes_1: "be_bytes 1 (unat (v :: byte)) = [v]"
  using unat_bound [of v] by (simp add: word_unat_eq_iff unat_byte_mod)

interpretation u8: writer "\<lambda>m d c. CBB_add_u8 m d c v" "[v]" for v
  using add_u_writer [of "ucast v" 1] be_bytes_1 [of v] unat_bound [of v] by (simp add: CBB_add_u8_def unat_ucast_up)

interpretation u16: writer "\<lambda>m d c. CBB_add_u16 m d c v" "be_bytes 2 (unat v)" for v
  using add_u_writer [of "ucast v" 2] unat_bound [of v] by (simp add: CBB_add_u16_def unat_ucast_up)

interpretation u32: writer "\<lambda>m d c. CBB_add_u32 m d c v" "be_bytes 4 (unat v)" for v
  using add_u_writer [of "ucast v" 4] unat_bound [of v] by (simp add: CBB_add_u32_def unat_ucast_up)

interpretation u64: writer "\<lambda>m d c. CBB_add_u64 m d c v" "be_bytes 8 (unat v)" for v
  using add_u_writer [of v 8] unat_bound [of v] by (simp add: CBB_add_u64_def)

section \<open>Nesting\<close>

definition length_prefix :: "nat \<Rightarrow> bool \<Rightarrow> nat \<Rightarrow> byte list option" where
  "length_prefix k is_asn1 n =
     (if is_asn1 then if n \<le> 0xfffffffe then Some (der_length n) else None
      else if n < 256 ^ k then Some (be_bytes k n) else None)"

text \<open>
  The contract of an operation that opens a child: \<open>pre\<close> is what it writes before the \<open>k\<close> bytes it
  leaves for the length.
\<close>

definition opens :: "memory \<Rightarrow> nat \<Rightarrow> byte list \<Rightarrow> nat \<Rightarrow> bool \<Rightarrow> cbb \<Rightarrow> bool \<Rightarrow> cbb \<Rightarrow> bool" where
  "opens m d pre k is_asn1 c r c' \<longleftrightarrow>
     (if r then
        (\<exists>v. closed d c = Some v \<and> cbb_view c' = v @ pre @ replicate k 0 \<and>
          len (base c) \<le> length v \<and> length v \<le> len (base c) + 4 * (length (children c) - d) \<and>
          children c' = take d (children c) @
            [\<lparr>offset = length v + length pre, pending_len_len = k, pending_is_asn1 = is_asn1\<rparr>]) \<and>
        cbb_ok c' \<and> can_resize (base c') = can_resize (base c)
      else children c' = take d (children c) \<and> error (base c') \<and>
        (roomy m (base c) \<and> len (base c) + 4 * (length (children c) - d) + 6 * (length pre + k) < size_max \<longrightarrow>
           closed d c = None))"

locale opener =
  fixes op :: "memory \<Rightarrow> nat \<Rightarrow> cbb \<Rightarrow> bool \<times> cbb" and pre :: "byte list" and k :: nat and is_asn1 :: bool
  assumes opens: "cbb_ok c \<Longrightarrow> d \<le> length (children c) \<Longrightarrow> op m d c = (r, c') \<Longrightarrow> opens m d pre k is_asn1 c r c'"
    and asn1_one: "is_asn1 \<Longrightarrow> k = 1"
    and k_bound: "1 \<le> k"

lemma close1_opened:
  assumes "length_prefix k a (length bs) = Some lb" "a \<Longrightarrow> k = 1"
  shows "close1 \<lparr>offset = length v, pending_len_len = k, pending_is_asn1 = a\<rparr> (v @ replicate k 0 @ bs) = Some (v @ lb @ bs)"
  using assms by (auto simp: close1_def length_prefix_def Let_def split: if_splits)

lemma on_error_failed: "error (base c) \<Longrightarrow> children c = take d (children c) \<Longrightarrow> cbb_on_error d c = c"
  by (cases c) (simp add: cbb_on_error_def)

lemma size_bound: "a + 6 * b < size_max \<Longrightarrow> b < size_max"
  by simp

lemma length_prefix_pos: "length_prefix k a n = Some lb \<Longrightarrow> (a \<Longrightarrow> k = 1) \<Longrightarrow> k \<le> length lb"
  using length_der_length [of n] by (auto simp: length_prefix_def split: if_splits)

context opener
begin

lemma enclosed_fresh:
  assumes w: "fresh_writer w bs" and lb: "length_prefix k is_asn1 (length bs) = Some lb"
  shows "writer (enclose op w) (pre @ lb @ bs)"
proof
  fix c d m r c'
  let ?all = "pre @ lb @ bs"
  assume c: "cbb_ok c" "d \<le> length (children c)" and small: "length ?all < size_max"
    and run: "enclose op w m d c = (r, c')"
  obtain r1 c1 where r1: "op m d c = (r1, c1)" by fastforce
  obtain r2 c2 where r2: "w m (d + 1) c1 = (r2, c2)" by fastforce
  obtain r3 c3 where r3: "CBB_flush m d c2 = (r3, c3)" by fastforce
  have kl: "k \<le> length lb" using length_prefix_pos [OF lb] asn1_one by simp
  note o = opens [OF c r1]
  show "adds m d ?all c r c'"
  proof (cases r1)
    case False
    with run r1 o kl show ?thesis by (auto simp: enclose_def adds_def opens_def cbb_on_error_def)
  next
    case True
    then obtain v where v: "closed d c = Some v" "cbb_view c1 = v @ pre @ replicate k 0"
        "len (base c) \<le> length v" "length v \<le> len (base c) + 4 * (length (children c) - d)"
      and ch: "children c1 = take d (children c) @
            [\<lparr>offset = length v + length pre, pending_len_len = k, pending_is_asn1 = is_asn1\<rparr>]" (is "_ = _ @ [?f]")
      and c1: "cbb_ok c1" "can_resize (base c1) = can_resize (base c)"
      using o by (auto simp: opens_def)
    have l1: "len (base c1) = length v + length pre + k" using len_cbb_view [OF c1(1)] v(2) by simp
    have lch: "length (children c1) = d + 1" using ch c(2) by simp
    have cl1: "closed (d + 1) c1 = Some (cbb_view c1)" using lch by (simp add: closed_def)
    have a2: "adds m (d + 1) bs c1 r2 c2" using fresh_writer.adds_fresh [OF w c1(1) lch _ r2] small by simp
    show ?thesis
    proof (cases r2)
      case nr: False
      with run r1 True r2 have "r = False" "c' = cbb_on_error d c2" by (simp_all add: enclose_def)
      with a2 nr cl1 l1 lch kl v ch c1(2) c(2) show ?thesis
        by (auto simp: adds_def cbb_on_error_def roomy_def)
    next
      case r2T: True
      then have c2: "cbb_ok c2" "children c2 = children c1" "cbb_view c2 = v @ pre @ replicate k 0 @ bs"
          "can_resize (base c2) = can_resize (base c)"
        using a2 cl1 v(2) lch c1(2) by (auto simp: adds_def)
      have a3: "adds m d [] c2 r3 c3" using flush_adds [OF c2(1) _ r3] c2(2) lch by simp
      have "drop d (children c2) = [?f]" using c2(2) ch c(2) by simp
      then have cl2: "closed d c2 = Some (v @ ?all)"
        using close1_opened [OF lb asn1_one, of "v @ pre"] c2(3) by (simp add: closed_def)
      have l2: "len (base c2) = length v + length pre + k + length bs" using len_cbb_view [OF c2(1)] c2(3) by simp
      have tk: "take d (children c2) = take d (children c)" using c2(2) ch c(2) by simp
      show ?thesis
      proof (cases r3)
        case r3T: True
        then have "r = True" "c' = c3" using run r1 r2 r3 True r2T by (simp_all add: enclose_def)
        with a3 r3T cl2 tk c2(4) v c(2) show ?thesis by (auto simp: adds_def)
      next
        case r3F: False
        then have "r = False" "c' = cbb_on_error d c3" using run r1 r2 r3 True r2T by (simp_all add: enclose_def)
        with a3 r3F cl2 tk c2(4) v c(2) l2 lch c2(2) kl k_bound show ?thesis
          by (auto simp: adds_def roomy_def cbb_on_error_def)
      qed
    qed
  qed
qed

lemma enclosed:
  assumes "writer w bs" "length_prefix k is_asn1 (length bs) = Some lb"
  shows "writer (enclose op w) (pre @ lb @ bs)"
  by (rule enclosed_fresh [OF fresh [OF assms(1)] assms(2)])

end

lemma add_child_opens:
  assumes c0: "d \<le> length (children c0)" and a: "adds m d pre c0 True c" and k: "k \<le> 8" "is_asn1 \<Longrightarrow> k = 1"
    and run: "cbb_add_child m d c k is_asn1 = (r, c')"
  shows "opens m d pre k is_asn1 c0 r c'"
proof -
  obtain v where v: "closed d c0 = Some v" "cbb_view c = v @ pre" "len (base c0) \<le> length v"
      "length v \<le> len (base c0) + 4 * (length (children c0) - d)"
    and c: "cbb_ok c" "can_resize (base c) = can_resize (base c0)" "children c = take d (children c0)"
    using a by (auto simp: adds_def)
  have ok: "buffer_ok (base c)" and l: "len (base c) = length v + length pre"
    using c(1) len_cbb_view [OF c(1)] v(2) by (simp_all add: cbb_ok_def)
  have k8: "k < size_max" using k(1) by (simp add: size_max_def)
  obtain r1 b where r1: "cbb_buffer_add m (base c) k = (r1, b)" by fastforce
  show ?thesis
  proof (cases r1)
    case False
    then have "r = False" "c' = c\<lparr>base := (base c)\<lparr>error := True\<rparr>\<rparr>"
      using run r1 buffer_add_False [of m "base c" k b] by (simp_all add: cbb_add_child_def)
    moreover have "\<not> (roomy m (base c0) \<and> len (base c0) + 4 * (length (children c0) - d) + 6 * (length pre + k) < size_max)"
    proof
      assume "roomy m (base c0) \<and> len (base c0) + 4 * (length (children c0) - d) + 6 * (length pre + k) < size_max"
      then have "roomy m (base c)" "len (base c) + k < size_max" using c(2) v(4) l by (auto simp: roomy_def)
      then show False using r1 False by (auto elim: buffer_add_roomy [of m "base c" k])
    qed
    ultimately show ?thesis using c(3) by (auto simp: opens_def)
  next
    case True
    note b = buffer_add_True [OF ok k8 r1 [unfolded True [THEN eq_True [THEN iffD2]]]]
    define xs where "xs = store (buf b) (len (base c)) (replicate k 0)"
    have "take (len b) xs = v @ pre @ replicate k 0"
      using b v(2) take_store_end [of "len (base c)" "replicate k 0" "buf b"]
      by (simp add: buffer_ok_def cap_def cbb_view_def xs_def)
    moreover have "buffer_ok (b\<lparr>buf := xs\<rparr>)" unfolding xs_def using b by (intro buffer_ok_store) (auto simp: buffer_ok_def)
    moreover have "chain_ok 0 (children c @ [\<lparr>offset = len (base c), pending_len_len = k, pending_is_asn1 = is_asn1\<rparr>]) (len b)"
      using c(1) b k by (auto simp: cbb_ok_def chain_ok_snoc child_ok_def)
    ultimately show ?thesis
      using True run r1 v c b l c0
      by (auto simp: cbb_add_child_def Let_def opens_def cbb_ok_def cbb_view_def buffer_view_def xs_def)
  qed
qed

lemma prefixed_opener:
  assumes "1 \<le> k" "k \<le> 8"
  shows "opener (\<lambda>m d c. cbb_add_length_prefixed m d c k) [] k False"
proof
  fix c d m r c'
  assume c: "cbb_ok c" "d \<le> length (children c)" and run: "cbb_add_length_prefixed m d c k = (r, c')"
  obtain r1 c1 where r1: "CBB_flush m d c = (r1, c1)" by fastforce
  note a = flush_adds [OF c r1]
  show "opens m d [] k False c r c'"
  proof (cases r1)
    case True
    with a run r1 add_child_opens [OF c(2), of m "[]" c1 k False r c'] assms show ?thesis
      by (simp add: cbb_add_length_prefixed_def)
  next
    case False
    with a run r1 show ?thesis by (auto simp: cbb_add_length_prefixed_def adds_def opens_def)
  qed
qed (use assms in auto)

interpretation u8p: opener CBB_add_u8_length_prefixed "[]" 1 False
  using prefixed_opener [of 1] by (simp add: CBB_add_u8_length_prefixed_def [abs_def])

interpretation u16p: opener CBB_add_u16_length_prefixed "[]" 2 False
  using prefixed_opener [of 2] by (simp add: CBB_add_u16_length_prefixed_def [abs_def])

interpretation u24p: opener CBB_add_u24_length_prefixed "[]" 3 False
  using prefixed_opener [of 3] by (simp add: CBB_add_u24_length_prefixed_def [abs_def])

section \<open>Properties\<close>

lemma add_u_too_big:
  assumes "256 ^ k \<le> unat v"
  shows "\<not> fst (cbb_add_u m d c v k)"
  using assms by (auto simp: cbb_add_u_def store_be_eq div_eq_0_iff split: prod.splits option.splits)

lemma cbs_get_u_be_bytes:
  assumes "k \<le> 8" "unat v < 256 ^ k"
  shows "cbs_get_u k (be_bytes k (unat v) @ rest) = (Some v, rest)"
proof -
  have "unat (be_loop 0 (be_bytes k (unat v))) = unat v"
    using assms by (simp add: unat_be_loop be_nat_be_bytes)
  then have "be_loop 0 (be_bytes k (unat v)) = v" by (simp add: word_unat_eq_iff)
  then show ?thesis by (simp add: cbs_get_u_eq)
qed

lemma finish_closed:
  assumes "cbb_ok c" "CBB_finish m 0 False c = (Some out, c')"
  shows "closed 0 c = Some out"
  using assms flush_adds [of c 0 m]
  by (auto simp: CBB_finish_def adds_def cbb_view_def buffer_view_def split: prod.splits bool.splits if_splits)

lemma cbb_init_ok:
  assumes "length b < size_max"
  shows "cbb_ok (cbb_init b r)" "closed 0 (cbb_init b r) = Some []" "children (cbb_init b r) = []"
  using assms by (simp_all add: cbb_init_def cbb_ok_def buffer_ok_def cap_def closed_def cbb_view_def buffer_view_def)

text \<open>A builder that is created, written to and finished.\<close>

lemma finish_fresh:
  assumes "fresh_writer w bs" "length bs < size_max" "n < size_max" "CBB_init m n = Some c"
  shows "w m 0 c = (True, c') \<Longrightarrow> fst (CBB_finish m 0 False c') = Some bs"
    and "\<forall>n. alloc m n \<Longrightarrow> 6 * length bs < size_max \<Longrightarrow> fst (w m 0 c)"
proof -
  have c: "cbb_ok c" "closed 0 c = Some []" "children c = []" "can_resize (base c)" "len (base c) = 0"
    using assms(3,4) cbb_init_ok [of "map (junk m) [0..<n]" True]
    by (auto simp: CBB_init_def cbb_init_def split: if_splits)
  show "fst (CBB_finish m 0 False c') = Some bs" if "w m 0 c = (True, c')"
  proof -
    have "cbb_view c' = bs" "children c' = []" "cbb_ok c'"
      using fresh_writer.adds_fresh [OF assms(1) c(1) _ assms(2) that] c by (auto simp: adds_def)
    then show ?thesis by (simp add: CBB_finish_def CBB_flush.simps cbb_ok_def buffer_ok_def cbb_view_def buffer_view_def)
  qed
  show "fst (w m 0 c)" if "\<forall>n. alloc m n" "6 * length bs < size_max"
    using fresh_writer.adds_fresh [OF assms(1) c(1) _ assms(2), of 0 m "fst (w m 0 c)" "snd (w m 0 c)"] c that
    by (auto simp: adds_def roomy_def split: if_splits)
qed

text \<open>(C7) \<open>CBB_flush\<close> closes the pending children from the innermost out: the contents become those in which every
  child's length, in its fixed width or as a minimal DER length, stands before its body, and only the \<^verbatim>\<open>CBB\<close>s above
  \<open>d\<close> stay open.  It fails only with the error flag set, and with memory to spare only when a body is too long for
  its length.\<close>

theorem CBB_flush_refines:
  assumes "cbb_ok c" "d \<le> length (children c)"
  shows "case CBB_flush m d c of
      (True, c') \<Rightarrow> close_all (drop d (children c)) (cbb_view c) = Some (cbb_view c') \<and> cbb_ok c' \<and>
        children c' = take d (children c)
    | (False, c') \<Rightarrow> error (base c') \<and> children c' = take d (children c) \<and>
        (roomy m (base c) \<and> len (base c) + 4 * (length (children c) - d) < size_max \<longrightarrow>
           close_all (drop d (children c)) (cbb_view c) = None)"
  using flush_adds [OF assms, of m] by (auto simp: adds_def closed_def split: prod.splits bool.splits)

theorem CBB_flush_refines_witness:
  "let c = \<lparr>base = \<lparr>buf = [7, 0, 1, 2, 3, 9], len = 5, can_resize = False, error = False\<rparr>,
            children = [\<lparr>offset = 1, pending_len_len = 1, pending_is_asn1 = True\<rparr>]\<rparr>
   in cbb_ok c \<and> (case CBB_flush (\<lambda>_. True, \<lambda>_. 0) 0 c of
        (True, c') \<Rightarrow> close_all (drop 0 (children c)) (cbb_view c) = Some (cbb_view c') | _ \<Rightarrow> True)"
proof -
  let ?c = "\<lparr>base = \<lparr>buf = [7, 0, 1, 2, 3, 9], len = 5, can_resize = False, error = False\<rparr>,
            children = [\<lparr>offset = 1, pending_len_len = 1, pending_is_asn1 = True\<rparr>]\<rparr>"
  have ok: "cbb_ok ?c" by (simp add: cbb_ok_def buffer_ok_def cap_def child_ok_def size_max_def)
  show ?thesis using ok CBB_flush_refines [OF ok, of 0 "(\<lambda>_. True, \<lambda>_. 0)"]
    by (simp add: Let_def split: prod.splits bool.splits)
qed

text \<open>Errors stick: on a \<^verbatim>\<open>CBB\<close> whose buffer has failed, flushing, finishing and every operation that adds
  data or opens a child fail and change nothing.\<close>

theorem CBB_error_sticks:
  assumes "error (base c)"
  shows "CBB_flush m d c = (False, c) \<and> fst (CBB_finish m d null c) = None \<and> CBB_add_space m d c n = (None, c) \<and>
    CBB_reserve m d c n = (None, c) \<and> CBB_add_bytes m d c data = (False, c) \<and> CBB_add_zeros m d c n = (False, c) \<and>
    cbb_add_u m d c v n = (False, c) \<and> cbb_add_length_prefixed m d c n = (False, c)"
  using assms
  by (simp add: CBB_flush.simps CBB_finish_def CBB_add_space_def CBB_reserve_def CBB_add_bytes_def CBB_add_zeros_def
      cbb_add_u_def cbb_add_length_prefixed_def)

theorem CBB_error_sticks_witness:
  "CBB_add_bytes (\<lambda>_. True, \<lambda>_. 0) 0
     (cbb_on_error 0 (CBB_init_fixed [])) [1] = (False, cbb_on_error 0 (CBB_init_fixed []))"
  using CBB_error_sticks [of "cbb_on_error 0 (CBB_init_fixed [])"] by (simp add: cbb_on_error_def)

text \<open>(C35) A \<^verbatim>\<open>CBB\<close> over a fixed buffer never writes past it: bytes are added exactly when they fit, the buffer keeps
  its size and the bytes beyond the new end are untouched; otherwise only the error flag changes.\<close>

theorem CBB_fixed_buffer_bounds:
  assumes "cbb_ok c" "children c = []" "\<not> can_resize (base c)" "length data < size_max"
  shows "CBB_add_bytes m 0 c data =
    (if len (base c) + length data \<le> cap (base c)
     then (True, c\<lparr>base := (base c)\<lparr>buf := cbb_view c @ data @ drop (len (base c) + length data) (buf (base c)),
            len := len (base c) + length data\<rparr>\<rparr>)
     else (False, c\<lparr>base := (base c)\<lparr>error := True\<rparr>\<rparr>))"
proof -
  let ?l = "len (base c)"
  have b: "?l \<le> cap (base c)" "cap (base c) < size_max" "\<not> error (base c)"
    using assms(1) by (simp_all add: cbb_ok_def buffer_ok_def)
  have res: "cbb_buffer_reserve m (base c) (length data) =
      (if ?l + length data \<le> cap (base c) then (True, base c) else (False, (base c)\<lparr>error := True\<rparr>))"
  proof (cases "size_add ?l (length data) < ?l")
    case True
    then have "\<not> ?l + length data \<le> cap (base c)" using b by (auto simp: size_add_def)
    with True show ?thesis by (simp add: cbb_buffer_reserve_def)
  next
    case False
    with size_add_no_wrap [of ?l "length data"] b assms(3,4) show ?thesis by (auto simp: cbb_buffer_reserve_def)
  qed
  have "CBB_flush m 0 c = (True, c)" using b(3) assms(2) by (simp add: CBB_flush.simps)
  with res show ?thesis
    by (auto simp: CBB_add_bytes_def CBB_add_space_def cbb_buffer_add_def cbb_store_def store_def cbb_view_def buffer_view_def)
qed

theorem CBB_fixed_buffer_bounds_witness:
  "CBB_add_bytes (\<lambda>_. True, \<lambda>_. 0) 0 (CBB_init_fixed [9, 9, 9]) [1, 2] =
     (True, \<lparr>base = \<lparr>buf = [1, 2, 9], len = 2, can_resize = False, error = False\<rparr>, children = []\<rparr>)"
  using CBB_fixed_buffer_bounds [of "CBB_init_fixed [9, 9, 9]" "[1, 2]" "(\<lambda>_. True, \<lambda>_. 0)"] cbb_init_ok [of "[9, 9, 9]" False]
  by (simp add: CBB_init_fixed_def cbb_init_def cap_def cbb_view_def buffer_view_def size_max_def)

text \<open>What \<open>cbb_add_u\<close> writes, \<open>cbs_get_u\<close> reads: after a successful write the new bytes come after the closed
  contents, and reading them, followed by anything, gives the value back.\<close>

theorem cbb_add_u_roundtrip:
  assumes "cbb_ok c" "d \<le> length (children c)" "k \<le> 8" "cbb_add_u m d c v k = (True, c')"
  shows "\<exists>pre new. closed d c = Some pre \<and> cbb_view c' = pre @ new \<and> cbs_get_u k (new @ rest) = (Some v, rest)"
proof -
  have fits: "unat v < 256 ^ k" using add_u_too_big [of k v m d c] assms(4) by (cases "256 ^ k \<le> unat v") auto
  have "length (be_bytes k (unat v)) < size_max" using assms(3) by (simp add: size_max_def)
  from writer.appends [OF add_u_writer [OF fits] assms(1,2) this assms(4)] cbs_get_u_be_bytes [OF assms(3) fits, of rest]
  show ?thesis by metis
qed

theorem cbb_add_u_roundtrip_witness:
  "\<exists>pre new. closed 0 (CBB_init_fixed [0, 0, 0]) = Some pre \<and>
     cbb_view (snd (cbb_add_u (\<lambda>_. True, \<lambda>_. 0) 0 (CBB_init_fixed [0, 0, 0]) 0x1234 2)) = pre @ new \<and>
     cbs_get_u 2 (new @ []) = (Some 0x1234, [])"
proof -
  let ?m = "(\<lambda>_. True, \<lambda>_. 0) :: memory"
  let ?c = "CBB_init_fixed [0, 0, 0]"
  have ok: "cbb_ok ?c" "children ?c = []" using cbb_init_ok [of "[0, 0, 0]" False] by (simp_all add: CBB_init_fixed_def size_max_def)
  have "fst (cbb_add_u ?m 0 ?c 0x1234 2)"
    by (simp add: cbb_add_u_def CBB_add_space_def CBB_flush.simps CBB_init_fixed_def cbb_init_def cbb_buffer_add_def
        cbb_buffer_reserve_def cap_def size_add_def size_max_def store_be_eq)
  then show ?thesis using cbb_add_u_roundtrip [OF ok(1), of 0 2 ?m "0x1234" _ "[]"] by (cases "cbb_add_u ?m 0 ?c 0x1234 2") auto
qed
text \<open>Length-prefixed vectors survive: a child opened with a prefix of \<open>k\<close> bytes, filled and flushed appends
  bytes from which \<open>cbs_get_length_prefixed\<close> reads the same contents; contents too long for the prefix are
  refused.\<close>

theorem length_prefixed_roundtrip:
  assumes "cbb_ok c" "d \<le> length (children c)" "1 \<le> k" "k \<le> 7" "length data < 256 ^ k"
    "enclose (\<lambda>m d c. cbb_add_length_prefixed m d c k) (\<lambda>m d c. CBB_add_bytes m d c data) m d c = (True, c')"
  shows "\<exists>pre new. closed d c = Some pre \<and> cbb_view c' = pre @ new \<and>
    cbs_get_length_prefixed k (new @ rest) = (Some data, rest)"
proof -
  let ?n = "word_of_nat (length data) :: u64"
  have "(256 :: nat) ^ k \<le> 256 ^ 7" using assms(4) by (intro power_increasing) simp_all
  then have n: "length data < 256 ^ 7" using assms(5) by simp
  then have u: "unat ?n = length data" by (simp add: unat_of_nat_small)
  have lt: "length ([] @ be_bytes k (length data) @ data) < size_max" using n assms(4) by (simp add: size_max_def)
  have "length_prefix k False (length data) = Some (be_bytes k (length data))" using assms(5) by (simp add: length_prefix_def)
  from opener.enclosed [OF prefixed_opener [OF assms(3)] bytes.writer_axioms this] assms(4)
  have w: "writer (enclose (\<lambda>m d c. cbb_add_length_prefixed m d c k) (\<lambda>m d c. CBB_add_bytes m d c data))
    ([] @ be_bytes k (length data) @ data)" by simp
  have "cbs_get_u k (be_bytes k (length data) @ data @ rest) = (Some ?n, data @ rest)"
    using cbs_get_u_be_bytes [of k ?n "data @ rest"] assms(4,5) u by simp
  then have "cbs_get_length_prefixed k (be_bytes k (length data) @ data @ rest) = (Some data, rest)"
    using u by (simp add: cbs_get_length_prefixed_def bindp_def CBS_get_bytes_def cbs_get_def)
  with writer.appends [OF w assms(1,2) lt assms(6)] show ?thesis by (metis append.assoc append_Nil)
qed

theorem length_prefixed_roundtrip_witness:
  "let w = enclose (\<lambda>m d c. cbb_add_length_prefixed m d c 2) (\<lambda>m d c. CBB_add_bytes m d c [5, 6])
   in \<exists>c' pre new. w (\<lambda>_. True, \<lambda>_. 0) 0 (cbb_init [] True) = (True, c') \<and> closed 0 (cbb_init [] True) = Some pre \<and>
     cbb_view c' = pre @ new \<and> cbs_get_length_prefixed 2 (new @ [7]) = (Some [5, 6], [7])"
proof -
  let ?m = "(\<lambda>_. True, \<lambda>_. 0) :: memory" and ?c = "cbb_init [] True"
  let ?w = "enclose (\<lambda>m d c. cbb_add_length_prefixed m d c 2) (\<lambda>m d c. CBB_add_bytes m d c [5, 6])"
  have c: "cbb_ok ?c" "0 \<le> length (children ?c)" using cbb_init_ok [of "[]" True] by (simp_all add: size_max_def)
  have "writer ?w ([] @ be_bytes 2 (length [5 :: byte, 6]) @ [5, 6])"
    using opener.enclosed [OF prefixed_opener [of 2] bytes.writer_axioms [of "[5, 6]"], of "be_bytes 2 (length [5 :: byte, 6])"]
    by (simp add: length_prefix_def)
  then have "fst (?w ?m 0 ?c)"
    using cbb_init_ok [of "[]" True] by (intro writer.succeeds) (auto simp: size_max_def roomy_def cbb_init_def)
  then obtain c' where run: "?w ?m 0 ?c = (True, c')" by (cases "?w ?m 0 ?c") simp
  from length_prefixed_roundtrip [OF c _ _ _ run, of "[7]"] have
    "\<exists>pre new. closed 0 ?c = Some pre \<and> cbb_view c' = pre @ new \<and> cbs_get_length_prefixed 2 (new @ [7]) = (Some [5, 6], [7])"
    by simp
  with run show ?thesis unfolding Let_def by blast
qed

end
