(* ===== verification/Cbb_Asn1.thy ===== *)
theory Cbb_Asn1
  imports Cbb
begin

text \<open>
  The DER writers of \<^verbatim>\<open>crypto/bytestring/cbb.c\<close> and the OID printer of \<^verbatim>\<open>cbs.c\<close>, which writes to a \<^verbatim>\<open>CBB\<close>.
  Every writer is shown to meet the contracts of the locales \<open>writer\<close> and \<open>opener\<close> of the theory \<open>Cbb\<close> for the
  canonical encodings of the theory \<open>Der\<close>, so that what it writes is what the parsers of \<^verbatim>\<open>cbs.c\<close> accept.
\<close>

section \<open>The code\<close>

function base128_len_len :: "u64 \<Rightarrow> nat" where
  "base128_len_len copy = (if copy > 0 then Suc (base128_len_len (drop_bit 7 copy)) else 0)"
  by pat_completeness auto
termination
  by (relation "measure unat") (auto simp: unat_drop_bit word_less_nat_alt)

declare base128_len_len.simps [simp del]

text \<open>The loop of \<open>add_base128_integer\<close> for the bytes \<open>k - 1\<close> to 0.\<close>

fun base128_bytes_loop :: "memory \<Rightarrow> nat \<Rightarrow> cbb \<Rightarrow> u64 \<Rightarrow> nat \<Rightarrow> bool \<times> cbb" where
  "base128_bytes_loop m d c v 0 = (True, c)"
| "base128_bytes_loop m d c v (Suc i) =
     (let b = (ucast (drop_bit (7 * i) v AND 0x7f) :: byte);
          b = (if i \<noteq> 0 then b OR 0x80 else b)
      in case CBB_add_u8 m d c b of
           (False, c') \<Rightarrow> (False, c')
         | (True, c') \<Rightarrow> base128_bytes_loop m d c' v i)"

definition add_base128_integer :: "memory \<Rightarrow> nat \<Rightarrow> cbb \<Rightarrow> u64 \<Rightarrow> bool \<times> cbb" where
  "add_base128_integer m d c v =
     (let len_len = base128_len_len v;
          len_len = (if len_len = 0 then 1 else len_len)
      in base128_bytes_loop m d c v len_len)"

definition CBB_add_asn1 :: "memory \<Rightarrow> nat \<Rightarrow> cbb \<Rightarrow> u32 \<Rightarrow> bool \<times> cbb" where
  "CBB_add_asn1 m d c tag =
     (case CBB_flush m d c of
        (False, c') \<Rightarrow> (False, c')
      | (True, c') \<Rightarrow>
          (let tag_bits = (ucast (drop_bit CBS_ASN1_TAG_SHIFT tag AND 0xe0) :: byte);
               tag_number = tag AND CBS_ASN1_TAG_NUMBER_MASK;
               (ok, c'') =
                 (if tag_number \<ge> 0x1f then
                    (case CBB_add_u8 m d c' (tag_bits OR 0x1f) of
                       (False, c1) \<Rightarrow> (False, c1)
                     | (True, c1) \<Rightarrow> add_base128_integer m d c1 (ucast tag_number))
                  else CBB_add_u8 m d c' (tag_bits OR ucast tag_number))
           in if \<not> ok then (False, c'') else cbb_add_child m d c'' 1 True))"

text \<open>The loop of \<open>CBB_add_asn1_uint64_with_tag\<close> for the low \<open>k\<close> bytes, with the zero that is added after it when
  no byte was written.\<close>

fun asn1_uint64_loop :: "memory \<Rightarrow> nat \<Rightarrow> cbb \<Rightarrow> u64 \<Rightarrow> bool \<Rightarrow> nat \<Rightarrow> bool \<times> cbb" where
  "asn1_uint64_loop m d c v started 0 = (if \<not> started then CBB_add_u8 m d c 0 else (True, c))"
| "asn1_uint64_loop m d c v started (Suc i) =
     (let b = (ucast (drop_bit (8 * i) v AND 0xff) :: byte)
      in if \<not> started \<and> b = 0 then asn1_uint64_loop m d c v started i
         else
           (case (if \<not> started \<and> b AND 0x80 \<noteq> 0 then CBB_add_u8 m d c 0 else (True, c)) of
              (False, c') \<Rightarrow> (False, c')
            | (True, c') \<Rightarrow>
                (case CBB_add_u8 m d c' b of
                   (False, c'') \<Rightarrow> (False, c'')
                 | (True, c'') \<Rightarrow> asn1_uint64_loop m d c'' v True i)))"

definition CBB_add_asn1_uint64_with_tag :: "memory \<Rightarrow> nat \<Rightarrow> cbb \<Rightarrow> u64 \<Rightarrow> u32 \<Rightarrow> bool \<times> cbb" where
  "CBB_add_asn1_uint64_with_tag m d c v tag =
     (case CBB_add_asn1 m d c tag of
        (False, c') \<Rightarrow> (False, cbb_on_error d c')
      | (True, c1) \<Rightarrow>
          (case asn1_uint64_loop m (d + 1) c1 v False 8 of
             (False, c') \<Rightarrow> (False, cbb_on_error d c')
           | (True, c2) \<Rightarrow> CBB_flush m d c2))"

definition CBB_add_asn1_uint64 :: "memory \<Rightarrow> nat \<Rightarrow> cbb \<Rightarrow> u64 \<Rightarrow> bool \<times> cbb" where
  "CBB_add_asn1_uint64 m d c v = CBB_add_asn1_uint64_with_tag m d c v CBS_ASN1_INTEGER"

text \<open>The value is the 64-bit pattern of the \<^verbatim>\<open>int64_t\<close>; \<open>int64_byte\<close> is \<^verbatim>\<open>bytes[i]\<close> of its little-endian memory.\<close>

definition int64_byte :: "u64 \<Rightarrow> nat \<Rightarrow> byte" where
  "int64_byte v i = ucast (drop_bit (8 * i) v)"

fun int64_start :: "u64 \<Rightarrow> nat \<Rightarrow> nat" where
  "int64_start v 0 = 0"
| "int64_start v (Suc s) =
     (if int64_byte v (Suc s) = 0xff \<and> int64_byte v s AND 0x80 \<noteq> 0 then int64_start v s else Suc s)"

fun int64_bytes_loop :: "memory \<Rightarrow> nat \<Rightarrow> cbb \<Rightarrow> u64 \<Rightarrow> nat \<Rightarrow> bool \<times> cbb" where
  "int64_bytes_loop m d c v 0 = (True, c)"
| "int64_bytes_loop m d c v (Suc i) =
     (case CBB_add_u8 m d c (int64_byte v i) of
        (False, c') \<Rightarrow> (False, c')
      | (True, c') \<Rightarrow> int64_bytes_loop m d c' v i)"

definition CBB_add_asn1_int64_with_tag :: "memory \<Rightarrow> nat \<Rightarrow> cbb \<Rightarrow> u64 \<Rightarrow> u32 \<Rightarrow> bool \<times> cbb" where
  "CBB_add_asn1_int64_with_tag m d c v tag =
     (if sint v \<ge> 0 then CBB_add_asn1_uint64_with_tag m d c v tag
      else
        (let start = int64_start v 7
         in case CBB_add_asn1 m d c tag of
              (False, c') \<Rightarrow> (False, cbb_on_error d c')
            | (True, c1) \<Rightarrow>
                (case int64_bytes_loop m (d + 1) c1 v (start + 1) of
                   (False, c') \<Rightarrow> (False, cbb_on_error d c')
                 | (True, c2) \<Rightarrow> CBB_flush m d c2)))"

definition CBB_add_asn1_int64 :: "memory \<Rightarrow> nat \<Rightarrow> cbb \<Rightarrow> u64 \<Rightarrow> bool \<times> cbb" where
  "CBB_add_asn1_int64 m d c v = CBB_add_asn1_int64_with_tag m d c v CBS_ASN1_INTEGER"

definition CBB_add_asn1_octet_string :: "memory \<Rightarrow> nat \<Rightarrow> cbb \<Rightarrow> byte list \<Rightarrow> bool \<times> cbb" where
  "CBB_add_asn1_octet_string m d c data =
     enclose (\<lambda>m d c. CBB_add_asn1 m d c CBS_ASN1_OCTETSTRING) (\<lambda>m d c. CBB_add_bytes m d c data) m d c"

definition CBB_add_asn1_bool :: "memory \<Rightarrow> nat \<Rightarrow> cbb \<Rightarrow> bool \<Rightarrow> bool \<times> cbb" where
  "CBB_add_asn1_bool m d c v =
     enclose (\<lambda>m d c. CBB_add_asn1 m d c CBS_ASN1_BOOLEAN) (\<lambda>m d c. CBB_add_u8 m d c (if v then 0xff else 0)) m d c"

definition parse_dotted_decimal :: "u64 parser" where
  "parse_dotted_decimal s =
     (case CBS_get_u64_decimal s of
        (None, s') \<Rightarrow> (None, s')
      | (Some v, s1) \<Rightarrow>
          (case CBS_get_u8 s1 of
             (None, s2) \<Rightarrow> (Some v, s2)
           | (Some dot, s2) \<Rightarrow> (if dot = 0x2e \<and> length s2 > 0 then Some v else None, s2)))"

lemma dec_digits_nonempty [simp]: "dec_digits n \<noteq> []"
  by (subst dec_digits.simps) simp

lemma parse_dotted_decimal_shorter:
  assumes "parse_dotted_decimal s = (Some v, s')"
  shows "length s' < length s"
proof -
  obtain r where r: "CBS_get_u64_decimal s = (Some v, r)" "length s' \<le> length r"
    using assms by (cases "snd (CBS_get_u64_decimal s)")
      (auto simp: parse_dotted_decimal_def split: prod.splits option.splits if_splits)
  then show ?thesis by (auto simp: get_u64_decimal_iff intro: le_neq_implies_less)
qed

text \<open>The components after the second.\<close>

function oid_from_text_loop :: "memory \<Rightarrow> nat \<Rightarrow> cbb \<Rightarrow> cbs \<Rightarrow> bool \<times> cbb" where
  "oid_from_text_loop m d c s =
     (if length s > 0 then
        (case parse_dotted_decimal s of
           (None, _) \<Rightarrow> (False, c)
         | (Some a, s') \<Rightarrow>
             (case add_base128_integer m d c a of
                (False, c') \<Rightarrow> (False, c')
              | (True, c') \<Rightarrow> oid_from_text_loop m d c' s'))
      else (True, c))"
  by pat_completeness auto
termination
  by (relation "measure (\<lambda>(m, d, c, s). length s)") (auto dest!: sym [of _ "parse_dotted_decimal _"] parse_dotted_decimal_shorter)

declare oid_from_text_loop.simps [simp del]

definition CBB_add_asn1_oid_from_text :: "memory \<Rightarrow> nat \<Rightarrow> cbb \<Rightarrow> cbs \<Rightarrow> bool \<times> cbb" where
  "CBB_add_asn1_oid_from_text m d c text =
     (case CBB_flush m d c of
        (False, c') \<Rightarrow> (False, c')
      | (True, c') \<Rightarrow>
          (case parse_dotted_decimal text of
             (None, _) \<Rightarrow> (False, c')
           | (Some a, s1) \<Rightarrow>
               (case parse_dotted_decimal s1 of
                  (None, _) \<Rightarrow> (False, c')
                | (Some b, s2) \<Rightarrow>
                    if a > 2 \<or> (a < 2 \<and> b > 39) \<or> b > UINT64_MAX - 80 then (False, c')
                    else
                      (case add_base128_integer m d c' (40 * a + b) of
                         (False, c'') \<Rightarrow> (False, c'')
                       | (True, c'') \<Rightarrow> oid_from_text_loop m d c'' s2))))"

text \<open>The decimal text \<^verbatim>\<open>snprintf\<close> writes is \<open>dec_digits\<close>.\<close>

definition add_decimal :: "memory \<Rightarrow> nat \<Rightarrow> cbb \<Rightarrow> u64 \<Rightarrow> bool \<times> cbb" where
  "add_decimal m d c v = CBB_add_bytes m d c (dec_digits (unat v))"

lemma base128_loop_shorter: "base128_loop v s = (Some w, s') \<Longrightarrow> length s' < length s"
  by (induction v s rule: base128_loop.induct) (auto simp: Let_def split: if_splits)

function oid_to_text_loop :: "memory \<Rightarrow> nat \<Rightarrow> cbb \<Rightarrow> cbs \<Rightarrow> bool \<times> cbb" where
  "oid_to_text_loop m d c s =
     (if length s \<noteq> 0 then
        (case parse_base128_integer s of
           (None, _) \<Rightarrow> (False, c)
         | (Some v, s') \<Rightarrow>
             (case CBB_add_u8 m d c 0x2e of
                (False, c') \<Rightarrow> (False, c')
              | (True, c') \<Rightarrow>
                  (case add_decimal m d c' v of
                     (False, c'') \<Rightarrow> (False, c'')
                   | (True, c'') \<Rightarrow> oid_to_text_loop m d c'' s')))
      else (True, c))"
  by pat_completeness auto
termination
  by (relation "measure (\<lambda>(m, d, c, s). length s)") (auto simp: parse_base128_integer_def dest!: sym [of _ "base128_loop _ _"] base128_loop_shorter)

declare oid_to_text_loop.simps [simp del]

text \<open>The first component, then the others, then the terminator; the result is the \<^verbatim>\<open>char *\<close>.\<close>

definition CBS_asn1_oid_to_text :: "memory \<Rightarrow> cbs \<Rightarrow> byte list option" where
  "CBS_asn1_oid_to_text m cbs =
     (case CBB_init m 32 of
        None \<Rightarrow> None
      | Some c \<Rightarrow>
          (case parse_base128_integer cbs of
             (None, _) \<Rightarrow> None
           | (Some v, copy) \<Rightarrow>
               (let (ok, c1) =
                  (if v \<ge> 80 then
                     and_then (\<lambda>m d c. CBB_add_bytes m d c [0x32, 0x2e]) (\<lambda>m d c. add_decimal m d c (v - 80)) m 0 c
                   else
                     and_then (\<lambda>m d c. add_decimal m d c (v div 40))
                       (and_then (\<lambda>m d c. CBB_add_u8 m d c 0x2e) (\<lambda>m d c. add_decimal m d c (v mod 40))) m 0 c)
                in if \<not> ok then None
                   else
                     (case oid_to_text_loop m 0 c1 copy of
                        (False, _) \<Rightarrow> None
                      | (True, c2) \<Rightarrow>
                          (case CBB_add_u8 m 0 c2 0 of
                             (False, _) \<Rightarrow> None
                           | (True, c3) \<Rightarrow> fst (CBB_finish m 0 False c3))))))"

text \<open>\<^verbatim>\<open>OPENSSL_memcmp\<close>, with the difference of the first two bytes that differ as the result.\<close>

fun OPENSSL_memcmp :: "byte list \<Rightarrow> byte list \<Rightarrow> nat \<Rightarrow> int" where
  "OPENSSL_memcmp (a # as) (b # bs) (Suc n) = (if a = b then OPENSSL_memcmp as bs n else int (unat a) - int (unat b))"
| "OPENSSL_memcmp as bs n = 0"

definition compare_set_of_element :: "cbs \<Rightarrow> cbs \<Rightarrow> int" where
  "compare_set_of_element a b =
     (let a_len = length a; b_len = length b; min_len = (if a_len < b_len then a_len else b_len);
          ret = OPENSSL_memcmp a b min_len
      in if ret \<noteq> 0 then ret else if a_len = b_len then 0 else if a_len < b_len then - 1 else 1)"

lemma element_shorter: "CBS_get_any_asn1_element s = (Some e, s') \<Longrightarrow> length s' < length s"
  by (auto simp: any_asn1_element_iff der_header_def der_tag_def)

text \<open>The two loops that parse the elements of the set: the one that counts them and the one that collects them.\<close>

function set_of_elements :: "cbs \<Rightarrow> cbs list option" where
  "set_of_elements s =
     (if length s \<noteq> 0 then
        (case CBS_get_any_asn1_element s of
           (None, _) \<Rightarrow> None
         | (Some e, s') \<Rightarrow> map_option (\<lambda>es. el_out e # es) (set_of_elements s'))
      else Some [])"
  by pat_completeness auto
termination
  by (relation "measure length") (auto dest!: sym [of _ "CBS_get_any_asn1_element _"] element_shorter)

declare set_of_elements.simps [simp del]

text \<open>\<^verbatim>\<open>qsort\<close> of the C library: elements that compare equal here are equal, so that every sorting algorithm gives
  the same array.\<close>

fun insort_cmp :: "('a \<Rightarrow> 'a \<Rightarrow> int) \<Rightarrow> 'a \<Rightarrow> 'a list \<Rightarrow> 'a list" where
  "insort_cmp cmp x [] = [x]"
| "insort_cmp cmp x (y # ys) = (if cmp x y \<le> 0 then x # y # ys else y # insort_cmp cmp x ys)"

definition qsort :: "('a \<Rightarrow> 'a \<Rightarrow> int) \<Rightarrow> 'a list \<Rightarrow> 'a list" where
  "qsort cmp xs = foldr (insort_cmp cmp) xs []"

definition CBB_flush_asn1_set_of :: "memory \<Rightarrow> nat \<Rightarrow> cbb \<Rightarrow> bool \<times> cbb" where
  "CBB_flush_asn1_set_of m d c =
     (case CBB_flush m d c of
        (False, c') \<Rightarrow> (False, c')
      | (True, c') \<Rightarrow>
          (let data = take (CBB_len d c') (CBB_data d c')
           in case set_of_elements data of
                None \<Rightarrow> (False, c')
              | Some els \<Rightarrow>
                  (let num_children = length els
                   in if num_children < 2 then (True, c')
                      else if \<not> alloc m (length data) \<or> num_children * 16 \<ge> size_max \<or> \<not> alloc m (num_children * 16)
                      then (False, c')
                      else (True, cbb_store (cbb_start d c') (concat (qsort compare_set_of_element els)) c'))))"

section \<open>Bytes one by one\<close>

fun add_u8s :: "byte list \<Rightarrow> memory \<Rightarrow> nat \<Rightarrow> cbb \<Rightarrow> bool \<times> cbb" where
  "add_u8s [] m d c = (True, c)"
| "add_u8s (b # bs) m d c = and_then (\<lambda>m d c. CBB_add_u8 m d c b) (add_u8s bs) m d c"

lemma add_u8s_writer: "bs \<noteq> [] \<Longrightarrow> writer (add_u8s bs) bs"
proof (induction bs)
  case (Cons b bs)
  have eq: "add_u8s (b # bs) = and_then (\<lambda>m d c. CBB_add_u8 m d c b) (add_u8s bs)" by (intro ext) simp
  show ?case
  proof (cases "bs = []")
    case True
    have "and_then (\<lambda>m d c. CBB_add_u8 m d c b) (add_u8s []) = (\<lambda>m d c. CBB_add_u8 m d c b)"
      by (intro ext) (auto simp: and_then_def split: prod.splits bool.splits)
    then show ?thesis using True eq u8.writer_axioms [of b] by simp
  next
    case False
    then show ?thesis using u8.seq [OF Cons.IH, of b] eq by simp
  qed
qed simp

lemma add_u8s_append: "add_u8s (as @ bs) m d c = and_then (add_u8s as) (add_u8s bs) m d c"
  by (induction as arbitrary: c) (auto simp: and_then_def split: prod.splits bool.splits)

section \<open>Base-128 integers\<close>

lemma length_b128_hi_eq: "base128_len_len v = length (b128_hi (unat v))"
proof (induction v rule: base128_len_len.induct)
  case (1 v)
  have "base128_len_len v = (if v > 0 then Suc (base128_len_len (drop_bit 7 v)) else 0)" by (rule base128_len_len.simps)
  also have "\<dots> = length (b128_hi (unat v))"
    using 1 by (subst b128_hi.simps) (simp add: word_less_nat_alt unat_drop_bit)
  finally show ?case .
qed

lemma map_rev_upt_Suc: "map f (rev [0..<Suc k]) = map (\<lambda>i. f (Suc i)) (rev [0..<k]) @ [f 0]"
proof -
  have "rev [0..<Suc k] = map Suc (rev [0..<k]) @ [0]"
    by (simp add: rev_map [symmetric] map_Suc_upt upt_conv_Cons del: upt_Suc)
  then show ?thesis by (simp add: o_def del: upt_Suc)
qed

lemma div_128_step: "n div 128 div 128 ^ i = n div (128 :: nat) ^ Suc i"
  by (simp add: div_mult2_eq)

lemma b128_hi_digits:
  "b128_hi n = map (\<lambda>i. word_of_nat (128 + n div 128 ^ i mod 128)) (rev [0..<length (b128_hi n)])"
proof (induction n rule: b128_hi.induct)
  case (1 n)
  show ?case
  proof (cases "n = 0")
    case False
    define k where "k = length (b128_hi (n div 128))"
    have b: "b128_hi n = b128_hi (n div 128) @ [word_of_nat (128 + n mod 128)]" using False by (subst b128_hi.simps) simp
    have "b128_hi (n div 128) = map (\<lambda>i. word_of_nat (128 + n div 128 ^ Suc i mod 128)) (rev [0..<k])"
      using 1 [OF False] unfolding k_def [symmetric] div_128_step .
    moreover have "length (b128_hi n) = Suc k" using b by (simp add: k_def)
    ultimately show ?thesis using b by (simp only: map_rev_upt_Suc) simp
  qed simp
qed

definition base128_byte :: "u64 \<Rightarrow> nat \<Rightarrow> byte" where
  "base128_byte v i = (if i \<noteq> 0 then ucast (drop_bit (7 * i) v AND 0x7f) OR 0x80 else ucast (drop_bit (7 * i) v AND 0x7f))"

lemma base128_loop_bytes: "base128_bytes_loop m d c v k = add_u8s (map (base128_byte v) (rev [0..<k])) m d c"
  by (induction k arbitrary: c)
    (auto simp: and_then_def base128_byte_def Let_def split: prod.splits bool.splits)

lemma u64_and_0x7f: "unat (w AND 0x7f :: u64) = unat w mod 128"
  using unat_and_mask [of w 7] by (simp add: mask_eq_exp_minus_1)

lemma or_0x80: "x < 128 \<Longrightarrow> (word_of_nat x OR 0x80 :: byte) = word_of_nat (128 + x)"
  using unat_shift_or [of "word_of_nat x :: byte" 7 1] unat_of_nat_small [where 'a = 8, of x]
  by (intro unat_eq_imp) (simp add: or.commute)

lemma base128_byte_eq:
  "base128_byte v i = word_of_nat ((if i = 0 then 0 else 128) + unat v div 128 ^ i mod 128)"
proof -
  define x where "x = unat v div 128 ^ i mod 128"
  have x: "x < 128" by (simp add: x_def)
  have "unat (drop_bit (7 * i) v AND 0x7f) = x"
    by (simp add: u64_and_0x7f unat_drop_bit x_def power_mult)
  then have "(ucast (drop_bit (7 * i) v AND 0x7f) :: byte) = word_of_nat x"
    using x by (intro unat_eq_imp) (simp add: unat_ucast_down)
  then show ?thesis using or_0x80 [OF x] unfolding base128_byte_def x_def [symmetric] by (cases "i = 0") simp_all
qed

lemma b128_eq_loop:
  "b128 (unat v) = map (base128_byte v) (rev [0..<(if base128_len_len v = 0 then 1 else base128_len_len v)])"
proof -
  define n where "n = unat v"
  define k where "k = length (b128_hi (n div 128))"
  have len: "(if base128_len_len v = 0 then 1 else base128_len_len v) = Suc k"
    unfolding length_b128_hi_eq n_def [symmetric] by (subst (1 2) b128_hi.simps) (simp add: k_def)
  have "b128_hi (n div 128) = map (\<lambda>i. word_of_nat (128 + n div 128 ^ Suc i mod 128)) (rev [0..<k])"
    using b128_hi_digits [of "n div 128"] unfolding k_def [symmetric] div_128_step .
  then show ?thesis unfolding len map_rev_upt_Suc
    by (simp add: b128_def n_def [symmetric] base128_byte_eq)
qed

lemma add_base128_eq: "add_base128_integer m d c v = add_u8s (b128 (unat v)) m d c"
  by (simp add: add_base128_integer_def Let_def base128_loop_bytes b128_eq_loop)

interpretation base128: writer "\<lambda>m d c. add_base128_integer m d c v" "b128 (unat v)" for v
proof -
  have "(\<lambda>m d c. add_base128_integer m d c v) = add_u8s (b128 (unat v))" by (intro ext) (rule add_base128_eq)
  then show "writer (\<lambda>m d c. add_base128_integer m d c v) (b128 (unat v))" by (simp add: add_u8s_writer b128_def)
qed

section \<open>Tags and elements\<close>

lemma tag_bits_eq: "(ucast (drop_bit CBS_ASN1_TAG_SHIFT tag AND 0xe0 :: u32) :: byte) = word_of_nat (32 * tag_class tag)"
proof -
  define x where "x = (ucast (drop_bit 24 tag) :: byte)"
  have x: "ucast x = drop_bit 24 tag"
    using unat_bound [of tag] unfolding x_def word_eq_iff_unat
    by (subst unat_ucast_up) (simp_all add: unat_ucast_down unat_drop_bit div_less_iff_less_mult)
  have "drop_bit CBS_ASN1_TAG_SHIFT tag AND 0xe0 = push_bit 5 (ucast (drop_bit 5 x))"
    unfolding CBS_ASN1_TAG_SHIFT_def x [symmetric] by (rule and_0xe0)
  moreover have "unat (ucast (drop_bit 5 x) :: u32) = tag_class tag"
    using arg_cong [OF x, of unat] unat_bound [of tag]
    by (subst unat_ucast_up) (simp_all add: unat_drop_bit unat_ucast_up tag_class_def div_mult2_eq [symmetric])
  ultimately have "unat (drop_bit CBS_ASN1_TAG_SHIFT tag AND 0xe0) = 32 * tag_class tag"
    using tag_bounds(1) [of tag] unat_shift_or [of 0 5 "ucast (drop_bit 5 x) :: u32"] by simp
  then show ?thesis using tag_bounds(1) [of tag] by (intro unat_eq_imp) (simp add: unat_ucast_down)
qed

lemma tag_number_eq: "unat (tag AND CBS_ASN1_TAG_NUMBER_MASK) = tag_number tag"
proof -
  have "CBS_ASN1_TAG_NUMBER_MASK = mask 29"
    by (simp add: CBS_ASN1_TAG_NUMBER_MASK_def CBS_ASN1_TAG_SHIFT_def mask_eq_exp_minus_1 push_bit_eq_mult)
  then show ?thesis using unat_and_mask [of tag 29] by (simp only: tag_number_def)
qed

lemma tag_byte_or:
  assumes "c < 8" "k < 32"
  shows "(word_of_nat (32 * c) OR word_of_nat k :: byte) = word_of_nat (32 * c + k)"
proof -
  have u: "unat (word_of_nat c :: byte) = c" "unat (word_of_nat k :: byte) = k"
    using assms by (simp_all add: unat_of_nat_small)
  have "(word_of_nat (32 * c) :: byte) = push_bit 5 (word_of_nat c)" by (simp add: push_bit_eq_mult mult.commute)
  then show ?thesis using assms u unat_shift_or [of "word_of_nat k :: byte" 5 "word_of_nat c"]
    by (intro unat_eq_imp) simp
qed

text \<open>The tag octets are written one by one.\<close>

lemma asn1_tag_bytes:
  "CBB_add_asn1 m d c tag =
     and_then CBB_flush (and_then (add_u8s (der_tag tag)) (\<lambda>m d c. cbb_add_child m d c 1 True)) m d c"
proof -
  define c8 n where "c8 = tag_class tag" and "n = tag_number tag"
  define nw where "nw = (word_of_nat n :: u32)"
  define tb hb lb where "tb = (word_of_nat (32 * c8) :: byte)" and "hb = (word_of_nat (32 * c8 + 31) :: byte)"
    and "lb = (word_of_nat (32 * c8 + n) :: byte)"
  have b: "c8 < 8" "n < 2 ^ 29" using tag_bounds [of tag] by (simp_all add: c8_def n_def)
  have num: "tag AND CBS_ASN1_TAG_NUMBER_MASK = nw"
    unfolding nw_def using tag_number_eq [of tag] by (intro unat_eq_imp) (simp add: n_def)
  have un: "unat nw = n" using b by (simp add: nw_def unat_of_nat_small)
  have ge: "0x1f \<le> nw \<longleftrightarrow> \<not> n < 31" using un by (simp add: word_le_nat_alt not_less)
  have hi: "tb OR 0x1f = hb" using tag_byte_or [of c8 31] b by (simp add: tb_def hb_def)
  have lo: "tb OR ucast nw = lb" if "n < 31"
  proof -
    have "(ucast nw :: byte) = word_of_nat n" using un that by (intro unat_eq_imp) (simp add: unat_ucast_down)
    then show ?thesis using tag_byte_or [of c8 n] b that by (simp add: tb_def lb_def)
  qed
  have b64: "unat (ucast nw :: u64) = n" using un by (subst unat_ucast_up) simp_all
  have tag: "der_tag tag = (if n < 31 then [lb] else hb # b128 n)"
    by (simp add: der_tag_def n_def c8_def lb_def hb_def)
  have bits: "(ucast (drop_bit CBS_ASN1_TAG_SHIFT tag AND 0xe0 :: u32) :: byte) = tb"
    by (simp only: tag_bits_eq tb_def c8_def)
  show ?thesis
    unfolding CBB_add_asn1_def bits num Let_def ge tag hi
    by (cases "n < 31") (auto simp: and_then_def lo add_base128_eq b64 split: prod.splits bool.splits)
qed

lemma der_tag_nonempty [simp]: "der_tag t \<noteq> []"
  by (simp add: der_tag_def)

interpretation asn1: opener "\<lambda>m d c. CBB_add_asn1 m d c tag" "der_tag tag" 1 True for tag
proof
  fix c d m r c'
  assume c: "cbb_ok c" "d \<le> length (children c)" and run: "CBB_add_asn1 m d c tag = (r, c')"
  obtain r1 c1 where r1: "and_then CBB_flush (add_u8s (der_tag tag)) m d c = (r1, c1)" by fastforce
  have w: "writer (and_then CBB_flush (add_u8s (der_tag tag))) (der_tag tag)"
    using flush.seq [OF add_u8s_writer [OF der_tag_nonempty]] by simp
  have "length (der_tag tag) < size_max" using length_der_tag [of tag] by (simp add: size_max_def)
  from writer.adds [OF w c this r1] have a: "adds m d (der_tag tag) c r1 c1" .
  have run': "(case and_then CBB_flush (add_u8s (der_tag tag)) m d c of
      (False, c') \<Rightarrow> (False, c') | (True, c') \<Rightarrow> cbb_add_child m d c' 1 True) = (r, c')"
    using run unfolding asn1_tag_bytes and_then_def by (auto split: prod.splits bool.splits)
  show "opens m d (der_tag tag) 1 True c r c'"
  proof (cases r1)
    case True
    with run' r1 a add_child_opens [OF c(2), of m "der_tag tag" c1 1 True r c'] show ?thesis by simp
  next
    case False
    with run' r1 a show ?thesis by (auto simp: adds_def opens_def)
  qed
qed simp_all

text \<open>An element whose contents are written by a writer.\<close>

lemma asn1_element_fresh:
  assumes "fresh_writer w bs" "length bs \<le> 0xfffffffe"
  shows "writer (enclose (\<lambda>m d c. CBB_add_asn1 m d c tag) w) (der_header tag (length bs) @ bs)"
  using asn1.enclosed_fresh [OF assms(1), of "der_length (length bs)" tag] assms(2)
  by (simp add: length_prefix_def der_header_def)

lemma asn1_element_writer:
  assumes "writer w bs" "length bs \<le> 0xfffffffe"
  shows "writer (enclose (\<lambda>m d c. CBB_add_asn1 m d c tag) w) (der_header tag (length bs) @ bs)"
  by (rule asn1_element_fresh [OF fresh [OF assms(1)] assms(2)])

lemma flush_fails_closed:
  assumes "cbb_ok c" "d \<le> length (children c)" "CBB_flush m d c = (False, c')"
  shows "cbb_on_error d c' = c'"
  using flush_adds [OF assms] by (intro on_error_failed) (simp_all add: adds_def)

text \<open>The functions that return the result of the last \<open>CBB_flush\<close> do what \<open>enclose\<close> does.\<close>

lemma enclose_flush:
  assumes "cbb_ok c" "d \<le> length (children c)" "writer w bs" "length bs < size_max"
  shows "(case CBB_add_asn1 m d c tag of
      (False, c') \<Rightarrow> (False, cbb_on_error d c')
    | (True, c1) \<Rightarrow> (case w m (d + 1) c1 of (False, c') \<Rightarrow> (False, cbb_on_error d c') | (True, c2) \<Rightarrow> CBB_flush m d c2))
    = enclose (\<lambda>m d c. CBB_add_asn1 m d c tag) w m d c"
proof -
  obtain r1 c1 where r1: "CBB_add_asn1 m d c tag = (r1, c1)" by fastforce
  obtain r2 c2 where r2: "w m (d + 1) c1 = (r2, c2)" by fastforce
  have "cbb_on_error d c' = c'" if "r1" "r2" "CBB_flush m d c2 = (False, c')" for c'
  proof -
    have c1: "cbb_ok c1" "length (children c1) = d + 1" 
      using asn1.opens [OF assms(1,2) r1] that(1) assms(2) by (auto simp: opens_def)
    have "cbb_ok c2" "children c2 = children c1"
      using writer.adds [OF assms(3) c1(1) _ assms(4) r2] c1(2) that(2) by (auto simp: adds_def)
    with c1 that(3) show ?thesis by (intro flush_fails_closed [of c2 d m]) auto
  qed
  then show ?thesis using r1 r2 by (auto simp: enclose_def split: prod.splits bool.splits)
qed

section \<open>Integers\<close>

lemma be_bytes_Cons: "be_bytes (Suc k) n = word_of_nat (n div 256 ^ k mod 256) # be_bytes k n"
  by (induction k arbitrary: n) (simp_all add: div_mult2_eq)

lemma u64_byte: "(ucast (drop_bit (8 * i) (v :: u64)) :: byte) = word_of_nat (unat v div 256 ^ i mod 256)"
  "(ucast (drop_bit (8 * i) (v :: u64) AND 0xff) :: byte) = word_of_nat (unat v div 256 ^ i mod 256)"
proof -
  show "(ucast (drop_bit (8 * i) v) :: byte) = word_of_nat (unat v div 256 ^ i mod 256)"
    by (intro unat_eq_imp) (simp add: unat_ucast_down unat_drop_bit power_mult)
  show "(ucast (drop_bit (8 * i) v AND 0xff) :: byte) = word_of_nat (unat v div 256 ^ i mod 256)"
    using unat_and_mask [of "drop_bit (8 * i) v" 8]
    by (intro unat_eq_imp) (simp add: unat_ucast_down unat_drop_bit power_mult mask_eq_exp_minus_1)
qed

text \<open>What the loop of \<open>CBB_add_asn1_uint64_with_tag\<close> writes.\<close>

definition uint_contents :: "bool \<Rightarrow> byte list \<Rightarrow> byte list" where
  "uint_contents started bs =
     (if started then bs
      else case dropWhile (\<lambda>b. b = 0) bs of [] \<Rightarrow> [0] | b # r \<Rightarrow> if unat b < 128 then b # r else 0 # b # r)"

lemma uint64_loop_contents:
  "asn1_uint64_loop m d c v started k = add_u8s (uint_contents started (be_bytes k (unat v))) m d c"
proof (induction k arbitrary: c started)
  case 0
  show ?case by (auto simp: uint_contents_def and_then_def split: prod.splits bool.splits)
next
  case (Suc k)
  define b where "b = (word_of_nat (unat v div 256 ^ k mod 256) :: byte)"
  have bs: "be_bytes (Suc k) (unat v) = b # be_bytes k (unat v)" by (simp only: be_bytes_Cons b_def)
  show ?case
    unfolding bs asn1_uint64_loop.simps(2) u64_byte b_def [symmetric] Let_def
    using Suc.IH by (auto simp: uint_contents_def and_then_def byte_and_0x80 split: prod.splits bool.splits)
qed

lemma be_nat_dropWhile: "be_nat (dropWhile (\<lambda>b. b = 0) bs) = be_nat bs"
  by (induction bs) (auto simp: be_nat_zero)

lemma der_uint_contents: "der_uint (unat v) = uint_contents False (be_bytes 8 (unat (v :: u64)))"
proof (cases "dropWhile (\<lambda>b. b = 0) (be_bytes 8 (unat v))")
  have n: "be_nat (dropWhile (\<lambda>b. b = 0) (be_bytes 8 (unat v))) = unat v"
    using unat_bound [of v] by (simp only: be_nat_dropWhile) (simp add: be_nat_be_bytes)
  {
    case Nil
    with n have "unat v = 0" by simp
    then show ?thesis unfolding uint_contents_def Nil by (simp add: der_uint_def be_min.simps)
  next
    case (Cons b r)
    then have "b \<noteq> 0" by (metis (mono_tags, lifting) dropWhile_eq_Cons_conv)
    with n Cons be_min_be_nat [of "b # r"] show ?thesis by (simp add: der_uint_def uint_contents_def)
  }
qed

lemma uint_contents_nonempty: "uint_contents False bs \<noteq> []"
  by (auto simp: uint_contents_def split: list.splits)

lemma uint64_loop_writer: "writer (\<lambda>m d c. asn1_uint64_loop m d c v False 8) (der_uint (unat v))"
proof -
  have "(\<lambda>m d c. asn1_uint64_loop m d c v False 8) = add_u8s (der_uint (unat v))"
    by (intro ext) (simp only: uint64_loop_contents der_uint_contents)
  then show ?thesis using add_u8s_writer [OF uint_contents_nonempty] by (simp add: der_uint_contents)
qed

lemma uint64_tag_eq:
  assumes "cbb_ok c" "d \<le> length (children c)"
  shows "CBB_add_asn1_uint64_with_tag m d c v tag =
    enclose (\<lambda>m d c. CBB_add_asn1 m d c tag) (\<lambda>m d c. asn1_uint64_loop m d c v False 8) m d c"
proof -
  have "length (der_uint (unat v)) < size_max" using length_der_uint [of v] by (simp add: size_max_def)
  from enclose_flush [OF assms uint64_loop_writer this] show ?thesis unfolding CBB_add_asn1_uint64_with_tag_def .
qed

lemma writer_cong:
  assumes "writer w bs" "\<And>m d c. cbb_ok c \<Longrightarrow> d \<le> length (children c) \<Longrightarrow> w' m d c = w m d c"
  shows "writer w' bs"
  using assms by (auto simp: writer_def)

interpretation asn1_uint64: writer "\<lambda>m d c. CBB_add_asn1_uint64_with_tag m d c v tag"
  "der_header tag (length (der_uint (unat v))) @ der_uint (unat v)" for v tag
proof (rule writer_cong)
  show "writer (enclose (\<lambda>m d c. CBB_add_asn1 m d c tag) (\<lambda>m d c. asn1_uint64_loop m d c v False 8))
      (der_header tag (length (der_uint (unat v))) @ der_uint (unat v))"
    using length_der_uint [of v] by (intro asn1_element_writer uint64_loop_writer) simp
qed (rule uint64_tag_eq)

text \<open>Negative numbers: the two's-complement bytes without the redundant leading ones.\<close>

definition int64_contents :: "u64 \<Rightarrow> byte list" where
  "int64_contents v = be_bytes (int64_start v 7 + 1) (unat v)"

lemma int64_loop_contents: "int64_bytes_loop m d c v k = add_u8s (be_bytes k (unat v)) m d c"
proof (induction k arbitrary: c)
  case (Suc k)
  define b where "b = (word_of_nat (unat v div 256 ^ k mod 256) :: byte)"
  have "be_bytes (Suc k) (unat v) = b # be_bytes k (unat v)" by (simp only: be_bytes_Cons b_def)
  moreover have "int64_byte v k = b" by (simp only: int64_byte_def u64_byte b_def)
  ultimately show ?case using Suc.IH by (auto simp: and_then_def split: prod.splits bool.splits)
qed simp

lemma be_int_ff:
  assumes "\<not> unat b < 128"
  shows "be_int (0xff # b # bs) = be_int (b # bs)"
  using assms be_nat_Cons [of "0xff" "b # bs"] by (simp add: be_int_def)

lemma int64_byte_hd: "be_bytes (Suc k) (unat v) = int64_byte v k # be_bytes k (unat v)"
  by (simp only: be_bytes_Cons int64_byte_def u64_byte)

lemma int64_start_spec:
  assumes "\<not> unat (int64_byte v k) < 128"
  shows "int64_start v k \<le> k \<and> be_int (be_bytes (int64_start v k + 1) (unat v)) = be_int (be_bytes (k + 1) (unat v)) \<and>
    int_minimal (be_bytes (int64_start v k + 1) (unat v))"
  using assms
proof (induction k)
  case 0
  then show ?case by (simp add: int_minimal_def)
next
  case (Suc k)
  have b: "be_bytes (Suc k + 1) (unat v) = int64_byte v (Suc k) # int64_byte v k # be_bytes k (unat v)"
    by (simp only: Suc_eq_plus1 [symmetric] int64_byte_hd)
  show ?case
  proof (cases "int64_byte v (Suc k) = 0xff \<and> int64_byte v k AND 0x80 \<noteq> 0")
    case True
    then have h: "\<not> unat (int64_byte v k) < 128" by (simp add: byte_and_0x80)
    have "be_int (be_bytes (Suc k + 1) (unat v)) = be_int (be_bytes (k + 1) (unat v))"
      using be_int_ff [OF h, of "be_bytes k (unat v)"] True b by (simp only: Suc_eq_plus1 [symmetric] int64_byte_hd)
    with Suc.IH [OF h] True show ?thesis by simp
  next
    case False
    then have "int_minimal (be_bytes (Suc k + 1) (unat v))"
      using Suc.prems unfolding b by (auto simp: int_minimal_def byte_and_0x80)
    moreover have "int64_start v (Suc k) = Suc k" using False by auto
    ultimately show ?thesis by (simp del: be_bytes.simps int64_start.simps)
  qed
qed

lemma be_bytes_8_negative:
  assumes "sint (v :: u64) < 0"
  shows "\<not> unat (int64_byte v 7) < 128" "be_int (be_bytes 8 (unat v)) = sint v"
proof -
  have n: "2 ^ 63 \<le> unat v" using assms unat_bound [of v] by (auto simp: sint_eq split: if_splits)
  have "unat v div 2 ^ 56 < 256" "128 \<le> unat v div 2 ^ 56"
    using unat_bound [of v] n div_le_mono [OF n, of "2 ^ 56"] by (simp_all add: less_mult_imp_div_less)
  then show h: "\<not> unat (int64_byte v 7) < 128" by (simp add: int64_byte_def unat_ucast_down unat_drop_bit)
  have "be_bytes 8 (unat v) = int64_byte v 7 # be_bytes 7 (unat v)" using int64_byte_hd [of 7 v] by simp
  moreover have "be_nat (be_bytes 8 (unat v)) = unat v" using unat_bound [of v] by (simp add: be_nat_be_bytes)
  ultimately show "be_int (be_bytes 8 (unat v)) = sint v" using h n by (simp add: be_int_def sint_eq)
qed

lemma int64_contents:
  assumes "sint v < 0"
  shows "int_minimal (int64_contents v)" "be_int (int64_contents v) = sint v" "length (int64_contents v) \<le> 8"
    "int64_contents v \<noteq> []"
  using int64_start_spec [OF be_bytes_8_negative(1) [OF assms]] be_bytes_8_negative(2) [OF assms]
  by (simp_all add: int64_contents_def)

lemma int64_tag_eq:
  assumes "cbb_ok c" "d \<le> length (children c)" "sint v < 0"
  shows "CBB_add_asn1_int64_with_tag m d c v tag =
    enclose (\<lambda>m d c. CBB_add_asn1 m d c tag) (add_u8s (int64_contents v)) m d c"
proof -
  have "length (int64_contents v) < size_max" using int64_contents(3) [OF assms(3)] by (simp add: size_max_def)
  from enclose_flush [OF assms(1,2) add_u8s_writer [OF int64_contents(4) [OF assms(3)]] this] assms(3)
  show ?thesis unfolding CBB_add_asn1_int64_with_tag_def Let_def int64_loop_contents int64_contents_def [symmetric] by simp
qed

lemma int64_writer:
  assumes "sint v < 0"
  shows "writer (\<lambda>m d c. CBB_add_asn1_int64_with_tag m d c v tag)
    (der_header tag (length (int64_contents v)) @ int64_contents v)"
proof (rule writer_cong)
  show "writer (enclose (\<lambda>m d c. CBB_add_asn1 m d c tag) (add_u8s (int64_contents v)))
      (der_header tag (length (int64_contents v)) @ int64_contents v)"
    using int64_contents(3,4) [OF assms] by (intro asn1_element_writer add_u8s_writer) simp_all
qed (rule int64_tag_eq [OF _ _ assms])

section \<open>Strings and booleans\<close>

lemma octet_string_writer:
  assumes "length data \<le> 0xfffffffe"
  shows "writer (\<lambda>m d c. CBB_add_asn1_octet_string m d c data) (der_header CBS_ASN1_OCTETSTRING (length data) @ data)"
  using asn1_element_writer [OF bytes.writer_axioms assms, of CBS_ASN1_OCTETSTRING]
  by (simp add: CBB_add_asn1_octet_string_def)

interpretation asn1_bool: writer "\<lambda>m d c. CBB_add_asn1_bool m d c b"
  "der_header CBS_ASN1_BOOLEAN 1 @ [if b then 0xff else 0]" for b
  using asn1_element_writer [OF u8.writer_axioms, of "if b then 0xff else 0" CBS_ASN1_BOOLEAN]
  by (simp add: CBB_add_asn1_bool_def)

section \<open>Object identifiers\<close>

text \<open>The dotted text of the numbers, and the numbers that make an OID.\<close>

fun dotted :: "nat list \<Rightarrow> byte list" where
  "dotted [] = []"
| "dotted (n # ns) = dec_digits n @ (if ns = [] then [] else 0x2e # dotted ns)"

definition oid_numbers :: "nat \<Rightarrow> nat \<Rightarrow> nat list \<Rightarrow> bool" where
  "oid_numbers a b ns \<longleftrightarrow> a \<le> 2 \<and> (a < 2 \<longrightarrow> b \<le> 39) \<and> b < 2 ^ 64 - 80 \<and> (\<forall>n \<in> set ns. n < 2 ^ 64)"

lemma dotted_Nil_iff [simp]: "dotted ns = [] \<longleftrightarrow> ns = []"
  by (cases ns) auto

lemma no_digit_dot: "no_digit (0x2e # s)"
  by (simp add: no_digit_def isdigit_iff)

lemma parse_dotted_iff:
  "parse_dotted_decimal s = (Some v, s') \<longleftrightarrow> s = dec_digits (unat v) @ (if s' = [] then [] else 0x2e # s')"
proof
  assume run: "parse_dotted_decimal s = (Some v, s')"
  then obtain r where r: "CBS_get_u64_decimal s = (Some v, r)"
    by (auto simp: parse_dotted_decimal_def split: prod.splits option.splits if_splits)
  with run have "r = (if s' = [] then [] else 0x2e # s')"
    by (cases r) (auto simp: parse_dotted_decimal_def split: if_splits)
  with r show "s = dec_digits (unat v) @ (if s' = [] then [] else 0x2e # s')" by (simp add: get_u64_decimal_iff)
next
  assume s: "s = dec_digits (unat v) @ (if s' = [] then [] else 0x2e # s')"
  then have "CBS_get_u64_decimal s = (Some v, if s' = [] then [] else 0x2e # s')"
    unfolding get_u64_decimal_iff using no_digit_dot [of s'] by (simp add: no_digit_def)
  then show "parse_dotted_decimal s = (Some v, s')" by (simp add: parse_dotted_decimal_def)
qed

lemma parse_dotted_dotted:
  assumes "n < 2 ^ 64"
  shows "parse_dotted_decimal (dotted (n # ns)) = (Some (word_of_nat n), dotted ns)"
  using assms unfolding parse_dotted_iff by (simp add: unat_of_nat_small)

lemma oid_loop_dotted:
  "\<forall>n \<in> set ns. n < 2 ^ 64 \<Longrightarrow> oid_from_text_loop m d c (dotted ns) = add_u8s (concat (map b128 ns)) m d c"
proof (induction ns arbitrary: c)
  case Nil
  then show ?case by (simp add: oid_from_text_loop.simps)
next
  case (Cons n ns)
  then have n: "unat (word_of_nat n :: u64) = n" by (simp add: unat_of_nat_small)
  have "oid_from_text_loop m d c (dotted (n # ns)) =
      and_then (\<lambda>m d c. add_base128_integer m d c (word_of_nat n)) (\<lambda>m d c. oid_from_text_loop m d c (dotted ns)) m d c"
    using Cons.prems parse_dotted_dotted [of n ns]
    by (subst oid_from_text_loop.simps) (simp add: and_then_def del: dotted.simps)
  also have "\<dots> = and_then (add_u8s (b128 n)) (add_u8s (concat (map b128 ns))) m d c"
    using Cons by (auto simp: and_then_def add_base128_eq n split: prod.splits bool.splits)
  finally show ?case by (simp add: add_u8s_append)
qed

lemma oid_loop_numbers:
  "oid_from_text_loop m d c s = (True, c') \<Longrightarrow> \<exists>ns. s = dotted ns \<and> (\<forall>n \<in> set ns. n < 2 ^ 64)"
proof (induction m d c s rule: oid_from_text_loop.induct)
  case (1 m d c s)
  show ?case
  proof (cases s)
    case Nil
    then show ?thesis by (intro exI [of _ "[]"]) simp
  next
    case Cons
    obtain a s1 c1 where a: "parse_dotted_decimal s = (Some a, s1)" "add_base128_integer m d c a = (True, c1)"
      "oid_from_text_loop m d c1 s1 = (True, c')"
      using "1.prems" Cons by (subst (asm) oid_from_text_loop.simps) (auto split: prod.splits option.splits bool.splits)
    obtain ns where ns: "s1 = dotted ns" "\<forall>n \<in> set ns. n < 2 ^ 64"
      using "1.IH" a Cons by (metis (no_types, lifting) length_greater_0_conv list.discI)
    have "s = dotted (unat a # ns)" using a(1) ns by (simp add: parse_dotted_iff)
    with ns unat_bound [of a] show ?thesis by (intro exI [of _ "unat a # ns"]) simp
  qed
qed

lemma oid_first:
  fixes a b :: u64
  shows "\<not> (a > 2 \<or> (a < 2 \<and> b > 39) \<or> b > UINT64_MAX - 80) \<longleftrightarrow>
     unat a \<le> 2 \<and> (unat a < 2 \<longrightarrow> unat b \<le> 39) \<and> unat b < 2 ^ 64 - 80"
    "unat a \<le> 2 \<Longrightarrow> unat b < 2 ^ 64 - 80 \<Longrightarrow> unat (40 * a + b) = 40 * unat a + unat b"
proof -
  have m: "unat (UINT64_MAX - 80) = 2 ^ 64 - 81" by (simp add: UINT64_MAX_def)
  show "\<not> (a > 2 \<or> (a < 2 \<and> b > 39) \<or> b > UINT64_MAX - 80) \<longleftrightarrow>
     unat a \<le> 2 \<and> (unat a < 2 \<longrightarrow> unat b \<le> 39) \<and> unat b < 2 ^ 64 - 80"
    using m by (auto simp: word_less_nat_alt not_less)
  show "unat (40 * a + b) = 40 * unat a + unat b" if "unat a \<le> 2" "unat b < 2 ^ 64 - 80"
    using that by (simp add: unat_word_ariths)
qed

lemma oid_from_text_writes:
  assumes "oid_numbers a b ns"
  shows "CBB_add_asn1_oid_from_text m d c (dotted (a # b # ns)) =
    and_then CBB_flush (add_u8s (concat (map b128 ((40 * a + b) # ns)))) m d c"
proof -
  define aw bw where "aw = (word_of_nat a :: u64)" and "bw = (word_of_nat b :: u64)"
  have u: "unat aw = a" "unat bw = b" using assms by (simp_all add: aw_def bw_def oid_numbers_def unat_of_nat_small)
  have p1: "parse_dotted_decimal (dotted (a # b # ns)) = (Some aw, dotted (b # ns))"
    and p2: "parse_dotted_decimal (dotted (b # ns)) = (Some bw, dotted ns)"
    unfolding aw_def bw_def by (rule parse_dotted_dotted, use assms in \<open>simp add: oid_numbers_def\<close>)+
  have ok: "\<not> (aw > 2 \<or> (aw < 2 \<and> bw > 39) \<or> bw > UINT64_MAX - 80)"
    unfolding oid_first(1) using assms u by (simp add: oid_numbers_def)
  have v: "unat (40 * aw + bw) = 40 * a + b" using oid_first(2) [of aw bw] assms u by (simp add: oid_numbers_def)
  have l: "oid_from_text_loop m d c (dotted ns) = add_u8s (concat (map b128 ns)) m d c" for c
    using oid_loop_dotted assms by (simp add: oid_numbers_def)
  show ?thesis
    unfolding CBB_add_asn1_oid_from_text_def p1 option.case prod.case p2 using ok
    by (auto simp: and_then_def add_base128_eq v l add_u8s_append split: prod.splits bool.splits)
qed

lemma oid_from_text_numbers:
  assumes "CBB_add_asn1_oid_from_text m d c text = (True, c')"
  obtains a b ns where "text = dotted (a # b # ns)" "oid_numbers a b ns"
proof -
  obtain a b s1 s2 c1 c2 where p: "parse_dotted_decimal text = (Some a, s1)" "parse_dotted_decimal s1 = (Some b, s2)"
    and ok: "\<not> (a > 2 \<or> (a < 2 \<and> b > 39) \<or> b > UINT64_MAX - 80)"
    and l: "oid_from_text_loop m d c2 s2 = (True, c')"
    using assms by (auto simp: CBB_add_asn1_oid_from_text_def split: prod.splits bool.splits option.splits if_splits)
  obtain ns where ns: "s2 = dotted ns" "\<forall>n \<in> set ns. n < 2 ^ 64" using oid_loop_numbers [OF l] by blast
  have "s1 = dotted (unat b # ns)" using p(2) ns by (simp add: parse_dotted_iff)
  moreover from this have "text = dotted (unat a # unat b # ns)" using p(1) by (simp add: parse_dotted_iff)
  moreover have "oid_numbers (unat a) (unat b) ns" using ok [unfolded oid_first(1)] ns(2) by (simp add: oid_numbers_def)
  ultimately show ?thesis using that by blast
qed

text \<open>Printing.\<close>

interpretation decimal: writer "\<lambda>m d c. add_decimal m d c v" "dec_digits (unat v)" for v
  using bytes.writer_axioms [of "dec_digits (unat v)"] by (simp add: add_decimal_def)

lemma oid_to_text_loop_step:
  assumes "n < 2 ^ 64"
  shows "oid_to_text_loop m d c (b128 n @ s) =
    and_then (\<lambda>m d c. CBB_add_u8 m d c 0x2e)
      (and_then (\<lambda>m d c. add_decimal m d c (word_of_nat n)) (\<lambda>m d c. oid_to_text_loop m d c s)) m d c"
proof -
  have "parse_base128_integer (b128 n @ s) = (Some (word_of_nat n), s)"
    using assms by (simp add: parse_base128_iff unat_of_nat_small)
  moreover have "b128 n @ s \<noteq> []" by (simp add: b128_def)
  ultimately show ?thesis
    by (subst oid_to_text_loop.simps) (simp add: and_then_def split: prod.split bool.split)
qed

definition dot_text :: "nat list \<Rightarrow> byte list" where
  "dot_text ns = concat (map (\<lambda>n. 0x2e # dec_digits n) ns)"

lemma dotted_eq: "dotted (n # ns) = dec_digits n @ dot_text ns"
  by (induction ns arbitrary: n) (simp_all add: dot_text_def)

lemma and_then_assoc: "and_then (and_then u v) w = and_then u (and_then v w)"
  by (intro ext) (auto simp: and_then_def split: prod.splits bool.splits)

lemma oid_to_text_tail:
  assumes "\<forall>n \<in> set ns. n < 2 ^ 64"
  shows "writer (and_then (\<lambda>m d c. oid_to_text_loop m d c (concat (map b128 ns))) (\<lambda>m d c. CBB_add_u8 m d c z))
    (dot_text ns @ [z])"
  using assms
proof (induction ns)
  case Nil
  have "and_then (\<lambda>m d c. oid_to_text_loop m d c []) (\<lambda>m d c. CBB_add_u8 m d c z) = (\<lambda>m d c. CBB_add_u8 m d c z)"
    by (intro ext) (simp add: and_then_def oid_to_text_loop.simps)
  then show ?case using u8.writer_axioms [of z] by (simp add: dot_text_def)
next
  case (Cons n ns)
  let ?w = "\<lambda>ns m d c. oid_to_text_loop m d c (concat (map b128 ns))"
  let ?z = "\<lambda>m d c. CBB_add_u8 m d c z"
  have n: "n < 2 ^ 64" "unat (word_of_nat n :: u64) = n" using Cons.prems by (simp_all add: unat_of_nat_small)
  have "?w (n # ns) = and_then (\<lambda>m d c. CBB_add_u8 m d c 0x2e) (and_then (\<lambda>m d c. add_decimal m d c (word_of_nat n)) (?w ns))"
    using oid_to_text_loop_step [OF n(1)] by (intro ext) simp
  then have "and_then (?w (n # ns)) ?z =
      and_then (\<lambda>m d c. CBB_add_u8 m d c 0x2e) (and_then (\<lambda>m d c. add_decimal m d c (word_of_nat n)) (and_then (?w ns) ?z))"
    by (simp only: and_then_assoc)
  moreover have "writer (and_then (?w ns) ?z) (dot_text ns @ [z])" using Cons by simp
  ultimately show ?case
    using u8.seq [OF decimal.seq, of "and_then (?w ns) ?z" "dot_text ns @ [z]" "0x2e" "word_of_nat n"] n(2)
    by (simp add: dot_text_def)
qed

text \<open>The printer as one writer of the whole text.\<close>

definition oid_first_text :: "nat \<Rightarrow> byte list" where
  "oid_first_text v = (if v \<ge> 80 then [0x32, 0x2e] @ dec_digits (v - 80) else dec_digits (v div 40) @ [0x2e] @ dec_digits (v mod 40))"

definition oid_first_writer :: "u64 \<Rightarrow> memory \<Rightarrow> nat \<Rightarrow> cbb \<Rightarrow> bool \<times> cbb" where
  "oid_first_writer v =
     (if v \<ge> 80 then and_then (\<lambda>m d c. CBB_add_bytes m d c [0x32, 0x2e]) (\<lambda>m d c. add_decimal m d c (v - 80))
      else and_then (\<lambda>m d c. add_decimal m d c (v div 40))
             (and_then (\<lambda>m d c. CBB_add_u8 m d c 0x2e) (\<lambda>m d c. add_decimal m d c (v mod 40))))"

lemma oid_first_writer: "writer (oid_first_writer v) (oid_first_text (unat v))"
proof (cases "v \<ge> 80")
  case True
  then have "80 \<le> unat v" "unat (v - 80) = unat v - 80" by (simp_all add: word_le_nat_alt unat_sub)
  with True bytes.seq [OF decimal.writer_axioms, of "[0x32, 0x2e]" "v - 80"] show ?thesis
    by (simp add: oid_first_writer_def oid_first_text_def)
next
  case False
  then have "\<not> 80 \<le> unat v" by (simp add: word_le_nat_alt)
  with False decimal.seq [OF u8.seq [OF decimal.writer_axioms], of "v div 40" "0x2e" "v mod 40"] show ?thesis
    by (simp add: oid_first_writer_def oid_first_text_def unat_div unat_mod)
qed

lemma oid_to_text_run:
  assumes v: "v < 2 ^ 64" and ns: "\<forall>n \<in> set ns. n < 2 ^ 64"
    and mem: "\<forall>n. alloc m n" and small: "6 * length (oid_first_text v @ dot_text ns @ [0]) < size_max"
  shows "CBS_asn1_oid_to_text m (concat (map b128 (v # ns))) = Some (oid_first_text v @ dot_text ns @ [0])"
proof -
  define c where "c = cbb_init (map (junk m) [0..<32]) True"
  define t where "t = oid_first_text v @ dot_text ns @ [0]"
  define w where "w = and_then (oid_first_writer (word_of_nat v))
    (and_then (\<lambda>m d c. oid_to_text_loop m d c (concat (map b128 ns))) (\<lambda>m d c. CBB_add_u8 m d c 0))"
  have init: "CBB_init m 32 = Some c" using mem by (simp add: CBB_init_def c_def)
  have p: "parse_base128_integer (concat (map b128 (v # ns))) = (Some (word_of_nat v), concat (map b128 ns))"
    using v by (simp add: parse_base128_iff unat_of_nat_small)
  have W: "writer w t"
    unfolding w_def t_def using writer.seq [OF oid_first_writer oid_to_text_tail [OF ns, of 0], of "word_of_nat v"] v
    by (simp add: unat_of_nat_small)
  have lt: "length t < size_max" "6 * length t < size_max" using small by (simp_all add: t_def)
  have size: "32 < size_max" by (simp add: size_max_def)
  obtain c3 where run: "w m 0 c = (True, c3)"
    using finish_fresh(2) [OF fresh [OF W] lt(1) size init mem lt(2)] by (cases "w m 0 c") auto
  have fin: "fst (CBB_finish m 0 False c3) = Some t" by (rule finish_fresh(1) [OF fresh [OF W] lt(1) size init run])
  have "CBS_asn1_oid_to_text m (concat (map b128 (v # ns))) =
      (case w m 0 c of (False, _) \<Rightarrow> None | (True, c3) \<Rightarrow> fst (CBB_finish m 0 False c3))"
    unfolding CBS_asn1_oid_to_text_def init option.case p prod.case w_def
    by (simp add: oid_first_writer_def and_then_def Let_def split: prod.splits bool.splits)
  then show ?thesis using run fin by (simp add: t_def)
qed

lemma oid_first_text_eq:
  assumes "oid_numbers a b ns"
  shows "oid_first_text (40 * a + b) @ dot_text ns = dotted (a # b # ns)"
proof -
  have "oid_first_text (40 * a + b) = dec_digits a @ [0x2e] @ dec_digits b"
  proof (cases "a = 2")
    case True
    then show ?thesis by (simp add: oid_first_text_def dec_digits_single digit_def)
  next
    case False
    then have "a < 2" "b \<le> 39" using assms by (auto simp: oid_numbers_def)
    then show ?thesis by (simp add: oid_first_text_def)
  qed
  then show ?thesis using dotted_eq [of b ns] by simp
qed

section \<open>Sets\<close>

fun compare_bytes :: "byte list \<Rightarrow> byte list \<Rightarrow> int" where
  "compare_bytes [] [] = 0"
| "compare_bytes [] (b # bs) = - 1"
| "compare_bytes (a # as) [] = 1"
| "compare_bytes (a # as) (b # bs) = (if a = b then compare_bytes as bs else int (unat a) - int (unat b))"

text \<open>The comparison is lexicographic.\<close>

lemma compare_set_of_element_eq: "compare_set_of_element a b = compare_bytes a b"
proof (induction a b rule: compare_bytes.induct)
  case (4 a as b bs)
  have "compare_set_of_element (a # as) (b # bs) =
      (if a = b then compare_set_of_element as bs else int (unat a) - int (unat b))"
    by (auto simp: compare_set_of_element_def Let_def word_uint_eq_iff)
  with 4 show ?case by simp
qed (simp_all add: compare_set_of_element_def)

lemma compare_bytes_swap: "compare_bytes a b < 0 \<longleftrightarrow> compare_bytes b a > 0"
  by (induction a b rule: compare_bytes.induct) auto

lemma compare_bytes_0: "compare_bytes a b = 0 \<longleftrightarrow> a = b"
  by (induction a b rule: compare_bytes.induct) (auto simp: word_uint_eq_iff)

lemma compare_bytes_trans: "compare_bytes a b \<le> 0 \<Longrightarrow> compare_bytes b c \<le> 0 \<Longrightarrow> compare_bytes a c \<le> 0"
proof (induction a b arbitrary: c rule: compare_bytes.induct)
  case (4 a as b bs)
  then show ?case by (cases c) (auto simp: word_uint_eq_iff split: if_splits)
next
  case (2 b bs)
  then show ?case by (cases c) auto
qed auto

interpretation set_of: comparator compare_set_of_element
  by unfold_locales (auto simp: compare_set_of_element_eq compare_bytes_swap intro: compare_bytes_trans)

lemma mset_insort_cmp [simp]: "mset (insort_cmp cmp x ys) = add_mset x (mset ys)"
  by (induction ys) auto

lemma mset_qsort: "mset (qsort cmp xs) = mset xs"
  by (induction xs) (simp_all add: qsort_def)

context comparator
begin

lemma sorted_wrt_insort: "sorted_wrt (\<lambda>a b. cmp a b \<le> 0) ys \<Longrightarrow> sorted_wrt (\<lambda>a b. cmp a b \<le> 0) (insort_cmp cmp x ys)"
proof (induction ys)
  case (Cons y ys)
  have "set (insort_cmp cmp x ys) = insert x (set ys)"
    by (metis mset_insort_cmp set_mset_add_mset_insert set_mset_mset)
  then show ?case using Cons cmp_total [of x y] by (auto intro: cmp_trans)
qed simp

lemma sorted_qsort: "sorted_wrt (\<lambda>a b. cmp a b \<le> 0) (qsort cmp xs)"
  by (induction xs) (simp_all add: qsort_def sorted_wrt_insort)

end

lemma set_of_elements_Some:
  "set_of_elements s = Some els \<Longrightarrow> concat els = s \<and> (\<forall>e \<in> set els. \<exists>t body. tag_valid t \<and> length body < 2 ^ 32 \<and>
     e = der_header t (length body) @ body)"
proof (induction s arbitrary: els rule: set_of_elements.induct)
  case (1 s)
  show ?case
  proof (cases s)
    case Nil
    with "1.prems" show ?thesis by (simp add: set_of_elements.simps)
  next
    case Cons
    then obtain e s' es where e: "CBS_get_any_asn1_element s = (Some e, s')" "set_of_elements s' = Some es" "els = el_out e # es"
      using "1.prems" by (subst (asm) set_of_elements.simps) (auto split: prod.splits option.splits)
    have IH: "concat es = s' \<and> (\<forall>e \<in> set es. \<exists>t body. tag_valid t \<and> length body < 2 ^ 32 \<and> e = der_header t (length body) @ body)"
      using "1.IH" [OF _ e(1) [symmetric] _ e(2)] Cons by simp
    obtain t body where "tag_valid t" "length body < 2 ^ 32" "e = der_element t body" "s = der_header t (length body) @ body @ s'"
      using e(1) any_asn1_element_iff by blast
    with IH e(3) show ?thesis by (auto simp: der_element_def)
  qed
qed

lemma set_of_elements_concat:
  "\<forall>e \<in> set els. \<exists>t body. tag_valid t \<and> length body < 2 ^ 32 \<and> e = der_header t (length body) @ body \<Longrightarrow>
   set_of_elements (concat els) = Some els"
proof (induction els)
  case Nil
  then show ?case by (simp add: set_of_elements.simps)
next
  case (Cons e els)
  then obtain t body where b: "tag_valid t" "length body < 2 ^ 32" "e = der_header t (length body) @ body" by auto
  then have "CBS_get_any_asn1_element (concat (e # els)) = (Some (der_element t body), concat els)"
    unfolding any_asn1_element_iff by (intro exI [of _ t] exI [of _ body]) simp
  moreover have "concat (e # els) \<noteq> []" using b by (simp add: der_header_def)
  ultimately show ?case using Cons b(3) by (subst set_of_elements.simps) (simp add: der_element_def)
qed


lemma cbb_start_le: "cbb_ok c \<Longrightarrow> d \<le> length (children c) \<Longrightarrow> cbb_start d c \<le> len (base c)"
  using chain_ok_nth [of 0 "children c" "len (base c)" "d - 1"] by (auto simp: cbb_start_def cbb_ok_def)

lemma cbb_contents:
  assumes "cbb_ok c" "d \<le> length (children c)"
  shows "take (CBB_len d c) (CBB_data d c) = drop (cbb_start d c) (cbb_view c)"
  using cbb_start_le [OF assms] assms(1)
  by (simp add: CBB_len_def CBB_data_def cbb_view_def buffer_view_def take_drop cbb_ok_def buffer_ok_def)

lemma qsort_small: "length els < 2 \<Longrightarrow> qsort cmp els = els"
  by (cases els) (auto simp: qsort_def)

lemma set_of_stored:
  assumes c: "cbb_ok c" "d \<le> length (children c)" and els: "set_of_elements (drop (cbb_start d c) (cbb_view c)) = Some els"
    and c': "c' = cbb_store (cbb_start d c) (concat (qsort compare_set_of_element els)) c"
  shows "cbb_ok c' \<and> cbb_view c' = take (cbb_start d c) (cbb_view c) @ concat (qsort compare_set_of_element els)"
proof -
  define bs where "bs = concat (qsort compare_set_of_element els)"
  have "length bs = length (concat els)"
    unfolding bs_def length_concat using mset_qsort [of compare_set_of_element els] by (metis mset_map sum_mset_sum_list)
  then have l: "length bs = len (base c) - cbb_start d c"
    using set_of_elements_Some [OF els] len_cbb_view [OF c(1)] by simp
  have ok: "buffer_ok (base c)" and s: "cbb_start d c \<le> len (base c)" using c(1) cbb_start_le [OF c] by (simp_all add: cbb_ok_def)
  have e: "cbb_start d c + length bs = len (base c)" using l s by simp
  then have "buffer_ok ((base c)\<lparr>buf := store (buf (base c)) (cbb_start d c) bs\<rparr>)"
    using ok by (intro buffer_ok_store) (simp_all add: buffer_ok_def)
  moreover have "buffer_view ((base c)\<lparr>buf := store (buf (base c)) (cbb_start d c) bs\<rparr>) = take (cbb_start d c) (cbb_view c) @ bs"
    using view_store_prefix [OF ok, of "cbb_start d c" bs] e ok by (simp add: cbb_view_def)
  ultimately show ?thesis using c(1) by (simp add: c' bs_def [symmetric] cbb_store_def cbb_ok_def cbb_view_def)
qed

lemma integer_tag_valid: "tag_valid CBS_ASN1_INTEGER" "tag_valid CBS_ASN1_OCTETSTRING" "tag_valid CBS_ASN1_BOOLEAN"
  by (simp_all add: tag_valid_def CBS_ASN1_INTEGER_def CBS_ASN1_OCTETSTRING_def CBS_ASN1_BOOLEAN_def
      CBS_ASN1_CONSTRUCTED_def CBS_ASN1_TAG_SHIFT_def)

section \<open>Properties\<close>



lemma hd_der_uint: "unat (hd (der_uint n)) < 128" "der_uint n \<noteq> []"
  by (simp_all add: der_uint_def)

lemma der_uint_signed:
  assumes "unat (v :: u64) < 2 ^ 63"
  shows "int_minimal (der_uint (unat v))" "be_int (der_uint (unat v)) = int (unat v)" "length (der_uint (unat v)) \<le> 8"
proof -
  have "CBS_is_unsigned_asn1_integer (der_uint (unat v)) \<and> uint64_loop 0 (der_uint (unat v)) = Some v"
    unfolding der_uint_iff ..
  then have u: "CBS_is_unsigned_asn1_integer (der_uint (unat v))" by simp
  then show m: "int_minimal (der_uint (unat v))"
    using is_valid_integer_eq [of "der_uint (unat v)"]
    by (auto simp: CBS_is_unsigned_asn1_integer_def split: if_splits)
  have n: "be_nat (der_uint (unat v)) = unat v" by (simp add: der_uint_def be_nat_zero be_nat_be_min)
  then show "be_int (der_uint (unat v)) = int (unat v)" using hd_der_uint [of "unat v"] by (simp add: be_int_def)
  show "length (der_uint (unat v)) \<le> 8"
  proof (cases "unat (hd (be_min (unat v))) < 128")
    case True
    then show ?thesis using length_be_min [of "unat v" 7] assms by (simp add: der_uint_def)
  next
    case False
    obtain b r where br: "be_min (unat v) = b # r" by (cases "be_min (unat v)") auto
    have "128 \<le> unat b" using False br by simp
    then have "128 * 256 ^ length r \<le> unat b * 256 ^ length r" by (rule mult_le_mono1)
    also have "\<dots> \<le> be_nat (b # r)" unfolding be_nat_Cons by simp
    also have "\<dots> = unat v" using br be_nat_be_min [of "unat v"] by simp
    finally have "128 * 256 ^ length r \<le> unat v" .
    then have "256 ^ length r < (256 ^ 7 :: nat)" using assms by simp
    then have "length r < 7" by (rule power_less_imp_less_exp [rotated]) simp
    then show ?thesis using br by (simp add: der_uint_def)
  qed
qed

context writer
begin

lemma written:
  assumes "cbb_ok c" "d \<le> length (children c)" "length bs < size_max" "w m d c = (True, c')" "P bs"
  shows "\<exists>pre new. closed d c = Some pre \<and> cbb_view c' = pre @ new \<and> P new"
  using appends [OF assms(1-4)] assms(5) by metis

end

lemma length_der_header: "n \<le> 0xfffffffe \<Longrightarrow> length (der_header t n) \<le> 11"
  using length_der_tag [of t] length_der_length [of n] by (simp add: der_header_def)

lemma small_element:
  assumes "length bs \<le> 9"
  shows "length (der_header t (length bs) @ bs) \<le> 20" "length (der_header t (length bs) @ bs) < size_max"
  using assms length_der_header [of "length bs" t] by (simp_all add: size_max_def)

lemma sint_nonneg: "0 \<le> sint (v :: u64) \<Longrightarrow> unat v < 2 ^ 63 \<and> sint v = int (unat v)"
proof -
  assume "0 \<le> sint v"
  then show "unat v < 2 ^ 63 \<and> sint v = int (unat v)"
    using uint_bounded [of v] unfolding sint_eq by (cases "unat v < 2 ^ 63") auto
qed

text \<open>The contents of any \<^verbatim>\<open>int64_t\<close>.\<close>

definition der_int64 :: "u64 \<Rightarrow> byte list" where
  "der_int64 v = (if sint v < 0 then int64_contents v else der_uint (unat v))"

lemma der_int64:
  "int_minimal (der_int64 v)" "be_int (der_int64 v) = sint v" "length (der_int64 v) \<le> 8"
  using int64_contents [of v] der_uint_signed [of v] sint_nonneg [of v] by (auto simp: der_int64_def not_less)

interpretation asn1_int64: writer "\<lambda>m d c. CBB_add_asn1_int64_with_tag m d c v tag"
  "der_header tag (length (der_int64 v)) @ der_int64 v" for v tag
proof (cases "sint v < 0")
  case True
  then show "writer (\<lambda>m d c. CBB_add_asn1_int64_with_tag m d c v tag) (der_header tag (length (der_int64 v)) @ der_int64 v)"
    using int64_writer [OF True, of tag] by (simp add: der_int64_def)
next
  case False
  then show "writer (\<lambda>m d c. CBB_add_asn1_int64_with_tag m d c v tag) (der_header tag (length (der_int64 v)) @ der_int64 v)"
    using asn1_uint64.writer_axioms [of v tag] by (simp add: der_int64_def CBB_add_asn1_int64_with_tag_def)
qed

text \<open>(C15) Unsigned and signed INTEGERs survive: what \<open>CBB_add_asn1_uint64\<close> and \<open>CBB_add_asn1_int64\<close> append after the
  closed contents, \<open>CBS_get_asn1_uint64\<close> and \<open>CBS_get_asn1_int64\<close> read back as the same number, whatever follows; and
  both succeed whenever memory does not run out.\<close>

theorem asn1_integers_roundtrip:
  assumes "cbb_ok c" "d \<le> length (children c)"
  shows "(CBB_add_asn1_uint64 m d c v = (True, c') \<longrightarrow> (\<exists>pre new. closed d c = Some pre \<and> cbb_view c' = pre @ new \<and>
      CBS_get_asn1_uint64 (new @ rest) = (Some v, rest))) \<and>
    (CBB_add_asn1_int64 m d c v = (True, c') \<longrightarrow> (\<exists>pre new. closed d c = Some pre \<and> cbb_view c' = pre @ new \<and>
      CBS_get_asn1_int64 (new @ rest) = (Some v, rest))) \<and>
    (roomy m (base c) \<and> closed d c \<noteq> None \<and> len (base c) + 4 * (length (children c) - d) + 120 < size_max \<longrightarrow>
      fst (CBB_add_asn1_uint64 m d c v) \<and> fst (CBB_add_asn1_int64 m d c v))"
proof (intro conjI impI)
  let ?u = "der_header CBS_ASN1_INTEGER (length (der_uint (unat v))) @ der_uint (unat v)"
  let ?i = "der_header CBS_ASN1_INTEGER (length (der_int64 v)) @ der_int64 v"
  have u: "length ?u \<le> 20" "length ?u < size_max" using small_element [OF length_der_uint] by simp_all
  have i: "length ?i \<le> 20" "length ?i < size_max" using small_element [of "der_int64 v"] der_int64(3) [of v] by simp_all
  have ru: "CBS_get_asn1_uint64 (?u @ rest) = (Some v, rest)" by (simp add: get_asn1_uint64_iff)
  have ri: "CBS_get_asn1_int64 (?i @ rest) = (Some v, rest)"
    unfolding get_asn1_int64_iff using der_int64 [of v] by (intro exI [of _ "der_int64 v"]) simp
  show "\<exists>pre new. closed d c = Some pre \<and> cbb_view c' = pre @ new \<and> CBS_get_asn1_uint64 (new @ rest) = (Some v, rest)"
    if "CBB_add_asn1_uint64 m d c v = (True, c')"
    using asn1_uint64.written [OF assms u(2), of m c' "\<lambda>new. CBS_get_asn1_uint64 (new @ rest) = (Some v, rest)"] that ru
    by (simp add: CBB_add_asn1_uint64_def)
  show "\<exists>pre new. closed d c = Some pre \<and> cbb_view c' = pre @ new \<and> CBS_get_asn1_int64 (new @ rest) = (Some v, rest)"
    if "CBB_add_asn1_int64 m d c v = (True, c')"
    using asn1_int64.written [OF assms i(2), of m c' "\<lambda>new. CBS_get_asn1_int64 (new @ rest) = (Some v, rest)"] that ri
    by (simp add: CBB_add_asn1_int64_def)
  assume a: "roomy m (base c) \<and> closed d c \<noteq> None \<and> len (base c) + 4 * (length (children c) - d) + 120 < size_max"
  then have r: "roomy m (base c)" "closed d c \<noteq> None"
    "len (base c) + 4 * (length (children c) - d) + 6 * length ?u < size_max"
    "len (base c) + 4 * (length (children c) - d) + 6 * length ?i < size_max" using u i by linarith+
  show "fst (CBB_add_asn1_uint64 m d c v)"
    using asn1_uint64.succeeds [OF assms r(1,2,3)] by (simp add: CBB_add_asn1_uint64_def)
  show "fst (CBB_add_asn1_int64 m d c v)"
    using asn1_int64.succeeds [OF assms r(1,2,4)] by (simp add: CBB_add_asn1_int64_def)
qed

theorem asn1_integers_roundtrip_witness:
  "\<exists>c'. CBB_add_asn1_int64 (\<lambda>_. True, \<lambda>_. 0) 0 (cbb_init [] True) (- 300) = (True, c') \<and>
     (\<exists>pre new. closed 0 (cbb_init [] True) = Some pre \<and> cbb_view c' = pre @ new \<and>
       CBS_get_asn1_int64 (new @ [7]) = (Some (- 300), [7]))"
proof -
  let ?m = "(\<lambda>_. True, \<lambda>_. 0) :: memory" and ?c = "cbb_init [] True"
  have c: "cbb_ok ?c" "0 \<le> length (children ?c)" "closed 0 ?c \<noteq> None" "roomy ?m (base ?c)"
      "len (base ?c) + 4 * (length (children ?c) - 0) + 120 < size_max"
    using cbb_init_ok [of "[]" True] by (simp_all add: size_max_def roomy_def cbb_init_def)
  note r = asn1_integers_roundtrip [OF c(1,2), of ?m "- 300" _ "[7]"]
  obtain c' where run: "CBB_add_asn1_int64 ?m 0 ?c (- 300) = (True, c')"
    using r [THEN conjunct2, THEN conjunct2] c(3,4,5) by (cases "CBB_add_asn1_int64 ?m 0 ?c (- 300)") auto
  with r [of c'] show ?thesis by blast
qed

text \<open>OCTET STRINGs and BOOLEANs survive: what \<open>CBB_add_asn1_octet_string\<close> and \<open>CBB_add_asn1_bool\<close> append,
  \<open>CBS_get_asn1\<close> and \<open>CBS_get_asn1_bool\<close> read back.\<close>

theorem asn1_octets_bool_roundtrip:
  assumes "cbb_ok c" "d \<le> length (children c)" "length data \<le> 0xfffffffe"
  shows "(CBB_add_asn1_octet_string m d c data = (True, c') \<longrightarrow> (\<exists>pre new. closed d c = Some pre \<and>
      cbb_view c' = pre @ new \<and> CBS_get_asn1 CBS_ASN1_OCTETSTRING (new @ rest) = (Some data, rest))) \<and>
    (CBB_add_asn1_bool m d c b = (True, c') \<longrightarrow> (\<exists>pre new. closed d c = Some pre \<and> cbb_view c' = pre @ new \<and>
      CBS_get_asn1_bool (new @ rest) = (Some b, rest)))"
proof (intro conjI impI)
  let ?o = "der_header CBS_ASN1_OCTETSTRING (length data) @ data"
  let ?b = "der_header CBS_ASN1_BOOLEAN 1 @ [if b then 0xff else 0]"
  have o: "length ?o < size_max" using length_der_header [OF assms(3), of CBS_ASN1_OCTETSTRING] assms(3) by (simp add: size_max_def)
  have bl: "length ?b < size_max" using small_element(2) [of "[if b then 0xff else 0]" CBS_ASN1_BOOLEAN] by simp
  show "\<exists>pre new. closed d c = Some pre \<and> cbb_view c' = pre @ new \<and>
      CBS_get_asn1 CBS_ASN1_OCTETSTRING (new @ rest) = (Some data, rest)"
    if "CBB_add_asn1_octet_string m d c data = (True, c')"
    by (rule writer.written [OF octet_string_writer [OF assms(3)] assms(1,2) o that])
      (use assms(3) integer_tag_valid in \<open>simp add: get_asn1_iff\<close>)
  have "CBS_get_asn1 CBS_ASN1_BOOLEAN (?b @ rest) = (Some [if b then 0xff else 0], rest)"
    using integer_tag_valid(3) by (simp add: get_asn1_iff)
  then have "CBS_get_asn1_bool (?b @ rest) = (Some b, rest)" by (simp add: CBS_get_asn1_bool_def bindp_def retp_def)
  then show "\<exists>pre new. closed d c = Some pre \<and> cbb_view c' = pre @ new \<and> CBS_get_asn1_bool (new @ rest) = (Some b, rest)"
    if "CBB_add_asn1_bool m d c b = (True, c')"
    by (intro asn1_bool.written [OF assms(1,2) bl that])
qed

theorem asn1_octets_bool_roundtrip_witness:
  "\<exists>c' pre new. CBB_add_asn1_bool (\<lambda>_. True, \<lambda>_. 0) 0 (cbb_init [] True) True = (True, c') \<and>
     closed 0 (cbb_init [] True) = Some pre \<and> cbb_view c' = pre @ new \<and>
     CBS_get_asn1_bool (new @ []) = (Some True, [])"
proof -
  let ?m = "(\<lambda>_. True, \<lambda>_. 0) :: memory" and ?c = "cbb_init [] True"
  have c: "cbb_ok ?c" "0 \<le> length (children ?c)" "length [] \<le> (0xfffffffe :: nat)"
    using cbb_init_ok [of "[]" True] by (simp_all add: size_max_def)
  have "length (der_header CBS_ASN1_BOOLEAN 1 @ [if True then 0xff else 0]) \<le> 20"
    using small_element(1) [of "[0xff]" CBS_ASN1_BOOLEAN] by simp
  then have "fst (CBB_add_asn1_bool ?m 0 ?c True)"
    using cbb_init_ok [of "[]" True] by (intro asn1_bool.succeeds) (auto simp: size_max_def roomy_def cbb_init_def)
  then obtain c' where run: "CBB_add_asn1_bool ?m 0 ?c True = (True, c')" by (metis prod.collapse)
  with asn1_octets_bool_roundtrip [OF c, of ?m c' "[]" True] show ?thesis by auto
qed

lemma dec_digits_bound: "n < 10 ^ length (dec_digits n)"
proof (induction n rule: dec_digits.induct)
  case (1 n)
  show ?case
  proof (cases "n < 10")
    case True
    then show ?thesis by (simp add: dec_digits_single)
  next
    case False
    then have "n div 10 < 10 ^ length (dec_digits (n div 10))" by (rule 1)
    with False show ?thesis by (subst dec_digits.simps) (simp add: div_less_iff_less_mult mult.commute)
  qed
qed

lemma length_b128: "n < 10 ^ k \<Longrightarrow> 1 \<le> k \<Longrightarrow> length (b128 n) \<le> k"
proof -
  assume n: "n < 10 ^ k" and k: "1 \<le> k"
  have "(10 :: nat) ^ k \<le> 128 ^ k" by (rule power_mono) simp_all
  with n have "n < 128 * 128 ^ (k - 1)" using k by (cases k) auto
  then have "n div 128 < 128 ^ (k - 1)" by (simp add: div_less_iff_less_mult mult.commute)
  then show ?thesis using length_b128_hi [of "n div 128" "k - 1"] k by (simp add: b128_def)
qed

lemma length_b128_dec: "length (b128 n) \<le> length (dec_digits n)"
  using length_b128 [OF dec_digits_bound [of n]] by (simp add: Suc_le_eq)

lemma length_oid_encoding:
  assumes "oid_numbers a b ns"
  shows "length (concat (map b128 ((40 * a + b) # ns))) \<le> length (dotted (a # b # ns))"
proof -
  let ?k = "length (dec_digits b)"
  have "40 * a + b < 10 ^ (?k + 2)" using assms dec_digits_bound [of b] by (simp add: oid_numbers_def)
  then have "length (b128 (40 * a + b)) \<le> ?k + 2" by (rule length_b128) simp
  moreover have "1 \<le> length (dec_digits a)" by (simp add: Suc_le_eq)
  moreover have "length (concat (map b128 ns)) \<le> length (dot_text ns)"
    using length_b128_dec by (induction ns) (auto simp: dot_text_def intro: add_mono le_SucI)
  ultimately show ?thesis using dotted_eq [of b ns] by simp
qed

text \<open>(C16) Object identifiers survive: any text that \<open>CBB_add_asn1_oid_from_text\<close> accepts is printed back, byte for
  byte and with its terminator, by \<open>CBS_asn1_oid_to_text\<close> from the encoding it wrote.\<close>

theorem oid_text_roundtrip:
  assumes "cbb_ok c" "d \<le> length (children c)" "CBB_add_asn1_oid_from_text m d c text = (True, c')"
    "\<forall>n. alloc m n" "6 * (length text + 1) < size_max"
  shows "\<exists>pre new. closed d c = Some pre \<and> cbb_view c' = pre @ new \<and> CBS_asn1_oid_to_text m new = Some (text @ [0])"
proof -
  obtain a b ns where n: "text = dotted (a # b # ns)" "oid_numbers a b ns" using oid_from_text_numbers [OF assms(3)] .
  let ?bs = "concat (map b128 ((40 * a + b) # ns))"
  have ne: "?bs \<noteq> []" by (simp add: b128_def)
  have w: "writer (and_then CBB_flush (add_u8s ?bs)) ?bs" using flush.seq [OF add_u8s_writer [OF ne]] by simp
  have run: "and_then CBB_flush (add_u8s ?bs) m d c = (True, c')"
    using assms(3) unfolding n(1) oid_from_text_writes [OF n(2)] .
  have "length text < size_max" using assms(5) by simp
  then have lt: "length ?bs < size_max" using length_oid_encoding [OF n(2)] unfolding n(1) by (rule le_less_trans [rotated])
  have t: "oid_first_text (40 * a + b) @ dot_text ns @ [0] = text @ [0]"
    using oid_first_text_eq [OF n(2)] unfolding n(1) by (metis append.assoc)
  have "40 * a + b < 2 ^ 64" "\<forall>n \<in> set ns. n < 2 ^ 64" using n(2) by (simp_all add: oid_numbers_def)
  then have "CBS_asn1_oid_to_text m ?bs = Some (text @ [0])"
    using oid_to_text_run [of "40 * a + b" ns m, unfolded t] assms(4,5) by simp
  then show ?thesis by (rule writer.written [OF w assms(1,2) lt run])
qed

theorem oid_text_roundtrip_witness:
  "\<exists>c' pre new. CBB_add_asn1_oid_from_text (\<lambda>_. True, \<lambda>_. 0) 0 (cbb_init [] True) (dotted [1, 2, 840]) = (True, c') \<and>
     closed 0 (cbb_init [] True) = Some pre \<and> cbb_view c' = pre @ new \<and>
     CBS_asn1_oid_to_text (\<lambda>_. True, \<lambda>_. 0) new = Some (dotted [1, 2, 840] @ [0])"
proof -
  let ?m = "(\<lambda>_. True, \<lambda>_. 0) :: memory" and ?c = "cbb_init [] True" and ?t = "dotted [1, 2, 840]"
  have c: "cbb_ok ?c" "0 \<le> length (children ?c)" using cbb_init_ok [of "[]" True] by (simp_all add: size_max_def)
  have t: "6 * (length ?t + 1) < size_max" by (simp add: dec_digits.simps size_max_def)
  have n: "oid_numbers 1 2 [840]" by (simp add: oid_numbers_def)
  have ne: "concat (map b128 [42, 840]) \<noteq> []" by (simp add: b128_def)
  have "writer (and_then CBB_flush (add_u8s (concat (map b128 [42, 840])))) (concat (map b128 [42, 840]))"
    using flush.seq [OF add_u8s_writer [OF ne]] by simp
  moreover have "length (concat (map b128 [42, 840])) \<le> 3" by (simp add: b128_def b128_hi.simps)
  ultimately have "fst (CBB_add_asn1_oid_from_text ?m 0 ?c ?t)"
    unfolding oid_from_text_writes [OF n] using cbb_init_ok [of "[]" True] c(1)
    by (intro writer.succeeds) (auto simp: size_max_def roomy_def cbb_init_def)
  then obtain c' where run: "CBB_add_asn1_oid_from_text ?m 0 ?c ?t = (True, c')" by (metis prod.collapse)
  with oid_text_roundtrip [OF c run _ t] show ?thesis by auto
qed

end
