(* ===== verification/Unicode.thy ===== *)
theory Unicode
  imports Cbb_Asn1
begin

text \<open>
  The text encodings of \<^verbatim>\<open>crypto/bytestring/unicode.c\<close>: UTF-8, Latin-1, UCS-2 and UTF-32, read from a \<^verbatim>\<open>CBS\<close> and
  written to a \<^verbatim>\<open>CBB\<close>.
\<close>

section \<open>The code\<close>

definition is_valid_code_point :: "u32 \<Rightarrow> bool" where
  "is_valid_code_point v =
     (if v > 0x10ffff \<or> v AND 0xfffe = 0xfffe \<or> (v \<ge> 0xfdd0 \<and> v \<le> 0xfdef) \<or> (v \<ge> 0xd800 \<and> v \<le> 0xdfff)
      then False else True)"

definition BOTTOM_BITS :: "nat \<Rightarrow> byte" where
  "BOTTOM_BITS n = ucast (push_bit n (1 :: u32) - 1)"

definition TOP_BITS :: "nat \<Rightarrow> byte" where
  "TOP_BITS n = NOT (BOTTOM_BITS (8 - n))"

text \<open>The loop over the \<open>n\<close> continuation bytes.\<close>

fun utf8_loop :: "nat \<Rightarrow> u32 \<Rightarrow> u32 parser" where
  "utf8_loop 0 v s = (Some v, s)"
| "utf8_loop (Suc n) v s =
     (case CBS_get_u8 s of
        (None, s') \<Rightarrow> (None, s')
      | (Some c, s') \<Rightarrow>
          if c AND TOP_BITS 2 \<noteq> TOP_BITS 1 then (None, s')
          else utf8_loop n (push_bit 6 v OR ucast (c AND BOTTOM_BITS 6)) s')"

definition utf8_rest :: "byte \<Rightarrow> nat \<Rightarrow> nat \<Rightarrow> u32 \<Rightarrow> u32 parser" where
  "utf8_rest c bits n lower_bound s =
     (case utf8_loop n (ucast (c AND BOTTOM_BITS bits)) s of
        (None, s') \<Rightarrow> (None, s')
      | (Some v, s') \<Rightarrow> if \<not> is_valid_code_point v \<or> v < lower_bound then (None, s') else (Some v, s'))"

definition CBS_get_utf8 :: "u32 parser" where
  "CBS_get_utf8 s =
     (case CBS_get_u8 s of
        (None, s') \<Rightarrow> (None, s')
      | (Some c, s') \<Rightarrow>
          if c \<le> 0x7f then (Some (ucast c), s')
          else if c AND TOP_BITS 3 = TOP_BITS 2 then utf8_rest c 5 1 0x80 s'
          else if c AND TOP_BITS 4 = TOP_BITS 3 then utf8_rest c 4 2 0x800 s'
          else if c AND TOP_BITS 5 = TOP_BITS 4 then utf8_rest c 3 3 0x10000 s'
          else (None, s'))"

definition CBS_get_latin1 :: "u32 parser" where
  "CBS_get_latin1 s = (case CBS_get_u8 s of (None, s') \<Rightarrow> (None, s') | (Some c, s') \<Rightarrow> (Some (ucast c), s'))"

definition CBS_get_ucs2_be :: "u32 parser" where
  "CBS_get_ucs2_be s =
     (case CBS_get_u16 s of
        (None, s') \<Rightarrow> (None, s')
      | (Some c, s') \<Rightarrow> if \<not> is_valid_code_point (ucast c) then (None, s') else (Some (ucast c), s'))"

definition CBS_get_utf32_be :: "u32 parser" where
  "CBS_get_utf32_be s =
     (case CBS_get_u32 s of
        (None, s') \<Rightarrow> (None, s')
      | (Some c, s') \<Rightarrow> if \<not> is_valid_code_point c then (None, s') else (Some c, s'))"

definition CBB_get_utf8_len :: "u32 \<Rightarrow> nat" where
  "CBB_get_utf8_len u = (if u \<le> 0x7f then 1 else if u \<le> 0x7ff then 2 else if u \<le> 0xffff then 3 else 4)"

abbreviation byte_out :: "byte \<Rightarrow> memory \<Rightarrow> nat \<Rightarrow> cbb \<Rightarrow> bool \<times> cbb" where
  "byte_out b \<equiv> \<lambda>m d c. CBB_add_u8 m d c b"

definition CBB_add_utf8 :: "memory \<Rightarrow> nat \<Rightarrow> cbb \<Rightarrow> u32 \<Rightarrow> bool \<times> cbb" where
  "CBB_add_utf8 m d c u =
     (if \<not> is_valid_code_point u then (False, c)
      else if u \<le> 0x7f then CBB_add_u8 m d c (ucast u)
      else if u \<le> 0x7ff then
        and_then (byte_out (TOP_BITS 2 OR ucast (drop_bit 6 u)))
          (byte_out (TOP_BITS 1 OR ucast (u AND ucast (BOTTOM_BITS 6)))) m d c
      else if u \<le> 0xffff then
        and_then (byte_out (TOP_BITS 3 OR ucast (drop_bit 12 u)))
          (and_then (byte_out (TOP_BITS 1 OR ucast (drop_bit 6 u AND ucast (BOTTOM_BITS 6))))
            (byte_out (TOP_BITS 1 OR ucast (u AND ucast (BOTTOM_BITS 6))))) m d c
      else if u \<le> 0x10ffff then
        and_then (byte_out (TOP_BITS 4 OR ucast (drop_bit 18 u)))
          (and_then (byte_out (TOP_BITS 1 OR ucast (drop_bit 12 u AND ucast (BOTTOM_BITS 6))))
            (and_then (byte_out (TOP_BITS 1 OR ucast (drop_bit 6 u AND ucast (BOTTOM_BITS 6))))
              (byte_out (TOP_BITS 1 OR ucast (u AND ucast (BOTTOM_BITS 6)))))) m d c
      else (False, c))"

definition CBB_add_latin1 :: "memory \<Rightarrow> nat \<Rightarrow> cbb \<Rightarrow> u32 \<Rightarrow> bool \<times> cbb" where
  "CBB_add_latin1 m d c u = (if u \<le> 0xff then CBB_add_u8 m d c (ucast u) else (False, c))"

definition CBB_add_ucs2_be :: "memory \<Rightarrow> nat \<Rightarrow> cbb \<Rightarrow> u32 \<Rightarrow> bool \<times> cbb" where
  "CBB_add_ucs2_be m d c u =
     (if u \<le> 0xffff \<and> is_valid_code_point u then CBB_add_u16 m d c (ucast u) else (False, c))"

definition CBB_add_utf32_be :: "memory \<Rightarrow> nat \<Rightarrow> cbb \<Rightarrow> u32 \<Rightarrow> bool \<times> cbb" where
  "CBB_add_utf32_be m d c u = (if is_valid_code_point u then CBB_add_u32 m d c u else (False, c))"

section \<open>Bits\<close>

lemma BOTTOM_BITS_eq: "n < 8 \<Longrightarrow> BOTTOM_BITS n = mask n"
proof -
  assume n: "n < 8"
  have "push_bit n (1 :: u32) - 1 = mask n" by (simp add: mask_eq_exp_minus_1 push_bit_eq_mult)
  moreover have "(ucast (mask n :: u32) :: byte) = mask n"
    by (rule bit_word_eqI) (auto simp: bit_simps n)
  ultimately show ?thesis by (simp add: BOTTOM_BITS_def)
qed

lemma unat_and_top: "unat ((c :: byte) AND NOT (mask k)) = unat c div 2 ^ k * 2 ^ k"
proof -
  have "c AND NOT (mask k) = push_bit k (drop_bit k c)"
    by (rule bit_word_eqI) (auto simp: bit_simps)
  then have "unat (c AND NOT (mask k)) = take_bit LENGTH(8) (push_bit k (unat c div 2 ^ k))"
    by (simp only: unsigned_push_bit_eq unat_drop_bit)
  moreover have "unat c div 2 ^ k * 2 ^ k < 2 ^ 8" using unat_bound [of c] by (auto intro: le_less_trans [OF div_times_less_eq_dividend])
  ultimately show ?thesis by (simp add: push_bit_eq_mult take_bit_nat_eq_self)
qed

lemma top_bits:
  "c AND TOP_BITS 2 = TOP_BITS 1 \<longleftrightarrow> unat c div 64 = 2"
  "c AND TOP_BITS 3 = TOP_BITS 2 \<longleftrightarrow> unat c div 32 = 6"
  "c AND TOP_BITS 4 = TOP_BITS 3 \<longleftrightarrow> unat c div 16 = 14"
  "c AND TOP_BITS 5 = TOP_BITS 4 \<longleftrightarrow> unat c div 8 = 30"
  using unat_and_top [of c 6] unat_and_top [of c 5] unat_and_top [of c 4] unat_and_top [of c 3]
  by (simp_all add: TOP_BITS_def BOTTOM_BITS_eq word_eq_iff_unat) (simp_all add: mask_eq_exp_minus_1)

lemma bottom_bits: "n < 8 \<Longrightarrow> unat (c AND BOTTOM_BITS n) = unat c mod 2 ^ n"
  by (simp add: BOTTOM_BITS_eq unat_and_mask)

section \<open>UTF-8\<close>

fun cont_bytes :: "nat \<Rightarrow> nat \<Rightarrow> byte list" where
  "cont_bytes 0 n = []"
| "cont_bytes (Suc k) n = cont_bytes k (n div 64) @ [word_of_nat (128 + n mod 64)]"

definition utf8 :: "nat \<Rightarrow> byte list" where
  "utf8 n =
     (if n < 0x80 then [word_of_nat n]
      else if n < 0x800 then word_of_nat (192 + n div 64 ^ 1) # cont_bytes 1 n
      else if n < 0x10000 then word_of_nat (224 + n div 64 ^ 2) # cont_bytes 2 n
      else word_of_nat (240 + n div 64 ^ 3) # cont_bytes 3 n)"

lemma cont_bytes_Cons: "cont_bytes (Suc k) n = word_of_nat (128 + n div 64 ^ k mod 64) # cont_bytes k n"
  by (induction k arbitrary: n) (simp_all add: div_mult2_eq)

lemma cont_step:
  assumes "unat v * 64 < 2 ^ 32" 
  shows "unat (push_bit 6 v OR ucast (c AND BOTTOM_BITS 6) :: u32) = 64 * unat v + unat c mod 64"
proof -
  have "unat (ucast (c AND BOTTOM_BITS 6) :: u32) = unat c mod 64" by (simp add: unat_ucast_up bottom_bits)
  then show ?thesis using unat_shift_or [of "ucast (c AND BOTTOM_BITS 6) :: u32" 6 v] assms by simp
qed

lemma div_mod_iff: "y < m \<Longrightarrow> x = m * q + y \<longleftrightarrow> x div m = q \<and> x mod m = (y :: nat)"
  by (metis div_mult_mod_eq div_mult_self4 div_less add_0_right mod_less mod_mult_self4 mult.commute not_less_zero)

lemma cont_bound:
  assumes "(v + 1) * 64 ^ Suc k \<le> (2 :: nat) ^ 32" "y < 64"
  shows "v * 64 < 2 ^ 32" "(64 * v + y + 1) * 64 ^ k \<le> 2 ^ 32"
proof -
  have "(64 * v + y + 1) * 64 ^ k \<le> (64 * v + 64) * 64 ^ k" using assms(2) by (intro mult_le_mono1) simp
  also have "\<dots> = (v + 1) * 64 ^ Suc k" by (simp add: algebra_simps)
  finally show "(64 * v + y + 1) * 64 ^ k \<le> 2 ^ 32" using assms(1) by simp
  have "(v + 1) * 64 \<le> (v + 1) * 64 ^ Suc k" by (rule mult_le_mono2) simp
  then have "(v + 1) * 64 \<le> 2 ^ 32" using assms(1) by (rule le_trans)
  then show "v * 64 < 2 ^ 32" by simp
qed

lemma utf8_loop_iff:
  assumes "(unat v + 1) * 64 ^ k \<le> 2 ^ 32"
  shows "utf8_loop k v s = (Some w, s') \<longleftrightarrow> s = cont_bytes k (unat w) @ s' \<and> unat w div 64 ^ k = unat v"
  using assms
proof (induction k arbitrary: v s)
  case 0
  then show ?case by (auto simp: word_eq_iff_unat)
next
  case (Suc k)
  show ?case
  proof (cases s)
    case Nil
    then show ?thesis by (simp only: cont_bytes_Cons) simp
  next
    case (Cons b r)
    define v' where "v' = (push_bit 6 v OR ucast (b AND BOTTOM_BITS 6) :: u32)"
    have v': "unat v' = 64 * unat v + unat b mod 64"
      unfolding v'_def using cont_bound(1) [OF Suc.prems, of 0] by (intro cont_step) simp
    define q where "q = unat w div 64 ^ k"
    have lead: "unat (word_of_nat (128 + q mod 64) :: byte) = 128 + q mod 64" by (rule unat_of_nat_small) simp
    have sq: "unat w div 64 ^ Suc k = q div 64" by (simp add: q_def div_mult2_eq [symmetric] mult.commute)
    have b: "b = word_of_nat (128 + q mod 64) \<longleftrightarrow> unat b div 64 = 2 \<and> unat b mod 64 = q mod 64"
      unfolding word_eq_iff_unat lead using div_mod_iff [of "q mod 64" 64 "unat b" 2] by simp
    have "(unat v' + 1) * 64 ^ k \<le> 2 ^ 32" unfolding v' using cont_bound(2) [OF Suc.prems] by simp
    then have IH: "utf8_loop k v' r = (Some w, s') \<longleftrightarrow> r = cont_bytes k (unat w) @ s' \<and> q = unat v'"
      using Suc.IH [of v' r] by (simp add: q_def)
    have "utf8_loop (Suc k) v s = (Some w, s') \<longleftrightarrow> unat b div 64 = 2 \<and> utf8_loop k v' r = (Some w, s')"
      using Cons top_bits(1) [of b] by (simp add: v'_def)
    also have "\<dots> \<longleftrightarrow> b = word_of_nat (128 + q mod 64) \<and> r = cont_bytes k (unat w) @ s' \<and> q div 64 = unat v"
      unfolding b IH v' using div_mod_iff [of "unat b mod 64" 64 q "unat v"] by auto
    finally show ?thesis unfolding cont_bytes_Cons Cons sq q_def [symmetric] by auto
  qed
qed

text \<open>A sequence of \<open>k\<close> continuation bytes after a lead byte with \<open>bits\<close> bits of the number.\<close>

lemma utf8_rest_iff:
  assumes "bits < 8" "(unat c mod 2 ^ bits + 1) * 64 ^ k \<le> 2 ^ 32"
  shows "utf8_rest c bits k lb s = (Some w, s') \<longleftrightarrow>
    s = cont_bytes k (unat w) @ s' \<and> unat w div 64 ^ k = unat c mod 2 ^ bits \<and> is_valid_code_point w \<and> lb \<le> w"
proof -
  have u: "unat (ucast (c AND BOTTOM_BITS bits) :: u32) = unat c mod 2 ^ bits" using assms(1) by (simp add: unat_ucast_up bottom_bits)
  have "utf8_rest c bits k lb s = (Some w, s') \<longleftrightarrow>
      utf8_loop k (ucast (c AND BOTTOM_BITS bits)) s = (Some w, s') \<and> is_valid_code_point w \<and> lb \<le> w"
    by (auto simp: utf8_rest_def split: prod.splits option.splits)
  then show ?thesis using utf8_loop_iff [of "ucast (c AND BOTTOM_BITS bits)" k s w s'] assms(2) u by auto
qed

lemma valid_bound: "is_valid_code_point v \<Longrightarrow> unat v \<le> 0x10ffff"
  by (auto simp: is_valid_code_point_def word_le_nat_alt not_less split: if_splits)

lemma valid_ascii: "unat v < 128 \<Longrightarrow> is_valid_code_point v"
proof -
  assume v: "unat v < 128"
  have "unat (v AND 0xfffe) \<le> unat v" using word_and_le2 [of v "0xfffe"] by (simp add: word_le_nat_alt)
  then have "v AND 0xfffe \<noteq> 0xfffe" using v by (auto simp: word_eq_iff_unat)
  with v show ?thesis by (auto simp: is_valid_code_point_def word_le_nat_alt word_less_nat_alt)
qed

lemma utf8_Cons_iff:
  fixes n :: nat
  assumes "n \<le> 0x10ffff"
  shows "c # r = utf8 n @ s' \<longleftrightarrow>
    (if n < 0x80 then unat c = n \<and> r = s'
     else if n < 0x800 then unat c = 192 + n div 64 ^ 1 \<and> r = cont_bytes 1 n @ s'
     else if n < 0x10000 then unat c = 224 + n div 64 ^ 2 \<and> r = cont_bytes 2 n @ s'
     else unat c = 240 + n div 64 ^ 3 \<and> r = cont_bytes 3 n @ s')"
proof -
  have w: "c = word_of_nat k \<longleftrightarrow> unat c = k" if "k < 256" for k
  proof -
    have "unat (word_of_nat k :: byte) = k" using that by (intro unat_of_nat_small) simp
    then show ?thesis by (simp only: word_eq_iff_unat)
  qed
  have b: "n < 0x80 \<Longrightarrow> n < 256" "n < 0x800 \<Longrightarrow> 192 + n div 64 ^ 1 < 256" "n < 0x10000 \<Longrightarrow> 224 + n div 64 ^ 2 < 256"
    "240 + n div 64 ^ 3 < 256" using assms by (simp_all add: less_mult_imp_div_less div_less_iff_less_mult)
  show ?thesis unfolding utf8_def using w [OF b(1)] w [OF b(2)] w [OF b(3)] w [OF b(4)]
    by (auto simp del: cont_bytes.simps)
qed

text \<open>The number a lead byte announces.\<close>

lemma lead_nat: "x div m = p \<Longrightarrow> 0 < m \<Longrightarrow> q = x mod m \<longleftrightarrow> q < m \<and> x = m * p + (q :: nat)"
  using div_mod_iff [of q m x p] by auto

lemma lead_numbers:
  fixes n x :: nat
  shows "x div 32 = 6 \<Longrightarrow> n div 64 ^ 1 = x mod 2 ^ 5 \<and> 0x80 \<le> n \<longleftrightarrow> 0x80 \<le> n \<and> n < 0x800 \<and> x = 192 + n div 64 ^ 1"
    and "x div 16 = 14 \<Longrightarrow> n div 64 ^ 2 = x mod 2 ^ 4 \<and> 0x800 \<le> n \<longleftrightarrow> 0x800 \<le> n \<and> n < 0x10000 \<and> x = 224 + n div 64 ^ 2"
    and "x div 8 = 30 \<Longrightarrow> n \<le> 0x10ffff \<Longrightarrow>
      n div 64 ^ 3 = x mod 2 ^ 3 \<and> 0x10000 \<le> n \<longleftrightarrow> 0x10000 \<le> n \<and> x = 240 + n div 64 ^ 3"
  using lead_nat [of x 32 6 "n div 64"] lead_nat [of x 16 14 "n div 4096"] lead_nat [of x 8 30 "n div 262144"]
  by (auto simp: div_less_iff_less_mult)

lemma lead_ranges:
  fixes x :: nat
  shows "x div 32 = 6 \<longleftrightarrow> 192 \<le> x \<and> x < 224" "x div 16 = 14 \<longleftrightarrow> 224 \<le> x \<and> x < 240" "x div 8 = 30 \<longleftrightarrow> 240 \<le> x \<and> x < 248"
  by linarith+

lemma utf8_disjoint:
  fixes n :: nat
  assumes "n \<le> 0x10ffff"
  shows "c # r = utf8 n @ s' \<longleftrightarrow>
    (n < 0x80 \<and> unat c = n \<and> r = s') \<or>
    ((0x80 \<le> n \<and> n < 0x800 \<and> unat c = 192 + n div 64 ^ 1) \<and> r = cont_bytes 1 n @ s') \<or>
    ((0x800 \<le> n \<and> n < 0x10000 \<and> unat c = 224 + n div 64 ^ 2) \<and> r = cont_bytes 2 n @ s') \<or>
    ((0x10000 \<le> n \<and> unat c = 240 + n div 64 ^ 3) \<and> r = cont_bytes 3 n @ s')"
  unfolding utf8_Cons_iff [OF assms] by (simp add: not_less del: cont_bytes.simps)

lemma get_utf8_iff:
  "CBS_get_utf8 s = (Some w, s') \<longleftrightarrow> is_valid_code_point w \<and> s = utf8 (unat w) @ s'"
proof (cases s)
  case Nil
  then show ?thesis by (simp add: CBS_get_utf8_def utf8_def)
next
  case (Cons c r)
  define n where "n = unat w"
  define x where "x = unat c"
  have x: "x < 256" using unat_bound [of c] by (simp add: x_def)
  have wn: "is_valid_code_point w \<Longrightarrow> n \<le> 0x10ffff" using valid_bound [of w] by (simp add: n_def)
  have lb: "0x80 \<le> w \<longleftrightarrow> 0x80 \<le> n" "0x800 \<le> w \<longleftrightarrow> 0x800 \<le> n" "0x10000 \<le> w \<longleftrightarrow> 0x10000 \<le> n"
    by (simp_all add: n_def word_le_nat_alt)
  have asc: "c \<le> 0x7f \<longleftrightarrow> x < 128" by (auto simp: x_def word_le_nat_alt)
  have valid: "is_valid_code_point w \<and> c # r = utf8 n @ s' \<longleftrightarrow> is_valid_code_point w \<and> n \<le> 0x10ffff \<and>
      ((n < 0x80 \<and> x = n \<and> r = s') \<or>
       ((0x80 \<le> n \<and> n < 0x800 \<and> x = 192 + n div 64 ^ 1) \<and> r = cont_bytes 1 n @ s') \<or>
       ((0x800 \<le> n \<and> n < 0x10000 \<and> x = 224 + n div 64 ^ 2) \<and> r = cont_bytes 2 n @ s') \<or>
       ((0x10000 \<le> n \<and> x = 240 + n div 64 ^ 3) \<and> r = cont_bytes 3 n @ s'))"
    using wn utf8_disjoint [of n c r s'] unfolding x_def by blast
  have rest: "utf8_rest c bits k lb r = (Some w, s') \<longleftrightarrow>
      r = cont_bytes k n @ s' \<and> n div 64 ^ k = x mod 2 ^ bits \<and> is_valid_code_point w \<and> lb \<le> w"
    if "bits < 8" "(x mod 2 ^ bits + 1) * 64 ^ k \<le> 2 ^ 32" for bits k lb
    using utf8_rest_iff [of bits c k lb r w s'] that by (simp add: n_def x_def)
  consider (ascii) "x < 128" | (two) "x div 32 = 6" "128 \<le> x" | (three) "x div 16 = 14" "x div 32 \<noteq> 6" "128 \<le> x"
    | (four) "x div 8 = 30" "x div 16 \<noteq> 14" "x div 32 \<noteq> 6" "128 \<le> x"
    | (bad) "128 \<le> x" "x div 32 \<noteq> 6" "x div 16 \<noteq> 14" "x div 8 \<noteq> 30" by linarith
  then have "CBS_get_utf8 s = (Some w, s') \<longleftrightarrow> is_valid_code_point w \<and> c # r = utf8 n @ s'"
  proof cases
    case ascii
    then have "CBS_get_utf8 s = (Some w, s') \<longleftrightarrow> n = x \<and> s' = r"
      using Cons asc by (auto simp: CBS_get_utf8_def n_def x_def word_eq_iff_unat unat_ucast_up)
    with ascii valid_ascii [of w] show ?thesis unfolding valid by (auto simp: n_def)
  next
    case two
    then have "CBS_get_utf8 s = (Some w, s') \<longleftrightarrow> utf8_rest c 5 1 0x80 r = (Some w, s')"
      using Cons asc top_bits(2) [of c] by (simp add: CBS_get_utf8_def x_def)
    with two lead_ranges(1) [of x] lead_numbers(1) [OF two(1), of n] rest [of 5 1 "0x80"] wn lb(1)
    show ?thesis unfolding valid by (auto simp del: cont_bytes.simps)
  next
    case three
    then have "CBS_get_utf8 s = (Some w, s') \<longleftrightarrow> utf8_rest c 4 2 0x800 r = (Some w, s')"
      using Cons asc top_bits(2,3) [of c] by (simp add: CBS_get_utf8_def x_def)
    with three lead_ranges(2) [of x] lead_numbers(2) [OF three(1), of n] rest [of 4 2 "0x800"] wn lb(2)
    show ?thesis unfolding valid by (auto simp del: cont_bytes.simps)
  next
    case four
    then have "CBS_get_utf8 s = (Some w, s') \<longleftrightarrow> utf8_rest c 3 3 0x10000 r = (Some w, s')"
      using Cons asc top_bits(2,3,4) [of c] by (simp add: CBS_get_utf8_def x_def)
    with four lead_ranges(3) [of x] lead_numbers(3) [OF four(1), of n] rest [of 3 3 "0x10000"] wn lb(3)
    show ?thesis unfolding valid by (auto simp del: cont_bytes.simps)
  next
    case bad
    then have "CBS_get_utf8 s \<noteq> (Some w, s')"
      using Cons asc top_bits(2,3,4) [of c] by (simp add: CBS_get_utf8_def x_def)
    moreover have "n < 0x800 \<Longrightarrow> n div 64 ^ 1 < 32" "n < 0x10000 \<Longrightarrow> n div 64 ^ 2 < 16" "n \<le> 0x10ffff \<Longrightarrow> n div 64 ^ 3 < 8"
      by (simp_all add: div_less_iff_less_mult)
    then have "\<not> (is_valid_code_point w \<and> c # r = utf8 n @ s')"
    proof (intro notI)
      assume a: "is_valid_code_point w \<and> c # r = utf8 n @ s'"
      assume b: "n < 0x800 \<Longrightarrow> n div 64 ^ 1 < 32" "n < 0x10000 \<Longrightarrow> n div 64 ^ 2 < 16" "n \<le> 0x10ffff \<Longrightarrow> n div 64 ^ 3 < 8"
      have "x < 192 \<or> 248 \<le> x" using bad unfolding lead_ranges by linarith
      with a [unfolded valid] b bad(1) show False by (elim conjE disjE) linarith+
    qed
    ultimately show ?thesis by blast
  qed
  then show ?thesis by (simp add: Cons n_def)
qed

text \<open>Writing.\<close>

lemma or_shift:
  fixes q :: nat
  assumes "q < 2 ^ k" "p * 2 ^ k + q < 256"
  shows "(word_of_nat (p * 2 ^ k) OR word_of_nat q :: byte) = word_of_nat (p * 2 ^ k + q)"
proof -
  have "p * 1 \<le> p * 2 ^ k" by (intro mult_le_mono2) simp
  then have lt: "p < 256" "q < 256" using assms(2) by linarith+
  have u: "unat (word_of_nat p :: byte) = p" "unat (word_of_nat q :: byte) = q"
    by (rule unat_of_nat_small, use lt in simp)+
  have "(word_of_nat (p * 2 ^ k) :: byte) = push_bit k (word_of_nat p)" by (simp add: push_bit_eq_mult)
  then show ?thesis using assms u unat_shift_or [of "word_of_nat q :: byte" k "word_of_nat p"]
    by (intro unat_eq_imp) simp
qed

lemma TOP_BITS_numerals: "TOP_BITS 1 = 0x80" "TOP_BITS 2 = 0xc0" "TOP_BITS 3 = 0xe0" "TOP_BITS 4 = 0xf0"
  by (simp_all add: TOP_BITS_def BOTTOM_BITS_eq mask_eq_exp_minus_1)

lemma ucast_bits: "unat (u :: u32) div 2 ^ k < 256 \<Longrightarrow> (ucast (drop_bit k u) :: byte) = word_of_nat (unat u div 2 ^ k)"
  by (intro unat_eq_imp) (simp add: unat_ucast_down unat_drop_bit)

lemma six_bits: "(ucast (u AND ucast (BOTTOM_BITS 6) :: u32) :: byte) = word_of_nat (unat u mod 64)"
proof -
  have "(ucast (BOTTOM_BITS 6) :: u32) = mask 6" by (simp add: BOTTOM_BITS_eq mask_eq_exp_minus_1)
  then have "unat (u AND ucast (BOTTOM_BITS 6)) = unat u mod 2 ^ 6" by (simp only: unat_and_mask)
  then show ?thesis by (intro unat_eq_imp) (simp add: unat_ucast_down)
qed

lemma cont_byte: "TOP_BITS 1 OR ucast (drop_bit k u AND ucast (BOTTOM_BITS 6) :: u32) = word_of_nat (128 + unat u div 2 ^ k mod 64)"
proof -
  have "unat u div 2 ^ k mod 64 < 64" by simp
  then show ?thesis unfolding TOP_BITS_numerals six_bits unat_drop_bit
    using or_shift [of "unat u div 2 ^ k mod 64" 6 2] by (simp del: of_nat_add)
qed

lemma cont_byte_0: "TOP_BITS 1 OR ucast (u AND ucast (BOTTOM_BITS 6) :: u32) = word_of_nat (128 + unat u mod 64)"
  using cont_byte [of 0 u] by simp

lemma lead_bytes:
  "unat u < 0x800 \<Longrightarrow> TOP_BITS 2 OR ucast (drop_bit 6 u :: u32) = word_of_nat (192 + unat u div 64 ^ 1)"
  "unat u < 0x10000 \<Longrightarrow> TOP_BITS 3 OR ucast (drop_bit 12 u :: u32) = word_of_nat (224 + unat u div 64 ^ 2)"
  "unat u \<le> 0x10ffff \<Longrightarrow> TOP_BITS 4 OR ucast (drop_bit 18 u :: u32) = word_of_nat (240 + unat u div 64 ^ 3)"
proof -
  assume u: "unat u < 0x800"
  then have q: "unat u div 2 ^ 6 < 32" by (simp add: div_less_iff_less_mult)
  then show "TOP_BITS 2 OR ucast (drop_bit 6 u :: u32) = word_of_nat (192 + unat u div 64 ^ 1)"
    using or_shift [of "unat u div 2 ^ 6" 6 3] ucast_bits [of u 6] by (simp add: TOP_BITS_numerals del: of_nat_add)
next
  assume u: "unat u < 0x10000"
  then have q: "unat u div 2 ^ 12 < 16" by (simp add: div_less_iff_less_mult)
  then show "TOP_BITS 3 OR ucast (drop_bit 12 u :: u32) = word_of_nat (224 + unat u div 64 ^ 2)"
    using or_shift [of "unat u div 2 ^ 12" 4 14] ucast_bits [of u 12] by (simp add: TOP_BITS_numerals del: of_nat_add)
next
  assume u: "unat u \<le> 0x10ffff"
  then have q: "unat u div 2 ^ 18 < 8" by (simp add: div_less_iff_less_mult)
  then show "TOP_BITS 4 OR ucast (drop_bit 18 u :: u32) = word_of_nat (240 + unat u div 64 ^ 3)"
    using or_shift [of "unat u div 2 ^ 18" 3 30] ucast_bits [of u 18] by (simp add: TOP_BITS_numerals del: of_nat_add)
qed

lemma add_utf8_bytes:
  assumes "is_valid_code_point u"
  shows "CBB_add_utf8 m d c u = add_u8s (utf8 (unat u)) m d c"
proof -
  note b = valid_bound [OF assms]
  have le: "u \<le> 0x7f \<longleftrightarrow> unat u < 0x80" "u \<le> 0x7ff \<longleftrightarrow> unat u < 0x800" "u \<le> 0xffff \<longleftrightarrow> unat u < 0x10000" "u \<le> 0x10ffff"
    using b by (auto simp: word_le_nat_alt)
  have f1: "add_u8s [x] = byte_out x" for x by (intro ext) (auto simp: and_then_def split: prod.splits bool.splits)
  have f2: "add_u8s (x # y # zs) = and_then (byte_out x) (add_u8s (y # zs))" for x y zs by (intro ext) simp
  have ascii: "unat u < 0x80 \<Longrightarrow> (ucast u :: byte) = word_of_nat (unat u)" by (intro unat_eq_imp) (simp add: unat_ucast_down)
  have p: "(2 :: nat) ^ 6 = 64" "(2 :: nat) ^ 12 = 4096" by simp_all
  have c1: "cont_bytes 1 n = [word_of_nat (128 + n mod 64)]" for n by simp
  have c2: "cont_bytes 2 n = [word_of_nat (128 + n div 2 ^ 6 mod 64), word_of_nat (128 + n mod 64)]" for n
    unfolding p by (simp add: numeral_2_eq_2)
  have c3: "cont_bytes 3 n = [word_of_nat (128 + n div 2 ^ 12 mod 64), word_of_nat (128 + n div 2 ^ 6 mod 64), word_of_nat (128 + n mod 64)]" for n
    unfolding p by (simp add: numeral_3_eq_3 div_mult2_eq [symmetric])
  consider "unat u < 0x80" | "\<not> unat u < 0x80" "unat u < 0x800" | "\<not> unat u < 0x80" "\<not> unat u < 0x800" "unat u < 0x10000"
    | "\<not> unat u < 0x80" "\<not> unat u < 0x800" "\<not> unat u < 0x10000" by blast
  then show ?thesis
    by cases (simp_all only: CBB_add_utf8_def assms le utf8_def ascii lead_bytes c1 c2 c3 cont_byte_0 unat_drop_bit b
        f1 f2 if_True if_False simp_thms)
qed

lemma utf8_nonempty: "utf8 n \<noteq> []"
  by (simp add: utf8_def)

lemma length_cont_bytes: "length (cont_bytes k n) = k"
  by (induction k arbitrary: n) simp_all

lemma length_utf8: "length (utf8 n) = (if n < 0x80 then 1 else if n < 0x800 then 2 else if n < 0x10000 then 3 else 4)"
  by (simp add: utf8_def length_cont_bytes del: cont_bytes.simps)

lemma add_utf8_writer:
  assumes "is_valid_code_point u"
  shows "writer (\<lambda>m d c. CBB_add_utf8 m d c u) (utf8 (unat u))"
proof -
  have "(\<lambda>m d c. CBB_add_utf8 m d c u) = add_u8s (utf8 (unat u))" by (intro ext) (rule add_utf8_bytes [OF assms])
  then show ?thesis by (simp add: add_u8s_writer utf8_nonempty)
qed

section \<open>Properties\<close>

text \<open>(C14) \<open>CBS_get_utf8\<close> accepts exactly the shortest encodings of the valid code points: it returns a code point if
  and only if the input starts with the encoding of that code point, which is valid, so that overlong forms,
  surrogates, noncharacters and numbers beyond Unicode are all rejected; and the encoding has the length
  \<open>CBB_get_utf8_len\<close> computes.\<close>

theorem utf8_canonical:
  "(CBS_get_utf8 s = (Some w, s') \<longleftrightarrow> is_valid_code_point w \<and> s = utf8 (unat w) @ s') \<and>
   length (utf8 (unat w)) = CBB_get_utf8_len w"
  using get_utf8_iff length_utf8 [of "unat w"] by (auto simp: CBB_get_utf8_len_def word_le_nat_alt)

lemma get_u16_bytes: "CBS_get_u16 (be_bytes 2 (unat v) @ rest) = (Some v, rest)"
proof -
  have "unat (ucast v :: u64) = unat v" by (simp add: unat_ucast_up)
  then have "cbs_get_u 2 (be_bytes 2 (unat v) @ rest) = (Some (ucast v), rest)"
    using cbs_get_u_be_bytes [of 2 "ucast v" rest] unat_bound [of v] by simp
  moreover have "ucast (ucast v :: u64) = v" by (simp add: word_eq_iff_unat unat_ucast_down unat_ucast_up)
      (use unat_bound [of v] in simp)
  ultimately show ?thesis by (simp add: CBS_get_u16_def bindp_def retp_def)
qed

lemma get_u32_bytes: "CBS_get_u32 (be_bytes 4 (unat v) @ rest) = (Some v, rest)"
proof -
  have "unat (ucast v :: u64) = unat v" by (simp add: unat_ucast_up)
  then have "cbs_get_u 4 (be_bytes 4 (unat v) @ rest) = (Some (ucast v), rest)"
    using cbs_get_u_be_bytes [of 4 "ucast v" rest] unat_bound [of v] by simp
  moreover have "ucast (ucast v :: u64) = v" by (simp add: word_eq_iff_unat unat_ucast_down unat_ucast_up)
      (use unat_bound [of v] in simp)
  ultimately show ?thesis by (simp add: CBS_get_u32_def bindp_def retp_def)
qed

text \<open>(C36) Code points survive in all four encodings: what a successful \<open>CBB_add_utf8\<close>, \<open>CBB_add_latin1\<close>,
  \<open>CBB_add_ucs2_be\<close> or \<open>CBB_add_utf32_be\<close> appends, the reader of the same encoding turns back into the code point.\<close>

theorem unicode_roundtrip:
  assumes "cbb_ok c" "d \<le> length (children c)"
  shows "(CBB_add_utf8 m d c u = (True, c') \<longrightarrow> (\<exists>pre new. closed d c = Some pre \<and> cbb_view c' = pre @ new \<and>
      CBS_get_utf8 (new @ rest) = (Some u, rest))) \<and>
    (CBB_add_latin1 m d c u = (True, c') \<longrightarrow> (\<exists>pre new. closed d c = Some pre \<and> cbb_view c' = pre @ new \<and>
      CBS_get_latin1 (new @ rest) = (Some u, rest))) \<and>
    (CBB_add_ucs2_be m d c u = (True, c') \<longrightarrow> (\<exists>pre new. closed d c = Some pre \<and> cbb_view c' = pre @ new \<and>
      CBS_get_ucs2_be (new @ rest) = (Some u, rest))) \<and>
    (CBB_add_utf32_be m d c u = (True, c') \<longrightarrow> (\<exists>pre new. closed d c = Some pre \<and> cbb_view c' = pre @ new \<and>
      CBS_get_utf32_be (new @ rest) = (Some u, rest)))"
proof (intro conjI impI)
  assume run: "CBB_add_utf8 m d c u = (True, c')"
  then have v: "is_valid_code_point u" by (auto simp: CBB_add_utf8_def split: if_splits)
  show "\<exists>pre new. closed d c = Some pre \<and> cbb_view c' = pre @ new \<and> CBS_get_utf8 (new @ rest) = (Some u, rest)"
    by (rule writer.written [OF add_utf8_writer [OF v] assms _ run])
      (simp_all add: length_utf8 size_max_def get_utf8_iff v)
next
  assume run: "CBB_add_latin1 m d c u = (True, c')"
  then have u: "unat u < 256" "CBB_add_u8 m d c (ucast u) = (True, c')"
    by (auto simp: CBB_add_latin1_def word_le_nat_alt split: if_splits)
  then have "(ucast (ucast u :: byte) :: u32) = u" by (simp add: word_eq_iff_unat unat_ucast_down unat_ucast_up)
  then have "CBS_get_latin1 ([ucast u] @ rest) = (Some u, rest)" by (simp add: CBS_get_latin1_def)
  then show "\<exists>pre new. closed d c = Some pre \<and> cbb_view c' = pre @ new \<and> CBS_get_latin1 (new @ rest) = (Some u, rest)"
    by (intro u8.written [OF assms _ u(2)]) (simp_all add: size_max_def)
next
  assume run: "CBB_add_ucs2_be m d c u = (True, c')"
  then have u: "unat u < 65536" "is_valid_code_point u" "CBB_add_u16 m d c (ucast u) = (True, c')"
    by (auto simp: CBB_add_ucs2_be_def word_le_nat_alt split: if_splits)
  then have "(ucast (ucast u :: u16) :: u32) = u" by (simp add: word_eq_iff_unat unat_ucast_down unat_ucast_up)
  then have "CBS_get_ucs2_be (be_bytes 2 (unat (ucast u :: u16)) @ rest) = (Some u, rest)"
    using get_u16_bytes [of "ucast u" rest] u(2) by (simp add: CBS_get_ucs2_be_def)
  then show "\<exists>pre new. closed d c = Some pre \<and> cbb_view c' = pre @ new \<and> CBS_get_ucs2_be (new @ rest) = (Some u, rest)"
    by (intro u16.written [OF assms _ u(3)]) (simp_all add: size_max_def)
next
  assume run: "CBB_add_utf32_be m d c u = (True, c')"
  then have u: "is_valid_code_point u" "CBB_add_u32 m d c u = (True, c')"
    by (auto simp: CBB_add_utf32_be_def split: if_splits)
  then have "CBS_get_utf32_be (be_bytes 4 (unat u) @ rest) = (Some u, rest)"
    using get_u32_bytes [of u rest] by (simp add: CBS_get_utf32_be_def)
  then show "\<exists>pre new. closed d c = Some pre \<and> cbb_view c' = pre @ new \<and> CBS_get_utf32_be (new @ rest) = (Some u, rest)"
    by (intro u32.written [OF assms _ u(2)]) (simp_all add: size_max_def)
qed

theorem unicode_roundtrip_witness:
  "\<exists>c' pre new. CBB_add_utf8 (\<lambda>_. True, \<lambda>_. 0) 0 (cbb_init [] True) 0x20ac = (True, c') \<and>
     closed 0 (cbb_init [] True) = Some pre \<and> cbb_view c' = pre @ new \<and> CBS_get_utf8 (new @ []) = (Some 0x20ac, [])"
proof -
  let ?m = "(\<lambda>_. True, \<lambda>_. 0) :: memory" and ?c = "cbb_init [] True"
  have c: "cbb_ok ?c" "0 \<le> length (children ?c)" using cbb_init_ok [of "[]" True] by (simp_all add: size_max_def)
  have v: "is_valid_code_point 0x20ac" by (simp add: is_valid_code_point_def)
  have "fst (CBB_add_utf8 ?m 0 ?c 0x20ac)"
    using cbb_init_ok [of "[]" True]
    by (intro writer.succeeds [OF add_utf8_writer [OF v]]) (auto simp: size_max_def roomy_def cbb_init_def length_utf8)
  then obtain c' where run: "CBB_add_utf8 ?m 0 ?c 0x20ac = (True, c')" by (metis prod.collapse)
  with unicode_roundtrip [OF c, of ?m "0x20ac" c' "[]"] show ?thesis by blast
qed


end
