(* ===== verification/Lhash.thy ===== *)
theory Lhash
  imports Prelude "HOL-Library.Multiset"
begin

text \<open>
  The hash table of \<^verbatim>\<open>crypto/lhash/lhash.c\<close>.

  A chain of \<^verbatim>\<open>LHASH_ITEM\<close>s is a list, \<open>buckets\<close> the array of chains.  The elements are opaque; the hash and the
  comparison function of the table are fields of it, as in the source.  A pointer to the pointer to an item is the
  number of its bucket and the position in the chain, the position at the end of the chain being the pointer to
  null.  \<open>alloc\<close> says whether an allocation of a given size succeeds.
\<close>

section \<open>The code\<close>

definition kMinNumBuckets :: nat where
  "kMinNumBuckets = 16"

definition kMaxAverageChainLength :: nat where
  "kMaxAverageChainLength = 2"

definition kMinAverageChainLength :: nat where
  "kMinAverageChainLength = 1"

record 'a lhash_item_st =
  item_data :: 'a
  item_hash :: u32

record 'a lhash_st =
  num_items :: nat
  buckets :: "'a lhash_item_st list list"
  num_buckets :: nat
  callback_depth :: nat
  lh_comp :: "'a \<Rightarrow> 'a \<Rightarrow> int"
  lh_hash :: "'a \<Rightarrow> u32"

text \<open>The sizes of a table, of a pointer and of an item on the LP64 targets.\<close>

definition OPENSSL_lh_new :: "(nat \<Rightarrow> bool) \<Rightarrow> ('a \<Rightarrow> u32) \<Rightarrow> ('a \<Rightarrow> 'a \<Rightarrow> int) \<Rightarrow> 'a lhash_st option" where
  "OPENSSL_lh_new alloc hash cmp =
     (if \<not> alloc 48 then None
      else if \<not> alloc (kMinNumBuckets * 8) then None
      else Some \<lparr>num_items = 0, buckets = replicate kMinNumBuckets [], num_buckets = kMinNumBuckets, callback_depth = 0,
                 lh_comp = cmp, lh_hash = hash\<rparr>)"

text \<open>\<open>OPENSSL_lh_free\<close> frees the items in this order, then the array and the table.\<close>

definition OPENSSL_lh_free :: "'a lhash_st option \<Rightarrow> 'a lhash_item_st list" where
  "OPENSSL_lh_free lh = (case lh of None \<Rightarrow> [] | Some lh \<Rightarrow> concat (map (\<lambda>i. buckets lh ! i) [0..<num_buckets lh]))"

definition OPENSSL_lh_num_items :: "'a lhash_st \<Rightarrow> nat" where
  "OPENSSL_lh_num_items lh = num_items lh"

fun chain_pos :: "('a \<Rightarrow> bool) \<Rightarrow> 'a lhash_item_st list \<Rightarrow> nat" where
  "chain_pos equal [] = 0"
| "chain_pos equal (cur # rest) = (if equal (item_data cur) then 0 else Suc (chain_pos equal rest))"

definition get_next_ptr_and_hash :: "'a lhash_st \<Rightarrow> 'a \<Rightarrow> u32 \<times> nat \<times> nat" where
  "get_next_ptr_and_hash lh d =
     (let h = lh_hash lh d; i = unat h mod num_buckets lh
      in (h, i, chain_pos (\<lambda>x. lh_comp lh x d = 0) (buckets lh ! i)))"

definition get_next_ptr_by_key :: "'a lhash_st \<Rightarrow> 'k \<Rightarrow> u32 \<Rightarrow> ('k \<Rightarrow> 'a \<Rightarrow> int) \<Rightarrow> nat \<times> nat" where
  "get_next_ptr_by_key lh key key_hash cmp_key =
     (let i = unat key_hash mod num_buckets lh
      in (i, chain_pos (\<lambda>x. cmp_key key x = 0) (buckets lh ! i)))"

definition item_at :: "'a lhash_st \<Rightarrow> nat \<Rightarrow> nat \<Rightarrow> 'a lhash_item_st option" where
  "item_at lh i j = (if j < length (buckets lh ! i) then Some (buckets lh ! i ! j) else None)"

definition OPENSSL_lh_retrieve :: "'a lhash_st \<Rightarrow> 'a \<Rightarrow> 'a option" where
  "OPENSSL_lh_retrieve lh d =
     (case get_next_ptr_and_hash lh d of (h, i, j) \<Rightarrow> map_option item_data (item_at lh i j))"

definition OPENSSL_lh_retrieve_key :: "'a lhash_st \<Rightarrow> 'k \<Rightarrow> u32 \<Rightarrow> ('k \<Rightarrow> 'a \<Rightarrow> int) \<Rightarrow> 'a option" where
  "OPENSSL_lh_retrieve_key lh key key_hash cmp_key =
     (case get_next_ptr_by_key lh key key_hash cmp_key of (i, j) \<Rightarrow> map_option item_data (item_at lh i j))"

definition move_item :: "nat \<Rightarrow> 'a lhash_item_st \<Rightarrow> 'a lhash_item_st list list \<Rightarrow> 'a lhash_item_st list list" where
  "move_item new_num_buckets cur new_buckets =
     (let new_bucket = unat (item_hash cur) mod new_num_buckets
      in new_buckets[new_bucket := cur # new_buckets ! new_bucket])"

definition lh_rebucket :: "(nat \<Rightarrow> bool) \<Rightarrow> 'a lhash_st \<Rightarrow> nat \<Rightarrow> 'a lhash_st" where
  "lh_rebucket alloc lh new_num_buckets =
     (let alloc_size = (8 * new_num_buckets) mod size_max
      in if alloc_size div 8 \<noteq> new_num_buckets then lh
         else if \<not> alloc alloc_size then lh
         else lh\<lparr>num_buckets := new_num_buckets,
                 buckets := fold (\<lambda>i. fold (move_item new_num_buckets) (buckets lh ! i)) [0..<num_buckets lh]
                              (replicate new_num_buckets [])\<rparr>)"

definition lh_maybe_resize :: "(nat \<Rightarrow> bool) \<Rightarrow> 'a lhash_st \<Rightarrow> 'a lhash_st" where
  "lh_maybe_resize alloc lh =
     (if callback_depth lh > 0 then lh
      else
        (let avg_chain_length = num_items lh div num_buckets lh
         in if avg_chain_length > kMaxAverageChainLength then
              (let new_num_buckets = (num_buckets lh * 2) mod size_max
               in if new_num_buckets > num_buckets lh then lh_rebucket alloc lh new_num_buckets else lh)
            else if avg_chain_length < kMinAverageChainLength \<and> num_buckets lh > kMinNumBuckets then
              (let new_num_buckets = num_buckets lh div 2;
                   new_num_buckets = (if new_num_buckets < kMinNumBuckets then kMinNumBuckets else new_num_buckets)
               in lh_rebucket alloc lh new_num_buckets)
            else lh))"

text \<open>The result is the value returned, \<^verbatim>\<open>*old_data\<close> and the table.\<close>

definition OPENSSL_lh_insert :: "(nat \<Rightarrow> bool) \<Rightarrow> 'a lhash_st \<Rightarrow> 'a \<Rightarrow> bool \<times> 'a option \<times> 'a lhash_st" where
  "OPENSSL_lh_insert alloc lh d =
     (case get_next_ptr_and_hash lh d of (h, i, j) \<Rightarrow>
        (case item_at lh i j of
           Some item \<Rightarrow>
             (True, Some (item_data item),
              lh\<lparr>buckets := (buckets lh)[i := (buckets lh ! i)[j := item\<lparr>item_data := d\<rparr>]]\<rparr>)
         | None \<Rightarrow>
             if \<not> alloc 24 then (False, None, lh)
             else
               (True, None,
                lh_maybe_resize alloc
                  (lh\<lparr>buckets := (buckets lh)[i := buckets lh ! i @ [\<lparr>item_data = d, item_hash = h\<rparr>]],
                      num_items := size_add (num_items lh) 1\<rparr>))))"

definition OPENSSL_lh_delete :: "(nat \<Rightarrow> bool) \<Rightarrow> 'a lhash_st \<Rightarrow> 'a \<Rightarrow> 'a option \<times> 'a lhash_st" where
  "OPENSSL_lh_delete alloc lh d =
     (case get_next_ptr_and_hash lh d of (h, i, j) \<Rightarrow>
        (case item_at lh i j of
           None \<Rightarrow> (None, lh)
         | Some item \<Rightarrow>
             (Some (item_data item),
              lh_maybe_resize alloc
                (lh\<lparr>buckets := (buckets lh)[i := take j (buckets lh ! i) @ drop (Suc j) (buckets lh ! i)],
                    num_items := size_add (num_items lh) (size_max - 1)\<rparr>))))"

definition UINT_MAX :: nat where
  "UINT_MAX = 2 ^ 32 - 1"

text \<open>The callback works on \<open>arg\<close> only, not on the table.\<close>

definition OPENSSL_lh_doall_arg ::
  "(nat \<Rightarrow> bool) \<Rightarrow> 'a lhash_st \<Rightarrow> ('a \<Rightarrow> 's \<Rightarrow> 's) \<Rightarrow> 's \<Rightarrow> 'a lhash_st \<times> 's" where
  "OPENSSL_lh_doall_arg alloc lh func arg =
     (let lh = (if callback_depth lh < UINT_MAX then lh\<lparr>callback_depth := callback_depth lh + 1\<rparr> else lh);
          arg = fold (\<lambda>i. fold (\<lambda>cur. func (item_data cur)) (buckets lh ! i)) [0..<num_buckets lh] arg;
          lh = (if callback_depth lh < UINT_MAX then lh\<lparr>callback_depth := callback_depth lh - 1\<rparr> else lh)
      in (lh_maybe_resize alloc lh, arg))"

section \<open>Buckets\<close>

lemma concat_update:
  assumes "i < length bs"
  shows "mset (concat (bs[i := c])) + mset (bs ! i) = mset (concat bs) + mset c"
proof -
  define a x b where "a = take i bs" and "x = bs ! i" and "b = drop (Suc i) bs"
  have bs: "bs = a @ x # b" unfolding a_def x_def b_def using assms by (rule id_take_nth_drop)
  have "length a = i" using assms by (simp add: a_def)
  then have "bs[i := c] = a @ c # b" "bs ! i = x" by (simp_all add: bs list_update_append nth_append)
  then show ?thesis by (simp add: bs)
qed

lemma concat_update_add:
  assumes "i < length bs" "mset c = add_mset x (mset (bs ! i))"
  shows "mset (concat (bs[i := c])) = add_mset x (mset (concat bs))"
proof -
  have "mset (concat (bs[i := c])) + mset (bs ! i) = add_mset x (mset (concat bs)) + mset (bs ! i)"
    using concat_update [OF assms(1), of c] assms(2) by simp
  then show ?thesis by (rule add_right_imp_eq)
qed

definition placed :: "nat \<Rightarrow> 'a lhash_item_st list list \<Rightarrow> bool" where
  "placed n bs \<longleftrightarrow> length bs = n \<and> (\<forall>i < n. \<forall>it \<in> set (bs ! i). unat (item_hash it) mod n = i)"

lemma placed_nth: "placed n bs \<Longrightarrow> i < n \<Longrightarrow> it \<in> set (bs ! i) \<Longrightarrow> unat (item_hash it) mod n = i"
  by (simp add: placed_def)

lemma placed_in_bucket:
  assumes "placed n bs" "it \<in> set (concat bs)"
  shows "it \<in> set (bs ! (unat (item_hash it) mod n))"
proof -
  obtain b where b: "b \<in> set bs" "it \<in> set b" using assms(2) by auto
  then obtain k where k: "k < length bs" "bs ! k = b" by (auto simp: in_set_conv_nth)
  then have "unat (item_hash it) mod n = k" using assms(1) b by (auto simp: placed_def)
  with k b show ?thesis by simp
qed

lemma placed_update:
  assumes "placed n bs" "i < n" "\<forall>it \<in> set c. unat (item_hash it) mod n = i"
  shows "placed n (bs[i := c])"
  using assms by (auto simp: placed_def nth_list_update)

lemma move_item_placed:
  assumes "placed n bs" "0 < n"
  shows "placed n (move_item n it bs) \<and> mset (concat (move_item n it bs)) = add_mset it (mset (concat bs))"
proof -
  let ?i = "unat (item_hash it) mod n"
  have i: "?i < length bs" "?i < n" using assms by (simp_all add: placed_def)
  have "\<forall>x \<in> set (it # bs ! ?i). unat (item_hash x) mod n = ?i" using assms i by (auto simp: placed_def)
  then have "placed n (bs[?i := it # bs ! ?i])" by (rule placed_update [OF assms(1) i(2)])
  moreover have "mset (concat (bs[?i := it # bs ! ?i])) = add_mset it (mset (concat bs))"
    by (rule concat_update_add [OF i(1)]) simp
  ultimately show ?thesis unfolding move_item_def Let_def by blast
qed

lemma move_items:
  assumes "placed n bs" "0 < n"
  shows "placed n (fold (move_item n) its bs) \<and> mset (concat (fold (move_item n) its bs)) = mset its + mset (concat bs)"
  using assms
proof (induction its arbitrary: bs)
  case (Cons it its)
  have m: "placed n (move_item n it bs)" "mset (concat (move_item n it bs)) = add_mset it (mset (concat bs))"
    using move_item_placed [OF Cons.prems, of it] by simp_all
  from Cons.IH [OF m(1) Cons.prems(2)] m(2) show ?case by simp
qed simp

lemma fold_buckets: "length bs = n \<Longrightarrow> fold (\<lambda>i. fold f (bs ! i)) [0..<n] s = fold f (concat bs) s"
proof -
  assume "length bs = n"
  then have "concat bs = concat (map (\<lambda>i. bs ! i) [0..<n])" using map_nth [of bs] by simp
  moreover have "fold f (concat (map g is)) s = fold (\<lambda>i. fold f (g i)) is s" for g :: "nat \<Rightarrow> _" and "is" and s
    by (induction "is" arbitrary: s) simp_all
  ultimately show ?thesis by simp
qed

section \<open>The invariant\<close>

definition funcs_ok :: "('a \<Rightarrow> 'a \<Rightarrow> int) \<Rightarrow> ('a \<Rightarrow> u32) \<Rightarrow> bool" where
  "funcs_ok cmp hash \<longleftrightarrow> (\<forall>x. cmp x x = 0) \<and> (\<forall>x y. cmp x y = 0 \<longrightarrow> cmp y x = 0) \<and>
     (\<forall>x y z. cmp x y = 0 \<longrightarrow> cmp y z = 0 \<longrightarrow> cmp x z = 0) \<and> (\<forall>x y. cmp x y = 0 \<longrightarrow> hash x = hash y)"

lemma funcs_okD:
  assumes "funcs_ok cmp hash"
  shows "cmp x x = 0" "cmp x y = 0 \<Longrightarrow> cmp y x = 0" "cmp x y = 0 \<Longrightarrow> cmp y z = 0 \<Longrightarrow> cmp x z = 0"
    "cmp x y = 0 \<Longrightarrow> hash x = hash y"
  using assms unfolding funcs_ok_def by blast+

definition items :: "'a lhash_st \<Rightarrow> 'a lhash_item_st multiset" where
  "items lh = mset (concat (buckets lh))"

text \<open>What has to hold of the items: the cached hash is the hash, and no two items are equal.\<close>

definition items_ok :: "('a \<Rightarrow> 'a \<Rightarrow> int) \<Rightarrow> ('a \<Rightarrow> u32) \<Rightarrow> 'a lhash_item_st multiset \<Rightarrow> bool" where
  "items_ok cmp hash M \<longleftrightarrow> (\<forall>it \<in># M. item_hash it = hash (item_data it)) \<and>
     (\<forall>x. size {#it \<in># M. cmp (item_data it) x = 0#} \<le> 1)"

definition lh_inv :: "'a lhash_st \<Rightarrow> bool" where
  "lh_inv lh \<longleftrightarrow> funcs_ok (lh_comp lh) (lh_hash lh) \<and> kMinNumBuckets \<le> num_buckets lh \<and> placed (num_buckets lh) (buckets lh) \<and>
     num_items lh = size (items lh) mod size_max \<and> items_ok (lh_comp lh) (lh_hash lh) (items lh)"

definition elems :: "'a lhash_st \<Rightarrow> 'a set" where
  "elems lh = item_data ` set_mset (items lh)"

lemma inv_buckets: "lh_inv lh \<Longrightarrow> 0 < num_buckets lh"
  by (simp add: lh_inv_def kMinNumBuckets_def)

lemma chain_pos_cases:
  "(chain_pos P c < length c \<and> P (item_data (c ! chain_pos P c))) \<or>
   (chain_pos P c = length c \<and> (\<forall>it \<in> set c. \<not> P (item_data it)))"
  by (induction c) auto

text \<open>The pointer to the item that is looked for.\<close>

lemma next_ptr:
  assumes inv: "lh_inv lh" and ptr: "get_next_ptr_and_hash lh d = (h, i, j)"
  shows "h = lh_hash lh d" "i < length (buckets lh)" "i = unat h mod num_buckets lh"
    and "(\<exists>it. item_at lh i j = Some it \<and> it = buckets lh ! i ! j \<and> j < length (buckets lh ! i) \<and> it \<in># items lh \<and>
        lh_comp lh (item_data it) d = 0) \<or>
      (item_at lh i j = None \<and> (\<forall>it \<in># items lh. lh_comp lh (item_data it) d \<noteq> 0))"
proof -
  let ?P = "\<lambda>x. lh_comp lh x d = 0"
  have p: "h = lh_hash lh d" "i = unat h mod num_buckets lh" "j = chain_pos ?P (buckets lh ! i)"
    using ptr by (auto simp: get_next_ptr_and_hash_def Let_def)
  have pl: "placed (num_buckets lh) (buckets lh)" using inv by (simp add: lh_inv_def)
  show h: "h = lh_hash lh d" and il: "i < length (buckets lh)" and i: "i = unat h mod num_buckets lh"
    using p pl inv_buckets [OF inv] by (simp_all add: placed_def)
  have bucket: "it \<in> set (buckets lh ! i)" if "it \<in># items lh" "?P (item_data it)" for it
  proof -
    have "item_hash it = lh_hash lh (item_data it)" using that(1) inv by (simp add: lh_inv_def items_ok_def)
    also have "\<dots> = h" using funcs_okD(4) [of "lh_comp lh" "lh_hash lh"] that(2) inv h by (simp add: lh_inv_def)
    finally have "item_hash it = h" .
    then show ?thesis using placed_in_bucket [OF pl, of it] that(1) i by (simp add: items_def)
  qed
  have mem: "it \<in># items lh" if "it \<in> set (buckets lh ! i)" for it using that il by (auto simp: items_def)
  show "(\<exists>it. item_at lh i j = Some it \<and> it = buckets lh ! i ! j \<and> j < length (buckets lh ! i) \<and> it \<in># items lh \<and>
        lh_comp lh (item_data it) d = 0) \<or>
      (item_at lh i j = None \<and> (\<forall>it \<in># items lh. lh_comp lh (item_data it) d \<noteq> 0))"
    using chain_pos_cases [of ?P "buckets lh ! i"] bucket mem unfolding p(3) [symmetric]
    by (auto simp: item_at_def)
qed

lemma items_unique:
  assumes "items_ok cmp hash M" "x \<in># M" "y \<in># M" "cmp (item_data x) d = 0" "cmp (item_data y) d = 0"
  shows "x = y"
proof (rule ccontr)
  assume "x \<noteq> y"
  obtain N where N: "M = add_mset x N" using assms(2) by (blast dest: multi_member_split)
  with assms(3) \<open>x \<noteq> y\<close> have "y \<in># N" by simp
  then obtain N' where "N = add_mset y N'" by (blast dest: multi_member_split)
  with N assms(4,5) have "2 \<le> size {#it \<in># M. cmp (item_data it) d = 0#}" by simp
  moreover have "size {#it \<in># M. cmp (item_data it) d = 0#} \<le> 1" using assms(1) by (simp add: items_ok_def)
  ultimately show False by linarith
qed

lemma retrieve_iff:
  assumes inv: "lh_inv lh"
  shows "OPENSSL_lh_retrieve lh d = Some x \<longleftrightarrow> x \<in> elems lh \<and> lh_comp lh x d = 0"
proof -
  obtain h i j where ptr: "get_next_ptr_and_hash lh d = (h, i, j)" using prod_cases3 by blast
  from next_ptr(4) [OF inv ptr] show ?thesis
  proof
    assume "\<exists>it. item_at lh i j = Some it \<and> it = buckets lh ! i ! j \<and> j < length (buckets lh ! i) \<and> it \<in># items lh \<and>
      lh_comp lh (item_data it) d = 0"
    then obtain it where it: "item_at lh i j = Some it" "it \<in># items lh" "lh_comp lh (item_data it) d = 0" by blast
    have u: "y = it" if "y \<in># items lh" "lh_comp lh (item_data y) d = 0" for y
      using items_unique [of "lh_comp lh" "lh_hash lh" "items lh" y it d] that it inv by (simp add: lh_inv_def)
    have r: "OPENSSL_lh_retrieve lh d = Some (item_data it)" using it(1) ptr by (simp add: OPENSSL_lh_retrieve_def)
    have "item_data it = x \<longleftrightarrow> x \<in> elems lh \<and> lh_comp lh x d = 0" unfolding elems_def using it(2,3) u by blast
    then show ?thesis by (simp add: r)
  next
    assume "item_at lh i j = None \<and> (\<forall>it \<in># items lh. lh_comp lh (item_data it) d \<noteq> 0)"
    with ptr show ?thesis by (auto simp: OPENSSL_lh_retrieve_def elems_def)
  qed
qed

text \<open>Resizing moves the items and changes nothing else.\<close>

definition same_items :: "'a lhash_st \<Rightarrow> 'a lhash_st \<Rightarrow> bool" where
  "same_items lh lh' \<longleftrightarrow> lh_inv lh' \<and> items lh' = items lh \<and> lh_comp lh' = lh_comp lh \<and> lh_hash lh' = lh_hash lh"

lemma rebucket_same:
  assumes inv: "lh_inv lh" and n: "kMinNumBuckets \<le> n"
  shows "same_items lh (lh_rebucket alloc lh n)"
proof -
  let ?bs = "fold (\<lambda>i. fold (move_item n) (buckets lh ! i)) [0..<num_buckets lh] (replicate n [])"
  have pl: "placed (num_buckets lh) (buckets lh)" using inv by (simp add: lh_inv_def)
  have bs: "?bs = fold (move_item n) (concat (buckets lh)) (replicate n [])"
    by (rule fold_buckets) (use pl in \<open>simp add: placed_def\<close>)
  have "placed n (replicate n [])" "0 < n" using n by (simp_all add: placed_def kMinNumBuckets_def)
  from move_items [OF this, of "concat (buckets lh)"]
  have m: "placed n ?bs" "mset (concat ?bs) = items lh" unfolding bs by (simp_all add: items_def)
  then have "length (concat ?bs) = size (items lh)" by (metis size_mset)
  with m inv n show ?thesis by (simp add: same_items_def lh_rebucket_def Let_def lh_inv_def items_def)
qed

lemma same_items_refl: "lh_inv lh \<Longrightarrow> same_items lh lh"
  by (simp add: same_items_def)

lemma maybe_resize_same:
  assumes "lh_inv lh"
  shows "same_items lh (lh_maybe_resize alloc lh)"
proof -
  have "kMinNumBuckets \<le> num_buckets lh" using assms by (simp add: lh_inv_def)
  then show ?thesis
    using same_items_refl [OF assms] rebucket_same [OF assms, of _ alloc]
    by (simp add: lh_maybe_resize_def Let_def)
qed

lemma items_ok_subset: "items_ok cmp hash (add_mset it M) \<Longrightarrow> items_ok cmp hash M"
proof -
  assume ok: "items_ok cmp hash (add_mset it M)"
  have "size {#it \<in># M. cmp (item_data it) x = 0#} \<le> size {#it \<in># add_mset it M. cmp (item_data it) x = 0#}" for x by simp
  moreover have "size {#it \<in># add_mset it M. cmp (item_data it) x = 0#} \<le> 1" for x using ok by (simp add: items_ok_def)
  ultimately have "size {#it \<in># M. cmp (item_data it) x = 0#} \<le> 1" for x by (rule le_trans)
  with ok show ?thesis by (simp add: items_ok_def)
qed

lemma items_ok_add:
  assumes "items_ok cmp hash M" "funcs_ok cmp hash" "item_hash it = hash (item_data it)" "\<forall>y \<in># M. cmp (item_data y) (item_data it) \<noteq> 0"
  shows "items_ok cmp hash (add_mset it M)"
proof -
  have "size {#y \<in># add_mset it M. cmp (item_data y) x = 0#} \<le> 1" for x
  proof (cases "cmp (item_data it) x = 0")
    case True
    then have "cmp (item_data y) x \<noteq> 0" if "y \<in># M" for y
      using assms(4) that funcs_okD(2,3) [OF assms(2)] by blast
    then have "{#y \<in># M. cmp (item_data y) x = 0#} = {#}" by simp
    with True show ?thesis by simp
  next
    case False
    with assms(1) show ?thesis by (simp add: items_ok_def)
  qed
  with assms(1,3) show ?thesis by (auto simp: items_ok_def)
qed

text \<open>The items other than the ones equal to \<open>d\<close>.\<close>

lemma remove_equal:
  assumes inv: "lh_inv lh" and it: "it \<in># items lh" "lh_comp lh (item_data it) d = 0" and M: "items lh = add_mset it M"
  shows "items_ok (lh_comp lh) (lh_hash lh) M" "\<forall>y \<in># M. lh_comp lh (item_data y) d \<noteq> 0"
    "item_data ` set_mset M = elems lh - {x. lh_comp lh x d = 0}"
proof -
  have ok: "items_ok (lh_comp lh) (lh_hash lh) (add_mset it M)" using inv M by (simp add: lh_inv_def)
  then show "items_ok (lh_comp lh) (lh_hash lh) M" by (rule items_ok_subset)
  have "size {#y \<in># add_mset it M. lh_comp lh (item_data y) d = 0#} \<le> 1" using ok by (simp add: items_ok_def)
  then have "{#y \<in># M. lh_comp lh (item_data y) d = 0#} = {#}" using it(2) by simp
  then show no: "\<forall>y \<in># M. lh_comp lh (item_data y) d \<noteq> 0" by simp
  show "item_data ` set_mset M = elems lh - {x. lh_comp lh x d = 0}" using no it(2) unfolding elems_def M by auto
qed

lemma size_dec: "size_add (Suc n mod size_max) (size_max - 1) = n mod size_max"
proof -
  have "size_add (Suc n mod size_max) (size_max - 1) = (Suc n + (size_max - 1)) mod size_max"
    by (simp only: size_add_def mod_add_left_eq)
  also have "Suc n + (size_max - 1) = n + size_max" by (simp add: size_max_def)
  finally show ?thesis by simp
qed

lemma size_inc: "size_add (n mod size_max) 1 = Suc n mod size_max"
  by (simp add: size_add_def mod_Suc_eq)

text \<open>Replacing an item, appending one and taking one out of a chain, on the items of the whole table.\<close>

lemma chain_replace:
  assumes "i < length bs" "j < length (bs ! i)"
  shows "add_mset (bs ! i ! j) (mset (concat (bs[i := (bs ! i)[j := it]]))) = add_mset it (mset (concat bs))"
proof -
  define x where "x = bs ! i ! j"
  have x: "x \<in># mset (bs ! i)" using assms(2) by (simp add: x_def)
  have "mset ((bs ! i)[j := it]) = add_mset it (mset (bs ! i) - {#x#})" using assms(2) by (simp add: mset_update x_def)
  then have "add_mset x (mset ((bs ! i)[j := it])) = add_mset it (mset (bs ! i))" using x by (simp add: add_mset_commute [of x])
  then have "add_mset x (mset (concat (bs[i := (bs ! i)[j := it]]))) + mset (bs ! i) = add_mset it (mset (concat bs)) + mset (bs ! i)"
    using concat_update [OF assms(1), of "(bs ! i)[j := it]"] by (metis union_mset_add_mset_left union_mset_add_mset_right)
  then show ?thesis unfolding x_def by (rule add_right_imp_eq)
qed

lemma chain_remove:
  assumes "i < length bs" "j < length (bs ! i)"
  shows "add_mset (bs ! i ! j) (mset (concat (bs[i := take j (bs ! i) @ drop (Suc j) (bs ! i)]))) = mset (concat bs)"
proof -
  define x c where "x = bs ! i ! j" and "c = take j (bs ! i) @ drop (Suc j) (bs ! i)"
  have "bs ! i = take j (bs ! i) @ x # drop (Suc j) (bs ! i)" unfolding x_def using assms(2) by (rule id_take_nth_drop)
  then have "mset (bs ! i) = add_mset x (mset c)" unfolding c_def by (metis mset.simps(2) mset_append union_mset_add_mset_right)
  then have "add_mset x (mset (concat (bs[i := c]))) + mset c = mset (concat bs) + mset c"
    using concat_update [OF assms(1), of c] by simp
  then show ?thesis unfolding x_def c_def by (rule add_right_imp_eq)
qed

lemma insert_replace:
  assumes inv: "lh_inv lh" and ptr: "get_next_ptr_and_hash lh d = (h, i, j)" and it: "item_at lh i j = Some it"
    and lh': "lh' = lh\<lparr>buckets := (buckets lh)[i := (buckets lh ! i)[j := it\<lparr>item_data := d\<rparr>]]\<rparr>"
  shows "lh_inv lh' \<and> elems lh' = insert d (elems lh - {x. lh_comp lh x d = 0}) \<and> size (items lh') = size (items lh)"
proof -
  note p = next_ptr [OF inv ptr]
  have f: "funcs_ok (lh_comp lh) (lh_hash lh)" and pl: "placed (num_buckets lh) (buckets lh)" using inv by (simp_all add: lh_inv_def)
  have i: "i < num_buckets lh" using p(2) pl by (simp add: placed_def)
  have it': "it = buckets lh ! i ! j" "j < length (buckets lh ! i)" "it \<in># items lh" "lh_comp lh (item_data it) d = 0"
    using p(4) it by auto
  obtain M where M: "items lh = add_mset it M" using it'(3) by (blast dest: multi_member_split)
  note r = remove_equal [OF inv it'(3,4) M]
  have "add_mset it (items lh') = add_mset (it\<lparr>item_data := d\<rparr>) (items lh)"
    using chain_replace [OF p(2) it'(2)] it'(1) by (simp add: items_def lh')
  then have items': "items lh' = add_mset (it\<lparr>item_data := d\<rparr>) M" unfolding M by (metis add_mset_add_mset_same_iff add_mset_commute)
  have "item_hash it = lh_hash lh (item_data it)" using inv it'(3) by (simp add: lh_inv_def items_ok_def)
  then have hash: "item_hash it = lh_hash lh d" using funcs_okD(4) [OF f it'(4)] by simp
  have "items_ok (lh_comp lh) (lh_hash lh) (items lh')"
    unfolding items' using r(1,2) hash by (intro items_ok_add [OF _ f]) simp_all
  moreover have "placed (num_buckets lh) (buckets lh')"
  proof -
    have "unat (item_hash x) mod num_buckets lh = i" if "x \<in> set (buckets lh ! i)" for x using pl i that by (auto simp: placed_def)
    then have "\<forall>x \<in> set ((buckets lh ! i)[j := it\<lparr>item_data := d\<rparr>]). unat (item_hash x) mod num_buckets lh = i"
      using it' set_update_subset_insert [of "buckets lh ! i" j "it\<lparr>item_data := d\<rparr>"] by fastforce
    then show ?thesis using placed_update [OF pl i] by (simp add: lh')
  qed
  moreover have "size (items lh') = size (items lh)" by (simp add: items' M)
  moreover have "elems lh' = insert d (elems lh - {x. lh_comp lh x d = 0})" using r(3) by (simp add: elems_def items')
  ultimately show ?thesis using inv by (simp add: lh_inv_def lh')
qed

lemma insert_append:
  assumes inv: "lh_inv lh" and ptr: "get_next_ptr_and_hash lh d = (h, i, j)" and none: "item_at lh i j = None"
    and lh': "lh' = lh\<lparr>buckets := (buckets lh)[i := buckets lh ! i @ [\<lparr>item_data = d, item_hash = h\<rparr>]],
      num_items := size_add (num_items lh) 1\<rparr>"
  shows "lh_inv lh' \<and> elems lh' = insert d (elems lh - {x. lh_comp lh x d = 0}) \<and> size (items lh') = size (items lh) + 1"
proof -
  let ?it = "\<lparr>item_data = d, item_hash = h\<rparr>"
  note p = next_ptr [OF inv ptr]
  have f: "funcs_ok (lh_comp lh) (lh_hash lh)" and pl: "placed (num_buckets lh) (buckets lh)"
    and ok: "items_ok (lh_comp lh) (lh_hash lh) (items lh)" using inv by (simp_all add: lh_inv_def)
  have i: "i < num_buckets lh" using p(2) pl by (simp add: placed_def)
  have no: "\<forall>it \<in># items lh. lh_comp lh (item_data it) d \<noteq> 0" using p(4) none by auto
  have items': "items lh' = add_mset ?it (items lh)"
    using concat_update_add [OF p(2), of "buckets lh ! i @ [?it]" ?it] by (simp add: items_def lh')
  have "items_ok (lh_comp lh) (lh_hash lh) (items lh')"
    unfolding items' using no p(1) by (intro items_ok_add [OF ok f]) simp_all
  moreover have "placed (num_buckets lh) (buckets lh')"
  proof -
    have "\<forall>x \<in> set (buckets lh ! i @ [?it]). unat (item_hash x) mod num_buckets lh = i" using placed_nth [OF pl i] p(3) by simp
    from placed_update [OF pl i this] show ?thesis by (simp add: lh')
  qed
  moreover have "num_items lh' = size_add (num_items lh) 1" by (simp add: lh')
  then have "num_items lh' = size (items lh') mod size_max"
    using inv size_inc [of "size (items lh)"] unfolding items' by (simp add: lh_inv_def)
  moreover have "elems lh - {x. lh_comp lh x d = 0} = elems lh" using no by (auto simp: elems_def)
  then have "elems lh' = insert d (elems lh - {x. lh_comp lh x d = 0})" by (simp add: elems_def items')
  ultimately show ?thesis using inv items' by (simp add: lh_inv_def lh')
qed

lemma insert_outcome:
  assumes inv: "lh_inv lh" and run: "OPENSSL_lh_insert alloc lh d = (r, old, lh')"
  shows "old = OPENSSL_lh_retrieve lh d"
    and "r \<Longrightarrow> lh_inv lh' \<and> lh_comp lh' = lh_comp lh \<and> elems lh' = insert d (elems lh - {x. lh_comp lh x d = 0}) \<and>
      size (items lh') = size (items lh) + (if old = None then 1 else 0)"
    and "\<not> r \<Longrightarrow> lh' = lh \<and> old = None \<and> \<not> alloc 24"
proof -
  obtain h i j where ptr: "get_next_ptr_and_hash lh d = (h, i, j)" using prod_cases3 by blast
  have ret: "OPENSSL_lh_retrieve lh d = map_option item_data (item_at lh i j)" using ptr by (simp add: OPENSSL_lh_retrieve_def)
  show "old = OPENSSL_lh_retrieve lh d"
    using run ptr ret by (auto simp: OPENSSL_lh_insert_def split: option.splits if_splits)
  show "\<not> r \<Longrightarrow> lh' = lh \<and> old = None \<and> \<not> alloc 24"
    using run ptr by (auto simp: OPENSSL_lh_insert_def split: option.splits if_splits)
  assume r: "r"
  show "lh_inv lh' \<and> lh_comp lh' = lh_comp lh \<and> elems lh' = insert d (elems lh - {x. lh_comp lh x d = 0}) \<and>
      size (items lh') = size (items lh) + (if old = None then 1 else 0)"
  proof (cases "item_at lh i j")
    case (Some it)
    with run ptr have "lh' = lh\<lparr>buckets := (buckets lh)[i := (buckets lh ! i)[j := it\<lparr>item_data := d\<rparr>]]\<rparr>" "old = Some (item_data it)"
      by (auto simp: OPENSSL_lh_insert_def)
    with insert_replace [OF inv ptr Some this(1)] show ?thesis by simp
  next
    case None
    define lh1 where "lh1 = lh\<lparr>buckets := (buckets lh)[i := buckets lh ! i @ [\<lparr>item_data = d, item_hash = h\<rparr>]],
      num_items := size_add (num_items lh) 1\<rparr>"
    have "lh' = lh_maybe_resize alloc lh1" "old = None"
      using run ptr None r by (auto simp: OPENSSL_lh_insert_def lh1_def split: if_splits)
    moreover note a = insert_append [OF inv ptr None lh1_def]
    ultimately show ?thesis
      using maybe_resize_same [of lh1 alloc] by (simp add: same_items_def elems_def) (simp add: lh1_def)
  qed
qed

lemma delete_outcome:
  assumes inv: "lh_inv lh" and run: "OPENSSL_lh_delete alloc lh d = (old, lh')"
  shows "old = OPENSSL_lh_retrieve lh d"
    and "lh_inv lh' \<and> lh_comp lh' = lh_comp lh \<and> elems lh' = elems lh - {x. lh_comp lh x d = 0} \<and>
      size (items lh) = size (items lh') + (if old = None then 0 else 1)"
proof -
  obtain h i j where ptr: "get_next_ptr_and_hash lh d = (h, i, j)" using prod_cases3 by blast
  note p = next_ptr [OF inv ptr]
  have pl: "placed (num_buckets lh) (buckets lh)" using inv by (simp add: lh_inv_def)
  have i: "i < num_buckets lh" using p(2) pl by (simp add: placed_def)
  show "old = OPENSSL_lh_retrieve lh d"
    using run ptr by (auto simp: OPENSSL_lh_delete_def OPENSSL_lh_retrieve_def split: option.splits)
  show "lh_inv lh' \<and> lh_comp lh' = lh_comp lh \<and> elems lh' = elems lh - {x. lh_comp lh x d = 0} \<and>
      size (items lh) = size (items lh') + (if old = None then 0 else 1)"
  proof (cases "item_at lh i j")
    case None
    then have "\<forall>it \<in># items lh. lh_comp lh (item_data it) d \<noteq> 0" using p(4) by auto
    then have "elems lh - {x. lh_comp lh x d = 0} = elems lh" by (auto simp: elems_def)
    with run ptr None inv show ?thesis by (auto simp: OPENSSL_lh_delete_def)
  next
    case (Some it)
    have it: "it = buckets lh ! i ! j" "j < length (buckets lh ! i)" "it \<in># items lh" "lh_comp lh (item_data it) d = 0"
      using p(4) Some by auto
    define lh1 where "lh1 = lh\<lparr>buckets := (buckets lh)[i := take j (buckets lh ! i) @ drop (Suc j) (buckets lh ! i)],
      num_items := size_add (num_items lh) (size_max - 1)\<rparr>"
    have lh': "lh' = lh_maybe_resize alloc lh1" "old = Some (item_data it)"
      using run ptr Some by (auto simp: OPENSSL_lh_delete_def lh1_def)
    have M: "items lh = add_mset it (items lh1)" using chain_remove [OF p(2) it(2)] it(1) by (simp add: items_def lh1_def)
    note r = remove_equal [OF inv it(3,4) M]
    have "placed (num_buckets lh) (buckets lh1)"
    proof -
      have "\<forall>x \<in> set (take j (buckets lh ! i) @ drop (Suc j) (buckets lh ! i)). unat (item_hash x) mod num_buckets lh = i"
        using placed_nth [OF pl i] by (auto dest: in_set_takeD in_set_dropD)
      from placed_update [OF pl i this] show ?thesis by (simp add: lh1_def)
    qed
    moreover have "num_items lh1 = size (items lh1) mod size_max"
      using inv size_dec [of "size (items lh1)"] M by (simp add: lh_inv_def) (simp add: lh1_def)
    ultimately have "lh_inv lh1" using inv r(1) by (simp add: lh_inv_def) (simp add: lh1_def)
    with r(3) M lh' maybe_resize_same [of lh1 alloc] show ?thesis
      by (simp add: same_items_def elems_def) (simp add: lh1_def)
  qed
qed

section \<open>The interface\<close>

lemma option_eqI: "(\<And>x. a = Some x \<longleftrightarrow> b = Some x) \<Longrightarrow> a = b"
  by (cases a; cases b) auto

text \<open>
  A table that holds at most one element of every class of equal elements: what its clients may rely on.  \<open>ins\<close>
  is \<open>None\<close> when the element could not be stored.
\<close>

locale lookup_table =
  fixes ok :: "'t \<Rightarrow> bool" and eq :: "'t \<Rightarrow> 'a \<Rightarrow> 'a \<Rightarrow> bool" and members :: "'t \<Rightarrow> 'a set"
    and get :: "'t \<Rightarrow> 'a \<Rightarrow> 'a option" and ins :: "'t \<Rightarrow> 'a \<Rightarrow> 't option" and del :: "'t \<Rightarrow> 'a \<Rightarrow> 't"
  assumes eq_refl: "ok t \<Longrightarrow> eq t x x"
    and eq_sym: "ok t \<Longrightarrow> eq t x y \<Longrightarrow> eq t y x"
    and eq_trans: "ok t \<Longrightarrow> eq t x y \<Longrightarrow> eq t y z \<Longrightarrow> eq t x z"
    and get_iff: "ok t \<Longrightarrow> get t d = Some x \<longleftrightarrow> x \<in> members t \<and> eq t x d"
    and ins: "ok t \<Longrightarrow> ins t d = Some t' \<Longrightarrow> ok t' \<and> eq t' = eq t \<and> members t' = insert d (members t - {x. eq t x d})"
    and del: "ok t \<Longrightarrow> ok (del t d) \<and> eq (del t d) = eq t \<and> members (del t d) = members t - {x. eq t x d}"
begin

lemma get_None_iff: "ok t \<Longrightarrow> get t d = None \<longleftrightarrow> (\<forall>x \<in> members t. \<not> eq t x d)"
  using get_iff [of t d] by (metis not_Some_eq)

lemma get_ins:
  assumes t: "ok t" "ins t d = Some t'"
  shows "get t' y = (if eq t d y then Some d else get t y)"
proof (cases "eq t d y")
  case True
  then show ?thesis using ins [OF t] get_iff [of t' y d] by simp
next
  case False
  have "\<not> eq t x d" if "eq t x y" for x using that False eq_sym [OF t(1)] eq_trans [OF t(1)] by blast
  then have "x \<in> members t' \<and> eq t x y \<longleftrightarrow> x \<in> members t \<and> eq t x y" for x using ins [OF t] False by auto
  then have "get t' y = Some x \<longleftrightarrow> get t y = Some x" for x using ins [OF t] get_iff [of t' y x] get_iff [OF t(1), of y x] by simp
  then have "get t' y = get t y" by (rule option_eqI)
  with False show ?thesis by simp
qed

lemma get_del:
  assumes t: "ok t"
  shows "get (del t d) y = (if eq t d y then None else get t y)"
proof (cases "eq t d y")
  case True
  have "\<not> eq t x y" if "\<not> eq t x d" for x using that True eq_sym [OF t] eq_trans [OF t] by blast
  then show ?thesis using True del [OF t, of d] get_None_iff [of "del t d" y] by auto
next
  case False
  have "\<not> eq t x d" if "eq t x y" for x using that False eq_sym [OF t] eq_trans [OF t] by blast
  then have "x \<in> members (del t d) \<and> eq t x y \<longleftrightarrow> x \<in> members t \<and> eq t x y" for x using del [OF t, of d] by auto
  then have "get (del t d) y = Some x \<longleftrightarrow> get t y = Some x" for x
    using del [OF t, of d] get_iff [of "del t d" y x] get_iff [OF t, of y x] by simp
  then have "get (del t d) y = get t y" by (rule option_eqI)
  with False show ?thesis by simp
qed

end

definition lh_ins :: "(nat \<Rightarrow> bool) \<Rightarrow> 'a lhash_st \<Rightarrow> 'a \<Rightarrow> 'a lhash_st option" where
  "lh_ins alloc lh d = (case OPENSSL_lh_insert alloc lh d of (r, old, lh') \<Rightarrow> if r then Some lh' else None)"

interpretation lh: lookup_table lh_inv "\<lambda>lh x y. lh_comp lh x y = 0" elems OPENSSL_lh_retrieve "lh_ins alloc"
  "\<lambda>lh d. snd (OPENSSL_lh_delete alloc lh d)" for alloc
proof
  fix t :: "'a lhash_st" and x y z d t'
  assume inv: "lh_inv t"
  then have f: "funcs_ok (lh_comp t) (lh_hash t)" by (simp add: lh_inv_def)
  show "lh_comp t x x = 0" using funcs_okD(1) [OF f] .
  show "lh_comp t x y = 0 \<Longrightarrow> lh_comp t y x = 0" using funcs_okD(2) [OF f] .
  show "lh_comp t x y = 0 \<Longrightarrow> lh_comp t y z = 0 \<Longrightarrow> lh_comp t x z = 0" using funcs_okD(3) [OF f] .
  show "OPENSSL_lh_retrieve t d = Some x \<longleftrightarrow> x \<in> elems t \<and> lh_comp t x d = 0" by (rule retrieve_iff [OF inv])
  show "lh_inv t' \<and> (\<lambda>x y. lh_comp t' x y = 0) = (\<lambda>x y. lh_comp t x y = 0) \<and>
      elems t' = insert d (elems t - {x. lh_comp t x d = 0})" if "lh_ins alloc t d = Some t'"
    using insert_outcome(2) [OF inv] that by (auto simp: lh_ins_def split: prod.splits if_splits)
  show "lh_inv (snd (OPENSSL_lh_delete alloc t d)) \<and>
      (\<lambda>x y. lh_comp (snd (OPENSSL_lh_delete alloc t d)) x y = 0) = (\<lambda>x y. lh_comp t x y = 0) \<and>
      elems (snd (OPENSSL_lh_delete alloc t d)) = elems t - {x. lh_comp t x d = 0}"
    using delete_outcome(2) [OF inv, of alloc d] by (metis prod.collapse)
qed

section \<open>Properties\<close>

lemma new_inv:
  assumes "funcs_ok cmp hash" "OPENSSL_lh_new alloc hash cmp = Some lh"
  shows "lh_inv lh" "elems lh = {}" "lh_comp lh = cmp" "lh_hash lh = hash"
  using assms
  by (auto simp: OPENSSL_lh_new_def lh_inv_def placed_def items_def items_ok_def elems_def size_max_def kMinNumBuckets_def split: if_splits)

text \<open>(C12) \<open>OPENSSL_lh_insert\<close>, whatever it does to the buckets, leaves a table in which exactly the elements equal to
  the new one are replaced by it: it reports the element that was there, every later lookup finds what it should, and
  the count is right modulo the range of \<^verbatim>\<open>size_t\<close>.  When it fails, for want of memory, the table is unchanged.\<close>

theorem lh_insert_refines:
  assumes "lh_inv lh" "OPENSSL_lh_insert alloc lh d = (r, old, lh')"
  shows "old = OPENSSL_lh_retrieve lh d \<and>
    (if r then lh_inv lh' \<and> elems lh' = insert d (elems lh - {x. lh_comp lh x d = 0}) \<and>
       (\<forall>y. OPENSSL_lh_retrieve lh' y = (if lh_comp lh d y = 0 then Some d else OPENSSL_lh_retrieve lh y)) \<and>
       OPENSSL_lh_num_items lh' = (OPENSSL_lh_num_items lh + (if old = None then 1 else 0)) mod size_max
     else lh' = lh \<and> old = None \<and> \<not> alloc 24)"
proof -
  note o = insert_outcome [OF assms]
  have "r \<Longrightarrow> lh_ins alloc lh d = Some lh'" using assms(2) by (simp add: lh_ins_def)
  then have "r \<Longrightarrow> OPENSSL_lh_retrieve lh' y = (if lh_comp lh d y = 0 then Some d else OPENSSL_lh_retrieve lh y)" for y
    using lh.get_ins [OF assms(1)] by blast
  moreover have "r \<Longrightarrow> num_items lh' = (num_items lh + (if old = None then 1 else 0)) mod size_max"
    using o(2) assms(1) by (simp add: lh_inv_def mod_Suc_eq)
  ultimately show ?thesis using o by (simp add: OPENSSL_lh_num_items_def)
qed

text \<open>(C34) \<open>OPENSSL_lh_delete\<close> removes exactly the element equal to the given one and returns it; all other lookups are
  unchanged, also when the table shrinks.\<close>

theorem lh_delete_refines:
  assumes "lh_inv lh" "OPENSSL_lh_delete alloc lh d = (old, lh')"
  shows "old = OPENSSL_lh_retrieve lh d \<and> lh_inv lh' \<and> elems lh' = elems lh - {x. lh_comp lh x d = 0} \<and>
    (\<forall>y. OPENSSL_lh_retrieve lh' y = (if lh_comp lh d y = 0 then None else OPENSSL_lh_retrieve lh y)) \<and>
    OPENSSL_lh_num_items lh = (OPENSSL_lh_num_items lh' + (if old = None then 0 else 1)) mod size_max"
proof -
  note o = delete_outcome [OF assms]
  have "snd (OPENSSL_lh_delete alloc lh d) = lh'" using assms(2) by simp
  then have "OPENSSL_lh_retrieve lh' y = (if lh_comp lh d y = 0 then None else OPENSSL_lh_retrieve lh y)" for y
    using lh.get_del [OF assms(1), of alloc d y] by simp
  moreover have "num_items lh = (num_items lh' + (if old = None then 0 else 1)) mod size_max"
    using o(2) assms(1) by (simp add: lh_inv_def mod_Suc_eq)
  ultimately show ?thesis using o by (simp add: OPENSSL_lh_num_items_def)
qed

text \<open>The table used by the witnesses: numbers, hashed to themselves modulo 4.\<close>

definition sample_hash :: "nat \<Rightarrow> u32" where
  "sample_hash n = word_of_nat (n mod 4)"

definition sample_cmp :: "nat \<Rightarrow> nat \<Rightarrow> int" where
  "sample_cmp a b = int a - int b"

definition sample_table :: "nat lhash_st" where
  "sample_table = \<lparr>num_items = 0, buckets = replicate kMinNumBuckets [], num_buckets = kMinNumBuckets, callback_depth = 0,
     lh_comp = sample_cmp, lh_hash = sample_hash\<rparr>"

lemma sample_inv: "lh_inv sample_table"
proof (rule new_inv(1))
  show "funcs_ok sample_cmp sample_hash" by (auto simp: funcs_ok_def sample_cmp_def)
  show "OPENSSL_lh_new (\<lambda>_. True) sample_hash sample_cmp = Some sample_table" by (simp add: OPENSSL_lh_new_def sample_table_def)
qed

theorem lh_insert_refines_witness:
  "case OPENSSL_lh_insert (\<lambda>_. True) sample_table 7 of (r, old, lh') \<Rightarrow> r \<and> lh_inv lh' \<and> OPENSSL_lh_retrieve lh' 7 = Some 7"
proof -
  obtain r old lh' where run: "OPENSSL_lh_insert (\<lambda>_. True) sample_table 7 = (r, old, lh')" using prod_cases3 by blast
  from lh_insert_refines [OF sample_inv run] have "r \<and> lh_inv lh' \<and> OPENSSL_lh_retrieve lh' 7 = Some 7"
    by (cases r) (auto simp: sample_table_def sample_cmp_def)
  with run show ?thesis by simp
qed

theorem lh_delete_refines_witness:
  "case OPENSSL_lh_delete (\<lambda>_. True) sample_table 7 of (old, lh') \<Rightarrow> lh_inv lh' \<and> OPENSSL_lh_retrieve lh' 7 = None"
proof -
  obtain old lh' where run: "OPENSSL_lh_delete (\<lambda>_. True) sample_table 7 = (old, lh')" by fastforce
  from lh_delete_refines [OF sample_inv run] have "lh_inv lh' \<and> OPENSSL_lh_retrieve lh' 7 = None"
    by (simp add: sample_table_def sample_cmp_def)
  with run show ?thesis by simp
qed

end
