(* ===== verification/Ber.thy ===== *)
theory Ber
  imports Cbb_Asn1
begin

text \<open>
  \<^verbatim>\<open>crypto/bytestring/ber.c\<close> and \<^verbatim>\<open>asn1_compat.c\<close>: the search for BER in a byte string, the conversion of BER to DER
  with the parsers of \<open>Cbs\<close> and the builder of \<open>Cbb\<close>, implicitly tagged strings, and \<^verbatim>\<open>CBB_finish_i2d\<close>.

  The grammar of the accepted BER and its DER normal form are given separately; the theorems relate the two.
\<close>

unbundle bit_operations_syntax

section \<open>BER elements\<close>

text \<open>A definite length in any of its forms of at most four bytes.\<close>

definition ber_length :: "byte list \<Rightarrow> nat \<Rightarrow> bool" where
  "ber_length ls n \<longleftrightarrow> n < 128 \<and> ls = [word_of_nat n] \<or>
     (\<exists>k. 1 \<le> k \<and> k \<le> 4 \<and> n < 256 ^ k \<and> ls = word_of_nat (128 + k) # be_bytes k n)"

definition ber_definite :: "u32 \<Rightarrow> byte list \<Rightarrow> byte list \<Rightarrow> element" where
  "ber_definite t ls body =
     \<lparr>el_out = der_tag t @ ls @ body, el_tag = t, el_header_len = length (der_tag t @ ls),
      el_ber_found = (ls \<noteq> der_length (length body)), el_indefinite = False\<rparr>"

definition ber_indefinite :: "u32 \<Rightarrow> element" where
  "ber_indefinite t =
     \<lparr>el_out = der_tag t @ [0x80], el_tag = t, el_header_len = length (der_tag t) + 1, el_ber_found = True,
      el_indefinite = True\<rparr>"

lemma ber_length_bound: "ber_length ls n \<Longrightarrow> n < 2 ^ 32 \<and> 1 \<le> length ls \<and> length ls \<le> 5"
proof -
  have "n < 256 ^ k \<Longrightarrow> k \<le> 4 \<Longrightarrow> n < 2 ^ 32" for k
    using power_increasing [of k 4 "256 :: nat"] by simp
  then show "ber_length ls n \<Longrightarrow> n < 2 ^ 32 \<and> 1 \<le> length ls \<and> length ls \<le> 5"
    by (auto simp: ber_length_def)
qed

lemma ber_length_split:
  "(\<exists>ls. ber_length ls n \<and> lb # r = ls @ r') \<longleftrightarrow>
    (if unat lb < 128 then n = unat lb \<and> r' = r
     else 1 \<le> unat lb - 128 \<and> unat lb - 128 \<le> 4 \<and> unat lb - 128 \<le> length r \<and>
       n = be_nat (take (unat lb - 128) r) \<and> r' = drop (unat lb - 128) r)"
proof (cases "unat lb < 128")
  case True
  have "lb \<noteq> word_of_nat (128 + k)" if "k \<le> 4" for k
  proof -
    have "unat (word_of_nat (128 + k) :: byte) = 128 + k" by (rule unat_of_nat_small) (use that in simp)
    with True show ?thesis by auto
  qed
  moreover have "n < 128 \<and> lb = word_of_nat n \<longleftrightarrow> n = unat lb"
    using True by (auto simp: word_eq_iff_unat unat_of_nat_small)
  ultimately show ?thesis using True by (auto simp: ber_length_def)
next
  case False
  define k where "k = unat lb - 128"
  have lb: "unat lb = 128 + k" using False by (simp add: k_def)
  have eq: "lb = word_of_nat (128 + j) \<longleftrightarrow> j = k" if "j \<le> 4" for j
  proof -
    have "unat (word_of_nat (128 + j) :: byte) = 128 + j" by (rule unat_of_nat_small) (use that in simp)
    with lb show ?thesis unfolding word_eq_iff_unat by auto
  qed
  have short: "\<not> (n < 128 \<and> lb = word_of_nat n)" using False by (auto simp: unat_of_nat_small)
  have be: "n < 256 ^ k \<and> r = be_bytes k n @ r' \<longleftrightarrow> k \<le> length r \<and> n = be_nat (take k r) \<and> r' = drop k r"
  proof
    assume "n < 256 ^ k \<and> r = be_bytes k n @ r'"
    then show "k \<le> length r \<and> n = be_nat (take k r) \<and> r' = drop k r" by (simp add: be_nat_be_bytes)
  next
    assume a: "k \<le> length r \<and> n = be_nat (take k r) \<and> r' = drop k r"
    then have "be_bytes k n = take k r" "n < 256 ^ k"
      using be_bytes_be_nat [of "take k r"] be_nat_bound [of "take k r"] by (simp_all add: min_absorb2)
    with a show "n < 256 ^ k \<and> r = be_bytes k n @ r'" by simp
  qed
  have "(\<exists>ls. ber_length ls n \<and> lb # r = ls @ r') \<longleftrightarrow> 1 \<le> k \<and> k \<le> 4 \<and> n < 256 ^ k \<and> r = be_bytes k n @ r'"
    using short eq by (auto simp: ber_length_def)
  then show ?thesis using False be unfolding k_def by auto
qed

lemma ber_length_prefix:
  assumes "lb # r = ls @ r'" "ber_length ls n"
  shows "ls = der_length n \<longleftrightarrow> unat lb < 128 \<or> 128 \<le> n \<and> 256 ^ (unat lb - 128 - 1) \<le> n"
proof -
  have n: "n < 2 ^ 32" using ber_length_bound [OF assms(2)] by simp
  have "ls = der_length n \<longleftrightarrow> lb # r = der_length n @ r'" using assms(1) by auto
  then show ?thesis
    using assms(2) ber_length_split [of n lb r r'] unfolding der_length_iff [OF n] by (auto split: if_splits simp: assms(1))
qed

text \<open>The parser on a header with a definite length.\<close>

lemma ber_element_definite:
  assumes t: "tag_valid t" and ls: "ber_length ls n"
  shows "CBS_get_any_ber_asn1_element (der_tag t @ ls @ r') = (Some e, s') \<longleftrightarrow>
    n \<le> length r' \<and> s' = drop n r' \<and> e = ber_definite t ls (take n r')"
proof -
  obtain lb lr where lsC: "ls = lb # lr" using ber_length_bound [OF ls] by (cases ls) auto
  let ?k = "if unat lb < 128 then 0 else unat lb - 128" and ?s = "der_tag t @ ls @ r'"
  have s: "?s = der_tag t @ lb # lr @ r'" using lsC by simp
  have sp: "if unat lb < 128 then n = unat lb \<and> lr = []
     else 1 \<le> ?k \<and> ?k \<le> 4 \<and> ?k = length lr \<and> n = be_nat lr"
    using ber_length_split [of n lb lr "[]"] ls lsC by (auto split: if_splits)
  have min: "ls = der_length n \<longleftrightarrow> unat lb < 128 \<or> 128 \<le> n \<and> 256 ^ (unat lb - 128 - 1) \<le> n"
    using ber_length_prefix [of lb lr ls "[]"] ls lsC by simp
  let ?h = "length (der_tag t @ ls)"
  have h: "length (der_tag t) + 1 + ?k = ?h" using sp lsC by (auto split: if_splits)
  have el: "n + ?h \<le> length ?s \<longleftrightarrow> n \<le> length r'" "drop (n + ?h) ?s = drop n r'"
    "take (n + ?h) ?s = der_tag t @ ls @ take n r'" by simp_all
  show ?thesis
  proof (cases "unat lb < 128")
    case True
    then show ?thesis
      unfolding CBS_get_any_ber_asn1_element_def element_run [OF t s]
      using sp el h min by (auto simp: ber_definite_def)
  next
    case False
    with sp h have k: "unat lb - 128 = length lr" "1 \<le> length lr" "length lr \<le> 4" "be_nat lr = n"
      "length (der_tag t) + 1 + length lr = ?h" "n + (length (der_tag t) + 1) + length lr = n + ?h" by auto
    have min': "(\<not> (128 \<le> n \<and> 256 ^ (length lr - 1) \<le> n)) = (ls \<noteq> der_length n)" using min False k(1) by simp
    have tk: "take (length lr) (lr @ r') = lr" "length lr \<le> length (lr @ r')" "\<not> length lr = 0" using k(2) by auto
    show ?thesis
      unfolding CBS_get_any_ber_asn1_element_def element_run [OF t s] k tk(1) if_not_P [OF False] min'
      unfolding s [symmetric] el using k tk by (auto simp: ber_definite_def Suc_le_eq)
  qed
qed

lemma ber_element_iff:
  "CBS_get_any_ber_asn1_element s = (Some e, s') \<longleftrightarrow>
   (\<exists>t. tag_valid t \<and>
     ((\<exists>ls body. ber_length ls (length body) \<and> s = der_tag t @ ls @ body @ s' \<and> e = ber_definite t ls body) \<or>
      t AND CBS_ASN1_CONSTRUCTED \<noteq> 0 \<and> s = der_tag t @ 0x80 # s' \<and> e = ber_indefinite t))" (is "?L \<longleftrightarrow> ?R")
proof
  assume L: ?L
  then obtain t r1 where tag: "parse_asn1_tag s = (Some t, r1)"
    unfolding CBS_get_any_ber_asn1_element_def cbs_get_any_asn1_element_def by (auto split: prod.splits option.splits)
  with L obtain lb r where lb: "r1 = lb # r"
    unfolding CBS_get_any_ber_asn1_element_def cbs_get_any_asn1_element_def by (cases r1) auto
  have t: "tag_valid t" "s = der_tag t @ lb # r" using tag lb by (simp_all add: parse_asn1_tag_iff)
  note run = L [unfolded CBS_get_any_ber_asn1_element_def element_run [OF t]]
  show ?R
  proof (cases "unat lb < 128 \<or> t AND CBS_ASN1_CONSTRUCTED = 0 \<or> unat lb - 128 \<noteq> 0")
    case False
    with run t have "s' = r" "e = ber_indefinite t" "lb = 0x80"
      by (auto simp: ber_indefinite_def word_eq_iff_unat)
    with t False show ?thesis by blast
  next
    case True
    define n where "n = (if unat lb < 128 then unat lb else be_nat (take (unat lb - 128) r))"
    define r' where "r' = (if unat lb < 128 then r else drop (unat lb - 128) r)"
    from run True have "\<exists>ls. ber_length ls n \<and> lb # r = ls @ r'"
      unfolding ber_length_split n_def r'_def by (auto split: if_splits)
    then obtain ls where ls: "ber_length ls n" "lb # r = ls @ r'" by blast
    then have "n \<le> length r' \<and> s' = drop n r' \<and> e = ber_definite t ls (take n r')"
      using L t ber_element_definite [OF t(1) ls(1), of r' e s'] by simp
    then have "ber_length ls (length (take n r')) \<and> s = der_tag t @ ls @ take n r' @ s' \<and> e = ber_definite t ls (take n r')"
      using t ls by simp
    with t show ?thesis by blast
  qed
next
  assume ?R
  then obtain t where t: "tag_valid t" and
    "(\<exists>ls body. ber_length ls (length body) \<and> s = der_tag t @ ls @ body @ s' \<and> e = ber_definite t ls body) \<or>
      t AND CBS_ASN1_CONSTRUCTED \<noteq> 0 \<and> s = der_tag t @ 0x80 # s' \<and> e = ber_indefinite t" by blast
  then show ?L
  proof (elim disjE exE conjE)
    fix ls body
    assume "ber_length ls (length body)" "s = der_tag t @ ls @ body @ s'" "e = ber_definite t ls body"
    with t show ?L by (simp add: ber_element_definite)
  next
    assume "t AND CBS_ASN1_CONSTRUCTED \<noteq> 0" "s = der_tag t @ 0x80 # s'" "e = ber_indefinite t"
    with t show ?L
      unfolding CBS_get_any_ber_asn1_element_def by (simp add: element_run ber_indefinite_def)
  qed
qed

section \<open>The code\<close>

definition kMaxDepth :: nat where
  "kMaxDepth = 128"

definition CBS_ASN1_UTF8STRING :: u32 where "CBS_ASN1_UTF8STRING = 0xc"
definition CBS_ASN1_NUMERICSTRING :: u32 where "CBS_ASN1_NUMERICSTRING = 0x12"
definition CBS_ASN1_PRINTABLESTRING :: u32 where "CBS_ASN1_PRINTABLESTRING = 0x13"
definition CBS_ASN1_T61STRING :: u32 where "CBS_ASN1_T61STRING = 0x14"
definition CBS_ASN1_VIDEOTEXSTRING :: u32 where "CBS_ASN1_VIDEOTEXSTRING = 0x15"
definition CBS_ASN1_IA5STRING :: u32 where "CBS_ASN1_IA5STRING = 0x16"
definition CBS_ASN1_GRAPHICSTRING :: u32 where "CBS_ASN1_GRAPHICSTRING = 0x19"
definition CBS_ASN1_VISIBLESTRING :: u32 where "CBS_ASN1_VISIBLESTRING = 0x1a"
definition CBS_ASN1_GENERALSTRING :: u32 where "CBS_ASN1_GENERALSTRING = 0x1b"
definition CBS_ASN1_UNIVERSALSTRING :: u32 where "CBS_ASN1_UNIVERSALSTRING = 0x1c"
definition CBS_ASN1_BMPSTRING :: u32 where "CBS_ASN1_BMPSTRING = 0x1e"

lemmas string_tags = CBS_ASN1_OCTETSTRING_def CBS_ASN1_UTF8STRING_def CBS_ASN1_NUMERICSTRING_def
  CBS_ASN1_PRINTABLESTRING_def CBS_ASN1_T61STRING_def CBS_ASN1_VIDEOTEXSTRING_def CBS_ASN1_IA5STRING_def
  CBS_ASN1_GRAPHICSTRING_def CBS_ASN1_VISIBLESTRING_def CBS_ASN1_GENERALSTRING_def CBS_ASN1_UNIVERSALSTRING_def
  CBS_ASN1_BMPSTRING_def

definition is_string_type :: "u32 \<Rightarrow> bool" where
  "is_string_type tag \<longleftrightarrow> tag AND NOT CBS_ASN1_CONSTRUCTED \<in>
     {CBS_ASN1_OCTETSTRING, CBS_ASN1_UTF8STRING, CBS_ASN1_NUMERICSTRING, CBS_ASN1_PRINTABLESTRING, CBS_ASN1_T61STRING,
      CBS_ASN1_VIDEOTEXSTRING, CBS_ASN1_IA5STRING, CBS_ASN1_GRAPHICSTRING, CBS_ASN1_VISIBLESTRING,
      CBS_ASN1_GENERALSTRING, CBS_ASN1_UNIVERSALSTRING, CBS_ASN1_BMPSTRING}"

text \<open>What the recursions below need of the element parser to terminate.\<close>

lemma ber_element_split:
  assumes "CBS_get_any_ber_asn1_element s = (Some e, s')"
  shows "s = el_out e @ s'" "2 \<le> el_header_len e" "length s' < length s"
    "CBS_skip (el_header_len e) (el_out e) = (r, body) \<Longrightarrow> length body < length s"
proof -
  have tl: "1 \<le> length (der_tag t)" for t by (simp add: Suc_le_eq)
  show s: "s = el_out e @ s'"
    using assms unfolding ber_element_iff by (auto simp: ber_definite_def ber_indefinite_def)
  show h: "2 \<le> el_header_len e"
    using assms unfolding ber_element_iff
  proof (elim exE conjE disjE)
    fix t ls body
    assume "ber_length ls (length body)" "e = ber_definite t ls body"
    then show ?thesis using tl [of t] ber_length_bound [of ls "length body"] by (simp add: ber_definite_def)
  next
    fix t
    assume "e = ber_indefinite t"
    then show ?thesis using tl [of t] by (simp add: ber_indefinite_def)
  qed
  have le: "el_header_len e \<le> length (el_out e)"
    using assms unfolding ber_element_iff by (auto simp: ber_definite_def ber_indefinite_def)
  then show "length s' < length s" using s h by (cases "el_out e") auto
  show "length body < length s" if "CBS_skip (el_header_len e) (el_out e) = (r, body)"
    using that s h le by (auto simp: CBS_skip_def bindp_def cbs_get_def retp_def)
qed

text \<open>
  \<^verbatim>\<open>cbs_find_ber\<close>: \<open>None\<close> when it returns zero, otherwise \<^verbatim>\<open>*ber_found\<close>.  The next iteration of its loop is the call
  itself on the rest of the input, at the same depth.
\<close>

function cbs_find_ber :: "cbs \<Rightarrow> nat \<Rightarrow> bool option" where
  "cbs_find_ber inp depth =
     (if depth > kMaxDepth then None
      else if inp = [] then Some False
      else
        (case CBS_get_any_ber_asn1_element inp of
           (None, _) \<Rightarrow> None
         | (Some e, rest) \<Rightarrow>
             if el_ber_found e then Some True
             else if el_tag e AND CBS_ASN1_CONSTRUCTED \<noteq> 0 then
               if is_string_type (el_tag e) then Some True
               else
                 (case CBS_skip (el_header_len e) (el_out e) of
                    (None, _) \<Rightarrow> None
                  | (Some _, contents) \<Rightarrow>
                      (case cbs_find_ber contents (depth + 1) of
                         None \<Rightarrow> None
                       | Some True \<Rightarrow> Some True
                       | Some False \<Rightarrow> cbs_find_ber rest depth))
             else cbs_find_ber rest depth))"
  by pat_completeness auto

termination
  by (relation "measure (\<lambda>(inp, depth). length inp)") (auto intro: ber_element_split(3) [OF sym] ber_element_split(4) [OF sym sym])

declare cbs_find_ber.simps [simp del]

definition cbs_get_eoc :: "unit parser" where
  "cbs_get_eoc cbs = (if length cbs \<ge> 2 \<and> cbs ! 0 = 0 \<and> cbs ! 1 = 0 then CBS_skip 2 cbs else (None, cbs))"

text \<open>
  The choices of \<^verbatim>\<open>cbs_convert_ber\<close>: the tag written for an element and the one its fragments must have, and where the
  contents go, into \<^verbatim>\<open>out\<close> itself or into a new child.
\<close>

definition constructed_string :: "u32 \<Rightarrow> bool" where
  "constructed_string tag \<longleftrightarrow> tag AND CBS_ASN1_CONSTRUCTED \<noteq> 0 \<and> is_string_type tag"

definition ber_out_tag :: "u32 \<Rightarrow> u32" where
  "ber_out_tag tag = (if constructed_string tag then tag AND NOT CBS_ASN1_CONSTRUCTED else tag)"

definition child_string_tag :: "u32 \<Rightarrow> u32 \<Rightarrow> u32" where
  "child_string_tag string_tag tag = (if string_tag = 0 \<and> constructed_string tag then ber_out_tag tag else string_tag)"

definition out_contents :: "u32 \<Rightarrow> nat \<Rightarrow> nat" where
  "out_contents string_tag d = (if string_tag \<noteq> 0 then d else d + 1)"

definition open_contents :: "memory \<Rightarrow> u32 \<Rightarrow> u32 \<Rightarrow> nat \<Rightarrow> cbb \<Rightarrow> bool \<times> cbb" where
  "open_contents m string_tag tag d c =
     (if string_tag \<noteq> 0 then (tag AND NOT CBS_ASN1_CONSTRUCTED = string_tag, c)
      else CBB_add_asn1 m d c (ber_out_tag tag))"

text \<open>
  \<^verbatim>\<open>cbs_convert_ber\<close> on the builder \<open>c\<close>, where \<^verbatim>\<open>out\<close> is the \<^verbatim>\<open>CBB\<close> of depth \<open>d\<close>: the value returned, what is left of
  \<^verbatim>\<open>in\<close>, and the builder.  The next iteration of its loop is again the call itself.
\<close>

function cbs_convert_ber :: "memory \<Rightarrow> cbs \<Rightarrow> nat \<Rightarrow> cbb \<Rightarrow> u32 \<Rightarrow> bool \<Rightarrow> nat \<Rightarrow> bool \<times> cbs \<times> cbb" where
  "cbs_convert_ber m inp d c string_tag looking_for_eoc depth =
     (if depth > kMaxDepth then (False, inp, c)
      else if inp = [] then (\<not> looking_for_eoc, inp, c)
      else if looking_for_eoc \<and> fst (cbs_get_eoc inp) \<noteq> None then (True, snd (cbs_get_eoc inp), c)
      else
        (case CBS_get_any_ber_asn1_element inp of
           (None, inp) \<Rightarrow> (False, inp, c)
         | (Some e, rest) \<Rightarrow>
             (case open_contents m string_tag (el_tag e) d c of
                (False, c) \<Rightarrow> (False, rest, c)
              | (True, c) \<Rightarrow>
                  (case (if el_indefinite e then
                           cbs_convert_ber m rest (out_contents string_tag d) c (child_string_tag string_tag (el_tag e)) True
                             (depth + 1)
                         else
                           (case CBS_skip (el_header_len e) (el_out e) of
                              (None, _) \<Rightarrow> (False, rest, c)
                            | (Some _, contents) \<Rightarrow>
                                if el_tag e AND CBS_ASN1_CONSTRUCTED \<noteq> 0 then
                                  (case cbs_convert_ber m contents (out_contents string_tag d) c
                                          (child_string_tag string_tag (el_tag e)) False (depth + 1) of
                                     (r, _, c) \<Rightarrow> (r, rest, c))
                                else (case CBB_add_bytes m (out_contents string_tag d) c contents of (r, c) \<Rightarrow> (r, rest, c)))) of
                     (False, rest, c) \<Rightarrow> (False, rest, c)
                   | (True, rest, c) \<Rightarrow>
                       (case CBB_flush m d c of
                          (False, c) \<Rightarrow> (False, rest, c)
                        | (True, c) \<Rightarrow> cbs_convert_ber m rest d c string_tag looking_for_eoc depth)))))"
  by pat_completeness auto

lemma cbs_get_eoc_length: "length (snd (cbs_get_eoc s)) \<le> length s"
  by (simp add: cbs_get_eoc_def CBS_skip_def bindp_def cbs_get_def retp_def)

lemma convert_ber_rest:
  assumes "cbs_convert_ber_dom (m, inp, d, c, st, eoc, depth)"
  shows "cbs_convert_ber m inp d c st eoc depth = (r, rest, c') \<Longrightarrow> length rest \<le> length inp"
  using assms
proof (induction m inp d c st eoc depth arbitrary: r rest c' rule: cbs_convert_ber.pinduct)
  case (1 m inp d c string_tag looking_for_eoc depth)
  consider (stop) "kMaxDepth < depth \<or> inp = [] \<or> looking_for_eoc \<and> fst (cbs_get_eoc inp) \<noteq> None \<or>
      fst (CBS_get_any_ber_asn1_element inp) = None"
    | (element) e rest1 where "\<not> kMaxDepth < depth" "inp \<noteq> []" "\<not> (looking_for_eoc \<and> fst (cbs_get_eoc inp) \<noteq> None)"
      "CBS_get_any_ber_asn1_element inp = (Some e, rest1)"
    by (cases "CBS_get_any_ber_asn1_element inp"; cases "fst (CBS_get_any_ber_asn1_element inp)") auto
  then show ?case
  proof cases
    case stop
    then show ?thesis
      using 1(5) element_restores [of inp True] cbs_get_eoc_length [of inp] unfolding cbs_convert_ber.psimps [OF 1(1)]
      by (auto simp: restores_def CBS_get_any_ber_asn1_element_def split: prod.splits if_splits)
  next
    case element
    have lt: "length rest1 < length inp" by (rule ber_element_split(3) [OF element(4)])
    obtain o1 c1 where o1: "open_contents m string_tag (el_tag e) d c = (o1, c1)" by fastforce
    let ?body = "if el_indefinite e then
        cbs_convert_ber m rest1 (out_contents string_tag d) c1 (child_string_tag string_tag (el_tag e)) True (depth + 1)
      else
        (case CBS_skip (el_header_len e) (el_out e) of
           (None, _) \<Rightarrow> (False, rest1, c1)
         | (Some _, contents) \<Rightarrow>
             if el_tag e AND CBS_ASN1_CONSTRUCTED \<noteq> 0 then
               (case cbs_convert_ber m contents (out_contents string_tag d) c1 (child_string_tag string_tag (el_tag e)) False
                  (depth + 1) of (r, _, c) \<Rightarrow> (r, rest1, c))
             else (case CBB_add_bytes m (out_contents string_tag d) c1 contents of (r, c) \<Rightarrow> (r, rest1, c)))"
    obtain r2 rest2 c2 where body: "?body = (r2, rest2, c2)" by (rule prod_cases3)
    obtain r3 c3 where r3: "CBB_flush m d c2 = (r3, c3)" by fastforce
    have rest2: "length rest2 \<le> length rest1" if o1T: "o1"
    proof (cases "el_indefinite e")
      case True
      with 1(2) [OF element(1-3) element(4) [symmetric] refl o1 [symmetric]] o1T body show ?thesis by simp
    next
      case False
      with body show ?thesis by (auto split: prod.splits option.splits if_splits)
    qed
    have "cbs_convert_ber m inp d c string_tag looking_for_eoc depth =
      (if \<not> o1 then (False, rest1, c1) else if \<not> r2 then (False, rest2, c2) else if \<not> r3 then (False, rest2, c3)
       else cbs_convert_ber m rest2 d c3 string_tag looking_for_eoc depth)"
      unfolding cbs_convert_ber.psimps [OF 1(1)] using element o1 r3 by (auto simp: body)
    moreover have "length rest \<le> length rest2"
      if "o1" "r2" "r3" "cbs_convert_ber m rest2 d c3 string_tag looking_for_eoc depth = (r, rest, c')"
      using 1(4) [OF element(1-3) element(4) [symmetric] refl o1 [symmetric] _ body [symmetric] _ refl r3 [symmetric]] that
      by simp
    ultimately show ?thesis using 1(5) rest2 lt by (auto split: if_splits)
  qed
qed

termination cbs_convert_ber
proof (relation "measure (\<lambda>(m, inp, d, c, string_tag, looking_for_eoc, depth). length inp)", goal_cases)
  case (4 m inp d c string_tag looking_for_eoc depth x rest e b c1 xb yb rest2 c2 r3 c3)
  have "length rest < length inp" by (rule ber_element_split(3) [OF 4(4) [symmetric, unfolded 4(5)]])
  moreover have "length rest2 \<le> length rest"
  proof (cases "el_indefinite e")
    case True
    have "cbs_convert_ber m rest (out_contents string_tag d) c1 (child_string_tag string_tag (el_tag e)) True (depth + 1) =
      (xb, rest2, c2)" using True 4(8,10) by simp
    then show ?thesis by (rule convert_ber_rest [OF 4(14) [OF True]])
  next
    case False
    with 4(8,10) show ?thesis by (auto split: prod.splits option.splits if_splits)
  qed
  ultimately show ?case by simp
qed (auto intro: ber_element_split(3) [OF sym] ber_element_split(4) [OF sym sym])

declare cbs_convert_ber.simps [simp del]

text \<open>
  \<^verbatim>\<open>CBS_asn1_ber_to_der\<close>: \<^verbatim>\<open>*out\<close> and whether it was converted, that is, whether \<^verbatim>\<open>*out_storage\<close> is set, or \<open>None\<close> when
  it returns zero, and what is left of \<^verbatim>\<open>in\<close>.
\<close>

definition CBS_asn1_ber_to_der :: "memory \<Rightarrow> (cbs \<times> bool) parser" where
  "CBS_asn1_ber_to_der m inp =
     (case cbs_find_ber inp 0 of
        None \<Rightarrow> (None, inp)
      | Some False \<Rightarrow>
          (case CBS_get_any_asn1_element inp of
             (None, inp) \<Rightarrow> (None, inp)
           | (Some e, rest) \<Rightarrow> (Some (el_out e, False), rest))
      | Some True \<Rightarrow>
          (case CBB_init m (length inp) of
             None \<Rightarrow> (None, inp)
           | Some cbb \<Rightarrow>
               (case cbs_convert_ber m inp 0 cbb 0 False 0 of
                  (False, rest, _) \<Rightarrow> (None, rest)
                | (True, rest, cbb) \<Rightarrow>
                    (case CBB_finish m 0 False cbb of
                       (None, _) \<Rightarrow> (None, rest)
                     | (Some out, _) \<Rightarrow> (Some (out, True), rest)))))"

text \<open>\<^verbatim>\<open>CBS_get_asn1_implicit_string\<close> and its loop over the fragments.\<close>

lemma get_asn1_shorter: "CBS_get_asn1 t s = (Some body, s') \<Longrightarrow> length s' < length s"
  unfolding get_asn1_iff by (simp add: der_header_def)

function implicit_string_loop :: "memory \<Rightarrow> cbb \<Rightarrow> cbs \<Rightarrow> u32 \<Rightarrow> bool \<times> cbb" where
  "implicit_string_loop m result child inner_tag =
     (if child = [] then (True, result)
      else
        (case CBS_get_asn1 inner_tag child of
           (None, _) \<Rightarrow> (False, result)
         | (Some chunk, child) \<Rightarrow>
             (case CBB_add_bytes m 0 result chunk of
                (False, result) \<Rightarrow> (False, result)
              | (True, result) \<Rightarrow> implicit_string_loop m result child inner_tag)))"
  by pat_completeness auto

termination
  by (relation "measure (\<lambda>(m, result, child, inner_tag). length child)") (auto intro: get_asn1_shorter [OF sym])

declare implicit_string_loop.simps [simp del]

definition CBS_get_asn1_implicit_string :: "memory \<Rightarrow> u32 \<Rightarrow> u32 \<Rightarrow> (cbs \<times> bool) parser" where
  "CBS_get_asn1_implicit_string m outer_tag inner_tag inp =
     (if CBS_peek_asn1_tag inp outer_tag then
        (case CBS_get_asn1 outer_tag inp of
           (None, inp) \<Rightarrow> (None, inp)
         | (Some out, inp) \<Rightarrow> (Some (out, False), inp))
      else
        (case CBB_init m (length inp) of
           None \<Rightarrow> (None, inp)
         | Some result \<Rightarrow>
             (case CBS_get_asn1 (outer_tag OR CBS_ASN1_CONSTRUCTED) inp of
                (None, inp) \<Rightarrow> (None, inp)
              | (Some child, inp) \<Rightarrow>
                  (case implicit_string_loop m result child inner_tag of
                     (False, _) \<Rightarrow> (None, inp)
                   | (True, result) \<Rightarrow>
                       (case CBB_finish m 0 False result of
                          (None, _) \<Rightarrow> (None, inp)
                        | (Some out, _) \<Rightarrow> (Some (out, True), inp))))))"

text \<open>\<^verbatim>\<open>CBB_finish_i2d\<close>.  \<^verbatim>\<open>outp\<close> is null, points to a null pointer, or points to the address of a buffer; the result is the
  value returned, the buffer handed over in the second case, the memory and the new value of \<^verbatim>\<open>outp\<close>.\<close>

datatype i2d_outp = Outp_NULL | Outp_to_NULL | Outp_to nat

definition CBB_finish_i2d ::
  "memory \<Rightarrow> cbb \<Rightarrow> mem \<Rightarrow> i2d_outp \<Rightarrow> int \<times> byte list option \<times> mem \<times> i2d_outp" where
  "CBB_finish_i2d m cbb h outp =
     (case CBB_finish m 0 False cbb of
        (None, _) \<Rightarrow> (- 1, None, h, outp)
      | (Some der, _) \<Rightarrow>
          if length der > 2 ^ 31 - 1 then (- 1, None, h, outp)
          else
            (case outp of
               Outp_NULL \<Rightarrow> (int (length der), None, h, outp)
             | Outp_to_NULL \<Rightarrow> (int (length der), Some der, h, outp)
             | Outp_to p \<Rightarrow> (int (length der), None, write_bytes h p der, Outp_to (p + length der))))"

section \<open>The grammar\<close>

datatype asn1 = Primitive u32 "byte list" | Constructed u32 "asn1 list"

abbreviation constructed :: "u32 \<Rightarrow> bool" where
  "constructed t \<equiv> t AND CBS_ASN1_CONSTRUCTED \<noteq> 0"

text \<open>
  \<open>ber bs x strict\<close>: the bytes are a BER encoding of the value, with lengths of at most four bytes; \<open>strict\<close> tells whether
  every length in it is definite and minimal and no string is constructed, as DER demands.
\<close>

inductive ber :: "byte list \<Rightarrow> asn1 \<Rightarrow> bool \<Rightarrow> bool" and bers :: "byte list \<Rightarrow> asn1 list \<Rightarrow> bool \<Rightarrow> bool" where
  primitive: "tag_valid t \<Longrightarrow> \<not> constructed t \<Longrightarrow> ber_length ls (length body) \<Longrightarrow>
    ber (der_tag t @ ls @ body) (Primitive t body) (ls = der_length (length body))"
| definite: "tag_valid t \<Longrightarrow> constructed t \<Longrightarrow> ber_length ls (length body) \<Longrightarrow> bers body xs strict \<Longrightarrow>
    ber (der_tag t @ ls @ body) (Constructed t xs) (ls = der_length (length body) \<and> \<not> is_string_type t \<and> strict)"
| indefinite: "tag_valid t \<Longrightarrow> constructed t \<Longrightarrow> bers body xs strict \<Longrightarrow>
    ber (der_tag t @ 0x80 # body @ [0, 0]) (Constructed t xs) False"
| none: "bers [] [] True"
| more: "ber as x strict \<Longrightarrow> bers bs xs strict' \<Longrightarrow> bers (as @ bs) (x # xs) (strict \<and> strict')"

text \<open>At most \<open>n\<close> constructed elements inside one another.\<close>

fun nested_within :: "nat \<Rightarrow> asn1 \<Rightarrow> bool" where
  "nested_within n (Primitive t body) = True"
| "nested_within 0 (Constructed t xs) = False"
| "nested_within (Suc n) (Constructed t xs) = list_all (nested_within n) xs"

text \<open>Values in DER form: the constructed strings are joined, and every length is minimal.\<close>

fun fragments :: "u32 \<Rightarrow> asn1 \<Rightarrow> byte list option" and joined :: "u32 \<Rightarrow> asn1 list \<Rightarrow> byte list option" where
  "fragments st (Primitive t body) = (if t = st then Some body else None)"
| "fragments st (Constructed t xs) = (if t AND NOT CBS_ASN1_CONSTRUCTED = st then joined st xs else None)"
| "joined st [] = Some []"
| "joined st (x # xs) = (case (fragments st x, joined st xs) of (Some a, Some b) \<Rightarrow> Some (a @ b) | _ \<Rightarrow> None)"

fun der_form :: "asn1 \<Rightarrow> asn1 option" and der_forms :: "asn1 list \<Rightarrow> asn1 list option" where
  "der_form (Primitive t body) = Some (Primitive t body)"
| "der_form (Constructed t xs) =
     (if is_string_type t then
        map_option (Primitive (t AND NOT CBS_ASN1_CONSTRUCTED)) (joined (t AND NOT CBS_ASN1_CONSTRUCTED) xs)
      else map_option (Constructed t) (der_forms xs))"
| "der_forms [] = Some []"
| "der_forms (x # xs) = (case (der_form x, der_forms xs) of (Some y, Some ys) \<Rightarrow> Some (y # ys) | _ \<Rightarrow> None)"

fun der_encode :: "asn1 \<Rightarrow> byte list" where
  "der_encode (Primitive t body) = der_header t (length body) @ body"
| "der_encode (Constructed t xs) =
     (let body = concat (map der_encode xs) in der_header t (length body) @ body)"

text \<open>What \<open>cbs_convert_ber\<close> writes for a value with the given \<^verbatim>\<open>string_tag\<close>.\<close>

definition render :: "u32 \<Rightarrow> asn1 \<Rightarrow> byte list option" where
  "render st x = (if st = 0 then map_option der_encode (der_form x) else fragments st x)"

definition renders :: "u32 \<Rightarrow> asn1 list \<Rightarrow> byte list option" where
  "renders st xs = (if st = 0 then map_option (\<lambda>ys. concat (map der_encode ys)) (der_forms xs) else joined st xs)"

definition wrapped :: "u32 \<Rightarrow> u32 \<Rightarrow> byte list \<Rightarrow> byte list" where
  "wrapped st t b = (if st \<noteq> 0 then b else der_header (ber_out_tag t) (length b) @ b)"

definition matches :: "u32 \<Rightarrow> u32 \<Rightarrow> bool" where
  "matches st t \<longleftrightarrow> st = 0 \<or> t AND NOT CBS_ASN1_CONSTRUCTED = st"

lemma renders_Nil [simp]: "renders st [] = Some []"
  by (simp add: renders_def)

lemma renders_Cons:
  "renders st (x # xs) = Some b \<longleftrightarrow> (\<exists>b1 b2. render st x = Some b1 \<and> renders st xs = Some b2 \<and> b = b1 @ b2)"
  by (auto simp: renders_def render_def split: option.splits)

lemma primitive_tag: "\<not> constructed t \<Longrightarrow> t AND NOT CBS_ASN1_CONSTRUCTED = t"
  by (auto simp: bit_eq_iff bit_and_iff bit_not_iff possible_bit_less_imp)

lemma render_primitive:
  "\<not> constructed t \<Longrightarrow> render st (Primitive t body) = (if matches st t then Some (wrapped st t body) else None)"
  by (auto simp: render_def matches_def wrapped_def primitive_tag ber_out_tag_def constructed_string_def)

lemma render_constructed:
  assumes "tag_valid t" "constructed t"
  shows "render st (Constructed t xs) =
    (if matches st t then map_option (wrapped st t) (renders (child_string_tag st t) xs) else None)"
  using assms by (auto simp: render_def renders_def matches_def wrapped_def [abs_def] ber_out_tag_def constructed_string_def
      child_string_tag_def tag_valid_def Let_def option.map_comp o_def option.map_ident)

section \<open>The conversion as a writer\<close>

lemma der_tag_hd: "tag_valid t \<Longrightarrow> hd (der_tag t) \<noteq> 0"
proof
  assume t: "tag_valid t" and 0: "hd (der_tag t) = 0"
  have b: "unat (word_of_nat (32 * tag_class t + k) :: byte) = 32 * tag_class t + k" if "k < 32" for k
    using der_tag_byte that tag_bounds by simp
  have "tag_number t < 31" using 0 b [of 31] by (cases "tag_number t < 31") (auto simp: der_tag_def)
  with 0 b [of "tag_number t"] have "tag_class t = 0" "tag_number t = 0" by (auto simp: der_tag_def)
  then have "t = 0" using tag_join [of t] by simp
  with t show False by (simp add: tag_valid_def)
qed

lemma no_eoc: "tag_valid t \<Longrightarrow> cbs_get_eoc (der_tag t @ s) = (None, der_tag t @ s)"
  using der_tag_hd [of t] der_tag_nonempty [of t] by (auto simp: cbs_get_eoc_def hd_conv_nth nth_append)

lemma eoc: "cbs_get_eoc (0 # 0 # s) = (Some (), s)"
  by (simp add: cbs_get_eoc_def CBS_skip_def bindp_def cbs_get_def retp_def)

text \<open>A writer that cleans up after a failure, as the callers of \<open>cbs_convert_ber\<close> do.\<close>

definition cleaning :: "(memory \<Rightarrow> nat \<Rightarrow> cbb \<Rightarrow> bool \<times> cbb) \<Rightarrow> memory \<Rightarrow> nat \<Rightarrow> cbb \<Rightarrow> bool \<times> cbb" where
  "cleaning w m d c = (case w m d c of (True, c') \<Rightarrow> (True, c') | (False, c') \<Rightarrow> (False, cbb_on_error d c'))"

lemma cleaning_fresh:
  assumes "fresh_writer w bs"
  shows "fresh_writer (cleaning w) bs"
proof
  fix c d m r c'
  assume c: "cbb_ok c" "length (children c) = d" "length bs < size_max" and run: "cleaning w m d c = (r, c')"
  obtain r1 c1 where r1: "w m d c = (r1, c1)" by fastforce
  have a: "adds m d bs c r1 c1" by (rule fresh_writer.adds_fresh [OF assms c r1])
  have "r1 = r \<and> c' = c1"
    using run r1 a on_error_failed [of c1 d] c(2) by (cases r1) (auto simp: cleaning_def adds_def)
  with a show "adds m d bs c r c'" by simp
qed

lemma on_error_nested: "d \<le> d' \<Longrightarrow> cbb_on_error d (cbb_on_error d' c) = cbb_on_error d c"
  by (simp add: cbb_on_error_def min_absorb1)

text \<open>The conversion of \<open>inp\<close> amounts to the writer \<open>w\<close> followed by the conversion of \<open>rest\<close>.\<close>

definition converts :: "u32 \<Rightarrow> bool \<Rightarrow> nat \<Rightarrow> cbs \<Rightarrow> (memory \<Rightarrow> nat \<Rightarrow> cbb \<Rightarrow> bool \<times> cbb) \<Rightarrow> cbs \<Rightarrow> bool" where
  "converts st eoc depth inp w rest \<longleftrightarrow> (\<forall>m d c. case w m d c of
     (True, c') \<Rightarrow> cbs_convert_ber m inp d c st eoc depth = cbs_convert_ber m rest d c' st eoc depth
   | (False, c') \<Rightarrow> (\<exists>s c''. cbs_convert_ber m inp d c st eoc depth = (False, s, c'') \<and> c' = cbb_on_error d c''))"

lemma converts_seq:
  assumes "converts st eoc depth s w1 s'" "converts st eoc depth s' w2 s''"
  shows "converts st eoc depth s (and_then w1 w2) s''"
  unfolding converts_def
proof (intro allI)
  fix m d c
  obtain r1 c1 where r1: "w1 m d c = (r1, c1)" by fastforce
  obtain r2 c2 where r2: "w2 m d c1 = (r2, c2)" by fastforce
  show "case and_then w1 w2 m d c of
     (True, c') \<Rightarrow> cbs_convert_ber m s d c st eoc depth = cbs_convert_ber m s'' d c' st eoc depth
   | (False, c') \<Rightarrow> (\<exists>s' c''. cbs_convert_ber m s d c st eoc depth = (False, s', c'') \<and> c' = cbb_on_error d c'')"
    using spec [OF spec [OF spec [OF assms(1) [unfolded converts_def], of m], of d], of c]
      spec [OF spec [OF spec [OF assms(2) [unfolded converts_def], of m], of d], of c1] r1 r2
    by (cases r1; cases r2) (auto simp: and_then_def)
qed

text \<open>The conversion of the contents of an element, in its own frame.\<close>

definition converts_body :: "u32 \<Rightarrow> nat \<Rightarrow> element \<Rightarrow> cbs \<Rightarrow> (memory \<Rightarrow> nat \<Rightarrow> cbb \<Rightarrow> bool \<times> cbb) \<Rightarrow> cbs \<Rightarrow> bool" where
  "converts_body cst depth e rest w rest' \<longleftrightarrow> (\<forall>m d c.
     let res = (if el_indefinite e then cbs_convert_ber m rest d c cst True (depth + 1)
       else (case CBS_skip (el_header_len e) (el_out e) of
          (None, _) \<Rightarrow> (False, rest, c)
        | (Some _, contents) \<Rightarrow>
            if constructed (el_tag e) then
              (case cbs_convert_ber m contents d c cst False (depth + 1) of (r, _, c) \<Rightarrow> (r, rest, c))
            else (case CBB_add_bytes m d c contents of (r, c) \<Rightarrow> (r, rest, c))))
     in case w m d c of (True, c') \<Rightarrow> res = (True, rest', c')
        | (False, c') \<Rightarrow> \<exists>s c''. res = (False, s, c'') \<and> c' = cbb_on_error d c'')"

definition framed :: "u32 \<Rightarrow> u32 \<Rightarrow> (memory \<Rightarrow> nat \<Rightarrow> cbb \<Rightarrow> bool \<times> cbb) \<Rightarrow> memory \<Rightarrow> nat \<Rightarrow> cbb \<Rightarrow> bool \<times> cbb" where
  "framed st t w = (if st \<noteq> 0 then cleaning (and_then w CBB_flush) else enclose (\<lambda>m d c. CBB_add_asn1 m d c (ber_out_tag t)) w)"

lemma framed_fresh:
  assumes "fresh_writer w b" "length b \<le> 0xfffffffe"
  shows "fresh_writer (framed st t w) (wrapped st t b)"
proof (cases "st = 0")
  case True
  then show ?thesis using fresh [OF asn1_element_fresh [OF assms]] by (simp add: framed_def wrapped_def)
next
  case False
  then show ?thesis
    using cleaning_fresh [OF fresh_seq [OF assms(1) flush.fresh_writer_axioms]] by (simp add: framed_def wrapped_def)
qed

lemma converts_element:
  assumes "depth \<le> kMaxDepth" "eoc \<Longrightarrow> fst (cbs_get_eoc s) = None" "CBS_get_any_ber_asn1_element s = (Some e, rest)"
    and "matches st (el_tag e)"
    and body: "converts_body (child_string_tag st (el_tag e)) depth e rest w rest'"
  shows "converts st eoc depth s (framed st (el_tag e) w) rest'"
  unfolding converts_def
proof (intro allI)
  fix m d c
  have ne: "s \<noteq> []" using ber_element_split(1,2,3) [OF assms(3)] by auto
  obtain r1 c1 where r1: "open_contents m st (el_tag e) d c = (r1, c1)" by fastforce
  let ?d = "out_contents st d"
  obtain r2 c2 where r2: "w m ?d c1 = (r2, c2)" by fastforce
  let ?res = "if el_indefinite e then cbs_convert_ber m rest ?d c1 (child_string_tag st (el_tag e)) True (depth + 1)
       else (case CBS_skip (el_header_len e) (el_out e) of
          (None, _) \<Rightarrow> (False, rest, c1)
        | (Some _, contents) \<Rightarrow>
            if constructed (el_tag e) then
              (case cbs_convert_ber m contents ?d c1 (child_string_tag st (el_tag e)) False (depth + 1) of (r, _, c) \<Rightarrow> (r, rest, c))
            else (case CBB_add_bytes m ?d c1 contents of (r, c) \<Rightarrow> (r, rest, c)))"
  obtain x sx cx where res: "?res = (x, sx, cx)" by (rule prod_cases3)
  have b: "case w m ?d c1 of (True, c') \<Rightarrow> (x, sx, cx) = (True, rest', c')
        | (False, c') \<Rightarrow> \<exists>s c''. (x, sx, cx) = (False, s, c'') \<and> c' = cbb_on_error ?d c''"
    using spec [OF spec [OF spec [OF body [unfolded converts_body_def], of m], of ?d], of c1]
    by (simp only: Let_def res)
  then have b: "x = r2" "if r2 then sx = rest' \<and> cx = c2 else c2 = cbb_on_error ?d cx"
    using r2 by (cases r2; simp)+
  obtain r3 c3 where r3: "CBB_flush m d cx = (r3, c3)" by fastforce
  have run: "cbs_convert_ber m s d c st eoc depth =
    (if \<not> r1 then (False, rest, c1) else if \<not> x then (False, sx, cx) else if \<not> r3 then (False, sx, c3)
     else cbs_convert_ber m sx d c3 st eoc depth)"
    by (subst cbs_convert_ber.simps) (use assms(1-3) ne r1 r3 in \<open>auto simp: res\<close>)
  have oe: "if r2 then cx = c2 else cbb_on_error d c2 = cbb_on_error d cx"
    using b(2) on_error_nested [of d ?d cx] by (cases r2) (simp_all add: out_contents_def)
  have f: "framed st (el_tag e) w m d c =
    (if \<not> r1 then (False, cbb_on_error d c1) else if \<not> x then (False, cbb_on_error d cx)
     else if \<not> r3 then (False, cbb_on_error d c3) else (True, c3))"
  proof (cases "st = 0")
    case True
    then have o: "CBB_add_asn1 m d c (ber_out_tag (el_tag e)) = (r1, c1)" "w m (d + 1) c1 = (r2, c2)"
      using r1 r2 by (simp_all add: open_contents_def out_contents_def)
    have "framed st (el_tag e) w m d c = enclose (\<lambda>m d c. CBB_add_asn1 m d c (ber_out_tag (el_tag e))) w m d c"
      using True by (simp add: framed_def)
    then show ?thesis
      using o b(1) r3 oe by (cases r1; cases r2) (simp_all add: enclose_def)
  next
    case False
    then have o: "r1" "w m d c = (r2, c2)"
      using r1 r2 assms(4) by (simp_all add: open_contents_def out_contents_def matches_def)
    have "framed st (el_tag e) w m d c = cleaning (and_then w CBB_flush) m d c" using False by (simp add: framed_def)
    then show ?thesis
      using o b(1) r3 oe by (cases r2) (simp_all add: cleaning_def and_then_def)
  qed
  show "case framed st (el_tag e) w m d c of
     (True, c') \<Rightarrow> cbs_convert_ber m s d c st eoc depth = cbs_convert_ber m rest' d c' st eoc depth
   | (False, c') \<Rightarrow> (\<exists>s' c''. cbs_convert_ber m s d c st eoc depth = (False, s', c'') \<and> c' = cbb_on_error d c'')"
    unfolding f run using b by (cases r1; cases r2; cases r3) auto
qed

lemma skip_definite: "CBS_skip (el_header_len (ber_definite t ls body)) (el_out (ber_definite t ls body)) = (Some (), body)"
  by (simp add: ber_definite_def CBS_skip_def bindp_def cbs_get_def retp_def)

lemma ber_element_tag [simp]:
  "el_tag (ber_definite t ls body) = t" "el_tag (ber_indefinite t) = t"
  "\<not> el_indefinite (ber_definite t ls body)" "el_indefinite (ber_indefinite t)"
  "el_ber_found (ber_indefinite t)" "el_ber_found (ber_definite t ls body) \<longleftrightarrow> ls \<noteq> der_length (length body)"
  by (simp_all add: ber_definite_def ber_indefinite_def)

lemma convert_end: "depth \<le> kMaxDepth \<Longrightarrow> cbs_convert_ber m [] d c st eoc depth = (\<not> eoc, [], c)"
  by (subst cbs_convert_ber.simps) simp

lemma convert_eoc: "depth \<le> kMaxDepth \<Longrightarrow> cbs_convert_ber m (0 # 0 # r) d c st True depth = (True, r, c)"
  by (subst cbs_convert_ber.simps) (simp add: eoc)

lemma body_primitive:
  "\<not> constructed t \<Longrightarrow> converts_body cst depth (ber_definite t ls body) rest (cleaning (\<lambda>m d c. CBB_add_bytes m d c body)) rest"
  by (auto simp: converts_body_def skip_definite cleaning_def split: prod.splits bool.splits)

lemma body_definite:
  assumes "constructed t" "depth + 1 \<le> kMaxDepth" "converts cst False (depth + 1) body w []"
  shows "converts_body cst depth (ber_definite t ls body) rest w rest"
  using assms(1) assms(3) [unfolded converts_def] convert_end [OF assms(2)]
  by (fastforce simp: converts_body_def skip_definite split: prod.splits bool.splits)

lemma body_indefinite:
  assumes "depth + 1 \<le> kMaxDepth" "converts cst True (depth + 1) s w (0 # 0 # r)"
  shows "converts_body cst depth (ber_indefinite t) s w r"
  using assms(2) [unfolded converts_def] convert_eoc [OF assms(1)]
  by (fastforce simp: converts_body_def split: prod.splits bool.splits)

lemma nested_within_Constructed:
  "nested_within n (Constructed t xs) \<longleftrightarrow> n \<noteq> 0 \<and> list_all (nested_within (n - 1)) xs"
  by (cases n) simp_all

lemma length_wrapped: "length b \<le> length (wrapped st t b)"
  by (simp add: wrapped_def)

lemma converts_grammar:
  "ber s x strict \<Longrightarrow> depth \<le> kMaxDepth \<Longrightarrow> nested_within (kMaxDepth - depth) x \<Longrightarrow> render st x = Some b \<Longrightarrow>
   length b \<le> 0xfffffffe \<Longrightarrow> \<exists>w. fresh_writer w b \<and> converts st eoc depth (s @ r) w r"
  "bers s xs strict \<Longrightarrow> depth \<le> kMaxDepth \<Longrightarrow> list_all (nested_within (kMaxDepth - depth)) xs \<Longrightarrow> renders st xs = Some b \<Longrightarrow>
   length b \<le> 0xfffffffe \<Longrightarrow> \<exists>w. fresh_writer w b \<and> converts st eoc depth (s @ r) w r"
proof (induction arbitrary: depth st b eoc r and depth st b eoc r rule: ber_bers.inducts)
  case (primitive t ls body)
  let ?e = "ber_definite t ls body"
  have b: "matches st t" "b = wrapped st t body" using primitive by (auto simp: render_primitive split: if_splits)
  have "converts st eoc depth (der_tag t @ ls @ body @ r) (framed st t (cleaning (\<lambda>m d c. CBB_add_bytes m d c body))) r"
    using converts_element [of depth eoc "der_tag t @ ls @ body @ r" ?e r st, OF primitive(4) _ _ _ body_primitive] primitive b
    by (simp add: ber_element_definite no_eoc)
  moreover have "fresh_writer (framed st t (cleaning (\<lambda>m d c. CBB_add_bytes m d c body))) b"
    unfolding b using primitive length_wrapped [of body st t] b
    by (intro framed_fresh cleaning_fresh fresh bytes.writer_axioms) simp
  ultimately show ?case by auto
next
  case (definite t ls body xs strict)
  obtain bb where b: "matches st t" "b = wrapped st t bb" "renders (child_string_tag st t) xs = Some bb"
    using definite by (auto simp: render_constructed split: if_splits)
  have d1: "depth + 1 \<le> kMaxDepth" "list_all (nested_within (kMaxDepth - (depth + 1))) xs"
    using definite(6,7) by (simp_all add: nested_within_Constructed)
  have "length bb \<le> 0xfffffffe" using definite b length_wrapped [of bb st t] by simp
  with definite(5) [OF d1 b(3), of False "[]"] obtain w where
    w: "fresh_writer w bb" "converts (child_string_tag st t) False (depth + 1) body w []" "length bb \<le> 0xfffffffe" by auto
  have "converts st eoc depth (der_tag t @ ls @ body @ r) (framed st t w) r"
    using converts_element [of depth eoc "der_tag t @ ls @ body @ r" "ber_definite t ls body" r st, OF definite(6) _ _ _ body_definite]
      definite(1-3) b(1) w(2) d1 by (simp add: ber_element_definite no_eoc)
  with framed_fresh [OF w(1,3), of st t] b(2) show ?case by auto
next
  case (indefinite t body xs strict)
  obtain bb where b: "matches st t" "b = wrapped st t bb" "renders (child_string_tag st t) xs = Some bb"
    using indefinite by (auto simp: render_constructed split: if_splits)
  have d1: "depth + 1 \<le> kMaxDepth" "list_all (nested_within (kMaxDepth - (depth + 1))) xs"
    using indefinite(5,6) by (simp_all add: nested_within_Constructed)
  have "length bb \<le> 0xfffffffe" using indefinite b length_wrapped [of bb st t] by simp
  with indefinite(4) [OF d1 b(3), of True "0 # 0 # r"] obtain w where
    w: "fresh_writer w bb" "converts (child_string_tag st t) True (depth + 1) (body @ 0 # 0 # r) w (0 # 0 # r)"
      "length bb \<le> 0xfffffffe" by auto
  have el: "CBS_get_any_ber_asn1_element (der_tag t @ 0x80 # body @ 0 # 0 # r) = (Some (ber_indefinite t), body @ 0 # 0 # r)"
    using indefinite(1,2) by (auto simp: ber_element_iff)
  have "converts st eoc depth (der_tag t @ 0x80 # body @ 0 # 0 # r) (framed st t w) r"
    using converts_element [OF indefinite(5) _ el _ body_indefinite [OF d1(1)], of eoc st w r] indefinite(1) b(1) w(2)
    by (simp add: no_eoc)
  with framed_fresh [OF w(1,3), of st t] b(2) show ?case by auto
next
  case none
  then show ?case using nothing.fresh_writer_axioms by (auto simp: converts_def)
next
  case (more as x strict bs xs strict')
  obtain b1 b2 where b: "render st x = Some b1" "renders st xs = Some b2" "b = b1 @ b2"
    using more by (auto simp: renders_Cons)
  obtain w1 where w1: "fresh_writer w1 b1" "converts st eoc depth (as @ bs @ r) w1 (bs @ r)"
    using more(3) [OF more(5) _ b(1), of eoc "bs @ r"] more(6,8) b(3) by auto
  obtain w2 where w2: "fresh_writer w2 b2" "converts st eoc depth (bs @ r) w2 r"
    using more(4) [OF more(5) _ b(2), of eoc r] more(6,8) b(3) by auto
  show ?case using fresh_seq [OF w1(1) w2(1)] converts_seq [OF w1(2) w2(2)] b(3) by auto
qed

section \<open>What a successful conversion has read\<close>

definition eoc_bytes :: "bool \<Rightarrow> byte list" where
  "eoc_bytes eoc = (if eoc then [0, 0] else [])"

text \<open>What a successful conversion has read.\<close>

definition reads :: "u32 \<Rightarrow> bool \<Rightarrow> nat \<Rightarrow> cbs \<Rightarrow> cbs \<Rightarrow> bool" where
  "reads st eoc depth inp rest \<longleftrightarrow> depth \<le> kMaxDepth \<and> (\<exists>s xs strict. inp = s @ eoc_bytes eoc @ rest \<and>
     (eoc \<or> rest = []) \<and> bers s xs strict \<and> list_all (nested_within (kMaxDepth - depth)) xs \<and> renders st xs \<noteq> None)"

lemma reads_end: "depth \<le> kMaxDepth \<Longrightarrow> reads st False depth [] []" "depth \<le> kMaxDepth \<Longrightarrow> reads st True depth (0 # 0 # r) r"
  using ber_bers.none by (auto simp: reads_def eoc_bytes_def)

lemma reads_more:
  assumes "ber s x strict" "nested_within (kMaxDepth - depth) x" "render st x \<noteq> None" "reads st eoc depth inp rest"
  shows "reads st eoc depth (s @ inp) rest"
proof -
  obtain s' xs strict' where "inp = s' @ eoc_bytes eoc @ rest" "eoc \<or> rest = []" "bers s' xs strict'"
    "list_all (nested_within (kMaxDepth - depth)) xs" "renders st xs \<noteq> None" "depth \<le> kMaxDepth"
    using assms(4) by (auto simp: reads_def)
  moreover have "bers (s @ s') (x # xs) (strict \<and> strict')" using assms(1) calculation(3) by (rule ber_bers.more)
  moreover have "renders st (x # xs) \<noteq> None"
    using calculation(5) assms(3) renders_Cons [of st x xs] by blast
  ultimately show ?thesis
    using assms(2) unfolding reads_def
    by (intro conjI exI [of _ "s @ s'"] exI [of _ "x # xs"] exI [of _ "strict \<and> strict'"]) simp_all
qed

lemma get_eoc_Some: "fst (cbs_get_eoc s) \<noteq> None \<Longrightarrow> s = 0 # 0 # snd (cbs_get_eoc s)"
  by (cases s; cases "tl s") (auto simp: cbs_get_eoc_def CBS_skip_def bindp_def cbs_get_def retp_def split: if_splits)

lemma open_matches: "open_contents m st t d c = (True, c') \<Longrightarrow> matches st t"
  by (auto simp: open_contents_def matches_def split: if_splits)

text \<open>The element an iteration consumes, from what the recursive calls have read.\<close>

lemma reads_element:
  assumes el: "CBS_get_any_ber_asn1_element inp = (Some e, rest1)" and m: "matches st (el_tag e)"
    and depth: "depth \<le> kMaxDepth" and tail: "reads st eoc depth rest2 rest"
    and body: "if el_indefinite e then reads (child_string_tag st (el_tag e)) True (depth + 1) rest1 rest2
      else rest2 = rest1 \<and> (constructed (el_tag e) \<longrightarrow>
        (\<exists>r. reads (child_string_tag st (el_tag e)) False (depth + 1) (snd (CBS_skip (el_header_len e) (el_out e))) r))"
  shows "reads st eoc depth inp rest"
proof -
  from el obtain t where t: "tag_valid t" and
    cases: "(\<exists>ls body. ber_length ls (length body) \<and> inp = der_tag t @ ls @ body @ rest1 \<and> e = ber_definite t ls body) \<or>
      constructed t \<and> inp = der_tag t @ 0x80 # rest1 \<and> e = ber_indefinite t"
    unfolding ber_element_iff by blast
  have "\<exists>s x strict. inp = s @ rest2 \<and> ber s x strict \<and> nested_within (kMaxDepth - depth) x \<and> render st x \<noteq> None"
    using cases
  proof (elim disjE exE conjE)
    fix ls body'
    assume ls: "ber_length ls (length body')" and s: "inp = der_tag t @ ls @ body' @ rest1" and e: "e = ber_definite t ls body'"
    have r2: "rest2 = rest1" using body e by simp
    show ?thesis
    proof (cases "constructed t")
      case False
      with ber_bers.primitive [OF t False ls] s r2 e m show ?thesis
        by (intro exI [of _ "der_tag t @ ls @ body'"] exI [of _ "Primitive t body'"]) (auto simp: render_primitive)
    next
      case True
      obtain r where r: "reads (child_string_tag st t) False (depth + 1) body' r"
        using body e skip_definite [of t ls body'] True by auto
      then obtain xs strict where xs: "bers body' xs strict" "list_all (nested_within (kMaxDepth - (depth + 1))) xs"
        "renders (child_string_tag st t) xs \<noteq> None" "depth + 1 \<le> kMaxDepth"
        by (auto simp: reads_def eoc_bytes_def)
      with ber_bers.definite [OF t True ls xs(1)] s r2 e m True t show ?thesis
        by (intro exI [of _ "der_tag t @ ls @ body'"] exI [of _ "Constructed t xs"])
          (auto simp: render_constructed nested_within_Constructed)
    qed
  next
    assume c: "constructed t" and s: "inp = der_tag t @ 0x80 # rest1" and e: "e = ber_indefinite t"
    obtain s1 xs strict where xs: "rest1 = s1 @ [0, 0] @ rest2" "bers s1 xs strict"
      "list_all (nested_within (kMaxDepth - (depth + 1))) xs" "renders (child_string_tag st t) xs \<noteq> None" "depth + 1 \<le> kMaxDepth"
      using body e by (auto simp: reads_def eoc_bytes_def)
    with ber_bers.indefinite [OF t c xs(2)] s e m c t show ?thesis
      by (intro exI [of _ "der_tag t @ 0x80 # s1 @ [0, 0]"] exI [of _ "Constructed t xs"])
        (auto simp: render_constructed nested_within_Constructed)
  qed
  then show ?thesis using reads_more [OF _ _ _ tail] by blast
qed

lemma convert_reads:
  "cbs_convert_ber m inp d c st eoc depth = (True, rest, c') \<Longrightarrow> reads st eoc depth inp rest"
proof (induction m inp d c st eoc depth arbitrary: rest c' rule: cbs_convert_ber.induct)
  case (1 m inp d c st eoc depth)
  have depth: "depth \<le> kMaxDepth" using 1(4) by (subst (asm) cbs_convert_ber.simps) (simp split: if_splits)
  show ?case
  proof (cases "inp = [] \<or> eoc \<and> fst (cbs_get_eoc inp) \<noteq> None")
    case True
    then show ?thesis
      using 1(4) depth reads_end [of depth st] get_eoc_Some [of inp]
      by (subst (asm) cbs_convert_ber.simps) (auto split: if_splits)
  next
    case False
    obtain x rest1 where el: "CBS_get_any_ber_asn1_element inp = (x, rest1)" by fastforce
    note run = 1(4) [unfolded cbs_convert_ber.simps [of m inp]]
    from run False depth el obtain e where x: "x = Some e" by (cases x) (auto simp: not_less)
    obtain o1 c1 where o1: "open_contents m st (el_tag e) d c = (o1, c1)" by fastforce
    let ?body = "if el_indefinite e then
        cbs_convert_ber m rest1 (out_contents st d) c1 (child_string_tag st (el_tag e)) True (depth + 1)
      else
        (case CBS_skip (el_header_len e) (el_out e) of
           (None, _) \<Rightarrow> (False, rest1, c1)
         | (Some _, contents) \<Rightarrow>
             if constructed (el_tag e) then
               (case cbs_convert_ber m contents (out_contents st d) c1 (child_string_tag st (el_tag e)) False
                  (depth + 1) of (r, _, c) \<Rightarrow> (r, rest1, c))
             else (case CBB_add_bytes m (out_contents st d) c1 contents of (r, c) \<Rightarrow> (r, rest1, c)))"
    obtain r2 rest2 c2 where body: "?body = (r2, rest2, c2)" by (rule prod_cases3)
    obtain r3 c3 where r3: "CBB_flush m d c2 = (r3, c3)" by fastforce
    have ok: "o1" "r2" "r3" and tail: "cbs_convert_ber m rest2 d c3 st eoc depth = (True, rest, c')"
      using run False depth el x o1 r3 body by (auto simp: not_less split: if_splits bool.splits)
    have depth': "\<not> kMaxDepth < depth" "inp \<noteq> []" "\<not> (eoc \<and> fst (cbs_get_eoc inp) \<noteq> None)" using depth False by auto
    note pre = depth' el [symmetric] x o1 [symmetric]
    show ?thesis
    proof (rule reads_element [OF el [unfolded x] open_matches [OF o1 [unfolded eqTrueI [OF ok(1)]]] depth])
      show "reads st eoc depth rest2 rest"
        using 1(3) [OF pre _ body [symmetric] _ refl r3 [symmetric] _ tail] ok by simp
      show "if el_indefinite e then reads (child_string_tag st (el_tag e)) True (depth + 1) rest1 rest2
        else rest2 = rest1 \<and> (constructed (el_tag e) \<longrightarrow>
          (\<exists>r. reads (child_string_tag st (el_tag e)) False (depth + 1) (snd (CBS_skip (el_header_len e) (el_out e))) r))"
      proof (cases "el_indefinite e")
        case True
        then show ?thesis using 1(1) [OF pre _ True, of rest2 c2] ok body by simp
      next
        case False
        then show ?thesis
          using 1(2) [OF pre _ False] ok body
          by (auto split: option.splits prod.splits if_splits)
      qed
    qed
  qed
qed

section \<open>The search for BER\<close>

lemma find_end: "depth \<le> kMaxDepth \<Longrightarrow> cbs_find_ber [] depth = Some False"
  by (subst cbs_find_ber.simps) simp

lemma find_element:
  assumes "depth \<le> kMaxDepth" "CBS_get_any_ber_asn1_element s = (Some e, rest)"
  shows "cbs_find_ber s depth =
    (if el_ber_found e \<or> constructed_string (el_tag e) then Some True
     else if constructed (el_tag e) then
       (case CBS_skip (el_header_len e) (el_out e) of
          (None, _) \<Rightarrow> None
        | (Some _, contents) \<Rightarrow>
            (case cbs_find_ber contents (depth + 1) of
               None \<Rightarrow> None | Some True \<Rightarrow> Some True | Some False \<Rightarrow> cbs_find_ber rest depth))
     else cbs_find_ber rest depth)"
proof -
  have "s \<noteq> []" using ber_element_split(3) [OF assms(2)] by auto
  then show ?thesis using assms by (subst cbs_find_ber.simps) (auto simp: constructed_string_def)
qed

text \<open>On a sentence of the grammar it finds BER exactly when the sentence is not strict.\<close>

lemma find_grammar:
  "ber s x strict \<Longrightarrow> depth \<le> kMaxDepth \<Longrightarrow> nested_within (kMaxDepth - depth) x \<Longrightarrow>
   cbs_find_ber (s @ r) depth = (if strict then cbs_find_ber r depth else Some True)"
  "bers s xs strict \<Longrightarrow> depth \<le> kMaxDepth \<Longrightarrow> list_all (nested_within (kMaxDepth - depth)) xs \<Longrightarrow>
   cbs_find_ber (s @ r) depth = (if strict then cbs_find_ber r depth else Some True)"
proof (induction arbitrary: depth r and depth r rule: ber_bers.inducts)
  case (primitive t ls body)
  have el: "CBS_get_any_ber_asn1_element (der_tag t @ ls @ body @ r) = (Some (ber_definite t ls body), r)"
    using primitive by (simp add: ber_element_definite)
  show ?case using find_element [OF primitive(4) el] primitive(2) by (simp add: constructed_string_def)
next
  case (definite t ls body xs strict)
  have el: "CBS_get_any_ber_asn1_element (der_tag t @ ls @ body @ r) = (Some (ber_definite t ls body), r)"
    using definite by (simp add: ber_element_definite)
  have d1: "depth + 1 \<le> kMaxDepth" "list_all (nested_within (kMaxDepth - (depth + 1))) xs"
    using definite(6,7) by (simp_all add: nested_within_Constructed)
  have "cbs_find_ber body (depth + 1) = Some (\<not> strict)"
    using definite(5) [OF d1, of "[]"] find_end [OF d1(1)] by simp
  then show ?case
    using find_element [OF definite(6) el] definite(2) by (auto simp: constructed_string_def skip_definite)
next
  case (indefinite t body xs strict)
  have el: "CBS_get_any_ber_asn1_element (der_tag t @ 0x80 # body @ 0 # 0 # r) = (Some (ber_indefinite t), body @ 0 # 0 # r)"
    using indefinite(1,2) by (auto simp: ber_element_iff)
  show ?case using find_element [OF indefinite(5) el] by simp
next
  case (more as x strict bs xs strict')
  then show ?case by simp
qed simp_all

lemma find_False:
  "cbs_find_ber s depth = Some False \<Longrightarrow> depth \<le> kMaxDepth \<and> (\<exists>xs. bers s xs True \<and> list_all (nested_within (kMaxDepth - depth)) xs)"
proof (induction s depth rule: cbs_find_ber.induct)
  case (1 s depth)
  have depth: "depth \<le> kMaxDepth" using 1(4) by (subst (asm) cbs_find_ber.simps) (simp split: if_splits)
  show ?case
  proof (cases "s = []")
    case True
    then show ?thesis using depth ber_bers.none by auto
  next
    case False
    note run = 1(4) [unfolded cbs_find_ber.simps [of s]]
    obtain z rest where el': "CBS_get_any_ber_asn1_element s = (z, rest)" by fastforce
    from run False depth el' obtain e where z: "z = Some e" by (cases z) (auto simp: not_less)
    note el = el' [unfolded z]
    have fnd: "\<not> el_ber_found e" "\<not> constructed_string (el_tag e)"
      using 1(4) find_element [OF depth el] by (auto split: if_splits)
    then obtain t body where t: "tag_valid t" and e: "e = ber_definite t (der_length (length body)) body"
      and ls: "ber_length (der_length (length body)) (length body)" "s = der_tag t @ der_length (length body) @ body @ rest"
      using el unfolding ber_element_iff by auto
    have pre: "\<not> kMaxDepth < depth" using depth by simp
    show ?thesis
    proof (cases "constructed t")
      case c: False
      then have "cbs_find_ber rest depth = Some False" using 1(4) find_element [OF depth el] fnd e by simp
      then obtain xs where xs: "bers rest xs True" "list_all (nested_within (kMaxDepth - depth)) xs"
        using 1(3) [OF pre False el' [symmetric] z fnd(1)] e c by auto
      from ber_bers.more [OF ber_bers.primitive [OF t c ls(1)] xs(1)] xs(2) ls(2) depth show ?thesis
        by (intro conjI exI [of _ "Primitive t body # xs"]) simp_all
    next
      case c: True
      have f: "cbs_find_ber body (depth + 1) = Some False" "cbs_find_ber rest depth = Some False"
        using 1(4) find_element [OF depth el] fnd e c skip_definite [of t "der_length (length body)" body]
        by (auto split: option.splits bool.splits)
      have str: "\<not> is_string_type (el_tag e)" "constructed (el_tag e)" using fnd(2) c e by (simp_all add: constructed_string_def)
      have sk: "CBS_skip (el_header_len e) (el_out e) = (Some (), body)" using e skip_definite by simp
      obtain ys where ys: "bers body ys True" "list_all (nested_within (kMaxDepth - (depth + 1))) ys" "depth + 1 \<le> kMaxDepth"
        using 1(1) [OF pre False el' [symmetric] z fnd(1) str(2,1) sk [symmetric] refl f(1)] by auto
      obtain xs where xs: "bers rest xs True" "list_all (nested_within (kMaxDepth - depth)) xs"
        using 1(2) [OF pre False el' [symmetric] z fnd(1) str(2,1) sk [symmetric] refl f(1)] f(2) by auto
      have "bers ((der_tag t @ der_length (length body) @ body) @ rest) (Constructed t ys # xs) True"
        using ber_bers.more [OF ber_bers.definite [OF t c ls(1) ys(1)] xs(1)] str(1) e by simp
      then show ?thesis
        using ls(2) xs(2) ys(2,3) depth
        by (intro conjI exI [of _ "Constructed t ys # xs"]) (simp_all add: nested_within_Constructed)
    qed
  qed
qed

section \<open>DER forms\<close>

lemma ber_length_der: "n < 2 ^ 32 \<Longrightarrow> ber_length (der_length n) n"
  using len_octets_bounds [of n] by (auto simp: ber_length_def der_length_def)

lemma primitive_of: "\<not> constructed (t AND NOT CBS_ASN1_CONSTRUCTED)"
  by (simp add: word_bw_assocs(1)) 

lemma tag_valid_primitive: "tag_valid t \<Longrightarrow> tag_valid (t AND NOT CBS_ASN1_CONSTRUCTED)"
  by (simp add: tag_valid_def word_bw_assocs(1))

lemma der_form_encodes:
  "ber s x strict \<Longrightarrow> der_form x = Some y \<Longrightarrow> length (der_encode y) < 2 ^ 32 \<Longrightarrow> ber (der_encode y) y True"
  "bers s xs strict \<Longrightarrow> der_forms xs = Some ys \<Longrightarrow> length (concat (map der_encode ys)) < 2 ^ 32 \<Longrightarrow>
   bers (concat (map der_encode ys)) ys True"
proof (induction arbitrary: y and ys rule: ber_bers.inducts)
  case (primitive t ls body)
  then show ?case
    using ber_bers.primitive [OF primitive(1,2) ber_length_der, of body] by (auto simp: der_header_def)
next
  case (definite t ls body xs strict)
  show ?case
  proof (cases "is_string_type t")
    case True
    then obtain b where "y = Primitive (t AND NOT CBS_ASN1_CONSTRUCTED) b" using definite by auto
    then show ?thesis
      using ber_bers.primitive [OF tag_valid_primitive [OF definite(1)] primitive_of ber_length_der, of b] definite
      by (auto simp: der_header_def)
  next
    case False
    then obtain ys where ys: "der_forms xs = Some ys" "y = Constructed t ys" using definite by auto
    then have "length (concat (map der_encode ys)) < 2 ^ 32" using definite by (simp add: Let_def)
    with ber_bers.definite [OF definite(1,2) ber_length_der definite(5) [OF ys(1)]] ys False show ?thesis
      by (auto simp: der_header_def Let_def)
  qed
next
  case (indefinite t body xs strict)
  show ?case
  proof (cases "is_string_type t")
    case True
    then obtain b where "y = Primitive (t AND NOT CBS_ASN1_CONSTRUCTED) b" using indefinite by auto
    then show ?thesis
      using ber_bers.primitive [OF tag_valid_primitive [OF indefinite(1)] primitive_of ber_length_der, of b] indefinite
      by (auto simp: der_header_def)
  next
    case False
    then obtain ys where ys: "der_forms xs = Some ys" "y = Constructed t ys" using indefinite by auto
    then have "length (concat (map der_encode ys)) < 2 ^ 32" using indefinite by (simp add: Let_def)
    with ber_bers.definite [OF indefinite(1,2) ber_length_der indefinite(4) [OF ys(1)]] ys False show ?thesis
      by (auto simp: der_header_def Let_def)
  qed
next
  case none
  then show ?case using ber_bers.none by simp
next
  case (more as x strict bs xs strict')
  then obtain z zs where "der_form x = Some z" "der_forms xs = Some zs" "ys = z # zs" by (auto split: option.splits)
  with more ber_bers.more [of "der_encode z" z True "concat (map der_encode zs)" zs True] show ?case by simp
qed

lemma der_form_nested:
  "der_form x = Some y \<Longrightarrow> nested_within n x \<Longrightarrow> nested_within n y"
  "der_forms xs = Some ys \<Longrightarrow> list_all (nested_within n) xs \<Longrightarrow> list_all (nested_within n) ys"
  by (induction x and xs arbitrary: n y and n ys rule: der_form_der_forms.induct)
    (auto simp: nested_within_Constructed split: if_splits option.splits)

lemma strict_der_form:
  "ber s x strict \<Longrightarrow> strict \<Longrightarrow> der_form x = Some x \<and> s = der_encode x"
  "bers s xs strict \<Longrightarrow> strict \<Longrightarrow> der_forms xs = Some xs \<and> s = concat (map der_encode xs)"
  by (induction rule: ber_bers.inducts) (auto simp: der_header_def Let_def)

lemma length_der_tag_primitive: "length (der_tag (t AND NOT CBS_ASN1_CONSTRUCTED)) = length (der_tag t)"
proof -
  have "tag_number (t AND NOT CBS_ASN1_CONSTRUCTED) = tag_number t"
    unfolding tag_number_eq [symmetric] CBS_ASN1_TAG_NUMBER_MASK_def CBS_ASN1_CONSTRUCTED_def CBS_ASN1_TAG_SHIFT_def
    by (simp add: word_bw_assocs(1))
  then show ?thesis by (simp add: der_tag_def)
qed

lemma length_der_length_le: "length (der_length n) \<le> 5"
  by (simp add: der_length_def len_octets_def)

lemma length_wrapped_le: "length (wrapped st t b) \<le> 2 * length (der_tag t) + 4 + length b"
proof -
  have "1 \<le> length (der_tag t)" by (simp add: Suc_le_eq)
  then show ?thesis
    using length_der_length_le [of "length b"]
    by (auto simp: wrapped_def ber_out_tag_def length_der_tag_primitive der_header_def)
qed

lemma render_length:
  "ber s x strict \<Longrightarrow> render st x = Some b \<Longrightarrow> length b \<le> 3 * length s"
  "bers s xs strict \<Longrightarrow> renders st xs = Some b \<Longrightarrow> length b \<le> 3 * length s"
proof (induction arbitrary: st b and st b rule: ber_bers.inducts)
  case (primitive t ls body)
  then have b: "b = wrapped st t body" by (auto simp: render_primitive split: if_splits)
  have "1 \<le> length ls" "1 \<le> length (der_tag t)" using ber_length_bound [OF primitive(3)] by (auto simp: Suc_le_eq)
  then show ?case using length_wrapped_le [of st t body] b by simp
next
  case (definite t ls body xs strict)
  then obtain bb where b: "b = wrapped st t bb" "renders (child_string_tag st t) xs = Some bb"
    by (auto simp: render_constructed split: if_splits)
  have "1 \<le> length ls" "1 \<le> length (der_tag t)" using ber_length_bound [OF definite(3)] by (auto simp: Suc_le_eq)
  then show ?case using length_wrapped_le [of st t bb] b(1) definite(5) [OF b(2)] by simp
next
  case (indefinite t body xs strict)
  then obtain bb where b: "b = wrapped st t bb" "renders (child_string_tag st t) xs = Some bb"
    by (auto simp: render_constructed split: if_splits)
  have "1 \<le> length (der_tag t)" by (auto simp: Suc_le_eq)
  then show ?case using length_wrapped_le [of st t bb] b(1) indefinite(4) [OF b(2)] by simp
next
  case (more as x strict bs xs strict')
  then show ?case by (fastforce simp: renders_Cons)
qed simp_all

section \<open>The conversion as a whole\<close>

lemma renders_0: "renders 0 xs = map_option (\<lambda>ys. concat (map der_encode ys)) (der_forms xs)"
  by (simp add: renders_def)

lemma convert_whole:
  assumes "bers s xs strict" "list_all (nested_within kMaxDepth) xs" "der_forms xs = Some ys" "length s < 2 ^ 30"
    "CBB_init m (length s) = Some c" "b = concat (map der_encode ys)"
  shows "cbs_convert_ber m s 0 c 0 False 0 = (True, rest, c') \<Longrightarrow> rest = [] \<and> fst (CBB_finish m 0 False c') = Some b"
    and "\<forall>n. alloc m n \<Longrightarrow> fst (cbs_convert_ber m s 0 c 0 False 0)"
proof -
  have b: "renders 0 xs = Some b" using assms(3,6) by (simp add: renders_0)
  have len: "length b \<le> 3 * length s" by (rule render_length(2) [OF assms(1) b])
  obtain w where w: "fresh_writer w b" "converts 0 False 0 (s @ []) w []"
    using converts_grammar(2) [OF assms(1) _ _ b, of 0 False "[]"] assms(2,4) len by auto
  obtain r1 c1 where r1: "w m 0 c = (r1, c1)" by fastforce
  have run: "r1 \<Longrightarrow> cbs_convert_ber m s 0 c 0 False 0 = (True, [], c1)"
    "\<not> r1 \<Longrightarrow> \<not> fst (cbs_convert_ber m s 0 c 0 False 0)"
    using spec [OF spec [OF spec [OF w(2) [unfolded converts_def], of m], of 0], of c] r1 convert_end [of 0]
    by (cases r1; auto)+
  have small: "length b < size_max" "length s < size_max" "6 * length b < size_max"
    using assms(4) len by (simp_all add: size_max_def)
  note fin = finish_fresh [OF w(1) small(1,2) assms(5)]
  show "rest = [] \<and> fst (CBB_finish m 0 False c') = Some b" if "cbs_convert_ber m s 0 c 0 False 0 = (True, rest, c')"
    using that run r1 fin(1) by (cases r1) auto
  show "fst (cbs_convert_ber m s 0 c 0 False 0)" if "\<forall>n. alloc m n"
    using fin(2) [OF that small(3)] run r1 by simp
qed

text \<open>The first element of a strict input, as the DER parser sees it.\<close>

lemma strict_first:
  assumes "bers s xs True" "s \<noteq> []"
  obtains y zs a bs t body where "xs = y # zs" "s = a @ bs" "ber a y True" "bers bs zs True"
    "CBS_get_any_asn1_element s = (Some (der_element t body), bs)" "el_out (der_element t body) = a"
proof -
  from assms(1) obtain y zs a bs where y: "xs = y # zs" "s = a @ bs" "ber a y True" "bers bs zs True"
    by (cases rule: bers.cases) (use assms(2) in auto)
  from y(3) obtain t body where t: "a = der_tag t @ der_length (length body) @ body" "tag_valid t" "length body < 2 ^ 32"
    by (cases rule: ber.cases) (auto dest: ber_length_bound)
  then have "CBS_get_any_asn1_element s = (Some (der_element t body), bs)" "el_out (der_element t body) = a"
    using y(2) by (auto simp: any_asn1_element_iff der_element_def der_header_def)
  with y that show ?thesis by blast
qed

lemma ber_to_der_run:
  assumes s: "bers s xs strict" "list_all (nested_within kMaxDepth) xs" "der_forms xs = Some ys" "s \<noteq> []"
    and size: "length s < 2 ^ 30" and mem: "\<forall>n. alloc m n"
  shows "CBS_asn1_ber_to_der m s =
    (if strict then (Some (der_encode (hd ys), False), concat (map der_encode (tl ys)))
     else (Some (concat (map der_encode ys), True), []))"
proof (cases strict)
  case True
  have f: "cbs_find_ber s 0 = Some False" using find_grammar(2) [OF s(1), of 0 "[]"] s(2) find_end [of 0] True by simp
  have e: "xs = ys" "s = concat (map der_encode xs)" using strict_der_form(2) [OF s(1) True] s(3) by simp_all
  have "bers s xs True" using s(1) True by simp
  from strict_first [OF this s(4)] obtain y zs a bs t body where y: "xs = y # zs" "ber a y True" "bers bs zs True"
    "CBS_get_any_asn1_element s = (Some (der_element t body), bs)" "el_out (der_element t body) = a"
    by metis
  have "a = der_encode y" "bs = concat (map der_encode zs)" using strict_der_form y(2,3) by auto
  then show ?thesis using f y True e(1) by (simp add: CBS_asn1_ber_to_der_def)
next
  case False
  have f: "cbs_find_ber s 0 = Some True" using find_grammar(2) [OF s(1), of 0 "[]"] s(2) False by simp
  obtain c where c: "CBB_init m (length s) = Some c" using mem by (simp add: CBB_init_def)
  obtain r rest c' where r: "cbs_convert_ber m s 0 c 0 False 0 = (r, rest, c')" by (rule prod_cases3)
  have "r" using convert_whole(2) [OF s(1-3) size c refl mem] r by simp
  with convert_whole(1) [OF s(1-3) size c refl, of rest c'] r
  have "rest = []" "fst (CBB_finish m 0 False c') = Some (concat (map der_encode ys))" by simp_all
  then show ?thesis
    using f c r \<open>r\<close> False by (cases "CBB_finish m 0 False c'") (simp add: CBS_asn1_ber_to_der_def)
qed

text \<open>(C17) The first pass of the conversion is exact: \<open>cbs_find_ber\<close> reports that there is nothing to convert on
  exactly the sequences of DER elements nested at most 128 deep.\<close>

theorem find_ber_iff:
  "cbs_find_ber s 0 = Some False \<longleftrightarrow> (\<exists>xs. bers s xs True \<and> list_all (nested_within kMaxDepth) xs)"
  using find_False [of s 0] find_grammar(2) [of s _ True 0 "[]"] find_end [of 0] by auto

text \<open>(C9) \<open>CBS_asn1_ber_to_der\<close> is complete: on any BER elements of the grammar, nested at most 128 deep and with
  consistent string fragments, it succeeds when memory does not run out.  DER is returned element by element as it
  stands; anything else is converted as a whole, with every length minimal and every constructed string joined.\<close>

theorem ber_to_der_complete:
  assumes "bers s xs strict" "list_all (nested_within kMaxDepth) xs" "der_forms xs = Some ys" "s \<noteq> []"
    and "length s < 2 ^ 30" "\<forall>n. alloc m n"
  shows "CBS_asn1_ber_to_der m s =
    (if strict then (Some (der_encode (hd ys), False), concat (map der_encode (tl ys)))
     else (Some (concat (map der_encode ys), True), []))"
  by (rule ber_to_der_run [OF assms])

text \<open>An indefinite-length OCTET STRING in two fragments.\<close>

definition fragmented :: "byte list" where
  "fragmented = [0x24, 0x80, 4, 1, 0x61, 4, 1, 0x62, 0, 0]"

definition fragments_of :: asn1 where
  "fragments_of = Constructed 0x20000004 [Primitive 4 [0x61], Primitive 4 [0x62]]"

lemma der_tags: "der_tag 4 = [4]" "der_tag 0x20000004 = [0x24]" "tag_valid 4" "tag_valid 0x20000004"
  "\<not> constructed 4" "constructed 0x20000004"
  by (simp_all add: der_tag_def tag_number_def tag_class_def tag_valid_def CBS_ASN1_CONSTRUCTED_def CBS_ASN1_TAG_SHIFT_def)

lemma fragmented_bers: "bers fragmented [fragments_of] False"
proof -
  have p: "ber [4, 1, b] (Primitive 4 [b]) True" for b
    using ber_bers.primitive [of 4 "[1]" "[b]"] by (simp add: der_tags ber_length_def der_length_def)
  have "bers [4, 1, 0x61, 4, 1, 0x62] [Primitive 4 [0x61], Primitive 4 [0x62]] True"
    using ber_bers.more [OF p [of "0x61"] ber_bers.more [OF p [of "0x62"] ber_bers.none]] by simp
  from ber_bers.more [OF ber_bers.indefinite [OF der_tags(4,6) this] ber_bers.none]
  show ?thesis by (simp add: der_tags fragmented_def fragments_of_def)
qed

lemma fragmented_der: "der_forms [fragments_of] = Some [Primitive 4 [0x61, 0x62]]"
  by (simp add: fragments_of_def is_string_type_def string_tags CBS_ASN1_CONSTRUCTED_def CBS_ASN1_TAG_SHIFT_def)

lemma fragmented_nested: "list_all (nested_within kMaxDepth) [fragments_of]"
  by (simp add: fragments_of_def nested_within_Constructed kMaxDepth_def)

theorem ber_to_der_complete_witness:
  "CBS_asn1_ber_to_der (\<lambda>n. True, \<lambda>i. 0) fragmented = (Some ([4, 2, 0x61, 0x62], True), [])"
  using ber_to_der_complete [OF fragmented_bers fragmented_nested fragmented_der, where m = "(\<lambda>n. True, \<lambda>i. 0)"]
  by (simp add: fragmented_def der_header_def der_tags der_length_def)

text \<open>(C8) \<open>CBS_asn1_ber_to_der\<close> is sound: whatever the input and the allocator, what it returns is DER, in which a
  second search finds nothing to convert.  Unconverted output is the first element of the input; converted output is
  the DER form of the values whose BER encodings make up the whole input.\<close>

theorem ber_to_der_sound:
  assumes "length s < 2 ^ 30" "CBS_asn1_ber_to_der m s = (Some (out, converted), rest)"
  shows "cbs_find_ber out 0 = Some False \<and>
    (if converted
     then rest = [] \<and> (\<exists>xs ys. bers s xs False \<and> der_forms xs = Some ys \<and> out = concat (map der_encode ys))
     else s = out @ rest \<and> (\<exists>x. ber out x True))"
proof (cases "cbs_find_ber s 0")
  case None
  then show ?thesis using assms(2) by (simp add: CBS_asn1_ber_to_der_def)
next
  case (Some b)
  show ?thesis
  proof (cases b)
    case False
    then obtain xs where xs: "bers s xs True" "list_all (nested_within kMaxDepth) xs" using find_False [of s 0] Some by auto
    obtain e where e: "CBS_get_any_asn1_element s = (Some e, rest)" "out = el_out e" "\<not> converted"
      using assms(2) Some False by (auto simp: CBS_asn1_ber_to_der_def split: prod.splits option.splits)
    have "s \<noteq> []" using e(1) by (auto simp: any_asn1_element_iff der_header_def)
    then obtain y zs a bs t body where y: "xs = y # zs" "s = a @ bs" "ber a y True"
      "CBS_get_any_asn1_element s = (Some (der_element t body), bs)" "el_out (der_element t body) = a"
      using strict_first [OF xs(1)] by metis
    then have "out = a" "rest = bs" using e by simp_all
    moreover have "cbs_find_ber a 0 = Some False"
      using find_grammar(1) [OF y(3), of 0 "[]"] xs(2) y(1) find_end [of 0] by simp
    ultimately show ?thesis using y(2,3) e(3) by auto
  next
    case True
    then obtain c c' where c: "CBB_init m (length s) = Some c" "cbs_convert_ber m s 0 c 0 False 0 = (True, rest, c')"
      "fst (CBB_finish m 0 False c') = Some out" "converted"
      using assms(2) Some by (auto simp: CBS_asn1_ber_to_der_def split: prod.splits option.splits bool.splits)
    obtain xs strict where xs: "bers s xs strict" "list_all (nested_within kMaxDepth) xs" "renders 0 xs \<noteq> None" "rest = []"
      using convert_reads [OF c(2)] by (auto simp: reads_def eoc_bytes_def)
    then obtain ys where ys: "der_forms xs = Some ys" by (auto simp: renders_0)
    have out: "out = concat (map der_encode ys)"
      using convert_whole(1) [OF xs(1,2) ys assms(1) c(1) refl c(2)] c(3) by simp
    have "\<not> strict" using find_grammar(2) [OF xs(1), of 0 "[]"] xs(2) find_end [of 0] Some True by auto
    then have xs': "bers s xs False" using xs(1) by simp
    have "length out \<le> 3 * length s" using render_length(2) [OF xs(1), of 0 out] ys out by (simp add: renders_0)
    then have "bers out ys True" using der_form_encodes(2) [OF xs(1) ys] out assms(1) by simp
    then have "cbs_find_ber out 0 = Some False"
      using find_grammar(2) [of out ys True 0 "[]"] der_form_nested(2) [OF ys xs(2)] find_end [of 0] by simp
    with xs' xs(4) ys out c(4) show ?thesis by auto
  qed
qed

theorem ber_to_der_sound_witness:
  "cbs_find_ber [4, 2, 0x61, 0x62] 0 = Some False"
proof -
  have "CBS_asn1_ber_to_der (\<lambda>n. True, \<lambda>i. 0) fragmented = (Some ([4, 2, 0x61, 0x62], True), [])"
    using ber_to_der_run [OF fragmented_bers fragmented_nested fragmented_der, where m = "(\<lambda>n. True, \<lambda>i. 0)"]
    by (simp add: fragmented_def der_header_def der_tags der_length_def)
  from ber_to_der_sound [OF _ this] show ?thesis by (simp add: fragmented_def)
qed

section \<open>Implicitly tagged strings\<close>

definition chunk_bytes :: "u32 \<Rightarrow> byte list list \<Rightarrow> byte list" where
  "chunk_bytes t chunks = concat (map (\<lambda>c. der_header t (length c) @ c) chunks)"

definition chunks_ok :: "u32 \<Rightarrow> byte list list \<Rightarrow> bool" where
  "chunks_ok t chunks \<longleftrightarrow> (\<forall>c \<in> set chunks. tag_valid t \<and> length c < 2 ^ 32)"

fun add_chunks :: "byte list list \<Rightarrow> memory \<Rightarrow> nat \<Rightarrow> cbb \<Rightarrow> bool \<times> cbb" where
  "add_chunks [] = (\<lambda>m d c. (True, c))"
| "add_chunks (x # xs) = and_then (\<lambda>m d c. CBB_add_bytes m d c x) (add_chunks xs)"

lemma add_chunks_fresh: "fresh_writer (add_chunks chunks) (concat chunks)"
  using fresh_seq [OF fresh [OF bytes.writer_axioms]] nothing.fresh_writer_axioms by (induction chunks) auto

lemma loop_add_chunks:
  "chunks_ok t chunks \<Longrightarrow> implicit_string_loop m c (chunk_bytes t chunks) t = add_chunks chunks m 0 c"
proof (induction chunks arbitrary: c)
  case Nil
  show ?case by (subst implicit_string_loop.simps) (simp add: chunk_bytes_def)
next
  case (Cons x xs)
  have "CBS_get_asn1 t (chunk_bytes t (x # xs)) = (Some x, chunk_bytes t xs)" "chunk_bytes t (x # xs) \<noteq> []"
    using Cons.prems by (simp_all add: get_asn1_iff chunk_bytes_def chunks_ok_def der_header_def)
  then show ?case
    using Cons by (subst implicit_string_loop.simps) (auto simp: and_then_def chunks_ok_def split: prod.splits bool.splits)
qed

lemma loop_reads:
  "implicit_string_loop m c s t = (True, c') \<Longrightarrow> \<exists>chunks. s = chunk_bytes t chunks \<and> chunks_ok t chunks"
proof (induction m c s t rule: implicit_string_loop.induct)
  case (1 m c s t)
  show ?case
  proof (cases "s = []")
    case True
    then show ?thesis by (intro exI [of _ "[]"]) (simp add: chunk_bytes_def chunks_ok_def)
  next
    case False
    from 1(2) False obtain x s' c1 where x: "CBS_get_asn1 t s = (Some x, s')" "CBB_add_bytes m 0 c x = (True, c1)"
      "implicit_string_loop m c1 s' t = (True, c')"
      by (subst (asm) implicit_string_loop.simps) (auto split: prod.splits option.splits bool.splits)
    obtain xs where "s' = chunk_bytes t xs" "chunks_ok t xs"
      using 1(1) [OF False x(1) [symmetric] refl x(2) [symmetric] refl x(3)] by blast
    with x(1) show ?thesis
      by (intro exI [of _ "x # xs"]) (auto simp: get_asn1_iff chunk_bytes_def chunks_ok_def)
  qed
qed

lemma peek_asn1_tag: "CBS_peek_asn1_tag s t \<longleftrightarrow> tag_valid t \<and> (\<exists>r. s = der_tag t @ r)"
proof -
  have "CBS_peek_asn1_tag s t \<longleftrightarrow> (\<exists>r. parse_asn1_tag s = (Some t, r))"
    by (cases "parse_asn1_tag s") (auto simp: CBS_peek_asn1_tag_def)
  then show ?thesis by (auto simp: parse_asn1_tag_iff)
qed

lemma der_tag_prefix: "tag_valid t \<Longrightarrow> tag_valid u \<Longrightarrow> der_tag t @ r = der_tag u @ r' \<Longrightarrow> t = u"
  using parse_asn1_tag_iff [of "der_tag t @ r" t r] parse_asn1_tag_iff [of "der_tag t @ r" u r'] by auto

lemma length_chunks: "length (concat chunks) \<le> length (chunk_bytes t chunks)"
  by (induction chunks) (simp_all add: chunk_bytes_def)

text \<open>The loop over the fragments and the end of the builder, with memory to spare.\<close>

lemma loop_finish_iff:
  assumes init: "CBB_init m n = Some cbb" and len: "length child < 2 ^ 30" "n < 2 ^ 30" and mem: "\<forall>n. alloc m n"
  shows "(\<exists>result. implicit_string_loop m cbb child t = (True, result) \<and> fst (CBB_finish m 0 False result) = Some out) \<longleftrightarrow>
    (\<exists>chunks. chunks_ok t chunks \<and> out = concat chunks \<and> child = chunk_bytes t chunks)" (is "?L \<longleftrightarrow> ?R")
proof -
  have small: "length (concat chunks) < size_max" "6 * length (concat chunks) < size_max" "n < size_max"
    if "child = chunk_bytes t chunks" for chunks
    using length_chunks [of chunks t] len that by (simp_all add: size_max_def)
  have fin: "fst (CBB_finish m 0 False result) = Some (concat chunks)"
    if "chunks_ok t chunks" "child = chunk_bytes t chunks" "implicit_string_loop m cbb child t = (True, result)"
    for chunks result
    using finish_fresh(1) [OF add_chunks_fresh small(1) [OF that(2)] small(3) [OF that(2)] init]
      loop_add_chunks [OF that(1)] that by simp
  show ?thesis
  proof
    assume ?L
    then show ?R using loop_reads fin by fastforce
  next
    assume ?R
    then obtain chunks where ch: "chunks_ok t chunks" "out = concat chunks" "child = chunk_bytes t chunks" by blast
    have "fst (add_chunks chunks m 0 cbb)"
      using finish_fresh(2) [OF add_chunks_fresh small(1,3) [OF ch(3)] init mem small(2) [OF ch(3)]] .
    then obtain result where "implicit_string_loop m cbb child t = (True, result)"
      using loop_add_chunks [OF ch(1), of m cbb] ch(3) by (cases "add_chunks chunks m 0 cbb") auto
    with fin ch show ?L by blast
  qed
qed

text \<open>The constructed form of a primitive tag is another tag.\<close>

lemma constructed_form:
  assumes "\<not> constructed t" "tag_valid t"
  shows "tag_valid (t OR CBS_ASN1_CONSTRUCTED)" "t OR CBS_ASN1_CONSTRUCTED \<noteq> t"
proof -
  have "(t OR CBS_ASN1_CONSTRUCTED) AND CBS_ASN1_CONSTRUCTED = CBS_ASN1_CONSTRUCTED" by (auto simp: bit_eq_iff bit_simps)
  then have c: "constructed (t OR CBS_ASN1_CONSTRUCTED)" by (simp add: CBS_ASN1_CONSTRUCTED_def CBS_ASN1_TAG_SHIFT_def)
  have "(t OR CBS_ASN1_CONSTRUCTED) AND NOT CBS_ASN1_CONSTRUCTED = t AND NOT CBS_ASN1_CONSTRUCTED"
    by (auto simp: bit_eq_iff bit_simps)
  then show "tag_valid (t OR CBS_ASN1_CONSTRUCTED)" using assms(2) by (simp add: tag_valid_def)
  show "t OR CBS_ASN1_CONSTRUCTED \<noteq> t" using c assms(1) by metis
qed

text \<open>(C18) \<open>CBS_get_asn1_implicit_string\<close> returns the contents of a string with the outer tag, or joins the strings with
  the inner tag that make up a constructed element with the outer tag; with memory to spare it succeeds on exactly
  these two forms.\<close>

theorem implicit_string_iff:
  assumes "\<not> constructed outer" "tag_valid outer" "length s < 2 ^ 30" "\<forall>n. alloc m n"
  shows "CBS_get_asn1_implicit_string m outer inner s = (Some (out, concatenated), rest) \<longleftrightarrow>
    (if concatenated
     then \<exists>chunks. chunks_ok inner chunks \<and> out = concat chunks \<and>
       s = der_header (outer OR CBS_ASN1_CONSTRUCTED) (length (chunk_bytes inner chunks)) @ chunk_bytes inner chunks @ rest
     else s = der_header outer (length out) @ out @ rest \<and> length out < 2 ^ 32)"
proof -
  let ?c = "outer OR CBS_ASN1_CONSTRUCTED"
  note c = constructed_form [OF assms(1,2)]
  show ?thesis
  proof (cases "CBS_peek_asn1_tag s outer")
    case True
    then obtain r where r: "s = der_tag outer @ r" by (auto simp: peek_asn1_tag)
    then have "\<not> (\<exists>b rest. s = der_header ?c (length b) @ b @ rest)"
      using der_tag_prefix [OF assms(2) c(1)] c(2) by (auto simp: der_header_def)
    moreover have "CBS_get_asn1_implicit_string m outer inner s = (Some (out, concatenated), rest) \<longleftrightarrow>
      \<not> concatenated \<and> CBS_get_asn1 outer s = (Some out, rest)"
      using True unfolding CBS_get_asn1_implicit_string_def by (auto split: prod.splits option.splits)
    ultimately show ?thesis using assms(2) by (auto simp: get_asn1_iff)
  next
    case False
    then have no: "\<not> (\<exists>b rest. s = der_header outer (length b) @ b @ rest)"
      using assms(2) by (auto simp: peek_asn1_tag der_header_def)
    obtain cbb where cbb: "CBB_init m (length s) = Some cbb" using assms(4) by (simp add: CBB_init_def)
    have "CBS_get_asn1_implicit_string m outer inner s = (Some (out, concatenated), rest) \<longleftrightarrow>
      concatenated \<and> (\<exists>child result. CBS_get_asn1 ?c s = (Some child, rest) \<and>
        implicit_string_loop m cbb child inner = (True, result) \<and> fst (CBB_finish m 0 False result) = Some out)"
      using False cbb unfolding CBS_get_asn1_implicit_string_def
      by (auto split: prod.splits option.splits bool.splits)
    also have "\<dots> \<longleftrightarrow> concatenated \<and> (\<exists>chunks. chunks_ok inner chunks \<and> out = concat chunks \<and>
       CBS_get_asn1 ?c s = (Some (chunk_bytes inner chunks), rest))"
    proof -
      have "length child < 2 ^ 30" if "CBS_get_asn1 ?c s = (Some child, rest)" for child
        using that assms(3) by (auto simp: get_asn1_iff)
      from loop_finish_iff [OF cbb this assms(3,4), of _ inner out] show ?thesis by blast
    qed
    finally show ?thesis using no c(1) assms(3) by (auto simp: get_asn1_iff)
  qed
qed

theorem implicit_string_iff_witness:
  "CBS_get_asn1_implicit_string (\<lambda>n. True, \<lambda>i. 0) 0x80000000 4 [0xa0, 6, 4, 1, 0x61, 4, 1, 0x62, 9] = (Some ([0x61, 0x62], True), [9])"
proof -
  have t: "tag_valid 0x80000000" "\<not> constructed 0x80000000" "der_tag (0x80000000 OR CBS_ASN1_CONSTRUCTED) = [0xa0]"
    by (simp_all add: der_tag_def tag_number_def tag_class_def tag_valid_def CBS_ASN1_CONSTRUCTED_def CBS_ASN1_TAG_SHIFT_def)
  have "chunks_ok 4 [[0x61], [0x62]]" by (simp add: chunks_ok_def der_tags)
  then have "\<exists>chunks. chunks_ok 4 chunks \<and> [0x61, 0x62] = concat chunks \<and>
    [0xa0, 6, 4, 1, 0x61, 4, 1, 0x62, 9] = der_header (0x80000000 OR CBS_ASN1_CONSTRUCTED) (length (chunk_bytes 4 chunks)) @
      chunk_bytes 4 chunks @ [9]"
    by (intro exI [of _ "[[0x61], [0x62]]"]) (simp add: chunk_bytes_def der_header_def der_tags der_length_def t)
  with implicit_string_iff [OF t(2,1), of "[0xa0, 6, 4, 1, 0x61, 4, 1, 0x62, 9]" "(\<lambda>n. True, \<lambda>i. 0)" 4 "[0x61, 0x62]" True "[9]"]
  show ?thesis by simp
qed

lemma finish_i2d_bounds:
  assumes "CBB_finish_i2d m cbb h (Outp_to p) = (n, given, h', outp')" "cbb_ok cbb"
  shows "if n < 0 then h' = h \<and> outp' = Outp_to p
    else closed 0 cbb = Some (read_bytes h' p (nat n)) \<and> outp' = Outp_to (p + nat n) \<and>
      (\<forall>a. a < p \<or> p + nat n \<le> a \<longrightarrow> h' a = h a)"
  using assms finish_closed [OF assms(2), of m] unfolding CBB_finish_i2d_def
  by (auto split: prod.splits option.splits if_splits)

end
