(* ===== verification/Spec2Isabelle.thy ===== *)
theory Spec2Isabelle
  imports Pb_Roundtrip Stack Base64 Unicode Lhash Ber
begin

text \<open>
  A verification of C code that the iOS application \<^verbatim>\<open>FirebaseLogin\<close> links.

  The application itself is a set of SwiftUI views; the C code of the repository is in the libraries under
  \<^verbatim>\<open>src/FirebaseLogin/Pods\<close>.  Two of them handle every byte the application exchanges with its servers: \<^verbatim>\<open>nanopb\<close>
  encodes and decodes the protocol buffers of Firestore and of the Google data transport, and \<^verbatim>\<open>BoringSSL-GRPC\<close>
  carries the connections.  This development models nanopb and, of BoringSSL, the byte-string
  readers and writers, ASN.1, Unicode, base64, times and the two containers on which its certificate code is built.

  \<^bold>\<open>Conventions.\<close>  The target is a 64-bit iOS device: \<^verbatim>\<open>size_t\<close> has 64 bits, \<^verbatim>\<open>int\<close> has 32, memory is little-endian, and
  nanopb is built with \<^verbatim>\<open>PB_FIELD_32BIT\<close> and \<^verbatim>\<open>PB_ENABLE_MALLOC\<close>.  Fixed-width integers are words; a \<^verbatim>\<open>size_t\<close> is a
  natural number with the wrap-around at \<open>size_max\<close> written out where the code can reach it.  A function that returns
  zero on failure returns \<open>None\<close> or \<open>False\<close>, together with the state it leaves behind.  An allocator is an argument
  that answers which requests succeed, so that every theorem covers the paths on which memory runs out.  Function
  pointers (stream callbacks, comparison functions, hash functions, copy and free functions) are arguments as well.

  \<^bold>\<open>nanopb\<close> (\<^verbatim>\<open>pb_encode.c\<close>, \<^verbatim>\<open>pb_decode.c\<close>, \<^verbatim>\<open>pb_common.c\<close>, \<^verbatim>\<open>pb.h\<close>).
    \<^item> \<open>Pb_Stream\<close>: \<^verbatim>\<open>pb_ostream_t\<close> and \<^verbatim>\<open>pb_istream_t\<close> over memory buffers, sizing streams and user callbacks.  Nothing
      outside an output buffer is written and nothing after an input buffer is read.
    \<^item> \<open>Codec\<close>: the interface of an encoder and a decoder of one value, with the facts that follow for sequences of values.
    \<^item> \<open>Pb_Wire\<close>: varints, zigzag and fixed-width values, tags, skipping, raw values and substreams.  The codecs are
      interpretations of \<open>Codec\<close>; decoding is the inverse of encoding, and skipping consumes exactly one value.
    \<^item> \<open>Pb_Fields\<close>: field descriptors and the iterator over the fields of a message, which goes through the \<open>layout\<close> of the
      message; the search for a tag ends and finds the field.
    \<^item> \<open>Pb_Encode\<close>: every function of \<^verbatim>\<open>pb_encode.c\<close> that encodes messages, on a message in byte-addressed memory.  The
      descriptors of submessages, the callbacks and the extension encoders are looked up in a \<open>pb_env\<close>; a callback is a
      function of the stream, the field and the address of its argument, and does not change the message.
    \<^item> \<open>Pb_Records\<close>: the specification \<open>message_records\<close>, which maps a message to field numbers with wire values.  The locale
      \<open>emitter\<close> states what a function that writes given bytes does on every stream, full or not; all parts of the encoder
      satisfy it, so \<open>pb_encode\<close> writes exactly the bytes of the records and the computed size is the size written.
    \<^item> \<open>Pb_Decode\<close>: every function of \<^verbatim>\<open>pb_decode.c\<close> that stores into a message: defaults, the decoders of values, static,
      pointer and callback fields, extensions, the main loop with its checks of required fields and fixed counts, and
      \<^verbatim>\<open>pb_release\<close>.  The heap is byte-addressed memory with a table of the blocks that \<^verbatim>\<open>realloc\<close> has handed out; a \<open>dec_env\<close>
      has the descriptors, the callbacks, the placement of blocks and the address of the local variable that the
      iterator may point to.  Freeing what is not a block is \<open>None\<close>.
    \<^item> \<open>Pb_Safe\<close>, \<open>Pb_Static\<close>: a decoder is \<open>safe\<close> when it returns, reads only its input and stores only into a given set of
      addresses.  The decoders of values, of fields and of whole messages are, for every type without pointers and
      every input; defaults of arrays of fixed count are the one place where the set is larger than the message.
    \<^item> \<open>Pb_Values\<close>, \<open>Pb_Roundtrip\<close>: the encoder and the decoder together.  Each decoder of values stores what its encoder has
      written; for types of required and optional fields in the message itself, at any depth of submessages,
      \<open>pb_decode\<close> turns what \<open>pb_encode\<close> has written into a message with the same records.  The message decoded into
      is assumed to have members that do not overlap (\<open>apart\<close>) and the strings encoded to be terminated (\<open>texts_end\<close>).

  \<^bold>\<open>BoringSSL containers\<close> (\<^verbatim>\<open>crypto/stack/stack.c\<close>, \<^verbatim>\<open>crypto/lhash/lhash.c\<close>).
    \<^item> \<open>Heap_Sort\<close>, \<open>Stack\<close>: every operation of \<^verbatim>\<open>OPENSSL_STACK\<close> on its array with spare capacity.  The operations refine
      those on lists over every reachable stack, sorting sorts, and searching finds the first match.
    \<^item> \<open>Lhash\<close>: the hash table with its chains and its resizing.  It refines a lookup table, with the laws of the locale
      \<open>lookup_table\<close>, whether or not the allocation for a resize succeeds.

  \<^bold>\<open>BoringSSL byte strings\<close> (\<^verbatim>\<open>crypto/bytestring\<close>, \<^verbatim>\<open>crypto/mem.c\<close>, \<^verbatim>\<open>crypto/internal.h\<close>).
    \<^item> \<open>Cbs\<close>: every parser of \<^verbatim>\<open>cbs.c\<close>, on the remaining input.  \<open>Der\<close>: the canonical encodings of tags, lengths, elements,
      INTEGERs and object identifiers; the parsers accept exactly these.  \<open>Cbs_Text\<close>: decimal numbers and the two time
      formats, in the same way.
    \<^item> \<open>Cbb\<close>: the builder, its buffer and the chain of open children; \<open>c\<close> is the whole builder and \<open>d\<close> the depth of the \<^verbatim>\<open>CBB\<close>
      a call is made on.  The locales \<open>writer\<close> and \<open>opener\<close> state what an operation that appends bytes or opens a child
      promises; every writer of the two theories is an interpretation.
    \<^item> \<open>Cbb_Asn1\<close>: the ASN.1 writers, object identifiers as text in both directions, and the sorting of SET OF.  What they
      write, the parsers of \<open>Cbs\<close> read back.
    \<^item> \<open>Ber\<close>: the conversion of BER to DER, which reads with \<open>Cbs\<close> and writes with \<open>Cbb\<close>.  An inductive grammar of the BER
      accepted and the DER form of its values give the specification; the conversion succeeds on exactly this grammar,
      writes the DER form, and its first pass recognises exactly the input that is DER already.
    \<^item> \<open>Unicode\<close>: code points in UTF-8, Latin-1, UCS-2 and UTF-32, read and written.

  \<^bold>\<open>Other parts of BoringSSL.\<close>
    \<^item> \<open>Const_Time\<close> (\<^verbatim>\<open>crypto/internal.h\<close>): the branch-free comparisons and selections, equal to the ordinary ones.
    \<^item> \<open>Base64\<close> (\<^verbatim>\<open>crypto/base64/base64.c\<close>): block and streaming encoder and decoder on top of \<open>Const_Time\<close>.
    \<^item> \<open>Posix_Time\<close> (\<^verbatim>\<open>crypto/asn1/posix_time.c\<close>): the conversions between POSIX times and calendar dates.

  \<^bold>\<open>Termination.\<close>  Loops are total functions, with a measure on the remaining input, the size of the array part in question
  or the number of open children where the recursion is not structural.  Three parts of nanopb may run forever on
  memory that no program builds.  The search of the field iterator is a partial function that is shown to return from
  every position the iterator reaches.  The encoder takes the number of levels it may descend, because messages nest
  and pointers may form a circle; the nesting depth of the message type is enough, and more levels never change the result.
  The decoder takes one number that bounds the levels and the passes through each loop; for types without pointers any
  number above the nesting depth and the length of the input is enough.  A callback could keep the decoder busy
  forever, and a chain of extensions could be circular, so no number is enough for all types.

  \<^bold>\<open>Not modelled.\<close>  Of BoringSSL, cryptographic primitives, X.509 and TLS, which are many times the size of the parts chosen.  The C++ libraries (gRPC, Abseil,
  leveldb, the Firestore core), the Objective-C SDKs and the Swift application.  Timing, threads and, in
  BoringSSL, the release of memory are outside the model.
\<close>

end
